(* ===== verification/Prelude.thy ===== *)
theory Prelude
  imports Main "HOL-Library.Word" "HOL-Library.Monad_Syntax" "HOL-Library.Signed_Division"
begin

unbundle bit_operations_syntax

text \<open>
  Shared vocabulary of the development: the machine integer types of the C++ code, the null
  index \<open>UINT32_MAX\<close> of its intrusive lists, the packing of a tagged free-list head, singly
  and doubly linked chains through index fields, the ordered map \<open>std::map\<close> as a sorted
  association list, and the generic lemmas on them.

  A computation whose result type is \<open>'a option\<close> with \<open>None\<close> for "no defined result" models
  code that may loop forever or read outside an array; theorems show when it is \<open>Some\<close>.
\<close>

text \<open>
  \<open>code_eval\<close> collects the rules that evaluate the model on a concrete input. The congruence rule
  makes the simplifier evaluate a computation before it looks at its continuation, so that the
  equation of a loop is unfolded on evaluated arguments only.
\<close>

named_theorems code_eval \<open>rules that evaluate the model on concrete inputs\<close>

lemma bind_eval_cong: "x = y \<Longrightarrow> Option.bind x f = Option.bind y f"
  by simp

section \<open>Machine integers\<close>

type_synonym u8 = "8 word"
type_synonym u16 = "16 word"
type_synonym u32 = "32 word"
type_synonym u64 = "64 word"

text \<open>A pointer: \<open>None\<close> is \<open>nullptr\<close>.\<close>

type_synonym 'v ptr = "'v option"

definition UINT32_MAX :: u32 where
  [code_eval]: "UINT32_MAX = 0xFFFFFFFF"

text \<open>
  Signed 64-bit values are integers, reduced to the two's complement range after each
  arithmetic operation; \<open>sint\<close> is the cast from \<open>uint64_t\<close>, \<open>word_of_int\<close> the cast to it.
\<close>

definition i64 :: "int \<Rightarrow> int" where
  [code_eval]: "i64 x = (x + 2 ^ 63) mod 2 ^ 64 - 2 ^ 63"

definition in_i64 :: "int \<Rightarrow> bool" where
  "in_i64 x \<longleftrightarrow> - (2 ^ 63) \<le> x \<and> x < 2 ^ 63"

lemma i64_id [simp]: "in_i64 x \<Longrightarrow> i64 x = x"
  by (simp add: i64_def in_i64_def)

lemma in_i64_i64 [simp, intro]: "in_i64 (i64 x)"
proof -
  have "0 \<le> (x + 2 ^ 63) mod 2 ^ 64" "(x + 2 ^ 63) mod 2 ^ 64 < (2 ^ 64 :: int)"
    by (rule pos_mod_sign, simp, rule pos_mod_bound, simp)
  then show ?thesis by (simp add: i64_def in_i64_def)
qed

lemma sint_small [simp]:
  assumes "unat (w :: u64) < 2 ^ 63"
  shows "sint w = int (unat w)"
proof -
  have u: "uint w < 2 ^ 63"
    using assms by (metis of_nat_less_iff of_nat_numeral of_nat_power uint_nat)
  have l: "- (2 ^ 63) \<le> uint w"
    by (rule order_trans [OF _ uint_ge_0]) simp
  have "sint w = signed_take_bit 63 (uint w)"
    by (simp add: sint_uint)
  also have "\<dots> = uint w"
    by (rule signed_take_bit_int_eq_self [OF l u])
  finally show ?thesis by (simp only: uint_nat)
qed

lemma word_less_Suc: "x \<noteq> - 1 \<Longrightarrow> x < x + (1 :: 'a::len word)"
proof -
  assume "x \<noteq> - 1"
  then have "1 + x \<noteq> 0" by (metis add.commute add_eq_0_iff2)
  then show ?thesis by (simp add: word_less_nat_alt unatSuc add.commute [of x])
qed

lemma unat_inj [simp]: "unat x = unat y \<longleftrightarrow> x = (y :: 'a::len word)"
  by (auto simp: word_unat_eq_iff)

lemma unat_zero_iff: "unat x = 0 \<longleftrightarrow> x = (0 :: 'a::len word)"
  by (auto simp: word_unat_eq_iff)

lemma unat_of_nat_u32 [simp]: "n < 2 ^ 32 \<Longrightarrow> unat (of_nat n :: u32) = n"
  by (simp add: unat_of_nat take_bit_nat_eq_self)

section \<open>Tagged heads of the lock-free free lists\<close>

text \<open>\<open>(tag << 32) | idx\<close>: the low half is the index, the high half the ABA tag.\<close>

definition head_idx_of :: "u64 \<Rightarrow> u32" where
  [code_eval]: "head_idx_of fh = ucast fh"

definition bump_head :: "u64 \<Rightarrow> u32 \<Rightarrow> u64" where
  [code_eval]: "bump_head fh i = push_bit 32 (drop_bit 32 fh + 1) OR ucast i"

lemma head_idx_of_bump [simp]: "head_idx_of (bump_head fh i) = i"
  unfolding head_idx_of_def bump_head_def
  by (rule bit_word_eqI) (auto simp: bit_simps)

declare Let_def [code_eval] upt_conv_Cons [code_eval]

section \<open>Arrays\<close>

text \<open>Reads and writes of an array element: no defined result outside the array.\<close>

definition lget :: "'a list \<Rightarrow> nat \<Rightarrow> 'a option" where
  [code_eval]: "lget xs i = (if i < length xs then Some (xs ! i) else None)"

definition lput :: "'a list \<Rightarrow> nat \<Rightarrow> 'a \<Rightarrow> 'a list option" where
  [code_eval]: "lput xs i v = (if i < length xs then Some (xs[i := v]) else None)"

lemma lget_in [simp]: "i < length xs \<Longrightarrow> lget xs i = Some (xs ! i)"
  by (simp add: lget_def)

lemma lput_in [simp]: "i < length xs \<Longrightarrow> lput xs i v = Some (xs[i := v])"
  by (simp add: lput_def)

section \<open>Searching a list\<close>

lemma find_SomeD: "find P xs = Some x \<Longrightarrow> x \<in> set xs \<and> P x"
  by (induction xs) (auto split: if_splits)

lemma find_None_set: "find P xs = None \<longleftrightarrow> (\<forall>x\<in>set xs. \<not> P x)"
  by (induction xs) auto

lemma find_cong_set: "(\<And>x. x \<in> set xs \<Longrightarrow> P x = Q x) \<Longrightarrow> find P xs = find Q xs"
  by (induction xs) auto

lemma find_split:
  assumes "find P xs = Some x"
  obtains as bs where "xs = as @ x # bs" "\<forall>y\<in>set as. \<not> P y" "P x"
  using assms
proof (induction xs arbitrary: thesis)
  case (Cons y ys)
  show ?case
  proof (cases "P y")
    case True
    then show ?thesis using Cons.prems(1) [of "[]" ys] Cons.prems(2) by simp
  next
    case False
    then obtain as bs where "ys = as @ x # bs" "\<forall>y\<in>set as. \<not> P y" "P x"
      using Cons.IH Cons.prems(2) by auto
    then show ?thesis using Cons.prems(1) [of "y # as" bs] False by simp
  qed
qed simp

lemma find_unique:
  "distinct (map f xs) \<Longrightarrow> i \<in> set xs \<Longrightarrow> find (\<lambda>j. f j = f i) xs = Some i"
  by (induction xs) (auto simp: image_iff)

lemma filter_neq_id [simp]: "x \<notin> set xs \<Longrightarrow> filter (\<lambda>i. i \<noteq> x) xs = xs"
  by (induction xs) auto

lemma sorted_wrt_all: "(\<And>x y. x \<in> set xs \<Longrightarrow> y \<in> set xs \<Longrightarrow> P x y) \<Longrightarrow> sorted_wrt P xs"
  by (induction xs) auto

lemma find_remove_other:
  "f x \<noteq> k \<Longrightarrow> find (\<lambda>i. f i = k) (as @ x # bs) = find (\<lambda>i. f i = k) (as @ bs)"
  by (induction as) auto

section \<open>Loops that may fail\<close>

text \<open>A loop over a list whose body may have no defined result.\<close>

fun foldo :: "('a \<Rightarrow> 's \<Rightarrow> 's option) \<Rightarrow> 'a list \<Rightarrow> 's \<Rightarrow> 's option" where
  "foldo f [] s = Some s"
| "foldo f (x # xs) s = do { s1 \<leftarrow> f x s; foldo f xs s1 }"

declare foldo.simps [code_eval]

lemma foldo_append: "foldo f (xs @ ys) s = do { s1 \<leftarrow> foldo f xs s; foldo f ys s1 }"
  by (induction xs arbitrary: s) (auto split: bind_split)

lemma foldo_keeps:
  assumes "foldo f xs s = Some s'" "P s"
    and "\<And>x s s'. x \<in> set xs \<Longrightarrow> f x s = Some s' \<Longrightarrow> P s \<Longrightarrow> P s'"
  shows "P s'"
  using assms
proof (induction xs arbitrary: s)
  case (Cons x xs)
  from Cons.prems(1) obtain s1 where s1: "f x s = Some s1" "foldo f xs s1 = Some s'"
    by (auto split: bind_split_asm)
  have "P s1" using Cons.prems(2,3) s1(1) by (meson list.set_intros(1))
  then show ?case using Cons.IH [OF s1(2)] Cons.prems(3) by (meson list.set_intros(2))
qed simp

lemma foldo_returns:
  assumes "P s" and "\<And>x s. x \<in> set xs \<Longrightarrow> P s \<Longrightarrow> \<exists>s'. f x s = Some s' \<and> P s'"
  shows "\<exists>s'. foldo f xs s = Some s' \<and> P s'"
  using assms
proof (induction xs arbitrary: s)
  case (Cons x xs)
  then obtain s1 where s1: "f x s = Some s1" "P s1" by (meson list.set_intros(1))
  then have "\<exists>s'. foldo f xs s1 = Some s' \<and> P s'"
    using Cons.IH [of s1] Cons.prems(2) by (meson list.set_intros(2))
  then show ?case using s1 by simp
qed simp

section \<open>Numbers as text\<close>

text \<open>The conversions \<open>%llu\<close>, \<open>%zu\<close> (\<open>show_nat\<close>) and \<open>%lld\<close>, \<open>%d\<close> (\<open>show_int\<close>) of \<open>fprintf\<close>.\<close>

fun show_nat :: "nat \<Rightarrow> string" where
  "show_nat n = (if n < 10 then [char_of (48 + n)] else show_nat (n div 10) @ [char_of (48 + n mod 10)])"

declare show_nat.simps [simp del]

definition show_int :: "int \<Rightarrow> string" where
  [code_eval]: "show_int i = (if i < 0 then CHR ''-'' # show_nat (nat (- i)) else show_nat (nat i))"

end
