(* ===== verification/Intrusive.thy ===== *)
theory Intrusive
  imports Prelude
begin

text \<open>
  The link fields every pooled node carries (\<open>prev_idx\<close>, \<open>next_idx\<close>, \<open>pool_next_free\<close>:
  \<open>src/exchange/order.h\<close>, \<open>src/core/types.h\<close>) as an extensible record, so that the free list
  and the doubly linked price levels are reasoned about once for both kinds of slot. A chain
  is related to the list of indices it visits; a level chain is a doubly linked list.
\<close>

section \<open>Link fields\<close>

record links =
  prev_idx :: u32
  next_idx :: u32
  pool_next_free :: u32

definition nxt :: "'a links_scheme list \<Rightarrow> u32 \<Rightarrow> u32" where
  "nxt s i = next_idx (s ! unat i)"

definition prv :: "'a links_scheme list \<Rightarrow> u32 \<Rightarrow> u32" where
  "prv s i = prev_idx (s ! unat i)"

definition nfree :: "'a links_scheme list \<Rightarrow> u32 \<Rightarrow> u32" where
  "nfree s i = pool_next_free (s ! unat i)"

section \<open>Singly linked chains\<close>

primrec chain :: "(u32 \<Rightarrow> u32) \<Rightarrow> u32 \<Rightarrow> u32 list \<Rightarrow> bool" where
  "chain nx i [] \<longleftrightarrow> i = UINT32_MAX"
| "chain nx i (x # xs) \<longleftrightarrow> i = x \<and> x \<noteq> UINT32_MAX \<and> chain nx (nx x) xs"

lemma chain_null [simp]: "chain nx UINT32_MAX xs \<longleftrightarrow> xs = []"
  by (cases xs) auto

lemma chain_upd [simp]: "u \<notin> set xs \<Longrightarrow> chain (nx(u := v)) i xs = chain nx i xs"
  by (induction xs arbitrary: i) auto

lemma chain_cong: "(\<And>x. x \<in> set xs \<Longrightarrow> nx x = nx' x) \<Longrightarrow> chain nx i xs = chain nx' i xs"
  by (induction xs arbitrary: i) auto

lemma chain_unique: "chain nx i xs \<Longrightarrow> chain nx i ys \<Longrightarrow> xs = ys"
proof (induction xs arbitrary: i ys)
  case Nil
  then show ?case by simp
next
  case (Cons x xs)
  from Cons.prems(1) have "i = x" "x \<noteq> UINT32_MAX" "chain nx (nx x) xs" by auto
  moreover from this Cons.prems(2) obtain zs where "ys = x # zs" "chain nx (nx x) zs"
    by (cases ys) auto
  ultimately show ?case using Cons.IH by blast
qed

lemma chain_not_null: "chain nx i xs \<Longrightarrow> UINT32_MAX \<notin> set xs"
  by (induction xs arbitrary: i) auto

lemma chain_split:
  "chain nx i (as @ x # bs) \<Longrightarrow> chain nx x (x # bs)"
  by (induction as arbitrary: i) auto

lemma chain_distinct: "chain nx i xs \<Longrightarrow> distinct xs"
proof (induction xs arbitrary: i)
  case (Cons x xs)
  have "x \<notin> set xs"
  proof
    assume "x \<in> set xs"
    then obtain as bs where xs: "xs = as @ x # bs" by (auto simp: in_set_conv_decomp)
    have "chain nx x (x # xs)" using Cons.prems by auto
    moreover have "chain nx x (x # bs)"
      using Cons.prems xs chain_split [of nx i "x # as" x bs] by auto
    ultimately have "x # xs = x # bs" by (rule chain_unique)
    then show False using xs by simp
  qed
  then show ?case using Cons by auto
qed simp

lemma chain_unlink:
  assumes "chain nx i (as @ x # bs)"
  shows "chain (if as = [] then nx else nx(last as := nx x)) (if as = [] then nx x else i) (as @ bs)"
  using assms
proof (induction as arbitrary: i)
  case (Cons a as)
  show ?case
  proof (cases as)
    case Nil
    then have "distinct (a # x # bs)" using chain_distinct [OF Cons.prems] by simp
    then have "chain (nx(a := nx x)) j bs = chain nx j bs" for j by simp
    with Nil Cons.prems \<open>distinct (a # x # bs)\<close> show ?thesis by (simp del: fun_upd_apply) simp
  next
    case (Cons b cs)
    have "a \<noteq> last as" using chain_distinct [OF Cons.prems] Cons last_in_set [of as] by auto
    then show ?thesis using Cons.IH [of "nx a"] Cons.prems Cons by auto
  qed
qed simp

section \<open>Doubly linked chains\<close>

text \<open>
  \<open>dll nx pv p xs q\<close>: the nodes \<open>xs\<close> are linked forwards by \<open>nx\<close> and backwards by \<open>pv\<close>, the
  first one points back to \<open>p\<close> and the last one forward to \<open>q\<close>.
\<close>

primrec dll :: "(u32 \<Rightarrow> u32) \<Rightarrow> (u32 \<Rightarrow> u32) \<Rightarrow> u32 \<Rightarrow> u32 list \<Rightarrow> u32 \<Rightarrow> bool" where
  "dll nx pv p [] q \<longleftrightarrow> True"
| "dll nx pv p (x # xs) q \<longleftrightarrow> pv x = p \<and> nx x = hd (xs @ [q]) \<and> dll nx pv x xs q"

lemma dll_append:
  "dll nx pv p (xs @ ys) q \<longleftrightarrow>
     dll nx pv p xs (hd (ys @ [q])) \<and> dll nx pv (last (p # xs)) ys q"
proof (induction xs arbitrary: p)
  case (Cons x xs)
  have "hd ((xs @ ys) @ [q]) = hd (xs @ [hd (ys @ [q])])"
    by (cases xs) auto
  then show ?case using Cons by auto
qed simp

lemma dll_cong:
  "(\<And>x. x \<in> set xs \<Longrightarrow> nx x = nx' x \<and> pv x = pv' x) \<Longrightarrow> dll nx pv p xs q = dll nx' pv' p xs q"
  by (induction xs arbitrary: p) auto

lemma dll_upd_nx [simp]: "u \<notin> set xs \<Longrightarrow> dll (nx(u := v)) pv p xs q = dll nx pv p xs q"
  by (rule dll_cong) auto

lemma dll_upd_pv [simp]: "u \<notin> set xs \<Longrightarrow> dll nx (pv(u := v)) p xs q = dll nx pv p xs q"
  by (rule dll_cong) auto

text \<open>Redirecting the forward link of the last node, and the backward link of the first.\<close>

lemma dll_set_last:
  assumes "dll nx pv p (xs @ [x]) q" "x \<notin> set xs"
  shows "dll (nx(x := q')) pv p (xs @ [x]) q'"
  using assms by (simp add: dll_append)

lemma dll_set_first:
  assumes "dll nx pv p (x # xs) q" "x \<notin> set xs"
  shows "dll nx (pv(x := p')) p' (x # xs) q"
  using assms by simp

lemma dll_chain:
  "dll nx pv p xs UINT32_MAX \<Longrightarrow> UINT32_MAX \<notin> set xs \<Longrightarrow> chain nx (hd (xs @ [UINT32_MAX])) xs"
  by (induction xs arbitrary: p) auto

text \<open>Appending a node at the tail, and pushing one at the head.\<close>

lemma dll_snoc:
  assumes "dll nx pv p xs q" "distinct xs" "i \<notin> set xs" "xs \<noteq> []"
  shows "dll (nx(last xs := i, i := q)) (pv(i := last xs)) p (xs @ [i]) q"
proof -
  obtain ys y where xs: "xs = ys @ [y]" using assms(4) by (cases xs rule: rev_cases) auto
  show ?thesis using assms unfolding xs by (auto simp: dll_append)
qed

lemma dll_push:
  assumes "dll nx pv p xs q" "distinct xs" "i \<notin> set xs" "xs \<noteq> []"
  shows "dll (nx(i := hd xs)) (pv(hd xs := i, i := p)) p (i # xs) q"
  using assms by (cases xs) auto

text \<open>Unlinking an inner node: its neighbours are linked to each other.\<close>

lemma dll_unlink:
  assumes d: "dll nx pv p (as @ x # bs) q" and dist: "distinct (as @ x # bs)"
    and nx': "\<And>y. y \<in> set as \<union> set bs \<Longrightarrow>
      nx' y = (if as \<noteq> [] \<and> y = last as then hd (bs @ [q]) else nx y)"
    and pv': "\<And>y. y \<in> set as \<union> set bs \<Longrightarrow>
      pv' y = (if bs \<noteq> [] \<and> y = hd bs then last (p # as) else pv y)"
  shows "dll nx' pv' p (as @ bs) q"
proof -
  have a: "dll nx pv p as x" and b: "dll nx pv x bs q"
    using d by (auto simp: dll_append)
  have "dll nx' pv' p as (hd (bs @ [q]))"
  proof (cases as rule: rev_cases)
    case (snoc ys y)
    have "dll (nx(y := hd (bs @ [q]))) pv p as (hd (bs @ [q]))"
      using a dist snoc by (auto intro: dll_set_last)
    moreover have "dll (nx(y := hd (bs @ [q]))) pv p as (hd (bs @ [q]))
        = dll nx' pv' p as (hd (bs @ [q]))"
      using nx' pv' dist snoc by (intro dll_cong) (cases bs; auto)
    ultimately show ?thesis by simp
  qed simp
  moreover have "dll nx' pv' (last (p # as)) bs q"
  proof (cases bs)
    case (Cons z zs)
    have "dll nx (pv(z := last (p # as))) (last (p # as)) bs q"
      using b dist unfolding Cons by (intro dll_set_first) auto
    moreover have "dll nx (pv(z := last (p # as))) (last (p # as)) bs q
        = dll nx' pv' (last (p # as)) bs q"
      using nx' pv' dist Cons by (intro dll_cong) (cases as rule: rev_cases; auto)
    ultimately show ?thesis by simp
  qed simp
  ultimately show ?thesis by (simp add: dll_append)
qed

end
