(* ===== verification/Order_Pool.thy ===== *)
theory Order_Pool
  imports Intrusive
begin

text \<open>
  The fixed capacity node pool (\<open>src/exchange/order_pool.h\<close>, and \<open>src/core/memory/order_pool.h\<close>
  with another slot type): one array of slots and a Treiber stack of free slots threaded
  through \<open>pool_next_free\<close>, its head tagged against ABA. The simulator drives a pool from one
  thread, so a compare-and-swap loop is modelled as the one iteration that succeeds.
  The pool is polymorphic in the payload of the slots.
\<close>

section \<open>State and operations\<close>

record 'a pool =
  storage :: "'a links_scheme list"
  free_head :: u64
  pool_size :: u64

definition pool_capacity :: "'a pool \<Rightarrow> nat" where
  [code_eval]: "pool_capacity p = length (storage p)"

text \<open>The address of slot \<open>idx\<close>, dereferenced: outside the array there is no defined result.\<close>

definition pool_at :: "'a pool \<Rightarrow> u32 \<Rightarrow> 'a links_scheme option" where
  [code_eval]: "pool_at p idx = (if unat idx < length (storage p) then Some (storage p ! unat idx) else None)"

text \<open>A write through the pointer of slot \<open>idx\<close>.\<close>

definition pool_put :: "u32 \<Rightarrow> ('a links_scheme \<Rightarrow> 'a links_scheme) \<Rightarrow> 'a pool \<Rightarrow> 'a pool option" where
  [code_eval]: "pool_put idx f p =
     (if unat idx < length (storage p)
      then Some (p\<lparr>storage := (storage p)[unat idx := f (storage p ! unat idx)]\<rparr>) else None)"

definition pool_allocate :: "'a pool \<Rightarrow> (u32 ptr \<times> 'a pool) option" where
  [code_eval]: "pool_allocate p =
     (let fh = free_head p; head = head_idx_of fh in
      if head = UINT32_MAX then Some (None, p)
      else do {
        slot \<leftarrow> pool_at p head;
        Some (Some head, p\<lparr>free_head := bump_head fh (pool_next_free slot),
                           pool_size := pool_size p + 1\<rparr>)
      })"

definition pool_deallocate :: "u32 \<Rightarrow> 'a pool \<Rightarrow> 'a pool option" where
  [code_eval]: "pool_deallocate idx p =
     (let fh = free_head p in
      do {
        p' \<leftarrow> pool_put idx (\<lambda>s. s\<lparr>pool_next_free := head_idx_of fh\<rparr>) p;
        Some (p'\<lparr>free_head := bump_head fh idx, pool_size := pool_size p - 1\<rparr>)
      })"

definition pool_deallocate_ptr :: "u32 ptr \<Rightarrow> 'a pool \<Rightarrow> 'a pool option" where
  [code_eval]: "pool_deallocate_ptr ptr p = (case ptr of None \<Rightarrow> Some p | Some idx \<Rightarrow> pool_deallocate idx p)"

text \<open>
  \<open>initFreeList\<close> and \<open>rebuildFreelist\<close>: slot \<open>i\<close> is linked to \<open>i + 1\<close>, the last one to the null
  index. On an empty array the bound \<open>capacity_ - 1\<close> wraps around; beyond \<open>2 ^ 32\<close> slots the
  32-bit loop counter never reaches it.
\<close>

definition link_all :: "'a links_scheme list \<Rightarrow> 'a links_scheme list" where
  [code_eval]: "link_all s = map2 (\<lambda>i o'. o'\<lparr>pool_next_free :=
      (if Suc i < length s then of_nat (Suc i) else UINT32_MAX)\<rparr>) [0..<length s] s"

definition pool_init_free_list :: "'a pool \<Rightarrow> 'a pool option" where
  [code_eval]: "pool_init_free_list p =
     (if length (storage p) = 0 \<or> 2 ^ 32 < length (storage p) then None
      else Some (p\<lparr>storage := link_all (storage p), free_head := 0, pool_size := 0\<rparr>))"

definition pool_rebuild_freelist :: "'a pool \<Rightarrow> 'a pool option" where
  [code_eval]: "pool_rebuild_freelist p =
     (if length (storage p) = 0 \<or> 2 ^ 32 < length (storage p) then None
      else Some (p\<lparr>storage := link_all (storage p), free_head := 0, pool_size := 0\<rparr>))"

definition pool_new :: "'a links_scheme \<Rightarrow> nat \<Rightarrow> 'a pool option" where
  [code_eval]: "pool_new dflt capacity =
     pool_init_free_list \<lparr>storage = replicate capacity dflt, free_head = 0, pool_size = 0\<rparr>"

definition pool_external :: "'a links_scheme list \<Rightarrow> bool \<Rightarrow> 'a pool option" where
  [code_eval]: "pool_external ext init_free =
     (let p = \<lparr>storage = ext, free_head = 0, pool_size = 0\<rparr> in
      if init_free then pool_init_free_list p else Some p)"

section \<open>Invariant\<close>

text \<open>\<open>pool_ok p F\<close>: the free list of \<open>p\<close> visits exactly the slots \<open>F\<close>, in that order.\<close>

definition pool_ok :: "'a pool \<Rightarrow> u32 list \<Rightarrow> bool" where
  "pool_ok p F \<longleftrightarrow>
     chain (nfree (storage p)) (head_idx_of (free_head p)) F \<and>
     (\<forall>i\<in>set F. unat i < length (storage p)) \<and>
     pool_size p = of_nat (length (storage p)) - of_nat (length F) \<and>
     length (storage p) < 2 ^ 32"

lemma pool_ok_distinct: "pool_ok p F \<Longrightarrow> distinct F"
  by (auto simp: pool_ok_def dest: chain_distinct)

lemma pool_ok_bound: "pool_ok p F \<Longrightarrow> i \<in> set F \<Longrightarrow> unat i < length (storage p)"
  by (auto simp: pool_ok_def)

text \<open>Every index of a slot is smaller than the null index.\<close>

lemma slot_not_null: "unat i < n \<Longrightarrow> n < 2 ^ 32 \<Longrightarrow> i \<noteq> UINT32_MAX"
  by (auto simp: UINT32_MAX_def)

lemma nfree_put:
  "unat i < length s \<Longrightarrow>
   nfree (s[unat i := f (s ! unat i)]) = (nfree s)(i := pool_next_free (f (s ! unat i)))"
  by (auto simp: nfree_def fun_eq_iff nth_list_update)

lemma nxt_put:
  "unat i < length s \<Longrightarrow>
   nxt (s[unat i := f (s ! unat i)]) = (nxt s)(i := next_idx (f (s ! unat i)))"
  by (auto simp: nxt_def fun_eq_iff nth_list_update)

lemma prv_put:
  "unat i < length s \<Longrightarrow>
   prv (s[unat i := f (s ! unat i)]) = (prv s)(i := prev_idx (f (s ! unat i)))"
  by (auto simp: prv_def fun_eq_iff nth_list_update)

section \<open>The allocator contract\<close>

text \<open>
  What the books rely on: a pool hands out its free slots in stack order, takes a slot back on
  top of the stack, and reports exhaustion without changing state.
\<close>

locale slot_pool =
  fixes inv :: "'p \<Rightarrow> u32 list \<Rightarrow> bool"
    and slots :: "'p \<Rightarrow> u32 set"
    and alloc :: "'p \<Rightarrow> (u32 ptr \<times> 'p) option"
    and free :: "u32 \<Rightarrow> 'p \<Rightarrow> 'p option"
  assumes alloc_empty: "inv p [] \<Longrightarrow> alloc p = Some (None, p)"
    and alloc_take: "inv p (i # F) \<Longrightarrow>
      \<exists>p'. alloc p = Some (Some i, p') \<and> inv p' F \<and> slots p' = slots p"
    and free_put: "inv p F \<Longrightarrow> i \<in> slots p \<Longrightarrow> i \<notin> set F \<Longrightarrow>
      \<exists>p'. free i p = Some p' \<and> inv p' (i # F) \<and> slots p' = slots p"
begin

text \<open>A slot given back is the next one handed out.\<close>

lemma free_alloc:
  assumes "inv p F" "i \<in> slots p" "i \<notin> set F"
  shows "\<exists>p' p''. free i p = Some p' \<and> alloc p' = Some (Some i, p'') \<and> inv p'' F"
  using assms free_put alloc_take by blast

text \<open>Successive allocations take the free list from the front, until it is used up.\<close>

primrec alloc_many :: "nat \<Rightarrow> 'p \<Rightarrow> (u32 list \<times> 'p) option" where
  "alloc_many 0 p = Some ([], p)"
| "alloc_many (Suc n) p =
     (case alloc p of None \<Rightarrow> None
      | Some (None, p') \<Rightarrow> Some ([], p')
      | Some (Some i, p') \<Rightarrow> map_option (\<lambda>(is, p''). (i # is, p'')) (alloc_many n p'))"

lemma alloc_many_take:
  "inv p F \<Longrightarrow> \<exists>p'. alloc_many n p = Some (take n F, p') \<and> inv p' (drop n F)"
proof (induction n arbitrary: p F)
  case (Suc n)
  show ?case
  proof (cases F)
    case Nil
    with Suc.prems show ?thesis by (auto simp: alloc_empty)
  next
    case (Cons i G)
    with Suc.prems obtain p' where "alloc p = Some (Some i, p')" "inv p' G"
      using alloc_take by blast
    moreover from Suc.IH [OF this(2)] obtain p'' where
      "alloc_many n p' = Some (take n G, p'')" "inv p'' (drop n G)" by blast
    ultimately show ?thesis using Cons by auto
  qed
qed auto

end

section \<open>The pool meets the contract\<close>

lemma pool_allocate_empty: "pool_ok p [] \<Longrightarrow> pool_allocate p = Some (None, p)"
  by (simp add: pool_ok_def pool_allocate_def)

lemma pool_allocate_take:
  assumes "pool_ok p (i # F)"
  shows "pool_allocate p = Some (Some i, p\<lparr>free_head := bump_head (free_head p) (nfree (storage p) i),
           pool_size := pool_size p + 1\<rparr>)"
    and "pool_ok (p\<lparr>free_head := bump_head (free_head p) (nfree (storage p) i),
           pool_size := pool_size p + 1\<rparr>) F"
  using assms by (auto simp: pool_ok_def pool_allocate_def pool_at_def nfree_def Let_def)

lemma pool_deallocate_put:
  assumes "pool_ok p F" "unat i < length (storage p)" "i \<notin> set F"
  defines "p' \<equiv> p\<lparr>storage := (storage p)[unat i := (storage p ! unat i)
             \<lparr>pool_next_free := head_idx_of (free_head p)\<rparr>],
           free_head := bump_head (free_head p) i, pool_size := pool_size p - 1\<rparr>"
  shows "pool_deallocate i p = Some p'" and "pool_ok p' (i # F)"
proof -
  show "pool_deallocate i p = Some p'"
    using assms(2) by (simp add: p'_def pool_deallocate_def pool_put_def Let_def)
  have "i \<noteq> UINT32_MAX"
    using assms(1,2) by (intro slot_not_null) (auto simp: pool_ok_def)
  then show "pool_ok p' (i # F)"
    using assms(1-3) nfree_put [OF assms(2), of "\<lambda>o'. o'\<lparr>pool_next_free := head_idx_of (free_head p)\<rparr>"]
    by (auto simp: pool_ok_def p'_def)
qed

lemma chain_link_all:
  assumes "n + k = length s" "length s < 2 ^ 32" "k \<noteq> 0"
  shows "chain (nfree (link_all s)) (of_nat n) (map of_nat [n..<length s])"
  using assms
proof (induction k arbitrary: n)
  case (Suc k)
  have u: "unat (of_nat n :: u32) = n"
    using Suc.prems by (intro unat_of_nat_u32) simp
  have nn: "(of_nat n :: u32) \<noteq> UINT32_MAX"
    using Suc.prems u by (intro slot_not_null [where n = "length s"]) auto
  have lk: "nfree (link_all s) (of_nat n) = (if Suc n < length s then of_nat (Suc n) else UINT32_MAX)"
    using Suc.prems u by (simp add: nfree_def link_all_def)
  show ?case
  proof (cases k)
    case 0
    then have "[n..<length s] = [n]" using Suc.prems by (simp add: upt_conv_Cons)
    then show ?thesis using nn lk 0 Suc.prems by simp
  next
    case (Suc k')
    then have "chain (nfree (link_all s)) (of_nat (Suc n)) (map of_nat [Suc n..<length s])"
      using Suc.IH [of "Suc n"] Suc.prems by (simp del: of_nat_Suc)
    moreover have "[n..<length s] = n # [Suc n..<length s]"
      using Suc.prems by (simp add: upt_conv_Cons)
    ultimately show ?thesis using nn lk Suc Suc.prems by (simp del: of_nat_Suc)
  qed
qed simp

text \<open>A fresh pool has every slot free, in index order.\<close>

lemma pool_init_ok:
  assumes "0 < length (storage p)" "length (storage p) < 2 ^ 32"
  shows "\<exists>p'. pool_init_free_list p = Some p' \<and> pool_ok p' (map of_nat [0..<length (storage p)])
           \<and> length (storage p') = length (storage p)"
proof -
  let ?p = "p\<lparr>storage := link_all (storage p), free_head := 0, pool_size := 0\<rparr>"
  have len: "length (link_all (storage p)) = length (storage p)"
    by (simp add: link_all_def)
  have "head_idx_of 0 = of_nat 0" by (simp add: head_idx_of_def)
  then have "chain (nfree (link_all (storage p))) (head_idx_of 0) (map of_nat [0..<length (storage p)])"
    using chain_link_all [of 0 "length (storage p)" "storage p"] assms by simp
  then have "pool_ok ?p (map of_nat [0..<length (storage p)])"
    using assms len by (auto simp: pool_ok_def)
  then show ?thesis using assms len by (auto simp: pool_init_free_list_def)
qed

interpretation order_pool: slot_pool
  pool_ok "\<lambda>p. {i. unat i < length (storage p)}" pool_allocate pool_deallocate
proof unfold_locales
  fix p :: "'a pool"
  assume "pool_ok p []"
  then show "pool_allocate p = Some (None, p)" by (rule pool_allocate_empty)
next
  fix p :: "'a pool" and i F
  assume "pool_ok p (i # F)"
  then show "\<exists>p'. pool_allocate p = Some (Some i, p') \<and> pool_ok p' F \<and>
      {i. unat i < length (storage p')} = {i. unat i < length (storage p)}"
    using pool_allocate_take by fastforce
next
  fix p :: "'a pool" and i F
  assume "pool_ok p F" "i \<in> {i. unat i < length (storage p)}" "i \<notin> set F"
  then show "\<exists>p'. pool_deallocate i p = Some p' \<and> pool_ok p' (i # F) \<and>
      {i. unat i < length (storage p')} = {i. unat i < length (storage p)}"
    using pool_deallocate_put [of p F i] by auto
qed

end
