(* ===== verification/Order_Map.thy ===== *)
theory Order_Map
  imports Intrusive
begin

text \<open>
  The hash index \<open>OrderMap\<close> (\<open>src/exchange/order_map.h\<close>; \<open>src/core/memory/order_map.h\<close> is the
  same code over another pointee): separate chaining over a preallocated node array, a Treiber
  stack of free nodes, and the conversion of a bucket of eight nodes to the ordered map
  \<open>overflow\<close>. Single-threaded: a compare-and-swap is its successful iteration, and a
  \<open>goto retry\<close> restarts the walk on the same state. The pointee of \<open>Order*\<close> is a parameter.
\<close>

section \<open>State\<close>

record 'v map_node =
  nd_order_id :: u64
  nd_order :: "'v ptr"
  nd_next_idx :: u32
  nd_bucket :: u32

record 'v order_map =
  nodes :: "'v map_node list"
  buckets :: "u32 list"
  bucket_len :: "u16 list"
  bstate :: "u8 list"
  bucket_mask :: u32
  hash_shift :: u32
  om_capacity :: nat
  om_free_head :: u64
  om_size :: u64
  overflow :: "u64 \<rightharpoonup> 'v ptr"

definition TREEIFY_THRESHOLD :: nat where
  [code_eval]: "TREEIFY_THRESHOLD = 8"

definition golden :: u64 where
  [code_eval]: "golden = 0x9E3779B97F4A7C15"

section \<open>Operations\<close>

text \<open>\<open>roundPow2\<close>: \<open>p <<= 1\<close> on a \<open>size_t\<close> drops the top bit, and then never reaches \<open>n\<close>.\<close>

partial_function (option) pow2_loop :: "nat \<Rightarrow> nat \<Rightarrow> nat option" where
  [code, code_eval]: "pow2_loop p n = (if p < n then pow2_loop ((2 * p) mod 2 ^ 64) n else Some p)"

definition roundPow2 :: "nat \<Rightarrow> u32 option" where
  [code_eval]: "roundPow2 n = map_option of_nat (pow2_loop 1 n)"

text \<open>\<open>__builtin_ctz\<close>, undefined on 0.\<close>

definition ctz32 :: "u32 \<Rightarrow> nat option" where
  [code_eval]: "ctz32 w = find (bit w) [0..<32]"

text \<open>A shift by the full width has no defined result (a map of capacity 1).\<close>

definition om_hash :: "'v order_map \<Rightarrow> u64 \<Rightarrow> u32 option" where
  [code_eval]: "om_hash m k =
     (if unat (hash_shift m) < 64 then Some (ucast (drop_bit (unat (hash_shift m)) (k * golden)))
      else None)"

definition node_at :: "'v order_map \<Rightarrow> u32 \<Rightarrow> 'v map_node option" where
  [code_eval]: "node_at m i = lget (nodes m) (unat i)"

definition node_put :: "u32 \<Rightarrow> ('v map_node \<Rightarrow> 'v map_node) \<Rightarrow> 'v order_map \<Rightarrow> 'v order_map option" where
  [code_eval]: "node_put i f m = do {
     nd \<leftarrow> node_at m i;
     ns \<leftarrow> lput (nodes m) (unat i) (f nd);
     Some (m\<lparr>nodes := ns\<rparr>)
   }"

definition om_alloc_node :: "'v order_map \<Rightarrow> (u32 \<times> 'v order_map) option" where
  [code_eval]: "om_alloc_node m =
     (let fh = om_free_head m; head = head_idx_of fh in
      if head = UINT32_MAX then Some (UINT32_MAX, m)
      else do {
        nd \<leftarrow> node_at m head;
        Some (head, m\<lparr>om_free_head := bump_head fh (nd_next_idx nd)\<rparr>)
      })"

definition om_free_node :: "u32 \<Rightarrow> 'v order_map \<Rightarrow> 'v order_map option" where
  [code_eval]: "om_free_node idx m =
     (let fh = om_free_head m in
      do {
        m' \<leftarrow> node_put idx (\<lambda>nd. nd\<lparr>nd_next_idx := head_idx_of fh\<rparr>) m;
        Some (m'\<lparr>om_free_head := bump_head fh idx\<rparr>)
      })"

definition om_overflow_put :: "u64 \<Rightarrow> 'v ptr \<Rightarrow> 'v order_map \<Rightarrow> 'v order_map" where
  [code_eval]: "om_overflow_put k v m = m\<lparr>overflow := (overflow m)(k \<mapsto> v), om_size := om_size m + 1\<rparr>"

partial_function (option) om_copy_chain ::
  "'v map_node list \<Rightarrow> u32 \<Rightarrow> (u64 \<rightharpoonup> 'v ptr) \<Rightarrow> (u64 \<rightharpoonup> 'v ptr) option" where
  [code, code_eval]: "om_copy_chain ns cur ov =
     (if cur = UINT32_MAX then Some ov
      else do {
        nd \<leftarrow> lget ns (unat cur);
        om_copy_chain ns (nd_next_idx nd) (ov(nd_order_id nd \<mapsto> nd_order nd))
      })"

definition om_treeify :: "u32 \<Rightarrow> 'v order_map \<Rightarrow> 'v order_map option" where
  [code_eval]: "om_treeify b m = do {
     st \<leftarrow> lget (bstate m) (unat b);
     if st \<noteq> 0 then Some m
     else do {
       cur \<leftarrow> lget (buckets m) (unat b);
       ov \<leftarrow> om_copy_chain (nodes m) cur (overflow m);
       Some (m\<lparr>overflow := ov, bstate := (bstate m)[unat b := 2]\<rparr>)
     }
   }"

definition om_insert :: "u64 \<Rightarrow> 'v ptr \<Rightarrow> 'v order_map \<Rightarrow> (bool \<times> 'v order_map) option" where
  [code_eval]: "om_insert k v m = do {
     b \<leftarrow> om_hash m k;
     st \<leftarrow> lget (bstate m) (unat b);
     if st \<noteq> 0 then Some (True, om_overflow_put k v m)
     else do {
       len \<leftarrow> lget (bucket_len m) (unat b);
       if TREEIFY_THRESHOLD \<le> unat len \<or> om_free_head m = ucast UINT32_MAX
       then do {
         m1 \<leftarrow> om_treeify b m;
         Some (True, om_overflow_put k v m1)
       }
       else do {
         (idx, m1) \<leftarrow> om_alloc_node m;
         if idx = UINT32_MAX then Some (False, m1)
         else do {
           m2 \<leftarrow> node_put idx (\<lambda>nd. nd\<lparr>nd_order_id := k, nd_order := v, nd_bucket := b\<rparr>) m1;
           st2 \<leftarrow> lget (bstate m2) (unat b);
           if st2 \<noteq> 0 then do {
             m3 \<leftarrow> om_free_node idx m2;
             Some (True, om_overflow_put k v m3)
           }
           else do {
             head \<leftarrow> lget (buckets m2) (unat b);
             m3 \<leftarrow> node_put idx (\<lambda>nd. nd\<lparr>nd_next_idx := head\<rparr>) m2;
             bs \<leftarrow> lput (buckets m3) (unat b) idx;
             lens \<leftarrow> lput (bucket_len m3) (unat b) (len + 1);
             let m4 = m3\<lparr>buckets := bs, bucket_len := lens, om_size := om_size m3 + 1\<rparr>;
             if TREEIFY_THRESHOLD \<le> unat (len + 1) then do {
               m5 \<leftarrow> om_treeify b m4;
               Some (True, m5)
             }
             else Some (True, m4)
           }
         }
       }
     }
   }"

text \<open>The lock-free walk of \<open>find\<close>: a node of another bucket sends it back to the bucket head.\<close>

partial_function (option) om_find_chain :: "'v order_map \<Rightarrow> u32 \<Rightarrow> u64 \<Rightarrow> u32 \<Rightarrow> 'v ptr option" where
  [code, code_eval]: "om_find_chain m b k idx =
     (if idx = UINT32_MAX then Some None
      else do {
        nd \<leftarrow> node_at m idx;
        if nd_bucket nd \<noteq> b
        then do { head \<leftarrow> lget (buckets m) (unat b); om_find_chain m b k head }
        else if nd_order_id nd = k then Some (nd_order nd)
        else om_find_chain m b k (nd_next_idx nd)
      })"

definition om_find :: "'v order_map \<Rightarrow> u64 \<Rightarrow> 'v ptr option" where
  [code_eval]: "om_find m k = do {
     b \<leftarrow> om_hash m k;
     st \<leftarrow> lget (bstate m) (unat b);
     if st \<noteq> 0
     then Some (case overflow m k of None \<Rightarrow> None | Some p \<Rightarrow> p)
     else do {
       head \<leftarrow> lget (buckets m) (unat b);
       om_find_chain m b k head
     }
   }"

definition om_contains :: "'v order_map \<Rightarrow> u64 \<Rightarrow> bool option" where
  [code_eval]: "om_contains m k = map_option (\<lambda>p. p \<noteq> None) (om_find m k)"

text \<open>Giving a node that was just unlinked from bucket \<open>b\<close> back to the free list.\<close>

definition om_release :: "u32 \<Rightarrow> u32 \<Rightarrow> 'v order_map \<Rightarrow> 'v order_map option" where
  [code_eval]: "om_release b idx m = do {
     m1 \<leftarrow> om_free_node idx m;
     len \<leftarrow> lget (bucket_len m1) (unat b);
     lens \<leftarrow> lput (bucket_len m1) (unat b) (len - 1);
     Some (m1\<lparr>bucket_len := lens, om_size := om_size m1 - 1\<rparr>)
   }"

text \<open>\<open>pos = None\<close> is the label \<open>retry\<close>; \<open>Some idx\<close> an iteration of the inner walk at \<open>idx\<close>.\<close>

partial_function (option) om_erase_chain ::
  "'v order_map \<Rightarrow> u32 \<Rightarrow> u64 \<Rightarrow> u32 option \<Rightarrow> 'v order_map option" where
  [code, code_eval]: "om_erase_chain m b k pos =
     (case pos of
        None \<Rightarrow> do {
          idx \<leftarrow> lget (buckets m) (unat b);
          if idx = UINT32_MAX then Some m
          else do {
            nd \<leftarrow> node_at m idx;
            if nd_order_id nd = k
            then do {
              bs \<leftarrow> lput (buckets m) (unat b) (nd_next_idx nd);
              om_release b idx (m\<lparr>buckets := bs\<rparr>)
            }
            else om_erase_chain m b k (Some idx)
          }
        }
      | Some idx \<Rightarrow>
          if idx = UINT32_MAX then Some m
          else do {
            nd \<leftarrow> node_at m idx;
            if nd_bucket nd \<noteq> b then om_erase_chain m b k None
            else if nd_next_idx nd = UINT32_MAX then Some m
            else do {
              nd2 \<leftarrow> node_at m (nd_next_idx nd);
              if nd_order_id nd2 = k
              then do {
                m1 \<leftarrow> node_put idx (\<lambda>d. d\<lparr>nd_next_idx := nd_next_idx nd2\<rparr>) m;
                om_release b (nd_next_idx nd) m1
              }
              else om_erase_chain m b k (Some (nd_next_idx nd))
            }
          })"

definition om_erase :: "u64 \<Rightarrow> 'v order_map \<Rightarrow> 'v order_map option" where
  [code_eval]: "om_erase k m = do {
     b \<leftarrow> om_hash m k;
     st \<leftarrow> lget (bstate m) (unat b);
     if st \<noteq> 0
     then Some (if overflow m k = None then m
                else m\<lparr>overflow := (overflow m)(k := None), om_size := om_size m - 1\<rparr>)
     else om_erase_chain m b k None
   }"

text \<open>The constructor: every node on the free list, every bucket an empty chain.\<close>

definition om_new :: "nat \<Rightarrow> 'v order_map option" where
  [code_eval]: "om_new capacity = do {
     n \<leftarrow> roundPow2 capacity;
     tz \<leftarrow> ctz32 n;
     if capacity = 0 \<or> 2 ^ 32 < capacity then None
     else Some \<lparr>
       nodes = map (\<lambda>i. \<lparr>nd_order_id = 0, nd_order = None,
                 nd_next_idx = (if Suc i < capacity then of_nat (Suc i) else UINT32_MAX),
                 nd_bucket = 0\<rparr>) [0..<capacity],
       buckets = replicate (unat n) UINT32_MAX,
       bucket_len = replicate (unat n) 0,
       bstate = replicate (unat n) 0,
       bucket_mask = n - 1,
       hash_shift = 64 - of_nat tz,
       om_capacity = capacity,
       om_free_head = 0,
       om_size = 0,
       overflow = Map.empty\<rparr>
   }"

section \<open>Invariant\<close>

definition nnx :: "'v order_map \<Rightarrow> u32 \<Rightarrow> u32" where
  "nnx m i = nd_next_idx (nodes m ! unat i)"

definition nkey :: "'v order_map \<Rightarrow> u32 \<Rightarrow> u64" where
  "nkey m i = nd_order_id (nodes m ! unat i)"

definition nval :: "'v order_map \<Rightarrow> u32 \<Rightarrow> 'v ptr" where
  "nval m i = nd_order (nodes m ! unat i)"

definition nbk :: "'v order_map \<Rightarrow> u32 \<Rightarrow> u32" where
  "nbk m i = nd_bucket (nodes m ! unat i)"

definition hash_of :: "'v order_map \<Rightarrow> u64 \<Rightarrow> u32" where
  "hash_of m k = ucast (drop_bit (unat (hash_shift m)) (k * golden))"

text \<open>The sizes the constructor fixes: \<open>2 ^ K\<close> buckets, selected by the top \<open>K\<close> bits.\<close>

definition om_shape :: "nat \<Rightarrow> 'v order_map \<Rightarrow> bool" where
  "om_shape K m \<longleftrightarrow> 1 \<le> K \<and> K < 32 \<and> unat (hash_shift m) = 64 - K \<and>
     length (buckets m) = 2 ^ K \<and> length (bucket_len m) = 2 ^ K \<and> length (bstate m) = 2 ^ K \<and>
     length (nodes m) < 2 ^ 32"

text \<open>Bucket \<open>b\<close> is the chain of the nodes \<open>xs\<close>, with distinct keys that all hash to \<open>b\<close>.\<close>

definition bucket_ok :: "'v order_map \<Rightarrow> u32 list \<Rightarrow> u32 \<Rightarrow> u32 list \<Rightarrow> bool" where
  "bucket_ok m F b xs \<longleftrightarrow>
     chain (nnx m) (buckets m ! unat b) xs \<and>
     bucket_len m ! unat b = of_nat (length xs) \<and> length xs \<le> 8 \<and>
     distinct (map (nkey m) xs) \<and>
     (\<forall>i\<in>set xs. unat i < length (nodes m) \<and> nbk m i = b \<and> hash_of m (nkey m i) = b \<and>
        nval m i \<noteq> None \<and> i \<notin> set F)"

text \<open>
  \<open>B\<close> gives the chain of every bucket that is not converted, \<open>F\<close> the free nodes. Nodes of a
  converted bucket belong to neither: the code never takes them back.
\<close>

definition om_pre :: "nat \<Rightarrow> (u32 \<Rightarrow> u32 list) \<Rightarrow> u32 list \<Rightarrow> 'v order_map \<Rightarrow> bool" where
  "om_pre K B F m \<longleftrightarrow> om_shape K m \<and>
     (\<forall>b :: u32. unat b < 2 ^ K \<longrightarrow> bstate m ! unat b = 0 \<or> bstate m ! unat b = 2) \<and>
     (\<forall>b. unat b < 2 ^ K \<longrightarrow> bstate m ! unat b = 0 \<longrightarrow> bucket_ok m F b (B b)) \<and>
     chain (nnx m) (head_idx_of (om_free_head m)) F \<and>
     (\<forall>i\<in>set F. unat i < length (nodes m)) \<and>
     (\<forall>k v. overflow m k = Some v \<longrightarrow> bstate m ! unat (hash_of m k) = 2)"

definition om_ok :: "nat \<Rightarrow> (u32 \<Rightarrow> u32 list) \<Rightarrow> u32 list \<Rightarrow> 'v order_map \<Rightarrow> bool" where
  "om_ok K B F m \<longleftrightarrow> om_pre K B F m \<and>
     (\<forall>b. unat b < 2 ^ K \<longrightarrow> bstate m ! unat b = 0 \<longrightarrow> length (B b) < 8)"

definition om_inv :: "'v order_map \<Rightarrow> bool" where
  "om_inv m \<longleftrightarrow> (\<exists>K B F. om_ok K B F m)"

text \<open>
  \<open>om_room m k\<close>: an insertion of \<open>k\<close> finds a place, because a node is free or the bucket of
  \<open>k\<close> is converted.
\<close>

definition om_room :: "'v order_map \<Rightarrow> u64 \<Rightarrow> bool" where
  "om_room m k \<longleftrightarrow>
     bstate m ! unat (hash_of m k) \<noteq> 0 \<or> head_idx_of (om_free_head m) \<noteq> UINT32_MAX"

lemma hash_of_bound: "om_shape K m \<Longrightarrow> unat (hash_of m k) < 2 ^ K"
proof -
  assume sh: "om_shape K m"
  let ?x = "k * golden"
  have "unat (drop_bit (64 - K) ?x) = unat ?x div 2 ^ (64 - K)"
    by (subst unat_drop_bit_eq) (simp only: drop_bit_eq_div)
  also have "\<dots> < 2 ^ K"
  proof (rule less_mult_imp_div_less)
    have "(2::nat) ^ K * 2 ^ (64 - K) = 2 ^ 64"
      using sh by (simp add: om_shape_def flip: power_add)
    then show "unat ?x < 2 ^ K * 2 ^ (64 - K)"
      using unsigned_less [of ?x] by simp
  qed
  finally have d: "unat (drop_bit (64 - K) ?x) < 2 ^ K" .
  have "unat (ucast (drop_bit (64 - K) ?x) :: u32) \<le> unat (drop_bit (64 - K) ?x)"
    by (simp add: unsigned_ucast_eq take_bit_nat_less_eq_self)
  with d sh show ?thesis by (simp add: hash_of_def om_shape_def)
qed

lemma om_hash_eq: "om_shape K m \<Longrightarrow> om_hash m k = Some (hash_of m k)"
  by (auto simp: om_shape_def om_hash_def hash_of_def)

section \<open>Look-up\<close>

text \<open>What the invariant says the index holds for \<open>k\<close>.\<close>

definition chain_lookup :: "'v order_map \<Rightarrow> u32 list \<Rightarrow> u64 \<Rightarrow> 'v ptr" where
  "chain_lookup m xs k = (case find (\<lambda>i. nkey m i = k) xs of None \<Rightarrow> None | Some i \<Rightarrow> nval m i)"

definition om_lookup :: "(u32 \<Rightarrow> u32 list) \<Rightarrow> 'v order_map \<Rightarrow> u64 \<Rightarrow> 'v ptr" where
  "om_lookup B m k =
     (if bstate m ! unat (hash_of m k) \<noteq> 0
      then case overflow m k of None \<Rightarrow> None | Some p \<Rightarrow> p
      else chain_lookup m (B (hash_of m k)) k)"

lemma om_find_chain_eq:
  assumes "chain (nnx m) i xs" "\<forall>j\<in>set xs. unat j < length (nodes m) \<and> nbk m j = b"
  shows "om_find_chain m b k i = Some (chain_lookup m xs k)"
  using assms
proof (induction xs arbitrary: i)
  case Nil
  then show ?case by (subst om_find_chain.simps) (simp add: chain_lookup_def)
next
  case (Cons x xs)
  then show ?case
    by (subst om_find_chain.simps)
      (auto simp: node_at_def chain_lookup_def nnx_def nkey_def nval_def nbk_def)
qed

lemma om_find_eq: "om_pre K B F m \<Longrightarrow> om_find m k = Some (om_lookup B m k)"
proof -
  assume p: "om_pre K B F m"
  then have sh: "om_shape K m" by (simp add: om_pre_def)
  note hb = hash_of_bound [OF sh, of k]
  show ?thesis
  proof (cases "bstate m ! unat (hash_of m k) = 0")
    case True
    with p hb have b: "bucket_ok m F (hash_of m k) (B (hash_of m k))"
      by (auto simp: om_pre_def)
    then have "om_find_chain m (hash_of m k) k (buckets m ! unat (hash_of m k))
        = Some (chain_lookup m (B (hash_of m k)) k)"
      by (intro om_find_chain_eq) (auto simp: bucket_ok_def)
    with True sh hb show ?thesis
      by (simp add: om_find_def om_hash_eq [OF sh] om_lookup_def om_shape_def)
  next
    case False
    with sh hb show ?thesis
      by (simp add: om_find_def om_hash_eq [OF sh] om_lookup_def om_shape_def)
  qed
qed

lemma chain_lookup_cong:
  assumes "\<And>i. i \<in> set xs \<Longrightarrow> nkey m i = nkey m' i \<and> nval m i = nval m' i"
  shows "chain_lookup m xs k = chain_lookup m' xs k"
proof -
  have "find (\<lambda>i. nkey m i = k) xs = find (\<lambda>i. nkey m' i = k) xs"
    using assms by (intro find_cong_set) auto
  then show ?thesis
    using assms by (auto simp: chain_lookup_def split: option.splits dest: find_SomeD)
qed

lemma chain_lookup_absent: "k \<notin> nkey m ` set xs \<Longrightarrow> chain_lookup m xs k = None"
proof -
  assume "k \<notin> nkey m ` set xs"
  then have "find (\<lambda>i. nkey m i = k) xs = None" by (auto simp: find_None_set)
  then show ?thesis by (simp add: chain_lookup_def)
qed

section \<open>Conversion of a bucket\<close>

lemma om_copy_chain_eq:
  assumes "chain (nnx m) i xs" "\<forall>j\<in>set xs. unat j < length (nodes m)" "distinct (map (nkey m) xs)"
  shows "om_copy_chain (nodes m) i ov =
     Some (\<lambda>k. if k \<in> nkey m ` set xs then Some (chain_lookup m xs k) else ov k)"
  using assms
proof (induction xs arbitrary: i ov)
  case Nil
  then show ?case by (subst om_copy_chain.simps) simp
next
  case (Cons x xs)
  then have "om_copy_chain (nodes m) i ov
      = om_copy_chain (nodes m) (nnx m x) (ov(nkey m x \<mapsto> nval m x))"
    by (subst om_copy_chain.simps) (auto simp: nnx_def nkey_def nval_def)
  then show ?case
    using Cons by (auto simp: fun_eq_iff chain_lookup_def)
qed

lemma om_treeify_ok:
  assumes pre: "om_pre K B F m" and b: "unat b < 2 ^ K" and st: "bstate m ! unat b = 0"
  shows "\<exists>m'. om_treeify b m = Some m' \<and> om_pre K B F m' \<and>
    bstate m' = (bstate m)[unat b := 2] \<and> (\<forall>k. om_lookup B m' k = om_lookup B m k)"
proof -
  have sh: "om_shape K m" using pre by (simp add: om_pre_def)
  have bk: "bucket_ok m F b (B b)" using pre b st by (auto simp: om_pre_def)
  define ov where "ov = (\<lambda>k. if k \<in> nkey m ` set (B b) then Some (chain_lookup m (B b) k)
      else overflow m k)"
  define m' where "m' = m\<lparr>overflow := ov, bstate := (bstate m)[unat b := 2]\<rparr>"
  have "om_copy_chain (nodes m) (buckets m ! unat b) (overflow m) = Some ov"
    unfolding ov_def using bk by (intro om_copy_chain_eq) (auto simp: bucket_ok_def)
  then have t: "om_treeify b m = Some m'"
    using st b sh by (simp add: om_treeify_def om_shape_def m'_def)
  have v: "nnx m' = nnx m" "nkey m' = nkey m" "nval m' = nval m" "nbk m' = nbk m"
    "hash_of m' = hash_of m"
    by (auto simp: m'_def nnx_def nkey_def nval_def nbk_def hash_of_def)
  have fl: "overflow m' = ov" "bstate m' = (bstate m)[unat b := 2]" "buckets m' = buckets m"
    "bucket_len m' = bucket_len m" "nodes m' = nodes m" "om_free_head m' = om_free_head m"
    "hash_shift m' = hash_shift m"
    by (simp_all add: m'_def)
  have bok: "bucket_ok m' F c xs = bucket_ok m F c xs" for c xs
    by (simp add: bucket_ok_def v fl)
  have ovh: "ov k = Some w \<Longrightarrow> hash_of m k = b \<or> overflow m k = Some w" for k w
    using bk by (auto simp: ov_def bucket_ok_def split: if_splits)
  have sth: "bstate m ! unat (hash_of m k) = 2 \<Longrightarrow> (bstate m)[unat b := 2] ! unat (hash_of m k) = 2" for k
    using b sh by (simp add: nth_list_update om_shape_def)
  have "om_pre K B F m'"
    using pre unfolding om_pre_def bok v
    by (auto simp: fl om_shape_def nth_list_update b dest!: ovh sth split: if_splits)
  moreover have "om_lookup B m' k = om_lookup B m k" for k
  proof (cases "hash_of m k = b")
    case True
    have "overflow m k = None"
      using pre st True by (cases "overflow m k") (auto simp: om_pre_def)
    moreover note chain_lookup_absent [of k m "B b"]
    ultimately show ?thesis
      using True st b sh
      by (auto simp: om_lookup_def v fl ov_def om_shape_def nth_list_update)
  next
    case False
    then have "overflow m' k = overflow m k"
      using bk by (auto simp: fl ov_def bucket_ok_def)
    moreover have "chain_lookup m' xs k = chain_lookup m xs k" for xs
      by (rule chain_lookup_cong) (simp add: v)
    ultimately show ?thesis
      using False by (simp add: om_lookup_def v fl nth_list_update)
  qed
  ultimately show ?thesis using t by (auto simp: m'_def)
qed

section \<open>Insertion\<close>

text \<open>The state after node \<open>i\<close> was linked in front of bucket \<open>h\<close>.\<close>

definition om_linked :: "'v order_map \<Rightarrow> u32 \<Rightarrow> u32 \<Rightarrow> u64 \<Rightarrow> 'v ptr \<Rightarrow> 'v order_map" where
  "om_linked m h i k v = m\<lparr>
     om_free_head := bump_head (om_free_head m) (nnx m i),
     nodes := (nodes m)[unat i := \<lparr>nd_order_id = k, nd_order = v,
       nd_next_idx = buckets m ! unat h, nd_bucket = h\<rparr>],
     buckets := (buckets m)[unat h := i],
     bucket_len := (bucket_len m)[unat h := bucket_len m ! unat h + 1],
     om_size := om_size m + 1\<rparr>"

lemma om_linked_fields [simp]:
  "overflow (om_linked m h i k v) = overflow m"
  "bstate (om_linked m h i k v) = bstate m"
  "hash_shift (om_linked m h i k v) = hash_shift m"
  "hash_of (om_linked m h i k v) = hash_of m"
  "length (nodes (om_linked m h i k v)) = length (nodes m)"
  by (auto simp: om_linked_def hash_of_def)

lemma om_linked_views:
  assumes "unat i < length (nodes m)"
  shows "nnx (om_linked m h i k v) = (nnx m)(i := buckets m ! unat h)"
    "nkey (om_linked m h i k v) = (nkey m)(i := k)"
    "nval (om_linked m h i k v) = (nval m)(i := v)"
    "nbk (om_linked m h i k v) = (nbk m)(i := h)"
  using assms
  by (auto simp: om_linked_def nnx_def nkey_def nval_def nbk_def fun_eq_iff nth_list_update)

lemma bucket_len_bound: "bucket_ok m F b xs \<Longrightarrow> unat (bucket_len m ! unat b) = length xs"
  by (auto simp: bucket_ok_def unat_of_nat take_bit_nat_eq_self)

lemma om_insert_linked:
  assumes pre: "om_ok K B (i # F) m" and st: "bstate m ! unat (hash_of m k) = 0"
  defines "h \<equiv> hash_of m k"
  shows "om_insert k v m =
     (if 8 \<le> Suc (length (B h))
      then map_option (\<lambda>m'. (True, m')) (om_treeify h (om_linked m h i k v))
      else Some (True, om_linked m h i k v))"
proof -
  have p: "om_pre K B (i # F) m" using pre by (simp add: om_ok_def)
  then have sh: "om_shape K m" by (simp add: om_pre_def)
  have hb: "unat h < 2 ^ K" using hash_of_bound [OF sh] by (simp add: h_def)
  have bk: "bucket_ok m (i # F) h (B h)" using p hb st by (auto simp: om_pre_def h_def)
  have len: "unat (bucket_len m ! unat h) = length (B h)" by (rule bucket_len_bound [OF bk])
  have lt: "length (B h) < 8" using pre hb st by (auto simp: om_ok_def h_def)
  have i: "unat i < length (nodes m)" "head_idx_of (om_free_head m) = i" "i \<noteq> UINT32_MAX"
    using p by (auto simp: om_pre_def)
  have fh: "om_free_head m \<noteq> ucast UINT32_MAX"
  proof
    assume "om_free_head m = ucast UINT32_MAX"
    then have "head_idx_of (om_free_head m) = UINT32_MAX"
      by (simp add: head_idx_of_def UINT32_MAX_def)
    with i show False by simp
  qed
  have "unat (bucket_len m ! unat h + 1) = Suc (length (B h))"
    using len lt by (simp add: unat_word_ariths)
  moreover have "om_linked m h i k v =
    m\<lparr>om_free_head := bump_head (om_free_head m) (nd_next_idx (nodes m ! unat i)),
      nodes := (nodes m)[unat i := (nodes m ! unat i)\<lparr>nd_order_id := k, nd_order := v, nd_bucket := h,
        nd_next_idx := buckets m ! unat h\<rparr>],
      buckets := (buckets m)[unat h := i],
      bucket_len := (bucket_len m)[unat h := bucket_len m ! unat h + 1],
      om_size := om_size m + 1\<rparr>"
    by (cases "nodes m ! unat i") (simp add: om_linked_def nnx_def)
  ultimately show ?thesis
    using i sh hb st lt len fh unfolding om_shape_def
    by (auto simp: om_insert_def om_hash_eq [OF sh] h_def [symmetric] TREEIFY_THRESHOLD_def
        om_alloc_node_def node_at_def node_put_def Let_def map_option_case split: option.splits)
qed

lemma linked_bucket:
  fixes v :: "'v ptr"
  assumes sh: "om_shape K m" and hb: "unat h < 2 ^ K" and bk: "bucket_ok m (i # F) h xs" and lt: "length xs < 8"
    and i: "unat i < length (nodes m)" "i \<noteq> UINT32_MAX" "i \<notin> set F"
    and new: "k \<notin> nkey m ` set xs" and hk: "hash_of m k = h" and val: "v \<noteq> None"
  shows "bucket_ok (om_linked m h i k v) F h (i # xs)"
proof -
  let ?m' = "om_linked m h i k v"
  note w = om_linked_views [OF i(1), of h k v] and fl = om_linked_fields [of m h i k v]
  have ix: "i \<notin> set xs" using bk by (auto simp: bucket_ok_def)
  have "buckets ?m' ! unat h = i" "bucket_len ?m' ! unat h = of_nat (length (i # xs))"
    using sh hb bk by (simp_all add: om_linked_def om_shape_def bucket_ok_def)
  moreover have "map (nkey ?m') xs = map (nkey m) xs" using ix by (intro map_cong) (auto simp: w)
  then have "distinct (map (nkey ?m') (i # xs))" using bk new by (auto simp: w bucket_ok_def)
  ultimately show ?thesis using bk i lt ix val by (auto simp: bucket_ok_def w fl hk)
qed

lemma linked_other:
  fixes v :: "'v ptr"
  assumes b: "bucket_ok m (i # F) b xs" and i: "unat i < length (nodes m)" and "b \<noteq> h"
  shows "bucket_ok (om_linked m h i k v) F b xs"
proof -
  let ?m' = "om_linked m h i k v"
  note w = om_linked_views [OF i, of h k v] and fl = om_linked_fields [of m h i k v]
  have ix: "i \<notin> set xs" using b by (auto simp: bucket_ok_def)
  then have "map (nkey ?m') xs = map (nkey m) xs" by (intro map_cong) (auto simp: w)
  moreover have "buckets ?m' ! unat b = buckets m ! unat b" "bucket_len ?m' ! unat b = bucket_len m ! unat b"
    using assms(3) by (simp_all add: om_linked_def)
  ultimately show ?thesis using b ix by (auto simp: bucket_ok_def w fl)
qed

lemma linked_lookup:
  fixes v :: "'v ptr"
  assumes sh: "om_shape K m" and st: "bstate m ! unat (hash_of m k) = 0" and i: "unat i < length (nodes m)"
    and iB: "\<And>b. unat b < 2 ^ K \<Longrightarrow> bstate m ! unat b = 0 \<Longrightarrow> i \<notin> set (B b)"
  shows "om_lookup (B(hash_of m k := i # B (hash_of m k))) (om_linked m (hash_of m k) i k v) = (om_lookup B m)(k := v)"
proof
  fix q
  let ?h = "hash_of m k"
  let ?m' = "om_linked m ?h i k v"
  note w = om_linked_views [OF i, of ?h k v] and fl = om_linked_fields [of m ?h i k v]
  show "om_lookup (B(?h := i # B ?h)) ?m' q = ((om_lookup B m)(k := v)) q"
  proof (cases "bstate m ! unat (hash_of m q) = 0")
    case False
    with st show ?thesis by (auto simp: om_lookup_def fl)
  next
    case True
    have o: "chain_lookup ?m' (B (hash_of m q)) q = chain_lookup m (B (hash_of m q)) q"
      using iB [OF hash_of_bound [OF sh] True] by (intro chain_lookup_cong) (auto simp: w)
    show ?thesis
    proof (cases "hash_of m q = ?h")
      case h: True
      have "chain_lookup ?m' (i # B ?h) q = (if q = k then v else chain_lookup m (B ?h) q)"
        using o h by (auto simp: chain_lookup_def w)
      then show ?thesis using h st by (auto simp: om_lookup_def fl)
    next
      case False
      then show ?thesis using True o by (auto simp: om_lookup_def fl)
    qed
  qed
qed

lemma bucket_no_key:
  assumes "bucket_ok m F h xs" "chain_lookup m xs k = None"
  shows "k \<notin> nkey m ` set xs"
proof
  assume "k \<in> nkey m ` set xs"
  then obtain j where j: "j \<in> set xs" "nkey m j = k" by auto
  then have "find (\<lambda>i. nkey m i = k) xs = Some j"
    using assms(1) find_unique [of "nkey m" xs j] by (simp add: bucket_ok_def)
  with assms j show False by (auto simp: chain_lookup_def bucket_ok_def)
qed

lemma om_linked_pre:
  fixes v :: "'v ptr"
  assumes pre: "om_ok K B (i # F) m" and st: "bstate m ! unat (hash_of m k) = 0"
    and fresh: "om_lookup B m k = None" and val: "v \<noteq> None"
  defines "h \<equiv> hash_of m k"
  defines "m' \<equiv> om_linked m h i k v"
  shows "om_pre K (B(h := i # B h)) F m'"
    and "om_lookup (B(h := i # B h)) m' = (om_lookup B m)(k := v)"
proof -
  have p: "om_pre K B (i # F) m" using pre by (simp add: om_ok_def)
  then have sh: "om_shape K m" by (simp add: om_pre_def)
  have hb: "unat h < 2 ^ K" using hash_of_bound [OF sh] by (simp add: h_def)
  have bk: "bucket_ok m (i # F) h (B h)" using p hb st by (auto simp: om_pre_def h_def)
  have lt: "length (B h) < 8" using pre hb st by (auto simp: om_ok_def h_def)
  have i: "unat i < length (nodes m)" "head_idx_of (om_free_head m) = i" "i \<noteq> UINT32_MAX"
    using p by (auto simp: om_pre_def)
  have "distinct (i # F)"
    using p unfolding om_pre_def by (blast intro: chain_distinct)
  then have iF: "i \<notin> set F" by simp
  have iB: "i \<notin> set (B b)" if "unat b < 2 ^ K" "bstate m ! unat b = 0" for b
    using p that by (auto simp: om_pre_def bucket_ok_def)
  note w = om_linked_views [OF i(1), of h k v, folded m'_def] and fl = om_linked_fields [of m h i k v, folded m'_def]
  have "k \<notin> nkey m ` set (B h)"
    using bucket_no_key [OF bk] fresh st by (simp add: om_lookup_def h_def)
  then have "bucket_ok m' F h (i # B h)"
    using linked_bucket [OF sh hb bk lt i(1,3) iF _ _ val] by (simp add: m'_def h_def)
  moreover have "bucket_ok m' F b (B b)" if "unat b < 2 ^ K" "bstate m ! unat b = 0" "b \<noteq> h" for b
    using linked_other [OF _ i(1) that(3)] p that(1,2) by (simp add: m'_def om_pre_def)
  moreover have "chain (nnx m') (head_idx_of (om_free_head m')) F"
    using p iF by (simp add: om_pre_def w) (simp add: m'_def om_linked_def nnx_def)
  moreover have "om_shape K m'"
    using sh by (simp add: om_shape_def m'_def) (simp add: om_linked_def)
  ultimately show "om_pre K (B(h := i # B h)) F m'"
    using p by (auto simp: om_pre_def fl)
  show "om_lookup (B(h := i # B h)) m' = (om_lookup B m)(k := v)"
    unfolding m'_def h_def by (rule linked_lookup [OF sh st i(1) iB])
qed

lemma om_find_lookup: "om_ok K B F m \<Longrightarrow> om_find m k = Some (om_lookup B m k)"
  by (auto simp: om_ok_def intro: om_find_eq)

text \<open>In a converted bucket an insertion goes to the overflow map.\<close>

lemma om_overflow_ok:
  assumes ok: "om_ok K B F m" and st: "bstate m ! unat (hash_of m k) \<noteq> 0"
  shows "om_ok K B F (om_overflow_put k v m)" "om_find (om_overflow_put k v m) = (om_find m)(k \<mapsto> v)"
proof -
  have p: "om_pre K B F m" using ok by (simp add: om_ok_def)
  then have sh: "om_shape K m" by (simp add: om_pre_def)
  have hb: "unat (hash_of m k) < 2 ^ K" by (rule hash_of_bound [OF sh])
  let ?m = "om_overflow_put k v m"
  have v: "nnx ?m = nnx m" "nkey ?m = nkey m" "nval ?m = nval m" "nbk ?m = nbk m" "hash_of ?m = hash_of m"
    by (auto simp: om_overflow_put_def nnx_def nkey_def nval_def nbk_def hash_of_def)
  have f: "bstate ?m = bstate m" "overflow ?m = (overflow m)(k \<mapsto> v)"
    by (simp_all add: om_overflow_put_def)
  have "om_pre K B F ?m"
    using p st hb unfolding om_pre_def bucket_ok_def v f om_shape_def
    by (auto simp: om_overflow_put_def split: if_splits)
  then show ok': "om_ok K B F ?m" using ok by (simp add: om_ok_def f)
  show "om_find ?m = (om_find m)(k \<mapsto> v)"
  proof
    fix q
    have "chain_lookup ?m xs q = chain_lookup m xs q" for xs
      by (rule chain_lookup_cong) (simp add: v)
    then show "om_find ?m q = ((om_find m)(k \<mapsto> v)) q"
      using st by (simp add: om_find_lookup [OF ok'] om_find_lookup [OF ok] om_lookup_def v f)
  qed
qed

text \<open>An insertion takes at most one free node.\<close>

lemma om_insert_run:
  assumes ok: "om_ok K B F m" and fresh: "om_find m k = Some None" and room: "om_room m k"
    and val: "v \<noteq> None"
  shows "\<exists>m' B' F'. om_insert k v m = Some (True, m') \<and> om_ok K B' F' m' \<and> length F \<le> Suc (length F') \<and>
    om_find m' = (om_find m)(k \<mapsto> v)"
proof -
  have p: "om_pre K B F m" using ok by (simp add: om_ok_def)
  then have sh: "om_shape K m" by (simp add: om_pre_def)
  define h where "h = hash_of m k"
  have hb: "unat h < 2 ^ K" using hash_of_bound [OF sh] by (simp add: h_def)
  have find: "om_find m = (\<lambda>q. Some (om_lookup B m q))"
    using om_find_lookup [OF ok] by auto
  have fr: "om_lookup B m k = None" using fresh find by simp
  show ?thesis
  proof (cases "bstate m ! unat h = 0")
    case False
    have "om_insert k v m = Some (True, om_overflow_put k v m)"
      using False hb sh by (simp add: om_insert_def om_hash_eq [OF sh] h_def [symmetric] om_shape_def)
    then show ?thesis
      using om_overflow_ok [OF ok, of k v] False
      by (intro exI [of _ "om_overflow_put k v m"] exI [of _ B] exI [of _ F]) (simp add: h_def)
  next
    case True
    with room have "head_idx_of (om_free_head m) \<noteq> UINT32_MAX" by (simp add: om_room_def h_def)
    then obtain i G where F: "F = i # G" using p by (cases F) (auto simp: om_pre_def)
    let ?m = "om_linked m h i k v" and ?B = "B(h := i # B h)"
    note st = True [unfolded h_def] and ok = ok [unfolded F]
    have pre: "om_pre K ?B G ?m"
      using om_linked_pre(1) [OF ok st fr val] by (simp add: h_def)
    have lk: "om_lookup ?B ?m = (om_lookup B m)(k := v)"
      using om_linked_pre(2) [OF ok st fr val] by (simp add: h_def)
    note ins = om_insert_linked [OF ok st, of v, folded h_def]
    have short: "length (?B b) < 8" if "unat b < 2 ^ K" "bstate m ! unat b = 0" "b \<noteq> h" for b
      using ok that by (auto simp: om_ok_def)
    show ?thesis
    proof (cases "8 \<le> Suc (length (B h))")
      case False
      then have ok': "om_ok K ?B G ?m" using pre short by (auto simp: om_ok_def)
      then have "om_find ?m = (om_find m)(k \<mapsto> v)"
        by (auto simp: fun_eq_iff om_find_lookup [OF ok'] lk find)
      with False ins ok' show ?thesis by (intro exI [of _ ?m] exI [of _ ?B] exI [of _ G]) (simp add: F)
    next
      case big: True
      have "bstate ?m ! unat h = 0" using True by simp
      from om_treeify_ok [OF pre hb this] obtain m' where
        m': "om_treeify h ?m = Some m'" "om_pre K ?B G m'" "bstate m' = (bstate m)[unat h := 2]"
          "\<And>q. om_lookup ?B m' q = om_lookup ?B ?m q" by auto
      have ok': "om_ok K ?B G m'"
        using m' short hb sh by (auto simp: om_ok_def nth_list_update om_shape_def)
      then have "om_find m' = (om_find m)(k \<mapsto> v)"
        by (auto simp: fun_eq_iff om_find_lookup [OF ok'] m'(4) lk find)
      with big ins m'(1) ok' show ?thesis by (intro exI [of _ m'] exI [of _ ?B] exI [of _ G]) (simp add: F)
    qed
  qed
qed

lemma om_insert_ok:
  assumes "om_inv m" "om_find m k = Some None" "om_room m k" "v \<noteq> None"
  shows "\<exists>m'. om_insert k v m = Some (True, m') \<and> om_inv m' \<and> om_find m' = (om_find m)(k \<mapsto> v)"
  using assms om_insert_run unfolding om_inv_def by meson

text \<open>
  Without room the entry is dropped and the answer is \<open>False\<close>: the free list is empty, but its tagged
  head is not the null index itself, so the guard that would convert the bucket does not hold.
\<close>

lemma om_insert_any:
  assumes inv: "om_inv m" and fresh: "om_find m k = Some None" and val: "v \<noteq> None"
  shows "\<exists>r m'. om_insert k v m = Some (r, m') \<and> om_inv m' \<and>
    om_find m' = (if r then (om_find m)(k \<mapsto> v) else om_find m)"
proof (cases "om_room m k")
  case True
  then show ?thesis using om_insert_ok [OF inv fresh _ val] by fastforce
next
  case False
  obtain K B F where ok: "om_ok K B F m" using inv by (auto simp: om_inv_def)
  then have p: "om_pre K B F m" by (simp add: om_ok_def)
  then have sh: "om_shape K m" by (simp add: om_pre_def)
  define h where "h = hash_of m k"
  have hb: "unat h < 2 ^ K" using hash_of_bound [OF sh] by (simp add: h_def)
  have st: "bstate m ! unat h = 0" and hd: "head_idx_of (om_free_head m) = UINT32_MAX"
    using False by (auto simp: om_room_def h_def)
  have short: "unat (bucket_len m ! unat h) < 8"
    using bucket_len_bound [of m F h "B h"] ok p hb st by (auto simp: om_ok_def om_pre_def)
  show ?thesis
  proof (cases "om_free_head m = ucast UINT32_MAX")
    case True
    obtain m' where m': "om_treeify h m = Some m'" "om_pre K B F m'" "bstate m' = (bstate m)[unat h := 2]"
      "\<forall>q. om_lookup B m' q = om_lookup B m q"
      using om_treeify_ok [OF p hb st] by blast
    have ok': "om_ok K B F m'"
      using m'(2,3) ok hb sh by (auto simp: om_ok_def nth_list_update om_shape_def)
    have hm: "hash_of m' k = h" using m'(1) st hb sh unfolding h_def
      by (auto simp: om_treeify_def om_shape_def hash_of_def split: bind_split_asm)
    have "bstate m' ! unat (hash_of m' k) \<noteq> 0" using m'(3) hb sh by (simp add: hm om_shape_def)
    from om_overflow_ok [OF ok' this, of v]
    have "om_inv (om_overflow_put k v m')" "om_find (om_overflow_put k v m') = (om_find m)(k \<mapsto> v)"
      using m'(4) by (auto simp: om_inv_def om_find_lookup [OF ok'] om_find_lookup [OF ok] fun_eq_iff)
    moreover have "om_insert k v m = Some (True, om_overflow_put k v m')"
      using st hb sh m'(1) True short by (simp add: om_insert_def om_hash_eq [OF sh] h_def [symmetric] om_shape_def)
    ultimately show ?thesis by auto
  next
    case False
    have "om_insert k v m = Some (False, m)"
      using False st hb sh hd short
      by (simp add: om_insert_def om_hash_eq [OF sh] h_def [symmetric] om_shape_def om_alloc_node_def TREEIFY_THRESHOLD_def)
    then show ?thesis using inv by auto
  qed
qed

text \<open>\<open>om_spare n m\<close>: at least \<open>n\<close> nodes are free.\<close>

definition om_spare :: "nat \<Rightarrow> 'v order_map \<Rightarrow> bool" where
  "om_spare n m \<longleftrightarrow> (\<exists>K B F. om_ok K B F m \<and> n \<le> length F)"

lemma om_spare_inv: "om_spare n m \<Longrightarrow> om_inv m"
  by (auto simp: om_spare_def om_inv_def)

lemma om_spare_room:
  assumes "om_spare (Suc n) m"
  shows "om_room m k"
proof -
  obtain K B F where ok: "om_ok K B F m" "Suc n \<le> length F" using assms by (auto simp: om_spare_def)
  then obtain i G where F: "F = i # G" by (cases F) auto
  have "chain (nnx m) (head_idx_of (om_free_head m)) F" "\<forall>i\<in>set F. unat i < length (nodes m)" "length (nodes m) < 2 ^ 32"
    using ok(1) by (auto simp: om_ok_def om_pre_def om_shape_def)
  then show ?thesis using F by (auto simp: om_room_def)
qed

lemma om_insert_spare:
  assumes "om_spare (Suc n) m" "om_find m k = Some None" "v \<noteq> None"
  shows "\<exists>m'. om_insert k v m = Some (True, m') \<and> om_spare n m' \<and> om_find m' = (om_find m)(k \<mapsto> v)"
proof -
  obtain K B F where ok: "om_ok K B F m" "Suc n \<le> length F" using assms by (auto simp: om_spare_def)
  from om_insert_run [OF ok(1) assms(2) om_spare_room [OF assms(1)] assms(3)] obtain m' B' F' where
    "om_insert k v m = Some (True, m')" "om_ok K B' F' m'" "length F \<le> Suc (length F')" "om_find m' = (om_find m)(k \<mapsto> v)"
    by blast
  moreover from this(2,3) ok(2) have "om_spare n m'"
    unfolding om_spare_def by (intro exI [of _ K] exI [of _ B'] exI [of _ F']) simp
  ultimately show ?thesis by blast
qed

section \<open>Removal\<close>

text \<open>The state after node \<open>x\<close> of bucket \<open>h\<close> was unlinked from its predecessor and released.\<close>

definition om_unlinked :: "'v order_map \<Rightarrow> u32 \<Rightarrow> u32 option \<Rightarrow> u32 \<Rightarrow> 'v order_map" where
  "om_unlinked m h pred x =
     (let ns = (case pred of None \<Rightarrow> nodes m
                | Some p \<Rightarrow> (nodes m)[unat p := (nodes m ! unat p)\<lparr>nd_next_idx := nnx m x\<rparr>]) in
      m\<lparr>nodes := ns[unat x := (ns ! unat x)\<lparr>nd_next_idx := head_idx_of (om_free_head m)\<rparr>],
        buckets := (case pred of None \<Rightarrow> (buckets m)[unat h := nnx m x] | Some p \<Rightarrow> buckets m),
        om_free_head := bump_head (om_free_head m) x,
        bucket_len := (bucket_len m)[unat h := bucket_len m ! unat h - 1],
        om_size := om_size m - 1\<rparr>)"

lemma om_unlinked_fields [simp]:
  "overflow (om_unlinked m h pred x) = overflow m"
  "bstate (om_unlinked m h pred x) = bstate m"
  "hash_shift (om_unlinked m h pred x) = hash_shift m"
  "hash_of (om_unlinked m h pred x) = hash_of m"
  "length (nodes (om_unlinked m h pred x)) = length (nodes m)"
  by (auto simp: om_unlinked_def hash_of_def Let_def split: option.splits)

lemma om_unlinked_views:
  assumes "unat x < length (nodes m)" "\<And>p. pred = Some p \<Longrightarrow> unat p < length (nodes m) \<and> p \<noteq> x"
  shows "nkey (om_unlinked m h pred x) = nkey m" "nval (om_unlinked m h pred x) = nval m"
    "nbk (om_unlinked m h pred x) = nbk m"
    "nnx (om_unlinked m h pred x) =
      (case pred of None \<Rightarrow> nnx m | Some p \<Rightarrow> (nnx m)(p := nnx m x))
        (x := head_idx_of (om_free_head m))"
  using assms
  by (auto simp: om_unlinked_def nnx_def nkey_def nval_def nbk_def fun_eq_iff nth_list_update Let_def
      split: option.splits)

lemma om_erase_absent:
  assumes "chain (nnx m) i (a # xs)" "\<forall>j\<in>set (a # xs). unat j < length (nodes m) \<and> nbk m j = b"
    "\<forall>j\<in>set xs. nkey m j \<noteq> k"
  shows "om_erase_chain m b k (Some i) = Some m"
  using assms
proof (induction xs arbitrary: i a)
  case Nil
  then show ?case
    by (subst om_erase_chain.simps) (auto simp: node_at_def nnx_def nbk_def)
next
  case (Cons y ys)
  then have "om_erase_chain m b k (Some i) = om_erase_chain m b k (Some y)"
    by (subst om_erase_chain.simps) (auto simp: node_at_def nnx_def nbk_def nkey_def)
  also have "\<dots> = Some m" using Cons.prems by (intro Cons.IH) auto
  finally show ?case .
qed

lemma om_release_pred:
  assumes "unat x < length (nodes m)" "unat p < length (nodes m)" "p \<noteq> x"
    "unat b < length (bucket_len m)"
  shows "om_release b x (m\<lparr>nodes := (nodes m)[unat p := (nodes m ! unat p)\<lparr>nd_next_idx := nnx m x\<rparr>]\<rparr>)
      = Some (om_unlinked m b (Some p) x)"
  using assms
  by (simp add: om_release_def om_free_node_def node_put_def node_at_def om_unlinked_def Let_def)

lemma om_erase_present:
  assumes "chain (nnx m) i (a # as @ x # bs)" "distinct (a # as @ x # bs)"
    "\<forall>j\<in>set (a # as @ x # bs). unat j < length (nodes m) \<and> nbk m j = b"
    "\<forall>j\<in>set as. nkey m j \<noteq> nkey m x" "unat b < length (bucket_len m)"
  shows "om_erase_chain m b (nkey m x) (Some i) = Some (om_unlinked m b (Some (last (a # as))) x)"
  using assms
proof (induction as arbitrary: i a)
  case Nil
  then show ?case
    by (subst om_erase_chain.simps)
      (auto simp: node_at_def nnx_def nbk_def nkey_def node_put_def intro: om_release_pred [unfolded nnx_def])
next
  case (Cons y ys)
  then have "om_erase_chain m b (nkey m x) (Some i) = om_erase_chain m b (nkey m x) (Some y)"
    by (subst om_erase_chain.simps) (auto simp: node_at_def nnx_def nbk_def nkey_def)
  also have "\<dots> = Some (om_unlinked m b (Some (last (y # ys))) x)"
    using Cons.prems by (intro Cons.IH) auto
  finally show ?case by simp
qed

lemma om_erase_bucket:
  assumes ch: "chain (nnx m) (buckets m ! unat b) xs" and
    nd: "\<forall>j\<in>set xs. unat j < length (nodes m) \<and> nbk m j = b" and
    b: "unat b < length (buckets m)" "unat b < length (bucket_len m)"
  shows "\<forall>j\<in>set xs. nkey m j \<noteq> k \<Longrightarrow> om_erase_chain m b k None = Some m"
    and "xs = as @ x # bs \<Longrightarrow> nkey m x = k \<Longrightarrow> \<forall>j\<in>set as. nkey m j \<noteq> k \<Longrightarrow>
      om_erase_chain m b k None = Some (om_unlinked m b (if as = [] then None else Some (last as)) x)"
proof -
  assume no: "\<forall>j\<in>set xs. nkey m j \<noteq> k"
  show "om_erase_chain m b k None = Some m"
  proof (cases xs)
    case Nil
    then show ?thesis using ch b by (subst om_erase_chain.simps) simp
  next
    case (Cons y ys)
    then have "om_erase_chain m b k None = om_erase_chain m b k (Some y)"
      using ch nd b no by (subst om_erase_chain.simps) (auto simp: node_at_def nkey_def)
    also have "\<dots> = Some m"
      using ch nd no Cons by (intro om_erase_absent) auto
    finally show ?thesis .
  qed
next
  assume xs: "xs = as @ x # bs" and k: "nkey m x = k" and no: "\<forall>j\<in>set as. nkey m j \<noteq> k"
  show "om_erase_chain m b k None = Some (om_unlinked m b (if as = [] then None else Some (last as)) x)"
  proof (cases as)
    case Nil
    then have x: "buckets m ! unat b = x" "x \<noteq> UINT32_MAX" "unat x < length (nodes m)"
      using ch xs nd by auto
    then have "om_erase_chain m b k None = om_release b x (m\<lparr>buckets := (buckets m)[unat b := nnx m x]\<rparr>)"
      using b k by (subst om_erase_chain.simps) (auto simp: node_at_def nkey_def nnx_def)
    also have "\<dots> = Some (om_unlinked m b None x)"
      using x b
      by (simp add: om_release_def om_free_node_def node_put_def node_at_def om_unlinked_def Let_def)
    finally show ?thesis using Nil by simp
  next
    case (Cons y ys)
    then have "om_erase_chain m b k None = om_erase_chain m b k (Some y)"
      using ch nd b no xs by (subst om_erase_chain.simps) (auto simp: node_at_def nkey_def)
    also have "\<dots> = Some (om_unlinked m b (Some (last (y # ys))) x)"
      using ch nd no xs Cons b k chain_distinct [OF ch] unfolding k [symmetric]
      by (intro om_erase_present) auto
    finally show ?thesis using Cons by simp
  qed
qed

lemma om_unlinked_ok:
  fixes x :: u32
  assumes ok: "om_ok K B F m" and hb: "unat h < 2 ^ K" and st: "bstate m ! unat h = 0"
    and Bh: "B h = as @ x # bs"
  defines "m' \<equiv> om_unlinked m h (if as = [] then None else Some (last as)) x"
  shows "om_ok K (B(h := as @ bs)) (x # F) m'"
    and "om_lookup (B(h := as @ bs)) m' = (om_lookup B m)(nkey m x := None)"
proof -
  have p: "om_pre K B F m" using ok by (simp add: om_ok_def)
  then have sh: "om_shape K m" by (simp add: om_pre_def)
  have bk: "bucket_ok m F h (as @ x # bs)" using p hb st Bh by (auto simp: om_pre_def)
  then have ch: "chain (nnx m) (buckets m ! unat h) (as @ x # bs)" by (simp add: bucket_ok_def)
  have dist: "distinct (as @ x # bs)" by (rule chain_distinct [OF ch])
  have xin: "unat x < length (nodes m)" "x \<notin> set F" "x \<noteq> UINT32_MAX" "hash_of m (nkey m x) = h"
    using bk chain_not_null [OF ch] by (auto simp: bucket_ok_def)
  have "\<forall>j\<in>set as. unat j < length (nodes m) \<and> j \<noteq> x \<and> j \<notin> set F \<and> nbk m j = h"
    using bk dist by (simp add: bucket_ok_def) blast
  then have pin: "p = last as \<Longrightarrow> as \<noteq> [] \<Longrightarrow> unat p < length (nodes m) \<and> p \<noteq> x \<and> p \<notin> set F \<and> nbk m p = h" for p
    using last_in_set by blast
  have w: "nkey m' = nkey m" "nval m' = nval m" "nbk m' = nbk m"
    "nnx m' = (if as = [] then nnx m else (nnx m)(last as := nnx m x))
        (x := head_idx_of (om_free_head m))"
    using om_unlinked_views [of x m None h] om_unlinked_views [of x m "Some (last as)" h] xin(1) pin
    unfolding m'_def by (cases "as = []"; simp)+
  note fl = om_unlinked_fields [of m h "if as = [] then None else Some (last as)" x, folded m'_def]
  have fh: "head_idx_of (om_free_head m') = x" by (simp add: m'_def om_unlinked_def Let_def)
  have bu: "buckets m' ! unat h = (if as = [] then nnx m x else buckets m ! unat h)"
    "bucket_len m' ! unat h = bucket_len m ! unat h - 1"
    using sh hb by (simp_all add: m'_def om_unlinked_def Let_def om_shape_def)
  have bo: "buckets m' ! unat c = buckets m ! unat c" "bucket_len m' ! unat c = bucket_len m ! unat c"
    if "c \<noteq> h" for c :: u32
    using that by (simp_all add: m'_def om_unlinked_def Let_def)
  have "chain (nnx m') (buckets m' ! unat h) (as @ bs)"
    using chain_unlink [OF ch] dist by (auto simp: w bu)
  then have bkh: "bucket_ok m' (x # F) h (as @ bs)"
    using bk dist by (auto simp: bucket_ok_def w fl bu)
  have bkc: "bucket_ok m' (x # F) c (B c)" if "unat c < 2 ^ K" "bstate m ! unat c = 0" "c \<noteq> h" for c
  proof -
    have c: "bucket_ok m F c (B c)" using p that by (auto simp: om_pre_def)
    have out: "x \<notin> set (B c)" "as \<noteq> [] \<Longrightarrow> last as \<notin> set (B c)"
      using c bk that(3) pin by (auto simp: bucket_ok_def)
    then have "chain (nnx m') (buckets m ! unat c) (B c)"
      using c by (auto simp: bucket_ok_def w)
    then show ?thesis using c out bo [OF that(3)] by (auto simp: bucket_ok_def w fl)
  qed
  have chF: "chain (nnx m) (head_idx_of (om_free_head m)) F" using p by (simp add: om_pre_def)
  have "last as \<notin> set F" if "as \<noteq> []" using pin that by blast
  then have "chain (nnx m') (head_idx_of (om_free_head m')) (x # F)"
    using chF xin by (auto simp: w fh)
  moreover have "om_shape K m'"
    using sh by (simp add: om_shape_def fl) (auto simp: m'_def om_unlinked_def Let_def)
  ultimately have "om_pre K (B(h := as @ bs)) (x # F) m'"
    using p bkh bkc xin by (auto simp: om_pre_def fl)
  moreover have "length (as @ bs) < 8" using ok hb st Bh by (auto simp: om_ok_def)
  ultimately show "om_ok K (B(h := as @ bs)) (x # F) m'"
    using ok by (auto simp: om_ok_def fl)
  show "om_lookup (B(h := as @ bs)) m' = (om_lookup B m)(nkey m x := None)"
  proof
    fix q
    have cl: "chain_lookup m' xs r = chain_lookup m xs r" for xs r
      by (rule chain_lookup_cong) (simp add: w)
    have "q = nkey m x \<Longrightarrow> chain_lookup m (as @ bs) q = None"
      using bk by (intro chain_lookup_absent) (auto simp: bucket_ok_def)
    moreover have "q \<noteq> nkey m x \<Longrightarrow> chain_lookup m (as @ bs) q = chain_lookup m (as @ x # bs) q"
      by (simp add: chain_lookup_def find_remove_other)
    ultimately show "om_lookup (B(h := as @ bs)) m' q = ((om_lookup B m)(nkey m x := None)) q"
      using st xin Bh by (auto simp: om_lookup_def fl cl)
  qed
qed

lemma erase_overflow:
  assumes ok: "om_ok K B F m" and st: "bstate m ! unat (hash_of m k) \<noteq> 0"
  shows "\<exists>m'. om_erase k m = Some m' \<and> om_ok K B F m' \<and> om_find m' = (om_find m)(k \<mapsto> None) \<and> om_room m' = om_room m"
proof -
  have p: "om_pre K B F m" using ok by (simp add: om_ok_def)
  then have sh: "om_shape K m" by (simp add: om_pre_def)
  have hb: "unat (hash_of m k) < 2 ^ K" by (rule hash_of_bound [OF sh])
  define m' where "m' = (if overflow m k = None then m
    else m\<lparr>overflow := (overflow m)(k := None), om_size := om_size m - 1\<rparr>)"
  have "om_erase k m = Some m'"
    using st hb sh by (simp add: om_erase_def om_hash_eq [OF sh] om_shape_def m'_def)
  moreover have v: "nnx m' = nnx m" "nkey m' = nkey m" "nval m' = nval m" "nbk m' = nbk m"
    "hash_of m' = hash_of m" "bstate m' = bstate m" "overflow m' = (overflow m)(k := None)"
    "nodes m' = nodes m" "buckets m' = buckets m" "bucket_len m' = bucket_len m"
    "om_free_head m' = om_free_head m" "hash_shift m' = hash_shift m"
    by (auto simp: m'_def nnx_def nkey_def nval_def nbk_def hash_of_def)
  have "om_pre K B F m'"
    using p unfolding om_pre_def bucket_ok_def v om_shape_def by auto
  then have ok': "om_ok K B F m'" using ok by (simp add: om_ok_def v)
  moreover have "om_find m' = (om_find m)(k \<mapsto> None)"
  proof
    fix q
    have "chain_lookup m' xs q = chain_lookup m xs q" for xs
      by (rule chain_lookup_cong) (simp add: v)
    then show "om_find m' q = ((om_find m)(k \<mapsto> None)) q"
      using st by (simp add: om_find_lookup [OF ok'] om_find_lookup [OF ok] om_lookup_def v)
  qed
  moreover have "om_room m' = om_room m" by (intro ext) (simp add: om_room_def v)
  ultimately show ?thesis by blast
qed

lemma erase_chained:
  assumes ok: "om_ok K B F m" and st: "bstate m ! unat (hash_of m k) = 0"
  shows "\<exists>m' B' F'. om_erase k m = Some m' \<and> om_ok K B' F' m' \<and> length F \<le> length F' \<and>
    om_find m' = (om_find m)(k \<mapsto> None) \<and> (\<forall>q. om_room m q \<longrightarrow> om_room m' q)"
proof -
  have p: "om_pre K B F m" using ok by (simp add: om_ok_def)
  then have sh: "om_shape K m" by (simp add: om_pre_def)
  define h where "h = hash_of m k"
  have hb: "unat h < 2 ^ K" using hash_of_bound [OF sh] by (simp add: h_def)
  have st': "bstate m ! unat h = 0" using st by (simp add: h_def)
  have find: "om_find m = (\<lambda>q. Some (om_lookup B m q))"
    using om_find_lookup [OF ok] by auto
  have bk: "bucket_ok m F h (B h)" using p hb st' by (auto simp: om_pre_def)
  have e: "om_erase k m = om_erase_chain m h k None"
    using st' hb sh by (simp add: om_erase_def om_hash_eq [OF sh] h_def [symmetric] om_shape_def)
  have ar: "chain (nnx m) (buckets m ! unat h) (B h)"
    "\<forall>j\<in>set (B h). unat j < length (nodes m) \<and> nbk m j = h"
    "unat h < length (buckets m)" "unat h < length (bucket_len m)"
    using bk hb sh by (auto simp: bucket_ok_def om_shape_def)
  show ?thesis
  proof (cases "k \<in> nkey m ` set (B h)")
    case False
    then have "om_erase k m = Some m"
      unfolding e by (intro om_erase_bucket(1) [OF ar]) auto
    moreover have "om_find m k = Some None"
      using st' chain_lookup_absent [OF False] by (simp add: find om_lookup_def h_def [symmetric])
    then have "om_find m = (om_find m)(k \<mapsto> None)" by (auto simp: fun_eq_iff)
    ultimately show ?thesis using ok by (intro exI [of _ m] exI [of _ B] exI [of _ F]) simp
  next
    case True
    then obtain x where x: "x \<in> set (B h)" "nkey m x = k" by auto
    then obtain as bs where Bh: "B h = as @ x # bs" by (auto simp: in_set_conv_decomp)
    let ?m' = "om_unlinked m h (if as = [] then None else Some (last as)) x"
    have "distinct (map (nkey m) (as @ x # bs))"
      using bk Bh by (simp add: bucket_ok_def)
    then have "\<forall>j\<in>set as. nkey m j \<noteq> k"
      using x(2) by (auto simp: image_iff)
    then have "om_erase k m = Some ?m'"
      unfolding e using om_erase_bucket(2) [OF ar Bh x(2)] by blast
    moreover note ok' = om_unlinked_ok [OF ok hb st' Bh]
    moreover have "om_find ?m' = (om_find m)(k \<mapsto> None)"
      by (rule ext) (simp add: om_find_lookup [OF ok'(1)] ok'(2) find x(2))
    moreover have "x \<noteq> UINT32_MAX" using chain_not_null [OF ar(1)] x(1) by metis
    then have "om_room ?m' q" for q by (simp add: om_room_def om_unlinked_def Let_def)
    ultimately show ?thesis
      by (intro exI [of _ ?m'] exI [of _ "B(h := as @ bs)"] exI [of _ "x # F"]) simp
  qed
qed

lemma om_erase_run:
  assumes ok: "om_ok K B F m"
  shows "\<exists>m' B' F'. om_erase k m = Some m' \<and> om_ok K B' F' m' \<and> length F \<le> length F' \<and>
    om_find m' = (om_find m)(k \<mapsto> None) \<and> (\<forall>q. om_room m q \<longrightarrow> om_room m' q)"
proof (cases "bstate m ! unat (hash_of m k) = 0")
  case False
  then obtain m' where "om_erase k m = Some m'" "om_ok K B F m'" "om_find m' = (om_find m)(k \<mapsto> None)" "om_room m' = om_room m"
    using erase_overflow [OF ok] by blast
  then show ?thesis by (intro exI [of _ m'] exI [of _ B] exI [of _ F]) simp
qed (rule erase_chained [OF ok])

lemma om_erase_ok:
  assumes "om_inv m"
  shows "\<exists>m'. om_erase k m = Some m' \<and> om_inv m' \<and> om_find m' = (om_find m)(k \<mapsto> None) \<and>
    (\<forall>q. om_room m q \<longrightarrow> om_room m' q)"
  using assms om_erase_run unfolding om_inv_def by meson

lemma om_erase_spare: "om_spare n m \<Longrightarrow> om_erase k m = Some m' \<Longrightarrow> om_spare n m'"
  using om_erase_run [of _ _ _ m k] unfolding om_spare_def by (metis le_trans option.inject)

section \<open>The index contract\<close>

text \<open>
  What the order books rely on: a partial map from references to handles. \<open>indexes m L key\<close> says
  that the index holds exactly the live handles \<open>L\<close>, each under its key; the client lemmas keep
  it in step with orders entering and leaving a book.
\<close>

locale order_index =
  fixes inv :: "'m \<Rightarrow> bool"
    and room :: "'m \<Rightarrow> u64 \<Rightarrow> bool"
    and look :: "'m \<Rightarrow> u64 \<Rightarrow> 'v ptr option"
    and ins :: "u64 \<Rightarrow> 'v ptr \<Rightarrow> 'm \<Rightarrow> (bool \<times> 'm) option"
    and del :: "u64 \<Rightarrow> 'm \<Rightarrow> 'm option"
  assumes look_total: "inv m \<Longrightarrow> \<exists>p. look m k = Some p"
    and ins_fresh: "inv m \<Longrightarrow> look m k = Some None \<Longrightarrow> room m k \<Longrightarrow> v \<noteq> None \<Longrightarrow>
      \<exists>m'. ins k v m = Some (True, m') \<and> inv m' \<and> look m' = (look m)(k \<mapsto> v)"
    and del_any: "inv m \<Longrightarrow> \<exists>m'. del k m = Some m' \<and> inv m' \<and> look m' = (look m)(k \<mapsto> None) \<and>
      (\<forall>q. room m q \<longrightarrow> room m' q)"
begin

definition indexes :: "'m \<Rightarrow> 'v set \<Rightarrow> ('v \<Rightarrow> u64) \<Rightarrow> bool" where
  "indexes m L key \<longleftrightarrow> inv m \<and> (\<forall>k i. look m k = Some (Some i) \<longleftrightarrow> i \<in> L \<and> key i = k)"

lemma indexes_inj: "indexes m L key \<Longrightarrow> i \<in> L \<Longrightarrow> j \<in> L \<Longrightarrow> key i = key j \<Longrightarrow> i = j"
  unfolding indexes_def by (metis option.inject)

lemma indexes_look: "indexes m L key \<Longrightarrow> i \<in> L \<Longrightarrow> look m (key i) = Some (Some i)"
  by (simp add: indexes_def)

lemma indexes_absent: "indexes m L key \<Longrightarrow> k \<notin> key ` L \<Longrightarrow> look m k = Some None"
  unfolding indexes_def using look_total by (metis image_eqI option.exhaust)

lemma indexes_cong: "(\<And>i. i \<in> L \<Longrightarrow> key i = key' i) \<Longrightarrow> indexes m L key = indexes m L key'"
  by (auto simp: indexes_def)

lemma indexes_ins:
  assumes "indexes m L key" "k \<notin> key ` L" "i \<notin> L" "room m k"
  shows "\<exists>m'. ins k (Some i) m = Some (True, m') \<and> indexes m' (insert i L) (key(i := k))"
proof -
  have absent: "look m k = Some None" by (rule indexes_absent [OF assms(1,2)])
  obtain m' where m': "ins k (Some i) m = Some (True, m')" "inv m'" "look m' = (look m)(k \<mapsto> Some i)"
    using ins_fresh [OF _ absent assms(4), of "Some i"] assms(1) by (auto simp: indexes_def)
  then have "indexes m' (insert i L) (key(i := k))"
    using assms by (auto simp: indexes_def split: if_splits)
  with m' show ?thesis by blast
qed

lemma indexes_del:
  assumes "indexes m L key" "i \<in> L"
  shows "\<exists>m'. del (key i) m = Some m' \<and> indexes m' (L - {i}) key \<and> (\<forall>q. room m q \<longrightarrow> room m' q)"
proof -
  obtain m' where m': "del (key i) m = Some m'" "inv m'" "look m' = (look m)(key i \<mapsto> None)"
    "\<forall>q. room m q \<longrightarrow> room m' q"
    using del_any [of m "key i"] assms(1) by (auto simp: indexes_def)
  have "j = i" if "j \<in> L" "key j = key i" for j using indexes_inj [OF assms(1) that(1) assms(2) that(2)] .
  then have "indexes m' (L - {i}) key"
    using assms m' by (auto simp: indexes_def split: if_splits)
  with m' show ?thesis by blast
qed

end

interpretation order_map: order_index om_inv om_room om_find om_insert om_erase
proof unfold_locales
  fix m :: "'v order_map" and k
  assume "om_inv m"
  then show "\<exists>p. om_find m k = Some p" by (auto simp: om_inv_def dest: om_find_lookup)
qed (rule om_insert_ok om_erase_ok; assumption)+

text \<open>The index with a count of the insertions it certainly has room for.\<close>

locale counted_index = order_index +
  fixes spare :: "nat \<Rightarrow> 'a \<Rightarrow> bool"
  assumes spare_room: "spare (Suc n) m \<Longrightarrow> room m k"
    and ins_spare: "spare (Suc n) m \<Longrightarrow> look m k = Some None \<Longrightarrow> v \<noteq> None \<Longrightarrow> ins k v m = Some (r, m') \<Longrightarrow> spare n m'"
    and del_spare: "spare n m \<Longrightarrow> del k m = Some m' \<Longrightarrow> spare n m'"
begin

lemma indexes_ins_spare:
  assumes "indexes m L key" "k \<notin> key ` L" "spare (Suc n) m" "ins k (Some i) m = Some (r, m')"
  shows "spare n m'"
  using ins_spare [OF assms(3) indexes_absent [OF assms(1,2)] _ assms(4)] by simp

end

interpretation counted_map: counted_index om_inv om_room om_find om_insert om_erase om_spare
proof unfold_locales
  fix n and m m' :: "'v order_map" and k v r
  assume "om_spare (Suc n) m" "om_find m k = Some None" "v \<noteq> None" "om_insert k v m = Some (r, m')"
  then show "om_spare n m'" using om_insert_spare [of n m k v] by auto
qed (fact om_spare_room om_erase_spare)+

text \<open>The index as its clients see it when they ignore whether an entry was dropped.\<close>

locale lossy_index = order_index +
  assumes ins_any: "inv m \<Longrightarrow> look m k = Some None \<Longrightarrow> v \<noteq> None \<Longrightarrow>
    \<exists>r m'. ins k v m = Some (r, m') \<and> inv m' \<and> look m' = (if r then (look m)(k \<mapsto> v) else look m)"
begin

lemma indexes_ins_any:
  assumes "indexes m L key" "k \<notin> key ` L" "i \<notin> L"
  shows "\<exists>r m'. ins k (Some i) m = Some (r, m') \<and> indexes m' (if r then insert i L else L) (key(i := k))"
proof -
  obtain r m' where m': "ins k (Some i) m = Some (r, m')" "inv m'"
    "look m' = (if r then (look m)(k \<mapsto> Some i) else look m)"
    using ins_any [OF _ indexes_absent [OF assms(1,2)], of "Some i"] assms(1) by (auto simp: indexes_def)
  then have "indexes m' (if r then insert i L else L) (key(i := k))"
    using assms by (auto simp: indexes_def split: if_splits)
  with m' show ?thesis by blast
qed

end

interpretation lossy_map: lossy_index om_inv om_room om_find om_insert om_erase
  by unfold_locales (rule om_insert_any)

section \<open>The constructor establishes the invariant\<close>

lemma pow2_loop_eq:
  assumes "n \<le> 2 ^ 31" "j \<le> 31" "31 - j = d"
  shows "\<exists>K. pow2_loop (2 ^ j) n = Some (2 ^ K) \<and> j \<le> K \<and> K \<le> 31 \<and> n \<le> 2 ^ K \<and> (j < K \<longrightarrow> 2 ^ K < 2 * n)"
  using assms
proof (induction d arbitrary: j)
  case 0
  then have "j = 31" by simp
  with 0 show ?case by (subst pow2_loop.simps) (auto intro!: exI [of _ 31])
next
  case (Suc d)
  show ?case
  proof (cases "2 ^ j < n")
    case True
    have "(2::nat) ^ Suc j \<le> 2 ^ 31" using Suc.prems by (intro power_increasing) auto
    then have "(2 * 2 ^ j) mod 2 ^ 64 = (2::nat) ^ Suc j" by simp
    then have st: "pow2_loop (2 ^ j) n = pow2_loop (2 ^ Suc j) n"
      using True by (subst pow2_loop.simps) simp
    have "Suc j \<le> 31" "31 - Suc j = d" using Suc.prems by arith+
    from Suc.IH [OF Suc.prems(1) this] obtain K where K:
      "pow2_loop (2 ^ Suc j) n = Some (2 ^ K)" "Suc j \<le> K" "K \<le> 31" "n \<le> 2 ^ K"
      "Suc j < K \<longrightarrow> 2 ^ K < 2 * n" by blast
    have "2 ^ K < 2 * n" using K True by (cases "Suc j = K") auto
    with st K show ?thesis by auto
  next
    case False
    then show ?thesis using Suc.prems by (subst pow2_loop.simps) auto
  qed
qed

text \<open>\<open>roundPow2\<close> is the least power of two that is not smaller than its argument.\<close>

lemma roundPow2_ok:
  assumes "2 \<le> n" "n \<le> 2 ^ 31"
  shows "\<exists>K. roundPow2 n = Some (2 ^ K) \<and> 1 \<le> K \<and> K \<le> 31 \<and> n \<le> 2 ^ K \<and> 2 ^ K < 2 * n"
proof -
  obtain K where K: "pow2_loop 1 n = Some (2 ^ K)" "K \<le> 31" "n \<le> 2 ^ K" "0 < K \<longrightarrow> 2 ^ K < 2 * n"
    using pow2_loop_eq [of n 0 31] assms by auto
  then have "0 < K" using assms by (cases K) auto
  with K show ?thesis by (auto simp: roundPow2_def)
qed

lemma ctz32_pow2: "K < 32 \<Longrightarrow> ctz32 (2 ^ K) = Some K"
proof -
  assume K: "K < 32"
  have "[0..<32] = [0..<K] @ K # [Suc K..<32]"
    using K upt_add_eq_append [of 0 K "32 - K"] by (simp add: upt_conv_Cons)
  moreover have "find (bit (2 ^ K :: u32)) [0..<K] = None"
    by (auto simp: find_None_set bit_exp_iff)
  moreover have "bit (2 ^ K :: u32) K" using K by (simp add: bit_exp_iff)
  moreover have "find P (as @ x # bs) = Some x" if "find P as = None" "P x" for P and x :: nat and as bs
    using that by (induction as) (auto split: if_splits)
  ultimately show ?thesis by (simp add: ctz32_def)
qed

lemma om_new_ok:
  assumes "2 \<le> capacity" "capacity \<le> 2 ^ 31"
  shows "\<exists>m :: 'v order_map. om_new capacity = Some m \<and> om_inv m \<and> (\<forall>k. om_find m k = Some None) \<and>
    (\<forall>k. om_room m k) \<and> om_spare capacity m"
proof -
  obtain K where K: "roundPow2 capacity = Some (2 ^ K)" "1 \<le> K" "K \<le> 31" "capacity \<le> 2 ^ K"
    using roundPow2_ok [OF assms] by auto
  have c: "ctz32 (2 ^ K) = Some K" using K by (intro ctz32_pow2) simp
  have "(2::nat) ^ K < 2 ^ 32" using K by (intro power_strict_increasing) auto
  then have uK: "unat (2 ^ K :: u32) = 2 ^ K" using unat_of_nat_u32 [of "2 ^ K"] by simp
  define nds where "nds = map (\<lambda>i. \<lparr>nd_order_id = 0, nd_order = None :: 'v ptr,
      nd_next_idx = (if Suc i < capacity then of_nat (Suc i) else UINT32_MAX), nd_bucket = 0\<rparr>)
      [0..<capacity]"
  obtain m where m: "om_new capacity = Some m" and f: "nodes m = nds"
    "buckets m = replicate (2 ^ K) UINT32_MAX" "bucket_len m = replicate (2 ^ K) 0"
    "bstate m = replicate (2 ^ K) 0" "hash_shift m = 64 - of_nat K" "om_free_head m = 0"
    "overflow m = Map.empty"
    using K c uK assms by (simp add: om_new_def nds_def)
  have "unat (64 - of_nat K :: u32) = 64 - K"
    using K by (subst unat_sub) (auto simp: word_le_nat_alt unat_of_nat take_bit_nat_eq_self)
  then have sh: "om_shape K m"
    using K assms by (simp add: om_shape_def f nds_def)
  have nn: "(of_nat n :: u32) \<noteq> UINT32_MAX" if "n < capacity" for n
  proof
    assume "of_nat n = UINT32_MAX"
    moreover have "unat (of_nat n :: u32) = n" using that assms by (intro unat_of_nat_u32) auto
    ultimately show False using that assms by (simp add: UINT32_MAX_def)
  qed
  have ch: "chain (nnx m) (of_nat n) (map of_nat [n..<capacity])" if "n + d = capacity" "d \<noteq> 0" for n d
    using that
  proof (induction d arbitrary: n)
    case (Suc d)
    have u: "unat (of_nat n :: u32) = n" using Suc.prems assms by (intro unat_of_nat_u32) auto
    have nx: "nnx m (of_nat n) = (if Suc n < capacity then of_nat (Suc n) else UINT32_MAX)"
      using Suc.prems u by (simp add: nnx_def f nds_def)
    have up: "[n..<capacity] = n # [Suc n..<capacity]" using Suc.prems by (simp add: upt_conv_Cons)
    show ?case
    proof (cases "d = 0")
      case True
      then show ?thesis using Suc.prems nx nn [of n] up by auto
    next
      case False
      then have "chain (nnx m) (of_nat (Suc n)) (map of_nat [Suc n..<capacity])"
        using Suc.IH [of "Suc n"] Suc.prems by simp
      then show ?thesis using False Suc.prems nx nn [of n] up by simp
    qed
  qed simp
  have "chain (nnx m) (head_idx_of 0) (map of_nat [0..<capacity])"
    using ch [of 0 capacity] assms by (simp add: head_idx_of_def)
  then have ok: "om_ok K (\<lambda>_. []) (map of_nat [0..<capacity]) m"
    using sh assms by (auto simp: om_ok_def om_pre_def bucket_ok_def f nds_def)
  have "om_find m k = Some None" for k
    unfolding om_find_lookup [OF ok] by (simp add: om_lookup_def f chain_lookup_def)
  moreover have "om_room m k" for k
    by (simp add: om_room_def f head_idx_of_def UINT32_MAX_def)
  moreover have "om_inv m"
    unfolding om_inv_def by (intro exI) (rule ok)
  moreover have "om_spare capacity m"
    unfolding om_spare_def by (intro exI conjI) (rule ok, simp)
  ultimately show ?thesis
    by (intro exI [of _ m] conjI allI m) auto
qed

end
