(* ===== verification/Std_Map.thy ===== *)
theory Std_Map
  imports Prelude
begin

text \<open>
  \<open>std::map<K, V, Cmp>\<close> as an association list sorted by the comparator: iteration is in list
  order, look-up is \<open>map_of\<close>. The books use it with \<open><\<close> (asks) and \<open>>\<close> (bids); the laws are
  proved once for any strict linear order.
\<close>

section \<open>Operations\<close>

text \<open>Assignment through \<open>operator[]\<close>: replaces the value of \<open>k\<close>, or inserts it in order.\<close>

fun omap_put :: "('k \<Rightarrow> 'k \<Rightarrow> bool) \<Rightarrow> 'k \<Rightarrow> 'v \<Rightarrow> ('k \<times> 'v) list \<Rightarrow> ('k \<times> 'v) list" where
  "omap_put lt k v [] = [(k, v)]"
| "omap_put lt k v ((a, w) # m) =
     (if k = a then (k, v) # m
      else if lt k a then (k, v) # (a, w) # m
      else (a, w) # omap_put lt k v m)"

fun omap_del :: "'k \<Rightarrow> ('k \<times> 'v) list \<Rightarrow> ('k \<times> 'v) list" where
  "omap_del k [] = []"
| "omap_del k ((a, w) # m) = (if k = a then m else (a, w) # omap_del k m)"

text \<open>Reading through \<open>operator[]\<close>: the stored value, or the default that would be inserted.\<close>

definition omap_ref :: "'v \<Rightarrow> 'k \<Rightarrow> ('k \<times> 'v) list \<Rightarrow> 'v" where
  [code_eval]: "omap_ref d k m = (case map_of m k of None \<Rightarrow> d | Some v \<Rightarrow> v)"

section \<open>Laws\<close>

lemma map_of_omap_put [simp]: "map_of (omap_put lt k v m) = (map_of m)(k \<mapsto> v)"
  by (induction m) auto

lemma map_of_omap_del_other: "q \<noteq> k \<Longrightarrow> map_of (omap_del k m) q = map_of m q"
  by (induction m) auto

lemma set_omap_del: "set (omap_del k m) \<subseteq> set m"
  by (induction m) (auto split: if_splits)

lemma set_keys_put: "fst ` set (omap_put lt k v m) = insert k (fst ` set m)"
proof (induction m)
  case (Cons p m)
  then show ?case by (cases p) (simp, blast)
qed simp

locale map_order =
  fixes lt :: "'k \<Rightarrow> 'k \<Rightarrow> bool"
  assumes irrefl: "\<not> lt a a"
    and trans: "lt a b \<Longrightarrow> lt b c \<Longrightarrow> lt a c"
    and total: "a \<noteq> b \<Longrightarrow> lt a b \<or> lt b a"
begin

definition srt :: "('k \<times> 'v) list \<Rightarrow> bool" where
  "srt m \<longleftrightarrow> sorted_wrt lt (map fst m)"

lemma asym: "lt a b \<Longrightarrow> \<not> lt b a"
  using irrefl trans by blast

lemma srt_Nil [simp]: "srt []"
  by (simp add: srt_def)

lemma srt_Cons [simp]: "srt ((a, w) # m) \<longleftrightarrow> (\<forall>k\<in>fst ` set m. lt a k) \<and> srt m"
  by (auto simp: srt_def)

lemma srt_put: "srt m \<Longrightarrow> srt (omap_put lt k v m)"
proof (induction m)
  case (Cons p m)
  obtain a w where p: "p = (a, w)" by (cases p)
  show ?case
  proof (cases "k = a \<or> lt k a")
    case True
    then show ?thesis using Cons p by (auto intro: trans)
  next
    case False
    then have "lt a k" using total by blast
    then show ?thesis using Cons False by (auto simp: p set_keys_put)
  qed
qed simp

lemma srt_del: "srt m \<Longrightarrow> srt (omap_del k m)"
proof (induction m)
  case (Cons p m)
  then show ?case using set_omap_del [of k m] by (cases p) auto
qed simp

lemma srt_distinct: "srt m \<Longrightarrow> distinct (map fst m)"
  by (induction m) (fastforce simp: irrefl)+

lemma map_of_omap_del: "srt m \<Longrightarrow> map_of (omap_del k m) = (map_of m)(k := None)"
proof (induction m)
  case (Cons p m)
  then show ?case by (cases p) (auto simp: fun_eq_iff map_of_eq_None_iff irrefl)
qed (auto)

lemma srt_hd:
  assumes "srt m" "map_of m k = Some v" "m \<noteq> []"
  shows "fst (hd m) = k \<or> lt (fst (hd m)) k"
  using assms by (cases m) (fastforce dest: map_of_SomeD split: if_splits)+

lemma put_same: "srt m \<Longrightarrow> map_of m k = Some v \<Longrightarrow> omap_put lt k v m = m"
proof (induction m)
  case (Cons e m)
  obtain a w where e: "e = (a, w)" by (cases e)
  show ?case
  proof (cases "k = a")
    case False
    then have "lt a k" using Cons.prems e by (fastforce dest: map_of_SomeD)
    then show ?thesis using Cons False e asym by auto
  qed (use Cons e in auto)
qed simp

lemma srt_dropWhile: "srt m \<Longrightarrow> e \<in> set (dropWhile (\<lambda>e. lt (fst e) k \<or> fst e = k) m) \<Longrightarrow> lt k (fst e)"
proof (induction m)
  case (Cons a m)
  show ?case
  proof (cases "lt (fst a) k \<or> fst a = k")
    case False
    then have "lt k (fst a)" using total by blast
    then show ?thesis using Cons.prems False trans by (cases a) auto
  qed (use Cons in \<open>cases a, auto\<close>)
qed simp

lemma sorted_unique: "sorted_wrt lt xs \<Longrightarrow> sorted_wrt lt ys \<Longrightarrow> set xs = set ys \<Longrightarrow> xs = ys"
proof (induction xs arbitrary: ys)
  case (Cons x xs)
  then obtain y zs where ys: "ys = y # zs" by (cases ys) auto
  have "x = y" using Cons.prems ys asym by (metis list.set_intros(1) set_ConsD sorted_wrt.simps(2))
  moreover have "x \<notin> set xs" "y \<notin> set zs" using Cons.prems ys irrefl by auto
  then have "set xs = set zs" using Cons.prems(3) ys \<open>x = y\<close> by (metis insert_ident list.simps(15))
  ultimately show ?case using Cons ys by auto
qed simp

text \<open>The value lists along the order: what an insertion and a removal do to them.\<close>

lemma concat_put:
  assumes "srt m" "map_of m k = None \<longrightarrow> g k = []"
  shows "concat (map (\<lambda>p. (g(k := xs)) (fst p)) (omap_put lt k v m)) =
    concat (map (\<lambda>p. g (fst p)) (takeWhile (\<lambda>p. lt (fst p) k) m)) @ xs @
    concat (map (\<lambda>p. g (fst p)) (dropWhile (\<lambda>p. lt (fst p) k \<or> fst p = k) m))"
  using assms
proof (induction m)
  case (Cons p m)
  obtain a w where p: "p = (a, w)" by (cases p)
  have same: "k \<notin> fst ` set n \<Longrightarrow>
      concat (map (\<lambda>p. (g(k := xs)) (fst p)) n) = concat (map (\<lambda>p. g (fst p)) n)" for n :: "('k \<times> 'v) list"
    by (rule arg_cong [of _ _ concat]) (auto simp: image_iff)
  show ?case
  proof (cases "k = a")
    case True
    have nk: "k \<notin> fst ` set m" using Cons.prems(1) True p irrefl by auto
    have "dropWhile (\<lambda>p. lt (fst p) k \<or> fst p = k) m = m"
      using Cons.prems(1) nk True p asym by (cases m) (auto simp: p)
    then show ?thesis using True p nk same [OF nk] irrefl by simp
  next
    case ka: False
    show ?thesis
    proof (cases "lt k a")
      case True
      then have "\<not> lt a k" by (rule asym)
      have nk: "k \<notin> fst ` set m" using Cons.prems(1) True p asym by auto
      then show ?thesis using True ka p same [OF nk] \<open>\<not> lt a k\<close> by simp
    next
      case False
      then have l: "lt a k" using total ka by blast
      then show ?thesis using Cons ka p False by simp
    qed
  qed
qed simp

end

end
