(* ===== verification/Ex_Book.thy ===== *)
theory Ex_Book
  imports Order_Pool Order_Map Std_Map
begin

text \<open>
  The exchange's order book (\<open>src/exchange/order.h\<close>, \<open>order_book.h\<close>, \<open>order_book.cpp\<close>): two
  ordered maps from prices to levels; a level is a doubly linked list of pool slots in time
  order. An \<open>Order*\<close> into the pool is the index of its slot. The record \<open>order_book\<close> is the
  C++ object together with the pool and the index its pointers refer to.
\<close>

section \<open>Data\<close>

datatype side = INVALID | BUY | SELL

datatype order_status = OPEN | PARTIALLY_FILLED | FILLED | CANCELLED

record order = links +
  user_id :: u64
  order_id :: u64
  side :: side
  price :: u32
  original_qty :: u32
  remaining_qty :: u32
  filled_qty :: u32
  sequence :: u64
  status :: order_status

type_synonym ex_pool = "unit order_ext pool"

definition default_order :: order where
  [code_eval]: "default_order = \<lparr>prev_idx = UINT32_MAX, next_idx = UINT32_MAX, pool_next_free = UINT32_MAX,
     user_id = 0, order_id = 0, side = INVALID, price = 0, original_qty = 0, remaining_qty = 0,
     filled_qty = 0, sequence = 0, status = OPEN\<rparr>"

record top_of_book =
  bid_price :: u32
  bid_volume :: u32
  ask_price :: u32
  ask_volume :: u32

record price_level =
  head_idx :: u32
  tail_idx :: u32
  level_count :: u32
  total_qty :: u32

definition default_level :: price_level where
  [code_eval]: "default_level = \<lparr>head_idx = UINT32_MAX, tail_idx = UINT32_MAX, level_count = 0, total_qty = 0\<rparr>"

type_synonym levels = "(u32 \<times> price_level) list"

record order_book =
  ob_pool :: ex_pool
  ob_index :: "u32 order_map"
  bids :: levels
  asks :: levels

text \<open>\<open>(side == Side::BUY) ? bids_[price] : asks_[price]\<close>, read and written.\<close>

definition level_ref :: "side \<Rightarrow> u32 \<Rightarrow> order_book \<Rightarrow> price_level" where
  [code_eval]: "level_ref sd p b = omap_ref default_level p (if sd = BUY then bids b else asks b)"

definition set_level :: "side \<Rightarrow> u32 \<Rightarrow> price_level \<Rightarrow> order_book \<Rightarrow> order_book" where
  [code_eval]: "set_level sd p l b =
     (if sd = BUY then b\<lparr>bids := omap_put (>) p l (bids b)\<rparr> else b\<lparr>asks := omap_put (<) p l (asks b)\<rparr>)"

section \<open>Changing the book\<close>

definition addOrder :: "order \<Rightarrow> order_book \<Rightarrow> (bool \<times> order_book) option" where
  [code_eval]: "addOrder ord b =
     (if side ord = INVALID then Some (False, b)
      else do {
        (new_order, p0) \<leftarrow> pool_allocate (ob_pool b);
        case new_order of
          None \<Rightarrow> Some (False, b\<lparr>ob_pool := p0\<rparr>)
        | Some idx \<Rightarrow> do {
            p1 \<leftarrow> pool_put idx (\<lambda>_. ord) p0;
            let level = level_ref (side ord) (price ord) b;
            (level1, p2) \<leftarrow>
              (if level_count level = 0 then do {
                 p2 \<leftarrow> pool_put idx (\<lambda>s. s\<lparr>prev_idx := UINT32_MAX, next_idx := UINT32_MAX\<rparr>) p1;
                 Some (level\<lparr>head_idx := idx, tail_idx := idx\<rparr>, p2)
               }
               else do {
                 p2 \<leftarrow> pool_put idx (\<lambda>s. s\<lparr>prev_idx := tail_idx level, next_idx := UINT32_MAX\<rparr>) p1;
                 p3 \<leftarrow> pool_put (tail_idx level) (\<lambda>s. s\<lparr>next_idx := idx\<rparr>) p2;
                 Some (level\<lparr>tail_idx := idx\<rparr>, p3)
               });
            (ok, ix) \<leftarrow> om_insert (order_id ord) (Some idx) (ob_index b);
            Some (True, set_level (side ord) (price ord)
              (level1\<lparr>level_count := level_count level1 + 1,
                      total_qty := total_qty level1 + remaining_qty ord\<rparr>)
              (b\<lparr>ob_pool := p2, ob_index := ix\<rparr>))
          }
      })"

definition reduceOrderQty :: "u32 \<Rightarrow> u32 \<Rightarrow> order_book \<Rightarrow> order_book option" where
  [code_eval]: "reduceOrderQty idx amount b = do {
     ord \<leftarrow> pool_at (ob_pool b) idx;
     p \<leftarrow> pool_put idx (\<lambda>s. s\<lparr>remaining_qty := remaining_qty s - amount,
                            filled_qty := filled_qty s + amount\<rparr>) (ob_pool b);
     let level = level_ref (side ord) (price ord) b;
     Some (set_level (side ord) (price ord) (level\<lparr>total_qty := total_qty level - amount\<rparr>)
       (b\<lparr>ob_pool := p\<rparr>))
   }"

definition reduceQtyCancel :: "u32 \<Rightarrow> u32 \<Rightarrow> order_book \<Rightarrow> order_book option" where
  [code_eval]: "reduceQtyCancel idx amount b = do {
     ord \<leftarrow> pool_at (ob_pool b) idx;
     p \<leftarrow> pool_put idx (\<lambda>s. s\<lparr>remaining_qty := remaining_qty s - amount\<rparr>) (ob_pool b);
     let level = level_ref (side ord) (price ord) b;
     Some (set_level (side ord) (price ord) (level\<lparr>total_qty := total_qty level - amount\<rparr>)
       (b\<lparr>ob_pool := p\<rparr>))
   }"

text \<open>\<open>removeOrder(Order*)\<close>: without a level at the order's price nothing happens.\<close>

definition removeOrderPtr :: "u32 \<Rightarrow> order_book \<Rightarrow> order_book option" where
  [code_eval]: "removeOrderPtr idx b = do {
     ord \<leftarrow> pool_at (ob_pool b) idx;
     case map_of (if side ord = BUY then bids b else asks b) (price ord) of
       None \<Rightarrow> Some b
     | Some lvl \<Rightarrow> do {
         p1 \<leftarrow> (if prev_idx ord \<noteq> UINT32_MAX
                then pool_put (prev_idx ord) (\<lambda>s. s\<lparr>next_idx := next_idx ord\<rparr>) (ob_pool b)
                else Some (ob_pool b));
         p2 \<leftarrow> (if next_idx ord \<noteq> UINT32_MAX
                then pool_put (next_idx ord) (\<lambda>s. s\<lparr>prev_idx := prev_idx ord\<rparr>) p1
                else Some p1);
         let lvl1 = (if head_idx lvl = idx then lvl\<lparr>head_idx := next_idx ord\<rparr> else lvl);
         let lvl2 = (if tail_idx lvl1 = idx then lvl1\<lparr>tail_idx := prev_idx ord\<rparr> else lvl1);
         let lvl3 = lvl2\<lparr>level_count := level_count lvl2 - 1,
                         total_qty := total_qty lvl2 - remaining_qty ord\<rparr>;
         let b1 = (if level_count lvl3 = 0
                   then (if side ord = BUY then b\<lparr>bids := omap_del (price ord) (bids b)\<rparr>
                         else b\<lparr>asks := omap_del (price ord) (asks b)\<rparr>)
                   else set_level (side ord) (price ord) lvl3 b);
         ix \<leftarrow> om_erase (order_id ord) (ob_index b);
         p3 \<leftarrow> pool_deallocate idx p2;
         Some (b1\<lparr>ob_pool := p3, ob_index := ix\<rparr>)
       }
   }"

definition findOrder :: "u64 \<Rightarrow> order_book \<Rightarrow> u32 ptr option" where
  [code_eval]: "findOrder oid b = om_find (ob_index b) oid"

definition removeOrder :: "u64 \<Rightarrow> u64 \<Rightarrow> order_book \<Rightarrow> (bool \<times> order_book) option" where
  [code_eval]: "removeOrder oid uid b = do {
     found \<leftarrow> om_find (ob_index b) oid;
     case found of
       None \<Rightarrow> Some (False, b)
     | Some idx \<Rightarrow> do {
         ord \<leftarrow> pool_at (ob_pool b) idx;
         if user_id ord \<noteq> uid then Some (False, b)
         else do {
           b1 \<leftarrow> removeOrderPtr idx b;
           Some (True, b1)
         }
       }
   }"

section \<open>Queries\<close>

text \<open>The inner loop of \<open>getBestBid\<close> and \<open>getBestAsk\<close>: the first order of another user.\<close>

partial_function (option) first_other :: "ex_pool \<Rightarrow> u64 \<Rightarrow> u32 \<Rightarrow> u32 ptr option" where
  [code, code_eval]: "first_other p ex idx =
     (if idx = UINT32_MAX then Some None
      else do {
        ord \<leftarrow> pool_at p idx;
        if user_id ord \<noteq> ex then Some (Some idx) else first_other p ex (next_idx ord)
      })"

fun best_other :: "ex_pool \<Rightarrow> u64 \<Rightarrow> levels \<Rightarrow> u32 ptr option" where
  "best_other p ex [] = Some None"
| "best_other p ex ((pr, level) # ls) = do {
     r \<leftarrow> first_other p ex (head_idx level);
     case r of None \<Rightarrow> best_other p ex ls | Some idx \<Rightarrow> Some (Some idx)
   }"

definition getBestBid :: "u64 \<Rightarrow> order_book \<Rightarrow> u32 ptr option" where
  [code_eval]: "getBestBid exclude_user_id b =
     (case bids b of
        [] \<Rightarrow> Some None
      | (pr, level) # _ \<Rightarrow>
          if exclude_user_id = 0
          then Some (if level_count level > 0 then Some (head_idx level) else None)
          else best_other (ob_pool b) exclude_user_id (bids b))"

definition getBestAsk :: "u64 \<Rightarrow> order_book \<Rightarrow> u32 ptr option" where
  [code_eval]: "getBestAsk exclude_user_id b =
     (case asks b of
        [] \<Rightarrow> Some None
      | (pr, level) # _ \<Rightarrow>
          if exclude_user_id = 0
          then Some (if level_count level > 0 then Some (head_idx level) else None)
          else best_other (ob_pool b) exclude_user_id (asks b))"

text \<open>The summing walk of \<open>availableQty\<close>, \<open>printBook\<close> and \<open>getBookString\<close>.\<close>

partial_function (option) sum_level :: "ex_pool \<Rightarrow> u32 \<Rightarrow> u32 \<Rightarrow> u32 option" where
  [code, code_eval]: "sum_level p tot idx =
     (if idx = UINT32_MAX then Some tot
      else do {
        ord \<leftarrow> pool_at p idx;
        sum_level p (tot + remaining_qty ord) (next_idx ord)
      })"

fun sum_levels :: "ex_pool \<Rightarrow> (u32 \<Rightarrow> bool) \<Rightarrow> u32 \<Rightarrow> levels \<Rightarrow> u32 option" where
  "sum_levels p stop tot [] = Some tot"
| "sum_levels p stop tot ((pr, level) # ls) =
     (if stop pr then Some tot
      else do {
        t \<leftarrow> sum_level p tot (head_idx level);
        sum_levels p stop t ls
      })"

definition availableQty :: "side \<Rightarrow> u32 \<Rightarrow> order_book \<Rightarrow> u32 option" where
  [code_eval]: "availableQty sd pr b =
     (if sd = BUY then sum_levels (ob_pool b) (\<lambda>p. p > pr) 0 (asks b)
      else sum_levels (ob_pool b) (\<lambda>p. p < pr) 0 (bids b))"

definition getTopOfBook :: "order_book \<Rightarrow> top_of_book" where
  [code_eval]: "getTopOfBook b =
     \<lparr>bid_price = (case bids b of [] \<Rightarrow> 0 | (p, l) # _ \<Rightarrow> p),
      bid_volume = (case bids b of [] \<Rightarrow> 0 | (p, l) # _ \<Rightarrow> total_qty l),
      ask_price = (case asks b of [] \<Rightarrow> 0 | (p, l) # _ \<Rightarrow> p),
      ask_volume = (case asks b of [] \<Rightarrow> 0 | (p, l) # _ \<Rightarrow> total_qty l)\<rparr>"

text \<open>
  What \<open>printBook\<close> and \<open>getBookString\<close> show of one side: position, price and summed quantity
  of the first levels (the surrounding text is formatting).
\<close>

fun show_levels :: "ex_pool \<Rightarrow> int \<Rightarrow> int \<Rightarrow> levels \<Rightarrow> (int \<times> u32 \<times> u32) list option" where
  "show_levels p levels n [] = Some []"
| "show_levels p levels n ((pr, level) # ls) =
     (if n \<ge> levels then Some []
      else do {
        vol \<leftarrow> sum_level p 0 (head_idx level);
        rest \<leftarrow> show_levels p levels (n + 1) ls;
        Some ((n, pr, vol) # rest)
      })"

declare best_other.simps [code_eval] sum_levels.simps [code_eval] show_levels.simps [code_eval]

definition book_lines :: "int \<Rightarrow> order_book \<Rightarrow> ((int \<times> u32 \<times> u32) list \<times> (int \<times> u32 \<times> u32) list) option" where
  [code_eval]: "book_lines levels b = do {
     a \<leftarrow> show_levels (ob_pool b) levels 0 (asks b);
     d \<leftarrow> show_levels (ob_pool b) levels 0 (bids b);
     Some (a, d)
   }"

end
