(* ===== verification/Slot_Views.thy ===== *)
theory Slot_Views
  imports Order_Pool
begin

text \<open>
  Reasoning about an array of pool slots, for both kinds of slot: the payload of a slot without its
  links, agreement of two arrays on a set of slots, and the effect of a write to one slot on the
  links, the payload and the free list.
\<close>

section \<open>Views of a slot array\<close>

text \<open>A slot without its links: what a book keeps about an order.\<close>

definition strip :: "'a links_scheme \<Rightarrow> 'a links_scheme" where
  [code_eval]: "strip r = r\<lparr>prev_idx := 0, next_idx := 0, pool_next_free := 0\<rparr>"

lemma strip_links [simp]:
  "strip (r\<lparr>prev_idx := a\<rparr>) = strip r" "strip (r\<lparr>next_idx := a\<rparr>) = strip r"
  "strip (r\<lparr>pool_next_free := a\<rparr>) = strip r" "strip (strip r) = strip r"
  by (simp_all add: strip_def)

definition body :: "'a links_scheme list \<Rightarrow> u32 \<Rightarrow> 'a links_scheme" where
  "body s i = strip (s ! unat i)"

lemma body_put:
  "unat i < length s \<Longrightarrow>
   body (s[unat i := f (s ! unat i)]) = (body s)(i := strip (f (s ! unat i)))"
  by (auto simp: body_def fun_eq_iff nth_list_update)

text \<open>Two arrays agree on a set of slots: same links and same orders.\<close>

definition agree :: "'a links_scheme list \<Rightarrow> 'a links_scheme list \<Rightarrow> u32 set \<Rightarrow> bool" where
  "agree s s' X \<longleftrightarrow> length s' = length s \<and>
     (\<forall>i\<in>X. nxt s' i = nxt s i \<and> prv s' i = prv s i \<and> body s' i = body s i)"

lemma agree_refl [simp]: "agree s s X"
  by (simp add: agree_def)

lemma agree_trans: "agree s s' X \<Longrightarrow> agree s' s'' X \<Longrightarrow> agree s s'' X"
  by (auto simp: agree_def)

lemma agree_mono: "agree s s' X \<Longrightarrow> Y \<subseteq> X \<Longrightarrow> agree s s' Y"
  by (auto simp: agree_def)

lemma agree_put: "unat i < length s \<Longrightarrow> i \<notin> X \<Longrightarrow> agree s (s[unat i := v]) X"
  by (auto simp: agree_def nxt_def prv_def body_def nth_list_update)

lemma agree_put_free:
  "unat i < length s \<Longrightarrow> agree s (s[unat i := (s ! unat i)\<lparr>pool_next_free := v\<rparr>]) X"
  by (auto simp: agree_def nxt_def prv_def body_def nth_list_update)

section \<open>Writes to one slot\<close>

definition put_slot :: "u32 \<Rightarrow> ('a links_scheme \<Rightarrow> 'a links_scheme) \<Rightarrow> 'a pool \<Rightarrow> 'a pool" where
  "put_slot i f p = p\<lparr>storage := (storage p)[unat i := f (storage p ! unat i)]\<rparr>"

lemma pool_put_slot: "unat i < length (storage p) \<Longrightarrow> pool_put i f p = Some (put_slot i f p)"
  by (simp add: pool_put_def put_slot_def)

lemma put_slot_fields [simp]:
  "length (storage (put_slot i f p)) = length (storage p)" "free_head (put_slot i f p) = free_head p"
  "pool_size (put_slot i f p) = pool_size p"
  by (simp_all add: put_slot_def)

lemma pool_at_in [simp]: "unat i < length (storage p) \<Longrightarrow> pool_at p i = Some (storage p ! unat i)"
  by (simp add: pool_at_def)

lemma put_slot_nth [simp]:
  "unat i < length (storage p) \<Longrightarrow>
   storage (put_slot i f p) ! unat j = (if j = i then f (storage p ! unat i) else storage p ! unat j)"
  by (auto simp: put_slot_def nth_list_update)

lemma put_slot_views:
  assumes "unat i < length (storage p)"
  shows "nxt (storage (put_slot i f p)) = (nxt (storage p))(i := next_idx (f (storage p ! unat i)))"
    and "prv (storage (put_slot i f p)) = (prv (storage p))(i := prev_idx (f (storage p ! unat i)))"
    and "nfree (storage (put_slot i f p)) = (nfree (storage p))(i := pool_next_free (f (storage p ! unat i)))"
  using assms by (auto simp: put_slot_def nxt_put prv_put nfree_put)

lemma put_slot_body:
  "unat i < length (storage p) \<Longrightarrow>
   body (storage (put_slot i f p)) = (body (storage p))(i := strip (f (storage p ! unat i)))"
  by (simp add: put_slot_def body_put)

lemma put_slot_ok:
  assumes "pool_ok p F" "unat i < length (storage p)"
    "i \<in> set F \<Longrightarrow> pool_next_free (f (storage p ! unat i)) = pool_next_free (storage p ! unat i)"
  shows "pool_ok (put_slot i f p) F"
proof -
  have "nfree (storage (put_slot i f p)) x = nfree (storage p) x" if "x \<in> set F" for x
    using that assms by (auto simp: put_slot_views nfree_def)
  then have "chain (nfree (storage (put_slot i f p))) j F = chain (nfree (storage p)) j F" for j
    by (rule chain_cong)
  then show ?thesis using assms by (auto simp: pool_ok_def)
qed

lemma put_slot_agree: "unat i < length (storage p) \<Longrightarrow> i \<notin> X \<Longrightarrow> agree (storage p) (storage (put_slot i f p)) X"
  by (simp add: put_slot_def agree_put)

section \<open>Lists of slots\<close>

lemma slots_bound:
  assumes "distinct xs" "\<forall>i\<in>set xs. unat (i :: u32) < n"
  shows "length xs \<le> n"
proof -
  have "card (unat ` set xs) \<le> card {0..<n}"
    using assms by (intro card_mono) auto
  moreover have "card (unat ` set xs) = length xs"
    using assms by (subst card_image) (auto simp: inj_on_def distinct_card)
  ultimately show ?thesis by simp
qed

lemma sum_list_remove: "sum_list (map f (as @ x # bs)) - f x = sum_list (map f (as @ bs))"
  for f :: "'a \<Rightarrow> 'b::ab_group_add"
  by (simp add: algebra_simps)

section \<open>Unlinking a slot\<close>

text \<open>
  The writes both kinds of book make to take a slot out of a doubly linked level: the neighbours are
  linked to each other, then the slot goes back to the free list.
\<close>

lemma unlink_writes:
  assumes pk: "pool_ok pk F"
    and d: "dll (nxt (storage pk)) (prv (storage pk)) UINT32_MAX (as @ x # bs) UINT32_MAX" "distinct (as @ x # bs)"
    and nb: "\<forall>y\<in>set (as @ x # bs). unat y < length (storage pk) \<and> y \<noteq> UINT32_MAX \<and> y \<notin> set F"
  defines "p \<equiv> prev_idx (storage pk ! unat x)" and "n \<equiv> next_idx (storage pk ! unat x)"
  shows "p = last (UINT32_MAX # as) \<and> n = hd (bs @ [UINT32_MAX])"
    and "\<exists>q1 q2 q3. (if p \<noteq> UINT32_MAX then pool_put p (\<lambda>s. s\<lparr>next_idx := n\<rparr>) pk else Some pk) = Some q1 \<and>
      (if n \<noteq> UINT32_MAX then pool_put n (\<lambda>s. s\<lparr>prev_idx := p\<rparr>) q1 else Some q1) = Some q2 \<and>
      pool_deallocate x q2 = Some q3 \<and> pool_ok q3 (x # F) \<and> length (storage q3) = length (storage pk) \<and>
      nxt (storage q3) = (if as = [] then nxt (storage pk) else (nxt (storage pk))(last as := hd (bs @ [UINT32_MAX]))) \<and>
      prv (storage q3) = (if bs = [] then prv (storage pk) else (prv (storage pk))(hd bs := last (UINT32_MAX # as))) \<and>
      body (storage q3) = body (storage pk)"
proof -
  let ?s = "storage pk"
  show pn: "p = last (UINT32_MAX # as) \<and> n = hd (bs @ [UINT32_MAX])"
    using d(1) by (simp add: dll_append nxt_def prv_def p_def n_def)
  define q1 where "q1 = (if as = [] then pk else put_slot (last as) (\<lambda>s. s\<lparr>next_idx := hd (bs @ [UINT32_MAX])\<rparr>) pk)"
  define q2 where "q2 = (if bs = [] then q1 else put_slot (hd bs) (\<lambda>s. s\<lparr>prev_idx := last (UINT32_MAX # as)\<rparr>) q1)"
  have la: "as \<noteq> [] \<Longrightarrow> unat (last as) < length ?s \<and> last as \<noteq> UINT32_MAX \<and> last as \<notin> set F"
    and hb: "bs \<noteq> [] \<Longrightarrow> unat (hd bs) < length ?s \<and> hd bs \<noteq> UINT32_MAX \<and> hd bs \<notin> set F"
    using nb by (auto dest: last_in_set hd_in_set)
  have l1: "length (storage q1) = length ?s" by (simp add: q1_def)
  have p1: "(if p \<noteq> UINT32_MAX then pool_put p (\<lambda>s. s\<lparr>next_idx := n\<rparr>) pk else Some pk) = Some q1"
    using la pn unfolding q1_def by (auto simp: pool_put_slot)
  have p2: "(if n \<noteq> UINT32_MAX then pool_put n (\<lambda>s. s\<lparr>prev_idx := p\<rparr>) q1 else Some q1) = Some q2"
    using hb l1 pn unfolding q2_def by (cases bs) (auto simp: pool_put_slot)
  have v1: "nxt (storage q1) = (if as = [] then nxt ?s else (nxt ?s)(last as := hd (bs @ [UINT32_MAX])))"
    "prv (storage q1) = prv ?s" "body (storage q1) = body ?s" "pool_ok q1 F"
    using la pk by (auto simp: q1_def put_slot_views put_slot_body prv_def body_def strip_def fun_eq_iff intro!: put_slot_ok)
  have v2: "nxt (storage q2) = nxt (storage q1)"
    "prv (storage q2) = (if bs = [] then prv ?s else (prv ?s)(hd bs := last (UINT32_MAX # as)))"
    "body (storage q2) = body ?s" "pool_ok q2 F" "length (storage q2) = length ?s"
    using hb l1 v1 by (auto simp: q2_def put_slot_views put_slot_body nxt_def body_def strip_def fun_eq_iff intro!: put_slot_ok)
  have x: "unat x < length ?s" "x \<notin> set F" using nb by auto
  define q3 where "q3 = q2\<lparr>storage := (storage q2)[unat x := (storage q2 ! unat x)\<lparr>pool_next_free := head_idx_of (free_head q2)\<rparr>],
    free_head := bump_head (free_head q2) x, pool_size := pool_size q2 - 1\<rparr>"
  have q3: "pool_deallocate x q2 = Some q3" "pool_ok q3 (x # F)"
    using pool_deallocate_put [OF v2(4), of x] x v2(5) by (simp_all add: q3_def)
  have v3: "nxt (storage q3) = nxt (storage q2)" "prv (storage q3) = prv (storage q2)"
    "body (storage q3) = body ?s" "length (storage q3) = length ?s"
    using x v2(3,5) by (auto simp: q3_def nxt_def prv_def body_def strip_def fun_eq_iff nth_list_update)
  show "\<exists>q1 q2 q3. (if p \<noteq> UINT32_MAX then pool_put p (\<lambda>s. s\<lparr>next_idx := n\<rparr>) pk else Some pk) = Some q1 \<and>
      (if n \<noteq> UINT32_MAX then pool_put n (\<lambda>s. s\<lparr>prev_idx := p\<rparr>) q1 else Some q1) = Some q2 \<and>
      pool_deallocate x q2 = Some q3 \<and> pool_ok q3 (x # F) \<and> length (storage q3) = length (storage pk) \<and>
      nxt (storage q3) = (if as = [] then nxt (storage pk) else (nxt (storage pk))(last as := hd (bs @ [UINT32_MAX]))) \<and>
      prv (storage q3) = (if bs = [] then prv (storage pk) else (prv (storage pk))(hd bs := last (UINT32_MAX # as))) \<and>
      body (storage q3) = body (storage pk)"
    using v1(1) v2(1,2) v3 by (intro exI [of _ q1] exI [of _ q2] exI [of _ q3] conjI p1 p2 q3) simp_all
qed

end
