(* ===== verification/Ex_Book_Inv.thy ===== *)
theory Ex_Book_Inv
  imports Ex_Book Slot_Views
begin

text \<open>
  The representation invariant of the exchange book. A ghost \<open>g sd p\<close> gives the slots of the
  level at price \<open>p\<close> of side \<open>sd\<close> in time order, \<open>F\<close> the free slots of the pool and \<open>Oth\<close>
  the slots of the other books that share the pool and the index. The lemmas say how a level, a
  side and the book change when one slot is appended, unlinked or reduced.
\<close>

section \<open>Fields of an order\<close>

lemma strip_fields [simp]:
  "user_id (strip r) = user_id r" "order_id (strip r) = order_id r" "side (strip r) = side r"
  "price (strip r) = price r" "original_qty (strip r) = original_qty r"
  "remaining_qty (strip r) = remaining_qty r" "filled_qty (strip r) = filled_qty r"
  "sequence (strip r) = sequence r" "status (strip r) = status r"
  by (simp_all add: strip_def)

section \<open>Levels\<close>

definition level_ok :: "order list \<Rightarrow> side \<Rightarrow> u32 \<Rightarrow> price_level \<Rightarrow> u32 list \<Rightarrow> bool" where
  "level_ok s sd p l xs \<longleftrightarrow>
     xs \<noteq> [] \<and> distinct xs \<and> dll (nxt s) (prv s) UINT32_MAX xs UINT32_MAX \<and>
     head_idx l = hd xs \<and> tail_idx l = last xs \<and> level_count l = of_nat (length xs) \<and>
     total_qty l = sum_list (map (\<lambda>i. remaining_qty (body s i)) xs) \<and>
     (\<forall>i\<in>set xs. unat i < length s \<and> i \<noteq> UINT32_MAX \<and> price (body s i) = p \<and> side (body s i) = sd)"

lemma level_ok_agree:
  assumes "agree s s' (set xs)"
  shows "level_ok s' sd p l xs = level_ok s sd p l xs"
proof -
  have "dll (nxt s') (prv s') UINT32_MAX xs UINT32_MAX = dll (nxt s) (prv s) UINT32_MAX xs UINT32_MAX"
    using assms by (intro dll_cong) (auto simp: agree_def)
  moreover have "(\<Sum>i\<leftarrow>xs. remaining_qty (body s' i)) = (\<Sum>i\<leftarrow>xs. remaining_qty (body s i))"
    using assms by (intro arg_cong [of _ _ sum_list] map_cong) (auto simp: agree_def)
  ultimately show ?thesis
    using assms unfolding level_ok_def agree_def by auto
qed

lemma level_count_pos:
  assumes "level_ok s sd p l xs" "length s < 2 ^ 32"
  shows "level_count l \<noteq> 0" "unat (level_count l) = length xs"
proof -
  have "length xs < 2 ^ 32"
    using slots_bound [of xs "length s"] assms by (auto simp: level_ok_def)
  then show u: "unat (level_count l) = length xs"
    using assms by (simp add: level_ok_def)
  show "level_count l \<noteq> 0"
    using u assms by (auto simp: level_ok_def)
qed

lemma level_chain: "level_ok s sd p l xs \<Longrightarrow> chain (nxt s) (head_idx l) xs"
  unfolding level_ok_def
  using dll_chain [of "nxt s" "prv s" UINT32_MAX xs] by (cases xs) auto

text \<open>A level with one order, a level with an order appended.\<close>

lemma level_single:
  assumes "unat i < length s" "i \<noteq> UINT32_MAX" "strip ord = ord'" "body s i = ord'"
    "nxt s i = UINT32_MAX" "prv s i = UINT32_MAX" "side ord = sd" "price ord = p"
  shows "level_ok s sd p \<lparr>head_idx = i, tail_idx = i, level_count = 1,
    total_qty = remaining_qty ord\<rparr> [i]"
  using assms by (auto simp: level_ok_def)

lemma level_append:
  assumes l: "level_ok s sd p l xs" and i: "i \<notin> set xs" "unat i < length s'" "i \<noteq> UINT32_MAX"
    and nx: "nxt s' = (nxt s)(i := UINT32_MAX, tail_idx l := i)"
    and pv: "prv s' = (prv s)(i := tail_idx l)"
    and bd: "body s' = (body s)(i := strip ord)" and len: "length s' = length s"
    and ord: "side ord = sd" "price ord = p"
  shows "level_ok s' sd p (l\<lparr>tail_idx := i, level_count := level_count l + 1,
    total_qty := total_qty l + remaining_qty ord\<rparr>) (xs @ [i])"
proof -
  have t: "tail_idx l = last xs" "xs \<noteq> []" using l by (auto simp: level_ok_def)
  then have "last xs \<noteq> i" using i last_in_set by metis
  then have nx': "nxt s' = (nxt s)(last xs := i, i := UINT32_MAX)"
    using nx t by (auto simp: fun_upd_twist)
  have "dll (nxt s') (prv s') UINT32_MAX (xs @ [i]) UINT32_MAX"
    unfolding nx' pv t(1) using l i t by (intro dll_snoc) (auto simp: level_ok_def)
  moreover have "(\<Sum>j\<leftarrow>xs. remaining_qty (body s' j)) = (\<Sum>j\<leftarrow>xs. remaining_qty (body s j))"
    using i bd by (intro arg_cong [of _ _ sum_list] map_cong) auto
  ultimately show ?thesis
    using l i t ord len bd by (auto simp: level_ok_def)
qed

text \<open>A level with an order unlinked.\<close>

lemma level_unlink:
  assumes l: "level_ok s sd p l (as @ x # bs)" and ne: "as @ bs \<noteq> []"
    and nx: "\<And>y. y \<in> set as \<union> set bs \<Longrightarrow>
      nxt s' y = (if as \<noteq> [] \<and> y = last as then hd (bs @ [UINT32_MAX]) else nxt s y)"
    and pv: "\<And>y. y \<in> set as \<union> set bs \<Longrightarrow>
      prv s' y = (if bs \<noteq> [] \<and> y = hd bs then last (UINT32_MAX # as) else prv s y)"
    and bd: "\<And>y. y \<in> set as \<union> set bs \<Longrightarrow> body s' y = body s y" and len: "length s' = length s"
  shows "level_ok s' sd p
    (l\<lparr>head_idx := (if as = [] then hd bs else head_idx l),
       tail_idx := (if bs = [] then last as else tail_idx l),
       level_count := level_count l - 1,
       total_qty := total_qty l - remaining_qty (body s x)\<rparr>) (as @ bs)"
proof -
  have d: "dll (nxt s) (prv s) UINT32_MAX (as @ x # bs) UINT32_MAX" "distinct (as @ x # bs)"
    using l by (simp_all add: level_ok_def)
  have "dll (nxt s') (prv s') UINT32_MAX (as @ bs) UINT32_MAX"
    by (rule dll_unlink [OF d]) (use nx pv in auto)
  moreover have "(\<Sum>i\<leftarrow>as @ bs. remaining_qty (body s' i)) = (\<Sum>i\<leftarrow>as @ bs. remaining_qty (body s i))"
    using bd by (intro arg_cong [of _ _ sum_list] map_cong) auto
  moreover have "(of_nat (length (as @ x # bs)) :: u32) - 1 = of_nat (length (as @ bs))"
    by simp
  ultimately show ?thesis
    using l ne bd len sum_list_remove [of "\<lambda>i. remaining_qty (body s i)" as x bs]
    unfolding level_ok_def by auto
qed

text \<open>A level with one order's remaining quantity reduced.\<close>

lemma level_reduce:
  assumes l: "level_ok s sd p l xs" and x: "x \<in> set xs"
    and nx: "nxt s' = nxt s" and pv: "prv s' = prv s" and len: "length s' = length s"
    and bd: "body s' = (body s)(x := r)"
    and r: "remaining_qty r = remaining_qty (body s x) - amt" "price r = p" "side r = sd"
  shows "level_ok s' sd p (l\<lparr>total_qty := total_qty l - amt\<rparr>) xs"
proof -
  obtain as bs where xs: "xs = as @ x # bs" using x by (auto simp: in_set_conv_decomp)
  have "x \<notin> set as" "x \<notin> set bs" using l xs by (auto simp: level_ok_def)
  then have "(\<Sum>i\<leftarrow>as. remaining_qty (body s' i)) = (\<Sum>i\<leftarrow>as. remaining_qty (body s i))"
    "(\<Sum>i\<leftarrow>bs. remaining_qty (body s' i)) = (\<Sum>i\<leftarrow>bs. remaining_qty (body s i))"
    using bd by (intro arg_cong [of _ _ sum_list] map_cong; auto)+
  then have "sum_list (map (\<lambda>i. remaining_qty (body s' i)) xs)
      = sum_list (map (\<lambda>i. remaining_qty (body s i)) xs) - amt"
    using bd r by (simp add: xs algebra_simps)
  then show ?thesis
    using l nx pv len bd r by (auto simp: level_ok_def)
qed

section \<open>The two sides\<close>

text \<open>The comparator of a side, and its levels: bids from the highest price, asks from the lowest.\<close>

definition blt :: "side \<Rightarrow> u32 \<Rightarrow> u32 \<Rightarrow> bool" where
  [code_eval]: "blt sd = (if sd = BUY then (>) else (<))"

definition lv :: "side \<Rightarrow> order_book \<Rightarrow> levels" where
  [code_eval]: "lv sd b = (if sd = BUY then bids b else asks b)"

interpretation side_order: map_order "blt sd" for sd
  by unfold_locales (auto simp: blt_def split: if_splits)

lemma lv_set_level [simp]:
  "lv sd (set_level sd p l b) = omap_put (blt sd) p l (lv sd b)"
  "(sd = BUY) \<noteq> (sd' = BUY) \<Longrightarrow> lv sd' (set_level sd p l b) = lv sd' b"
  by (auto simp: lv_def set_level_def blt_def)

lemma set_level_fields [simp]:
  "ob_pool (set_level sd p l b) = ob_pool b" "ob_index (set_level sd p l b) = ob_index b"
  by (auto simp: set_level_def)

lemma lv_fields [simp]: "lv sd (b\<lparr>ob_pool := p\<rparr>) = lv sd b" "lv sd (b\<lparr>ob_index := ix\<rparr>) = lv sd b"
  by (auto simp: lv_def)

lemma level_ref_lv: "level_ref sd p b = omap_ref default_level p (lv sd b)"
  by (simp add: level_ref_def lv_def)

definition slots_of :: "('k \<Rightarrow> u32 list) \<Rightarrow> u32 set" where
  "slots_of g = (\<Union>p. set (g p))"

definition side_ok :: "order list \<Rightarrow> side \<Rightarrow> levels \<Rightarrow> (u32 \<Rightarrow> u32 list) \<Rightarrow> bool" where
  "side_ok s sd m g \<longleftrightarrow> side_order.srt sd m \<and>
     (\<forall>p. case map_of m p of None \<Rightarrow> g p = [] | Some l \<Rightarrow> level_ok s sd p l (g p))"

lemma side_level:
  assumes "side_ok s sd m g" "i \<in> set (g p)"
  obtains l where "map_of m p = Some l" "level_ok s sd p l (g p)"
  using assms unfolding side_ok_def by (auto split: option.splits dest!: spec [of _ p])

lemma side_slot:
  assumes "side_ok s sd m g" "i \<in> set (g p)"
  shows "price (body s i) = p" "side (body s i) = sd" "unat i < length s" "i \<noteq> UINT32_MAX"
  using side_level [OF assms] assms(2) by (auto simp: level_ok_def)

lemma slots_of_clear: "slots_of (g(p := [])) \<subseteq> slots_of g"
  by (auto simp: slots_of_def split: if_splits)

lemma side_slot_clear:
  assumes "side_ok s sd m g" "i \<in> set (g p)"
  shows "i \<notin> slots_of (g(p := []))"
  using side_slot(1) [OF assms] side_slot(1) [OF assms(1)] by (auto simp: slots_of_def)

lemma side_ok_agree:
  assumes "agree s s' (slots_of g)"
  shows "side_ok s' sd m g = side_ok s sd m g"
proof -
  have "level_ok s' sd p l (g p) = level_ok s sd p l (g p)" for p l
    by (rule level_ok_agree) (rule agree_mono [OF assms], auto simp: slots_of_def)
  then show ?thesis by (simp add: side_ok_def cong: option.case_cong)
qed

lemma side_ok_put:
  assumes ok: "side_ok s sd m g" and agr: "agree s s' (slots_of (g(p := [])))"
    and lev: "level_ok s' sd p l xs"
  shows "side_ok s' sd (omap_put (blt sd) p l m) (g(p := xs))"
  unfolding side_ok_def
proof (intro conjI allI)
  show "side_order.srt sd (omap_put (blt sd) p l m)"
    using ok by (intro side_order.srt_put) (simp add: side_ok_def)
  fix q
  have "level_ok s' sd q l' (g q) = level_ok s sd q l' (g q)" if "q \<noteq> p" for l'
    by (rule level_ok_agree) (rule agree_mono [OF agr], use that in \<open>auto simp: slots_of_def\<close>)
  moreover have "case map_of m q of None \<Rightarrow> g q = [] | Some l \<Rightarrow> level_ok s sd q l (g q)"
    using ok by (auto simp: side_ok_def)
  ultimately show "case map_of (omap_put (blt sd) p l m) q of
      None \<Rightarrow> (g(p := xs)) q = [] | Some l \<Rightarrow> level_ok s' sd q l ((g(p := xs)) q)"
    using lev by (cases "q = p") (auto split: option.splits)
qed

lemma side_ok_del:
  assumes ok: "side_ok s sd m g" and agr: "agree s s' (slots_of (g(p := [])))"
  shows "side_ok s' sd (omap_del p m) (g(p := []))"
  unfolding side_ok_def
proof (intro conjI allI)
  have srt: "side_order.srt sd m" using ok by (simp add: side_ok_def)
  then show "side_order.srt sd (omap_del p m)" by (rule side_order.srt_del)
  fix q
  have "level_ok s' sd q l' (g q) = level_ok s sd q l' (g q)" if "q \<noteq> p" for l'
    by (rule level_ok_agree) (rule agree_mono [OF agr], use that in \<open>auto simp: slots_of_def\<close>)
  moreover have "case map_of m q of None \<Rightarrow> g q = [] | Some l \<Rightarrow> level_ok s sd q l (g q)"
    using ok by (auto simp: side_ok_def)
  ultimately show "case map_of (omap_del p m) q of
      None \<Rightarrow> (g(p := [])) q = [] | Some l \<Rightarrow> level_ok s' sd q l ((g(p := [])) q)"
    using side_order.map_of_omap_del [OF srt, of p] by (cases "q = p") (auto split: option.splits)
qed

text \<open>The slots of a side in price-time priority.\<close>

definition queue_of :: "levels \<Rightarrow> (u32 \<Rightarrow> u32 list) \<Rightarrow> u32 list" where
  "queue_of m g = concat (map (\<lambda>e. g (fst e)) m)"

lemma queue_of_simps [simp]:
  "queue_of [] g = []" "queue_of ((p, l) # m) g = g p @ queue_of m g"
  by (simp_all add: queue_of_def)

lemma set_queue_of: "side_ok s sd m g \<Longrightarrow> set (queue_of m g) = slots_of g"
proof -
  assume ok: "side_ok s sd m g"
  have "\<exists>e\<in>set m. fst e = p" if "i \<in> set (g p)" for i p
    using side_level [OF ok that] by (metis fst_conv map_of_SomeD)
  then show ?thesis by (fastforce simp: queue_of_def slots_of_def)
qed

lemma queue_of_cong: "(\<And>p l. (p, l) \<in> set m \<Longrightarrow> g p = g' p) \<Longrightarrow> queue_of m g = queue_of m g'"
  unfolding queue_of_def by (rule arg_cong [of _ _ concat]) auto

lemma queue_of_put:
  assumes ok: "side_ok s sd m g"
  shows "queue_of (omap_put (blt sd) p l m) (g(p := xs)) =
      queue_of (takeWhile (\<lambda>e. blt sd (fst e) p) m) g @ xs @
      queue_of (dropWhile (\<lambda>e. blt sd (fst e) p \<or> fst e = p) m) g"
  unfolding queue_of_def
  by (rule side_order.concat_put) (use ok in \<open>auto simp: side_ok_def split: option.splits dest!: spec [of _ p]\<close>)

lemma queue_of_split:
  assumes ok: "side_ok s sd m g"
  shows "queue_of m g =
      queue_of (takeWhile (\<lambda>e. blt sd (fst e) p) m) g @ g p @
      queue_of (dropWhile (\<lambda>e. blt sd (fst e) p \<or> fst e = p) m) g"
proof (cases "map_of m p")
  case None
  have g: "g p = []" using ok None by (auto simp: side_ok_def split: option.splits dest!: spec [of _ p])
  have "dropWhile (\<lambda>e. blt sd (fst e) p \<or> fst e = p) m = dropWhile (\<lambda>e. blt sd (fst e) p) m"
    using None by (intro dropWhile_cong) (auto simp: map_of_eq_None_iff)
  then show ?thesis using g
    by (metis (no_types, lifting) append_Nil concat_append map_append queue_of_def takeWhile_dropWhile_id)
next
  case (Some l)
  have "omap_put (blt sd) p l m = m"
    using ok Some by (intro side_order.put_same) (auto simp: side_ok_def)
  then show ?thesis using queue_of_put [OF ok, of p l "g p"] by simp
qed

lemma queue_of_del:
  assumes "side_ok s sd m g" "g' p = []"
  shows "queue_of (omap_del p m) g' = queue_of m g'"
  using assms(2) by (induction m) auto

text \<open>Along the queue the price never gets better.\<close>

lemma queue_sorted:
  assumes "side_ok s sd m g"
  shows "sorted_wrt (\<lambda>i j. \<not> blt sd (price (body s j)) (price (body s i))) (queue_of m g)"
proof -
  have pr: "i \<in> set (g p) \<Longrightarrow> price (body s i) = p" for p i using side_slot [OF assms] by blast
  have "side_order.srt sd m" using assms by (simp add: side_ok_def)
  then show ?thesis
  proof (induction m)
    case (Cons e m)
    obtain p l where e: "e = (p, l)" by (cases e)
    have "sorted_wrt (\<lambda>i j. \<not> blt sd (price (body s j)) (price (body s i))) (g p)"
      using pr side_order.irrefl [of sd p] by (intro sorted_wrt_all) auto
    moreover have "\<not> blt sd (price (body s j)) (price (body s i))" if "i \<in> set (g p)" "j \<in> set (queue_of m g)" for i j
      using that pr Cons.prems e side_order.asym by (fastforce simp: queue_of_def)
    ultimately show ?case using Cons e by (auto simp: sorted_wrt_append)
  qed simp
qed

lemma body_field:
  "user_id (s ! unat i) = user_id (body s i)" "order_id (s ! unat i) = order_id (body s i)"
  "side (s ! unat i) = side (body s i)" "price (s ! unat i) = price (body s i)"
  "original_qty (s ! unat i) = original_qty (body s i)" "remaining_qty (s ! unat i) = remaining_qty (body s i)"
  "filled_qty (s ! unat i) = filled_qty (body s i)" "sequence (s ! unat i) = sequence (body s i)"
  "status (s ! unat i) = status (body s i)"
  by (simp_all add: body_def)

section \<open>The book\<close>

type_synonym ghost = "side \<Rightarrow> u32 \<Rightarrow> u32 list"

definition live :: "ghost \<Rightarrow> u32 set" where
  "live g = slots_of (g BUY) \<union> slots_of (g SELL)"

abbreviation slots :: "order_book \<Rightarrow> order list" where
  "slots b \<equiv> storage (ob_pool b)"

definition book_ok :: "order_book \<Rightarrow> ghost \<Rightarrow> u32 list \<Rightarrow> u32 set \<Rightarrow> bool" where
  "book_ok b g F Oth \<longleftrightarrow> pool_ok (ob_pool b) F \<and>
     (\<forall>sd\<in>{BUY, SELL}. side_ok (slots b) sd (lv sd b) (g sd)) \<and>
     live g \<inter> Oth = {} \<and> (live g \<union> Oth) \<inter> set F = {} \<and> (\<forall>i\<in>Oth. unat i < length (slots b)) \<and>
     order_map.indexes (ob_index b) (live g \<union> Oth) (\<lambda>i. order_id (body (slots b) i))"

definition opposite :: "side \<Rightarrow> side" where
  [code_eval]: "opposite sd = (if sd = BUY then SELL else BUY)"

lemma book_slot:
  assumes "book_ok b g F Oth" "sd \<in> {BUY, SELL}" "i \<in> set (g sd p)"
  shows "price (body (slots b) i) = p" "side (body (slots b) i) = sd" "unat i < length (slots b)"
    "i \<noteq> UINT32_MAX" "i \<in> live g" "i \<notin> set F" "i \<notin> Oth"
proof -
  have s: "side_ok (slots b) sd (lv sd b) (g sd)" using assms by (auto simp: book_ok_def)
  show "price (body (slots b) i) = p" "side (body (slots b) i) = sd" "unat i < length (slots b)"
    "i \<noteq> UINT32_MAX" using side_slot [OF s assms(3)] by auto
  show l: "i \<in> live g" using assms by (auto simp: live_def slots_of_def)
  show "i \<notin> set F" "i \<notin> Oth" using l assms(1) by (auto simp: book_ok_def)
qed

lemma book_live:
  assumes "book_ok b g F Oth" "i \<in> live g"
  shows "i \<in> set (g (side (body (slots b) i)) (price (body (slots b) i)))"
    "side (body (slots b) i) \<in> {BUY, SELL}"
proof -
  obtain sd p where sd: "sd \<in> {BUY, SELL}" "i \<in> set (g sd p)"
    using assms(2) by (auto simp: live_def slots_of_def)
  from book_slot(1,2) [OF assms(1) this] sd
  show "i \<in> set (g (side (body (slots b) i)) (price (body (slots b) i)))"
    "side (body (slots b) i) \<in> {BUY, SELL}" by auto
qed

lemma opposite_side: "sd \<in> {BUY, SELL} \<Longrightarrow> opposite sd \<in> {BUY, SELL} \<and> opposite sd \<noteq> sd"
  by (auto simp: opposite_def)

lemma live_sides: "sd \<in> {BUY, SELL} \<Longrightarrow> live g = slots_of (g sd) \<union> slots_of (g (opposite sd))"
  by (auto simp: live_def opposite_def)

lemma book_sides_disjoint:
  assumes "book_ok b g F Oth" "sd \<in> {BUY, SELL}"
  shows "slots_of (g sd) \<inter> slots_of (g (opposite sd)) = {}"
proof -
  have False if "j \<in> set (g sd p)" "j \<in> set (g (opposite sd) q)" for j p q
    using book_slot(2) [OF assms that(1)] opposite_side [OF assms(2)]
      book_slot(2) [OF assms(1) _ that(2)] by metis
  then show ?thesis by (auto simp: slots_of_def)
qed

lemma book_level:
  assumes "book_ok b g F Oth" "sd \<in> {BUY, SELL}" "i \<in> set (g sd p)"
  obtains l where "map_of (lv sd b) p = Some l" "level_ok (slots b) sd p l (g sd p)"
    "level_ref sd p b = l"
proof -
  have s: "side_ok (slots b) sd (lv sd b) (g sd)" using assms by (auto simp: book_ok_def)
  show ?thesis using side_level [OF s assms(3)] that by (metis level_ref_lv omap_ref_def option.case(2))
qed

lemma book_other_side:
  assumes "book_ok b g F Oth" "sd \<in> {BUY, SELL}" "agree (slots b) s' (slots_of (g sd))"
  shows "side_ok s' sd (lv sd b) (g sd)"
  using assms side_ok_agree [OF assms(3)] by (auto simp: book_ok_def)

text \<open>Order numbers identify the live slots.\<close>

lemma book_find:
  assumes "book_ok b g F Oth" "i \<in> live g \<union> Oth"
  shows "findOrder (order_id (body (slots b) i)) b = Some (Some i)"
  unfolding findOrder_def
  by (rule order_map.indexes_look [where key = "\<lambda>i. order_id (body (slots b) i)"])
    (use assms in \<open>auto simp: book_ok_def\<close>)

lemma book_find_absent:
  assumes "book_ok b g F Oth" "k \<notin> (\<lambda>i. order_id (body (slots b) i)) ` (live g \<union> Oth)"
  shows "findOrder k b = Some None"
  unfolding findOrder_def
  by (rule order_map.indexes_absent [OF _ assms(2)]) (use assms in \<open>auto simp: book_ok_def\<close>)

lemma book_inj:
  assumes "book_ok b g F Oth" "i \<in> live g \<union> Oth" "j \<in> live g \<union> Oth"
    "order_id (body (slots b) i) = order_id (body (slots b) j)"
  shows "i = j"
  by (rule order_map.indexes_inj [where key = "\<lambda>i. order_id (body (slots b) i)"])
    (use assms in \<open>auto simp: book_ok_def\<close>)

text \<open>One bundle for the changed side, so that an operation only argues about its level.\<close>

lemma book_ok_upd:
  assumes ok: "book_ok b g F Oth" and sd: "sd \<in> {BUY, SELL}"
    and side: "side_ok (slots b') sd (lv sd b') (g' sd)" "slots_of (g' sd) \<union> slots_of (g sd) \<subseteq> X"
    and other: "lv (opposite sd) b' = lv (opposite sd) b" "g' (opposite sd) = g (opposite sd)"
      "agree (slots b) (slots b') (live g \<union> Oth - X)" "X \<inter> slots_of (g (opposite sd)) = {}" "X \<inter> Oth = {}"
    and pool: "pool_ok (ob_pool b') F'" "(live g' \<union> Oth) \<inter> set F' = {}"
    and idx: "order_map.indexes (ob_index b') (live g' \<union> Oth) (\<lambda>i. order_id (body (slots b') i))"
  shows "book_ok b' g' F' Oth \<and> agree (slots b) (slots b') Oth"
proof
  show a: "agree (slots b) (slots b') Oth"
    using other(3,5) by (rule_tac agree_mono) auto
  have opp: "opposite sd \<in> {BUY, SELL}" "opposite sd \<noteq> sd" using sd by (auto simp: opposite_def)
  have liv: "live h = slots_of (h sd) \<union> slots_of (h (opposite sd))" for h
    using sd by (auto simp: live_def opposite_def)
  have "agree (slots b) (slots b') (slots_of (g (opposite sd)))"
    by (rule agree_mono [OF other(3)]) (use other(4) liv in auto)
  from book_other_side [OF ok opp(1) this]
  have "side_ok (slots b') (opposite sd) (lv (opposite sd) b') (g' (opposite sd))"
    using other by simp
  then have s: "\<forall>sd\<in>{BUY, SELL}. side_ok (slots b') sd (lv sd b') (g' sd)"
    using side(1) sd by (auto simp: opposite_def split: if_splits)
  have l: "length (slots b') = length (slots b)" using a by (simp add: agree_def)
  have "live g' \<inter> Oth = {}"
    using liv side(2) other(2,5) ok by (auto simp: book_ok_def)
  then show "book_ok b' g' F' Oth"
    using s a pool idx ok l by (auto simp: book_ok_def)
qed

end
