(* ===== verification/Ex_Book_Ops.thy ===== *)
theory Ex_Book_Ops
  imports Ex_Book_Inv
begin

text \<open>
  The operations of the exchange book under its invariant: each one has a result, keeps the
  invariant, leaves the slots of the other books alone (\<open>agree\<close>) and changes the ghost and the
  orders as stated.
\<close>

section \<open>Adding\<close>

lemma addOrder_invalid: "side ord = INVALID \<Longrightarrow> addOrder ord b = Some (False, b)"
  by (simp add: addOrder_def)

lemma addOrder_full:
  assumes "book_ok b g [] Oth" "side ord \<noteq> INVALID"
  shows "addOrder ord b = Some (False, b)"
  using assms pool_allocate_empty [of "ob_pool b"] by (simp add: addOrder_def book_ok_def)

definition ghost_add :: "side \<Rightarrow> u32 \<Rightarrow> u32 \<Rightarrow> ghost \<Rightarrow> ghost" where
  "ghost_add sd p i g = g(sd := (g sd)(p := g sd p @ [i]))"

lemma slots_of_add: "slots_of ((g sd)(p := g sd p @ [i])) = insert i (slots_of (g sd))"
  by (fastforce simp: slots_of_def split: if_splits)

lemma live_add: "sd \<in> {BUY, SELL} \<Longrightarrow> live (ghost_add sd p i g) = insert i (live g)"
  using slots_of_add [of g sd p i] by (auto simp: live_def ghost_add_def)

text \<open>The new slot \<open>i\<close> at the end of one level: what is left to show of the book.\<close>

lemma book_ok_add:
  assumes ok: "book_ok b g (i # F) Oth" and S: "sd \<in> {BUY, SELL}"
    and b': "pool_ok (ob_pool b') F" "lv (opposite sd) b' = lv (opposite sd) b" "body (slots b') = (body (slots b))(i := r)"
    and ix: "order_map.indexes (ob_index b') (insert i (live g \<union> Oth)) ((\<lambda>j. order_id (body (slots b) j))(i := order_id r))"
    and lev: "side_ok (slots b') sd (lv sd b') ((g sd)(p := g sd p @ [i]))"
    and agr: "agree (slots b) (slots b') (live g \<union> Oth - insert i (slots_of (g sd)))"
  shows "book_ok b' (ghost_add sd p i g) F Oth \<and> agree (slots b) (slots b') Oth"
proof -
  have pk: "pool_ok (ob_pool b) (i # F)" and dis: "(live g \<union> Oth) \<inter> set (i # F) = {}" using ok by (auto simp: book_ok_def)
  have iF: "i \<notin> set F" using pool_ok_distinct [OF pk] by auto
  have opp: "opposite sd \<noteq> sd" "opposite sd \<in> {BUY, SELL}" using opposite_side [OF S] by auto
  have disj: "insert i (slots_of (g sd)) \<inter> slots_of (g (opposite sd)) = {}"
    using dis book_sides_disjoint [OF ok S] live_sides [OF S, of g] by auto
  have disj2: "insert i (slots_of (g sd)) \<inter> Oth = {}"
    using dis ok S by (auto simp: book_ok_def live_def)
  define h where "h = ghost_add sd p i g"
  have hs: "h sd = (g sd)(p := g sd p @ [i])" "h (opposite sd) = g (opposite sd)"
    using opp by (auto simp: h_def ghost_add_def)
  have hl: "live h = insert i (live g)" "slots_of (h sd) = insert i (slots_of (g sd))"
    using live_add [OF S] slots_of_add [of g sd p i] hs by (simp_all add: h_def)
  have "(\<lambda>j. order_id (((body (slots b))(i := r)) j)) = (\<lambda>j. order_id (body (slots b) j))(i := order_id r)" by auto
  then have ixl: "order_map.indexes (ob_index b') (live h \<union> Oth) (\<lambda>j. order_id (body (slots b') j))"
    using ix unfolding hl b'(3) by simp
  show ?thesis unfolding h_def [symmetric]
    by (rule book_ok_upd [OF ok S _ _ b'(2) hs(2) agr disj disj2 b'(1) _ ixl])
      (use lev hs hl iF dis in auto)
qed

text \<open>The writes to the pool: the only order of its level, or one behind the last.\<close>

lemma add_alone:
  assumes q: "pool_ok q F" "i \<notin> set F" "unat i < length (storage q)" "i \<noteq> UINT32_MAX"
    and side: "side_ok (storage q) (side ord) m h" and h: "i \<notin> slots_of (h(price ord := []))"
  defines "l \<equiv> \<lparr>head_idx = i, tail_idx = i, level_count = 1, total_qty = remaining_qty ord\<rparr>"
  obtains q1 q2 where "pool_put i (\<lambda>_. ord) q = Some q1"
    "pool_put i (\<lambda>s. s\<lparr>prev_idx := UINT32_MAX, next_idx := UINT32_MAX\<rparr>) q1 = Some q2" "pool_ok q2 F"
    "body (storage q2) = (body (storage q))(i := strip ord)" "\<forall>X. i \<notin> X \<longrightarrow> agree (storage q) (storage q2) X"
    "side_ok (storage q2) (side ord) (omap_put (blt (side ord)) (price ord) l m) (h(price ord := [i]))"
proof -
  define q1 where "q1 = put_slot i (\<lambda>_. ord) q"
  define q2 where "q2 = put_slot i (\<lambda>s. s\<lparr>prev_idx := UINT32_MAX, next_idx := UINT32_MAX\<rparr>) q1"
  have q1: "pool_put i (\<lambda>_. ord) q = Some q1" "pool_ok q1 F" "length (storage q1) = length (storage q)"
    using q by (auto simp: q1_def pool_put_slot intro!: put_slot_ok)
  have q2: "pool_put i (\<lambda>s. s\<lparr>prev_idx := UINT32_MAX, next_idx := UINT32_MAX\<rparr>) q1 = Some q2" "pool_ok q2 F"
    using q(3) q1 by (auto simp: q2_def pool_put_slot intro!: put_slot_ok)
  have bd: "body (storage q2) = (body (storage q))(i := strip ord)"
    "nxt (storage q2) i = UINT32_MAX" "prv (storage q2) i = UINT32_MAX" "length (storage q2) = length (storage q)"
    using q(3) q1(3) by (simp_all add: q2_def put_slot_views put_slot_body q1_def strip_def)
  have agr: "agree (storage q) (storage q2) X" if "i \<notin> X" for X
    using that q(3) q1(3) unfolding q2_def q1_def by (intro agree_trans [OF put_slot_agree [of i q] put_slot_agree]) auto
  have "level_ok (storage q2) (side ord) (price ord) l [i]"
    using bd q(3,4) unfolding l_def by (intro level_single [where ord' = "strip ord"]) auto
  then have "side_ok (storage q2) (side ord) (omap_put (blt (side ord)) (price ord) l m) (h(price ord := [i]))"
    by (intro side_ok_put [OF side] agr) (use h in auto)
  then show ?thesis using that q1(1) q2 bd(1) agr by blast
qed

lemma add_behind:
  assumes q: "pool_ok q F" "i \<notin> set F" "unat i < length (storage q)" "i \<noteq> UINT32_MAX"
    and side: "side_ok (storage q) (side ord) m h" and h: "i \<notin> slots_of h"
    and l: "level_ok (storage q) (side ord) (price ord) l (h (price ord))"
    and t: "tail_idx l \<notin> set F" "unat (tail_idx l) < length (storage q)"
  defines "l' \<equiv> l\<lparr>tail_idx := i, level_count := level_count l + 1, total_qty := total_qty l + remaining_qty ord\<rparr>"
  obtains q1 q2 q3 where "pool_put i (\<lambda>_. ord) q = Some q1"
    "pool_put i (\<lambda>s. s\<lparr>prev_idx := tail_idx l, next_idx := UINT32_MAX\<rparr>) q1 = Some q2"
    "pool_put (tail_idx l) (\<lambda>s. s\<lparr>next_idx := i\<rparr>) q2 = Some q3" "pool_ok q3 F"
    "body (storage q3) = (body (storage q))(i := strip ord)" "\<forall>X. i \<notin> X \<longrightarrow> tail_idx l \<notin> X \<longrightarrow> agree (storage q) (storage q3) X"
    "side_ok (storage q3) (side ord) (omap_put (blt (side ord)) (price ord) l' m) (h(price ord := h (price ord) @ [i]))"
proof -
  let ?t = "tail_idx l"
  have tx: "?t \<in> set (h (price ord))" using l by (auto simp: level_ok_def)
  then have ti: "?t \<noteq> i" "i \<notin> set (h (price ord))" using h by (auto simp: slots_of_def)
  define q1 where "q1 = put_slot i (\<lambda>_. ord) q"
  define q2 where "q2 = put_slot i (\<lambda>s. s\<lparr>prev_idx := ?t, next_idx := UINT32_MAX\<rparr>) q1"
  define q3 where "q3 = put_slot ?t (\<lambda>s. s\<lparr>next_idx := i\<rparr>) q2"
  have q1: "pool_put i (\<lambda>_. ord) q = Some q1" "pool_ok q1 F" "length (storage q1) = length (storage q)"
    using q by (auto simp: q1_def pool_put_slot intro!: put_slot_ok)
  have q2: "pool_put i (\<lambda>s. s\<lparr>prev_idx := ?t, next_idx := UINT32_MAX\<rparr>) q1 = Some q2" "pool_ok q2 F"
    using q(3) q1 by (auto simp: q2_def pool_put_slot intro!: put_slot_ok)
  have q3: "pool_put ?t (\<lambda>s. s\<lparr>next_idx := i\<rparr>) q2 = Some q3" "pool_ok q3 F"
    using t q1 q2 by (auto simp: q3_def q2_def pool_put_slot intro!: put_slot_ok)
  have bd: "body (storage q3) = (body (storage q))(i := strip ord)"
    "nxt (storage q3) = (nxt (storage q))(i := UINT32_MAX, ?t := i)"
    "prv (storage q3) = (prv (storage q))(i := ?t)" "length (storage q3) = length (storage q)"
    using q(3) t ti(1) q1(3)
    by (auto simp: q3_def q2_def put_slot_views put_slot_body q1_def strip_def body_def nxt_def prv_def fun_eq_iff)
  have agr: "agree (storage q) (storage q3) X" if "i \<notin> X" "?t \<notin> X" for X
    using that bd by (auto simp: agree_def)
  have "level_ok (storage q3) (side ord) (price ord) l' (h (price ord) @ [i])"
    using bd q(3,4) ti(2) unfolding l'_def by (intro level_append [OF l]) auto
  then have "side_ok (storage q3) (side ord) (omap_put (blt (side ord)) (price ord) l' m) (h(price ord := h (price ord) @ [i]))"
    by (intro side_ok_put [OF side] agr) (use h side_slot_clear [OF side tx] slots_of_clear [of h "price ord"] in auto)
  then show ?thesis using that q1(1) q2(1) q3 bd(1) agr by blast
qed

lemma addOrder_ok:
  assumes ok: "book_ok b g (i # F) Oth" and sd: "side ord \<in> {BUY, SELL}"
    and fresh: "order_id ord \<notin> (\<lambda>j. order_id (body (slots b) j)) ` (live g \<union> Oth)"
    and room: "om_room (ob_index b) (order_id ord)"
  shows "\<exists>b'. addOrder ord b = Some (True, b') \<and>
     book_ok b' (ghost_add (side ord) (price ord) i g) F Oth \<and>
     agree (slots b) (slots b') Oth \<and> body (slots b') = (body (slots b))(i := strip ord)"
proof -
  let ?s = "side ord" and ?p = "price ord"
  have inv: "?s \<noteq> INVALID" using sd by auto
  have pk: "pool_ok (ob_pool b) (i # F)" and dis: "(live g \<union> Oth) \<inter> set (i # F) = {}"
    and side: "side_ok (slots b) ?s (lv ?s b) (g ?s)"
    using ok sd by (auto simp: book_ok_def)
  obtain q0 where al: "pool_allocate (ob_pool b) = Some (Some i, q0)" and q0: "pool_ok q0 F" and s0: "storage q0 = slots b"
    using pool_allocate_take [OF pk] by simp
  have iF: "i \<notin> set F" and ilt: "unat i < length (storage q0)" and inl: "i \<notin> live g" "i \<notin> Oth"
    using pool_ok_distinct [OF pk] pool_ok_bound [OF pk] dis s0 by auto
  have inn: "i \<noteq> UINT32_MAX" using pk ilt s0 by (intro slot_not_null) (auto simp: pool_ok_def)
  have isl: "i \<notin> slots_of (g ?s)" using inl live_sides [OF sd, of g] by auto
  then have iclr: "i \<notin> slots_of ((g ?s)(?p := []))" using slots_of_clear [of "g ?s" ?p] by auto
  note side0 = side [folded s0]
  obtain ix where ix: "om_insert (order_id ord) (Some i) (ob_index b) = Some (True, ix)"
    and ixs: "order_map.indexes ix (insert i (live g \<union> Oth)) ((\<lambda>j. order_id (body (slots b) j))(i := order_id (strip ord)))"
    using order_map.indexes_ins [OF _ fresh, of "ob_index b" i] ok inl room by (auto simp: book_ok_def)
  have lvo: "lv (opposite ?s) (set_level ?s ?p l (b\<lparr>ob_pool := q, ob_index := ix\<rparr>)) = lv (opposite ?s) b" for l q
    using sd by (auto simp: opposite_def)
  have fin: "\<exists>b'. Some (True, set_level ?s ?p l (b\<lparr>ob_pool := q, ob_index := ix\<rparr>)) = Some (True, b') \<and>
      book_ok b' (ghost_add ?s ?p i g) F Oth \<and> agree (slots b) (slots b') Oth \<and> body (slots b') = (body (slots b))(i := strip ord)"
    if "pool_ok q F" "body (storage q) = (body (slots b))(i := strip ord)"
      "side_ok (storage q) ?s (omap_put (blt ?s) ?p l (lv ?s b)) ((g ?s)(?p := g ?s ?p @ [i]))"
      "agree (slots b) (storage q) (live g \<union> Oth - insert i (slots_of (g ?s)))" for l q
    using book_ok_add [where r = "strip ord" and p = ?p, OF ok sd _ lvo [of l q]] that ixs by auto
  show ?thesis
  proof (cases "g ?s ?p = []")
    case True
    then have "map_of (lv ?s b) ?p = None"
      using side by (auto simp: side_ok_def level_ok_def split: option.splits dest!: spec [of _ ?p])
    then have lr: "level_ref ?s ?p b = default_level" by (simp add: level_ref_lv omap_ref_def)
    obtain q1 q2 where p: "pool_put i (\<lambda>_. ord) q0 = Some q1"
      "pool_put i (\<lambda>s. s\<lparr>prev_idx := UINT32_MAX, next_idx := UINT32_MAX\<rparr>) q1 = Some q2" "pool_ok q2 F"
      "body (storage q2) = (body (slots b))(i := strip ord)" "\<forall>X. i \<notin> X \<longrightarrow> agree (slots b) (storage q2) X"
      "side_ok (storage q2) ?s (omap_put (blt ?s) ?p \<lparr>head_idx = i, tail_idx = i, level_count = 1, total_qty = remaining_qty ord\<rparr> (lv ?s b))
        ((g ?s)(?p := [i]))"
      by (rule add_alone [OF q0 iF ilt inn side0 iclr, unfolded s0])
    show ?thesis
      using fin [OF p(3,4) _ p(5) [rule_format]] p(1,2,6) True inv al ix lr by (simp add: addOrder_def default_level_def)
  next
    case False
    then obtain l where ml: "map_of (lv ?s b) ?p = Some l" and l: "level_ok (storage q0) ?s ?p l (g ?s ?p)"
      using side0 by (auto simp: side_ok_def split: option.splits dest!: spec [of _ ?p])
    then have lr: "level_ref ?s ?p b = l" by (simp add: level_ref_lv omap_ref_def)
    have cnt: "level_count l \<noteq> 0" by (rule level_count_pos [OF l]) (use q0 in \<open>simp add: pool_ok_def\<close>)
    have t: "tail_idx l \<in> set (g ?s ?p)" using l by (auto simp: level_ok_def)
    then have ts: "tail_idx l \<in> slots_of (g ?s)" "unat (tail_idx l) < length (storage q0)" "tail_idx l \<notin> set F"
      using book_slot [OF ok sd t] s0 dis by (auto simp: slots_of_def)
    obtain q1 q2 q3 where p: "pool_put i (\<lambda>_. ord) q0 = Some q1"
      "pool_put i (\<lambda>s. s\<lparr>prev_idx := tail_idx l, next_idx := UINT32_MAX\<rparr>) q1 = Some q2"
      "pool_put (tail_idx l) (\<lambda>s. s\<lparr>next_idx := i\<rparr>) q2 = Some q3" "pool_ok q3 F"
      "body (storage q3) = (body (slots b))(i := strip ord)"
      "\<forall>X. i \<notin> X \<longrightarrow> tail_idx l \<notin> X \<longrightarrow> agree (slots b) (storage q3) X"
      "side_ok (storage q3) ?s (omap_put (blt ?s) ?p
        (l\<lparr>tail_idx := i, level_count := level_count l + 1, total_qty := total_qty l + remaining_qty ord\<rparr>) (lv ?s b))
        ((g ?s)(?p := g ?s ?p @ [i]))"
      by (rule add_behind [OF q0 iF ilt inn side0 isl l ts(3,2), unfolded s0])
    show ?thesis
      using fin [OF p(4,5,7) p(6) [rule_format]] p(1-3) ts(1) inv al ix lr cnt by (simp add: addOrder_def)
  qed
qed

section \<open>Writing an order in place\<close>

lemma set_level_same:
  assumes "book_ok b g F Oth" "sd \<in> {BUY, SELL}" "map_of (lv sd b) p = Some l"
  shows "set_level sd p l b = b"
proof -
  have "omap_put (blt sd) p l (lv sd b) = lv sd b"
    using assms by (intro side_order.put_same) (auto simp: book_ok_def side_ok_def)
  then show ?thesis by (auto simp: set_level_def lv_def blt_def)
qed

lemma book_write:
  assumes ok: "book_ok b g F Oth" and x: "x \<in> set (g sd p)" and S: "sd \<in> {BUY, SELL}"
    and lr: "level_ref sd p b = l"
    and links: "next_idx (f (slots b ! unat x)) = next_idx (slots b ! unat x)"
      "prev_idx (f (slots b ! unat x)) = prev_idx (slots b ! unat x)"
      "pool_next_free (f (slots b ! unat x)) = pool_next_free (slots b ! unat x)"
    and keys: "order_id (f (slots b ! unat x)) = order_id (slots b ! unat x)"
      "price (f (slots b ! unat x)) = p" "side (f (slots b ! unat x)) = sd"
    and amt: "remaining_qty (f (slots b ! unat x)) = remaining_qty (slots b ! unat x) - amt"
  defines "b' \<equiv> set_level sd p (l\<lparr>total_qty := total_qty l - amt\<rparr>) (b\<lparr>ob_pool := put_slot x f (ob_pool b)\<rparr>)"
  shows "book_ok b' g F Oth \<and> agree (slots b) (slots b') Oth"
    and "body (slots b') = (body (slots b))(x := strip (f (slots b ! unat x)))"
proof -
  note xs = book_slot [OF ok S x]
  have side: "side_ok (slots b) sd (lv sd b) (g sd)" using ok S by (auto simp: book_ok_def)
  obtain l' where l: "map_of (lv sd b) p = Some l'" "level_ok (slots b) sd p l' (g sd p)"
    "level_ref sd p b = l'" by (rule book_level [OF ok S x])
  have ll: "l' = l" using l lr by simp
  show bd: "body (slots b') = (body (slots b))(x := strip (f (slots b ! unat x)))"
    using xs by (simp add: b'_def put_slot_body)
  have nv: "nxt (slots b') = nxt (slots b)" "prv (slots b') = prv (slots b)"
    "length (slots b') = length (slots b)"
    using xs links by (auto simp: b'_def put_slot_views nxt_def prv_def fun_eq_iff)
  have agr: "agree (slots b) (slots b') X" if "x \<notin> X" for X
    using that nv bd by (auto simp: agree_def)
  have "level_ok (slots b') sd p (l\<lparr>total_qty := total_qty l - amt\<rparr>) (g sd p)"
    by (rule level_reduce [OF _ x, where s = "slots b" and r = "strip (f (slots b ! unat x))"])
      (use l ll nv bd keys amt in \<open>auto simp: body_def\<close>)
  from side_ok_put [OF side agr [OF side_slot_clear [OF side x]] this]
  have sd': "side_ok (slots b') sd (lv sd b') (g sd)" by (simp add: b'_def)
  have opp: "opposite sd \<in> {BUY, SELL}" "opposite sd \<noteq> sd" using opposite_side [OF S] by auto
  have xo: "x \<in> slots_of (g sd)" using x by (auto simp: slots_of_def)
  have disj: "slots_of (g sd) \<inter> slots_of (g (opposite sd)) = {}" "slots_of (g sd) \<inter> Oth = {}"
    using book_sides_disjoint [OF ok S] ok live_sides [OF S, of g] by (auto simp: book_ok_def)
  have lvo: "lv (opposite sd) b' = lv (opposite sd) b"
    using opp S by (auto simp: b'_def opposite_def)
  have "order_map.indexes (ob_index b') (live g \<union> Oth) (\<lambda>i. order_id (body (slots b') i))
      = order_map.indexes (ob_index b) (live g \<union> Oth) (\<lambda>i. order_id (body (slots b) i))"
    unfolding bd by (simp add: b'_def, rule order_map.indexes_cong) (use keys in \<open>auto simp: body_def\<close>)
  then have ix: "order_map.indexes (ob_index b') (live g \<union> Oth) (\<lambda>i. order_id (body (slots b') i))"
    using ok by (simp add: book_ok_def)
  show "book_ok b' g F Oth \<and> agree (slots b) (slots b') Oth"
  proof (rule book_ok_upd [OF ok S sd' _ lvo refl _ disj _ _ ix])
    show "pool_ok (ob_pool b') F"
      using ok xs links by (auto simp: b'_def book_ok_def intro!: put_slot_ok)
  qed (use xo ok agr in \<open>auto simp: book_ok_def\<close>)
qed

text \<open>A fill of, and a partial cancel of, a live order.\<close>

definition fill :: "u32 \<Rightarrow> order \<Rightarrow> order" where
  [code_eval]: "fill amount r = r\<lparr>remaining_qty := remaining_qty r - amount, filled_qty := filled_qty r + amount\<rparr>"

definition shrink :: "u32 \<Rightarrow> order \<Rightarrow> order" where
  [code_eval]: "shrink amount r = r\<lparr>remaining_qty := remaining_qty r - amount\<rparr>"

definition mark :: "order_status \<Rightarrow> order \<Rightarrow> order" where
  [code_eval]: "mark st r = r\<lparr>status := st\<rparr>"

text \<open>What the three writes have in common: only quantities and the status change.\<close>

definition qty_write :: "(order \<Rightarrow> order) \<Rightarrow> u32 \<Rightarrow> bool" where
  "qty_write f amt \<longleftrightarrow> (\<forall>r. next_idx (f r) = next_idx r \<and> prev_idx (f r) = prev_idx r \<and>
     pool_next_free (f r) = pool_next_free r \<and> order_id (f r) = order_id r \<and> price (f r) = price r \<and>
     side (f r) = side r \<and> remaining_qty (f r) = remaining_qty r - amt \<and> strip (f r) = f (strip r))"

lemma qty_writes: "qty_write (fill a) a" "qty_write (shrink a) a" "qty_write (mark st) 0"
  by (simp_all add: qty_write_def fill_def shrink_def mark_def strip_def)

definition order_write :: "(order \<Rightarrow> order) \<Rightarrow> u32 \<Rightarrow> u32 \<Rightarrow> order_book \<Rightarrow> order_book" where
  "order_write f amt x b =
     (let sd = side (body (slots b) x); p = price (body (slots b) x); l = level_ref sd p b in
      set_level sd p (l\<lparr>total_qty := total_qty l - amt\<rparr>) (b\<lparr>ob_pool := put_slot x f (ob_pool b)\<rparr>))"

lemma order_write_index [simp]: "ob_index (order_write f amt x b) = ob_index b"
  by (simp add: order_write_def Let_def)

lemma order_write_ok:
  assumes ok: "book_ok b g F Oth" and x: "x \<in> live g" and f: "qty_write f amt"
  defines "b' \<equiv> order_write f amt x b"
  shows "book_ok b' g F Oth \<and> agree (slots b) (slots b') Oth \<and>
    body (slots b') = (body (slots b))(x := f (body (slots b) x))"
proof -
  note xl = book_live [OF ok x]
  note w = book_write [OF ok xl refl, where f = f and amt = amt]
  note b' = b'_def [unfolded order_write_def Let_def]
  have "book_ok b' g F Oth \<and> agree (slots b) (slots b') Oth"
    unfolding b' by (rule w) (use f in \<open>simp_all add: qty_write_def body_field\<close>)
  moreover have "body (slots b') = (body (slots b))(x := strip (f (slots b ! unat x)))"
    unfolding b' by (rule w) (use f in \<open>simp_all add: qty_write_def body_field\<close>)
  moreover have "strip (f (slots b ! unat x)) = f (body (slots b) x)"
    using f by (simp add: qty_write_def body_def)
  ultimately show ?thesis by simp
qed

lemma reduceOrderQty_eq:
  "unat x < length (slots b) \<Longrightarrow> reduceOrderQty x amount b = Some (order_write (fill amount) amount x b)"
  by (simp add: reduceOrderQty_def order_write_def pool_put_slot body_field level_ref_lv Let_def
      fill_def [abs_def])

lemma reduceQtyCancel_eq:
  "unat x < length (slots b) \<Longrightarrow> reduceQtyCancel x amount b = Some (order_write (shrink amount) amount x b)"
  by (simp add: reduceQtyCancel_def order_write_def pool_put_slot body_field level_ref_lv Let_def
      shrink_def [abs_def])

lemma book_bound: "book_ok b g F Oth \<Longrightarrow> x \<in> live g \<Longrightarrow> unat x < length (slots b)"
  by (rule book_slot(3) [OF _ book_live(2,1)])

lemma reduceOrderQty_ok:
  assumes "book_ok b g F Oth" "x \<in> live g"
  shows "\<exists>b'. reduceOrderQty x amount b = Some b' \<and> book_ok b' g F Oth \<and> agree (slots b) (slots b') Oth \<and>
    ob_index b' = ob_index b \<and> body (slots b') = (body (slots b))(x := fill amount (body (slots b) x))"
  using order_write_ok [OF assms qty_writes(1) [of amount]] reduceOrderQty_eq [OF book_bound [OF assms]] by simp

lemma reduceQtyCancel_ok:
  assumes "book_ok b g F Oth" "x \<in> live g"
  shows "\<exists>b'. reduceQtyCancel x amount b = Some b' \<and> book_ok b' g F Oth \<and> agree (slots b) (slots b') Oth \<and>
    ob_index b' = ob_index b \<and> body (slots b') = (body (slots b))(x := shrink amount (body (slots b) x))"
  using order_write_ok [OF assms qty_writes(2) [of amount]] reduceQtyCancel_eq [OF book_bound [OF assms]] by simp

text \<open>\<open>order->status = st\<close> through the pointer.\<close>

definition set_status :: "u32 \<Rightarrow> order_status \<Rightarrow> order_book \<Rightarrow> order_book option" where
  [code_eval]: "set_status idx st b = do {
     p \<leftarrow> pool_put idx (\<lambda>s. s\<lparr>status := st\<rparr>) (ob_pool b);
     Some (b\<lparr>ob_pool := p\<rparr>)
   }"

lemma set_status_ok:
  assumes ok: "book_ok b g F Oth" and x: "x \<in> live g"
  shows "\<exists>b'. set_status x st b = Some b' \<and> book_ok b' g F Oth \<and> agree (slots b) (slots b') Oth \<and>
    ob_index b' = ob_index b \<and> body (slots b') = (body (slots b))(x := mark st (body (slots b) x))"
proof -
  let ?sd = "side (body (slots b) x)" and ?p = "price (body (slots b) x)"
  let ?b = "b\<lparr>ob_pool := put_slot x (mark st) (ob_pool b)\<rparr>"
  note xl = book_live [OF ok x]
  obtain l where l: "map_of (lv ?sd b) ?p = Some l" "level_ref ?sd ?p b = l"
    by (rule book_level [OF ok xl(2,1)])
  have "omap_put (blt ?sd) ?p l (lv ?sd b) = lv ?sd b"
    using ok l xl(2) by (intro side_order.put_same) (auto simp: book_ok_def side_ok_def)
  then have "set_level ?sd ?p l ?b = ?b"
    by (auto simp: set_level_def lv_def blt_def)
  then have "book_ok ?b g F Oth \<and> agree (slots b) (slots ?b) Oth \<and>
      body (slots ?b) = (body (slots b))(x := mark st (body (slots b) x))"
    using order_write_ok [OF ok x qty_writes(3) [of st]] l by (simp add: order_write_def Let_def)
  moreover have "(\<lambda>s. s\<lparr>status := st\<rparr>) = mark st"
    by (simp add: mark_def fun_eq_iff)
  then have "set_status x st b = Some ?b"
    using book_slot(3) [OF ok xl(2,1)] by (simp add: set_status_def pool_put_slot)
  ultimately show ?thesis by auto
qed

section \<open>Removing\<close>

definition ghost_del :: "u32 \<Rightarrow> ghost \<Rightarrow> ghost" where
  "ghost_del x g = (\<lambda>sd p. filter (\<lambda>i. i \<noteq> x) (g sd p))"

lemma live_del: "live (ghost_del x g) = live g - {x}"
  by (auto simp: live_def ghost_del_def slots_of_def)

text \<open>Where the index had room for a key, it still has, and as many free nodes.\<close>

definition roomier :: "order_book \<Rightarrow> order_book \<Rightarrow> bool" where
  "roomier b b' \<longleftrightarrow> (\<forall>k. om_room (ob_index b) k \<longrightarrow> om_room (ob_index b') k) \<and>
     (\<forall>n. om_spare n (ob_index b) \<longrightarrow> om_spare n (ob_index b'))"

text \<open>The slots without the removed one.\<close>

lemma ghost_del_at:
  assumes ok: "book_ok b g F Oth" and S: "sd \<in> {BUY, SELL}" and ab: "g sd p = as @ x # bs"
  shows "ghost_del x g sd = (g sd)(p := as @ bs)" "ghost_del x g (opposite sd) = g (opposite sd)"
proof -
  have xl: "x \<in> set (g sd p)" using ab by simp
  have d: "distinct (as @ x # bs)" using book_level [OF ok S xl] ab by (metis level_ok_def)
  show "ghost_del x g sd = (g sd)(p := as @ bs)"
  proof
    fix q
    have "x \<notin> set (g sd q)" if "q \<noteq> p" using that book_slot(1) [OF ok S] book_slot(1) [OF ok S xl] by metis
    then show "ghost_del x g sd q = ((g sd)(p := as @ bs)) q"
      using ab d by (auto simp: ghost_del_def filter_id_conv)
  qed
  have "x \<in> slots_of (g sd)" using xl by (auto simp: slots_of_def)
  then have "x \<notin> slots_of (g (opposite sd))" using book_sides_disjoint [OF ok S] by auto
  then show "ghost_del x g (opposite sd) = g (opposite sd)"
    by (auto simp: ghost_del_def slots_of_def fun_eq_iff intro!: filter_neq_id)
qed

lemma book_ok_del:
  assumes ok: "book_ok b g F Oth" and S: "sd \<in> {BUY, SELL}" and ab: "g sd p = as @ x # bs"
    and b': "pool_ok (ob_pool b') (x # F)" "body (slots b') = body (slots b)" "lv (opposite sd) b' = lv (opposite sd) b"
    and side: "side_ok (slots b') sd (lv sd b') ((g sd)(p := as @ bs))"
    and ix: "order_map.indexes (ob_index b') (live g \<union> Oth - {x}) (\<lambda>j. order_id (body (slots b) j))"
    and agr: "\<And>X. X \<inter> set (as @ bs) = {} \<Longrightarrow> agree (slots b) (slots b') X"
  shows "book_ok b' (ghost_del x g) (x # F) Oth \<and> agree (slots b) (slots b') Oth"
proof -
  note gd = ghost_del_at [OF ok S ab]
  have xin: "set (as @ x # bs) \<subseteq> slots_of (g sd)" unfolding ab [symmetric] by (auto simp: slots_of_def)
  have disj: "slots_of (g sd) \<inter> slots_of (g (opposite sd)) = {}" "slots_of (g sd) \<inter> Oth = {}"
    using book_sides_disjoint [OF ok S] ok live_sides [OF S, of g] by (auto simp: book_ok_def)
  have xs: "x \<in> live g" "x \<notin> Oth" using xin disj live_sides [OF S, of g] by auto
  have ixl: "live g \<union> Oth - {x} = live (ghost_del x g) \<union> Oth" using xs by (auto simp: live_del)
  show ?thesis
  proof (rule book_ok_upd [where g' = "ghost_del x g", OF ok S _ _ b'(3) gd(2) _ disj b'(1)])
    show "side_ok (slots b') sd (lv sd b') (ghost_del x g sd)" using side gd(1) by simp
    show "slots_of (ghost_del x g sd) \<union> slots_of (g sd) \<subseteq> slots_of (g sd)"
      by (auto simp: slots_of_def ghost_del_def)
    show "agree (slots b) (slots b') (live g \<union> Oth - slots_of (g sd))" by (rule agr) (use xin in auto)
    show "(live (ghost_del x g) \<union> Oth) \<inter> set (x # F) = {}"
      using ok xs by (auto simp: live_del book_ok_def)
    show "order_map.indexes (ob_index b') (live (ghost_del x g) \<union> Oth) (\<lambda>i. order_id (body (slots b') i))"
      using ix ixl b'(2) by simp
  qed
qed

text \<open>The level without it: erased when it was the last, relinked otherwise.\<close>

definition cut_level :: "u32 list \<Rightarrow> u32 list \<Rightarrow> u32 \<Rightarrow> price_level \<Rightarrow> price_level" where
  "cut_level as bs amt l = l\<lparr>head_idx := (if as = [] then hd (bs @ [UINT32_MAX]) else head_idx l),
     tail_idx := (if bs = [] then last (UINT32_MAX # as) else tail_idx l),
     level_count := level_count l - 1, total_qty := total_qty l - amt\<rparr>"

lemma cut_level_count:
  assumes "level_ok s sd p l (as @ x # bs)" "length s < 2 ^ 32"
  shows "level_count (cut_level as bs amt l) = 0 \<longleftrightarrow> as @ bs = []"
proof -
  have "unat (level_count l) = Suc (length (as @ bs))" using level_count_pos(2) [OF assms] by simp
  then have "unat (level_count l) = unat (1 :: u32) \<longleftrightarrow> as @ bs = []" by simp
  then show ?thesis unfolding unat_inj by (simp add: cut_level_def)
qed

lemma side_ok_cut:
  assumes side: "side_ok s sd m h" and hp: "h p = as @ x # bs" and l: "level_ok s sd p l (as @ x # bs)" and len: "length s < 2 ^ 32"
    and vw: "length s' = length s" "body s' = body s"
      "nxt s' = (if as = [] then nxt s else (nxt s)(last as := hd (bs @ [UINT32_MAX])))"
      "prv s' = (if bs = [] then prv s else (prv s)(hd bs := last (UINT32_MAX # as)))"
  defines "l' \<equiv> cut_level as bs (remaining_qty (body s x)) l"
  shows "side_ok s' sd (if level_count l' = 0 then omap_del p m else omap_put (blt sd) p l' m) (h(p := as @ bs))"
proof -
  have agr: "agree s s' X" if "X \<inter> set (as @ bs) = {}" for X
    unfolding agree_def vw using that by (auto dest: last_in_set hd_in_set)
  show ?thesis
  proof (cases "as @ bs = []")
    case True
    then show ?thesis
      using side_ok_del [OF side agr, of p] cut_level_count [OF l len] by (simp add: l'_def agr)
  next
    case False
    have "level_ok s' sd p
        (l\<lparr>head_idx := (if as = [] then hd bs else head_idx l), tail_idx := (if bs = [] then last as else tail_idx l),
           level_count := level_count l - 1, total_qty := total_qty l - remaining_qty (body s x)\<rparr>) (as @ bs)"
      using l by (rule level_unlink) (use False in \<open>auto simp: vw\<close>)
    moreover have "l\<lparr>head_idx := (if as = [] then hd bs else head_idx l), tail_idx := (if bs = [] then last as else tail_idx l),
           level_count := level_count l - 1, total_qty := total_qty l - remaining_qty (body s x)\<rparr> = l'"
      using False by (cases bs) (auto simp: l'_def cut_level_def)
    ultimately have "side_ok s' sd (omap_put (blt sd) p l' m) (h(p := as @ bs))"
      using side_slot_clear [OF side] hp by (intro side_ok_put [OF side agr]) auto
    moreover have "level_count l' \<noteq> 0" using False cut_level_count [OF l len] by (simp add: l'_def)
    ultimately show ?thesis by simp
  qed
qed

lemma removeOrderPtr_ok:
  assumes ok: "book_ok b g F Oth" and x: "x \<in> live g"
  shows "\<exists>b'. removeOrderPtr x b = Some b' \<and> book_ok b' (ghost_del x g) (x # F) Oth \<and>
    agree (slots b) (slots b') Oth \<and> (\<forall>i\<in>live g - {x}. body (slots b') i = body (slots b) i) \<and>
    roomier b b'"
proof -
  define sd p where "sd = side (body (slots b) x)" and "p = price (body (slots b) x)"
  have xl: "x \<in> set (g sd p)" and S: "sd \<in> {BUY, SELL}"
    using book_live [OF ok x] by (simp_all add: sd_def p_def)
  note xs = book_slot [OF ok S xl]
  have side: "side_ok (slots b) sd (lv sd b) (g sd)" and pk: "pool_ok (ob_pool b) F"
    using ok S by (auto simp: book_ok_def)
  have len: "length (slots b) < 2 ^ 32" using pk by (simp add: pool_ok_def)
  obtain as bs where ab: "g sd p = as @ x # bs" using xl by (auto simp: in_set_conv_decomp)
  obtain l where ml: "map_of (lv sd b) p = Some l" and l: "level_ok (slots b) sd p l (as @ x # bs)"
    by (rule book_level [OF ok S xl, unfolded ab])
  have d: "dll (nxt (slots b)) (prv (slots b)) UINT32_MAX (as @ x # bs) UINT32_MAX" "distinct (as @ x # bs)"
    using l by (simp_all add: level_ok_def)
  have nb: "\<forall>y\<in>set (as @ x # bs). unat y < length (slots b) \<and> y \<noteq> UINT32_MAX \<and> y \<notin> set F"
    using book_slot [OF ok S, of _ p] ab by auto
  have nx: "next_idx (slots b ! unat x) = hd (bs @ [UINT32_MAX])"
    and pv: "prev_idx (slots b ! unat x) = last (UINT32_MAX # as)"
    using unlink_writes(1) [OF pk d nb] by auto
  obtain q1 q2 q3 where p1: "(if prev_idx (slots b ! unat x) \<noteq> UINT32_MAX
      then pool_put (prev_idx (slots b ! unat x)) (\<lambda>s. s\<lparr>next_idx := next_idx (slots b ! unat x)\<rparr>) (ob_pool b)
      else Some (ob_pool b)) = Some q1"
    and p2: "(if next_idx (slots b ! unat x) \<noteq> UINT32_MAX
      then pool_put (next_idx (slots b ! unat x)) (\<lambda>s. s\<lparr>prev_idx := prev_idx (slots b ! unat x)\<rparr>) q1
      else Some q1) = Some q2"
    and q3: "pool_deallocate x q2 = Some q3" "pool_ok q3 (x # F)"
    and vw: "length (storage q3) = length (slots b)" "body (storage q3) = body (slots b)"
      "nxt (storage q3) = (if as = [] then nxt (slots b) else (nxt (slots b))(last as := hd (bs @ [UINT32_MAX])))"
      "prv (storage q3) = (if bs = [] then prv (slots b) else (prv (slots b))(hd bs := last (UINT32_MAX # as)))"
    using unlink_writes(2) [OF pk d nb] by blast
  obtain ix where ix: "om_erase (order_id (body (slots b) x)) (ob_index b) = Some ix"
    and ixs: "order_map.indexes ix (live g \<union> Oth - {x}) (\<lambda>j. order_id (body (slots b) j))"
    and ixr: "\<forall>k. om_room (ob_index b) k \<longrightarrow> om_room ix k"
    using order_map.indexes_del [of "ob_index b" "live g \<union> Oth" "\<lambda>j. order_id (body (slots b) j)" x] ok x
    by (auto simp: book_ok_def)
  define l' where "l' = cut_level as bs (remaining_qty (body (slots b) x)) l"
  define b1 where "b1 = (if level_count l' = 0
       then (if sd = BUY then b\<lparr>bids := omap_del p (bids b)\<rparr> else b\<lparr>asks := omap_del p (asks b)\<rparr>)
       else set_level sd p l' b)"
  let ?b = "b1\<lparr>ob_pool := q3, ob_index := ix\<rparr>"
  have mlc: "map_of (if sd = BUY then bids b else asks b) p = Some l" using ml by (simp add: lv_def)
  have "head_idx l = hd (as @ x # bs)" "tail_idx l = last (as @ x # bs)" using l by (simp_all add: level_ok_def)
  then have "head_idx l = x \<longleftrightarrow> as = []" "tail_idx l = x \<longleftrightarrow> bs = []"
    using d(2) by (cases as; cases bs rule: rev_cases; auto)+
  then have ends: "(if tail_idx l1 = x then l1\<lparr>tail_idx := prev_idx (slots b ! unat x)\<rparr> else l1)
      = l\<lparr>head_idx := (if as = [] then hd (bs @ [UINT32_MAX]) else head_idx l),
          tail_idx := (if bs = [] then last (UINT32_MAX # as) else tail_idx l)\<rparr>"
    if "l1 = (if head_idx l = x then l\<lparr>head_idx := next_idx (slots b ! unat x)\<rparr> else l)" for l1
    using nx pv that by (cases l) auto
  have res: "removeOrderPtr x b = Some ?b"
    unfolding removeOrderPtr_def using xs(3) ix q3(1)
    by (simp only: pool_at_in bind.simps body_field sd_def [symmetric] p_def [symmetric] mlc p1 p2
        option.case Let_def ends [OF refl])
      (simp add: body_field sd_def [symmetric] p_def [symmetric] b1_def l'_def cut_level_def)
  have lvs: "lv sd ?b = (if level_count l' = 0 then omap_del p (lv sd b) else omap_put (blt sd) p l' (lv sd b))"
    "lv (opposite sd) ?b = lv (opposite sd) b"
    using S by (auto simp: b1_def opposite_def lv_def set_level_def blt_def)
  have "side_ok (storage q3) sd (lv sd ?b) ((g sd)(p := as @ bs))"
    unfolding lvs(1) l'_def by (rule side_ok_cut [OF side ab l len vw])
  moreover have "agree (slots b) (storage q3) X" if "X \<inter> set (as @ bs) = {}" for X
    unfolding agree_def vw using that by (auto dest: last_in_set hd_in_set)
  ultimately have "book_ok ?b (ghost_del x g) (x # F) Oth \<and> agree (slots b) (slots ?b) Oth"
    by (intro book_ok_del [OF ok S ab _ _ lvs(2)]) (simp_all add: q3 vw ixs)
  then show ?thesis using res vw(2) ixr om_erase_spare [OF _ ix] by (auto simp: roomier_def)
qed

end
