(* ===== verification/Ex_Book_Abs.thy ===== *)
theory Ex_Book_Abs
  imports Ex_Book_Ops
begin

text \<open>
  The abstract view of the exchange book: each side is the list of its orders in price-time
  priority. The queries and the changes of the book are functions of these lists.
\<close>

section \<open>The orders of a side\<close>

text \<open>The walk along one level, as \<open>saveSnapshot\<close> writes it (links stripped).\<close>

partial_function (option) walk :: "ex_pool \<Rightarrow> u32 \<Rightarrow> order list option" where
  [code, code_eval]: "walk p idx =
     (if idx = UINT32_MAX then Some []
      else do {
        ord \<leftarrow> pool_at p idx;
        rest \<leftarrow> walk p (next_idx ord);
        Some (strip ord # rest)
      })"

fun walk_levels :: "ex_pool \<Rightarrow> levels \<Rightarrow> order list option" where
  "walk_levels p [] = Some []"
| "walk_levels p ((pr, level) # ls) = do {
     xs \<leftarrow> walk p (head_idx level);
     ys \<leftarrow> walk_levels p ls;
     Some (xs @ ys)
   }"

declare walk_levels.simps [code_eval]

definition side_orders :: "side \<Rightarrow> order_book \<Rightarrow> order list option" where
  [code_eval]: "side_orders sd b = walk_levels (ob_pool b) (lv sd b)"

definition qslots :: "side \<Rightarrow> order_book \<Rightarrow> ghost \<Rightarrow> u32 list" where
  "qslots sd b g = queue_of (lv sd b) (g sd)"

definition orders :: "side \<Rightarrow> order_book \<Rightarrow> ghost \<Rightarrow> order list" where
  "orders sd b g = map (body (slots b)) (qslots sd b g)"

lemma book_side: "book_ok b g F Oth \<Longrightarrow> sd \<in> {BUY, SELL} \<Longrightarrow> side_ok (slots b) sd (lv sd b) (g sd)"
  by (auto simp: book_ok_def)

lemma set_qslots: "book_ok b g F Oth \<Longrightarrow> sd \<in> {BUY, SELL} \<Longrightarrow> set (qslots sd b g) = slots_of (g sd)"
  unfolding qslots_def by (rule set_queue_of [OF book_side])

lemma qslots_live: "book_ok b g F Oth \<Longrightarrow> sd \<in> {BUY, SELL} \<Longrightarrow> i \<in> set (qslots sd b g) \<Longrightarrow> i \<in> live g"
  using set_qslots live_sides by blast

text \<open>Induction over the levels of a side, each with its slots.\<close>

lemma side_levels:
  assumes ok: "side_ok s sd m g" and mem: "(p, l) \<in> set m"
  shows "level_ok s sd p l (g p)"
proof -
  have "distinct (map fst m)" using ok by (auto simp: side_ok_def intro: side_order.srt_distinct)
  then have "map_of m p = Some l" using mem by simp
  then show ?thesis using ok by (auto simp: side_ok_def split: option.splits dest!: spec [of _ p])
qed

lemma walk_eq:
  "chain (nxt (storage p)) i xs \<Longrightarrow> \<forall>j\<in>set xs. unat j < length (storage p) \<Longrightarrow>
   walk p i = Some (map (body (storage p)) xs)"
proof (induction xs arbitrary: i)
  case (Cons x xs)
  then show ?case by (subst walk.simps) (auto simp: nxt_def body_def)
qed (simp add: walk.simps)

lemma walk_levels_eq:
  "\<forall>(q, l)\<in>set m. level_ok (storage p) sd q l (g q) \<Longrightarrow>
   walk_levels p m = Some (map (body (storage p)) (queue_of m g))"
proof (induction m)
  case (Cons e m)
  obtain q l where e: "e = (q, l)" by (cases e)
  then have l: "level_ok (storage p) sd q l (g q)" using Cons.prems by auto
  then have "walk p (head_idx l) = Some (map (body (storage p)) (g q))"
    by (intro walk_eq level_chain) (auto simp: level_ok_def)
  then show ?case using Cons e by auto
qed simp

lemma side_orders_eq:
  assumes "book_ok b g F Oth" "sd \<in> {BUY, SELL}"
  shows "side_orders sd b = Some (orders sd b g)"
  unfolding side_orders_def orders_def qslots_def
  by (rule walk_levels_eq [where sd = sd]) (use side_levels [OF book_side [OF assms]] in auto)

text \<open>Price-time order, and the identities of the orders.\<close>

lemma orders_sorted:
  assumes "book_ok b g F Oth" "sd \<in> {BUY, SELL}"
  shows "sorted_wrt (\<lambda>r r'. \<not> blt sd (price r') (price r)) (orders sd b g)"
  using queue_sorted [OF book_side [OF assms]] by (simp add: orders_def qslots_def sorted_wrt_map)

lemma distinct_queue:
  assumes "side_ok s sd m g"
  shows "distinct (queue_of m g)"
proof -
  have "distinct (map fst m)" using assms by (auto simp: side_ok_def intro: side_order.srt_distinct)
  moreover have "\<forall>(q, l)\<in>set m. level_ok s sd q l (g q)" using side_levels [OF assms] by auto
  ultimately show ?thesis
  proof (induction m)
    case (Cons e m)
    obtain q l where e: "e = (q, l)" by (cases e)
    have "distinct (g q)" using Cons.prems e by (auto simp: level_ok_def)
    moreover have "set (g q) \<inter> set (queue_of m g) = {}"
    proof -
      have False if "i \<in> set (g q)" "i \<in> set (g q')" "(q', l') \<in> set m" for i q' l'
        using side_slot(1) [OF assms that(1)] side_slot(1) [OF assms that(2)] that(3) Cons.prems(1) e
        by (auto simp: image_iff)
      then show ?thesis by (auto simp: queue_of_def)
    qed
    ultimately show ?case using Cons e by auto
  qed simp
qed

lemma orders_ids:
  assumes "book_ok b g F Oth" "sd \<in> {BUY, SELL}"
  shows "distinct (map order_id (orders sd b g))"
proof -
  have "inj_on (\<lambda>i. order_id (body (slots b) i)) (set (qslots sd b g))"
    using book_inj [OF assms(1)] qslots_live [OF assms] by (auto simp: inj_on_def)
  moreover have "distinct (qslots sd b g)"
    unfolding qslots_def by (rule distinct_queue [OF book_side [OF assms]])
  ultimately show ?thesis by (simp add: orders_def distinct_map o_def)
qed

lemma orders_side:
  assumes "book_ok b g F Oth" "sd \<in> {BUY, SELL}" "r \<in> set (orders sd b g)"
  shows "side r = sd"
  using assms(3) side_slot(2) [OF book_side [OF assms(1,2)]] set_qslots [OF assms(1,2)]
  by (auto simp: orders_def slots_of_def)

section \<open>Queries\<close>

lemma first_other_eq:
  "chain (nxt (storage p)) i xs \<Longrightarrow> \<forall>j\<in>set xs. unat j < length (storage p) \<Longrightarrow>
   first_other p ex i = Some (find (\<lambda>j. user_id (body (storage p) j) \<noteq> ex) xs)"
proof (induction xs arbitrary: i)
  case (Cons x xs)
  then show ?case by (subst first_other.simps) (auto simp: nxt_def body_field)
qed (simp add: first_other.simps)

lemma find_append: "find P (xs @ ys) = (case find P xs of None \<Rightarrow> find P ys | Some x \<Rightarrow> Some x)"
  by (induction xs) auto

lemma best_other_eq:
  "\<forall>(q, l)\<in>set m. level_ok (storage p) sd q l (g q) \<Longrightarrow>
   best_other p ex m = Some (find (\<lambda>j. user_id (body (storage p) j) \<noteq> ex) (queue_of m g))"
proof (induction m)
  case (Cons e m)
  obtain q l where e: "e = (q, l)" by (cases e)
  then have l: "level_ok (storage p) sd q l (g q)" using Cons.prems by auto
  then have "first_other p ex (head_idx l) = Some (find (\<lambda>j. user_id (body (storage p) j) \<noteq> ex) (g q))"
    by (intro first_other_eq level_chain) (auto simp: level_ok_def)
  then show ?case using Cons e by (auto simp: find_append split: option.splits)
qed simp

text \<open>
  \<open>getBestBid\<close> and \<open>getBestAsk\<close> return the first order in priority that is not excluded.
\<close>

definition best :: "side \<Rightarrow> u64 \<Rightarrow> order_book \<Rightarrow> u32 ptr option" where
  [code_eval]: "best sd ex b = (if sd = BUY then getBestBid ex b else getBestAsk ex b)"

definition foreign :: "u64 \<Rightarrow> order \<Rightarrow> bool" where
  [code_eval]: "foreign ex r \<longleftrightarrow> ex = 0 \<or> user_id r \<noteq> ex"

lemma best_eq:
  assumes ok: "book_ok b g F Oth" and S: "sd \<in> {BUY, SELL}"
  shows "best sd ex b = Some (find (\<lambda>i. foreign ex (body (slots b) i)) (qslots sd b g))"
proof -
  note side = book_side [OF ok S]
  have len: "length (slots b) < 2 ^ 32" using ok by (auto simp: book_ok_def pool_ok_def)
  have lev: "\<forall>(q, l)\<in>set (lv sd b). level_ok (storage (ob_pool b)) sd q l (g sd q)"
    using side_levels [OF side] by auto
  have bst: "best sd ex b = (case lv sd b of [] \<Rightarrow> Some None | (pr, level) # _ \<Rightarrow>
      if ex = 0 then Some (if level_count level > 0 then Some (head_idx level) else None)
      else best_other (ob_pool b) ex (lv sd b))"
    by (simp add: best_def getBestBid_def getBestAsk_def lv_def split: list.split)
  show ?thesis
  proof (cases "lv sd b")
    case Nil
    then show ?thesis by (simp add: bst qslots_def)
  next
    case (Cons e m)
    obtain q l where e: "e = (q, l)" by (cases e)
    have l: "level_ok (slots b) sd q l (g sd q)" using lev Cons e by auto
    have "level_count l > 0" using level_count_pos(1) [OF l len] by (simp add: word_gt_0)
    moreover obtain xs where "g sd q = head_idx l # xs" using l by (cases "g sd q") (auto simp: level_ok_def)
    ultimately show ?thesis
      using best_other_eq [OF lev] Cons e by (auto simp: bst qslots_def foreign_def)
  qed
qed

lemma sum_level_eq:
  "chain (nxt (storage p)) i xs \<Longrightarrow> \<forall>j\<in>set xs. unat j < length (storage p) \<Longrightarrow>
   sum_level p t i = Some (t + (\<Sum>j\<leftarrow>xs. remaining_qty (body (storage p) j)))"
proof (induction xs arbitrary: i t)
  case (Cons x xs)
  then show ?case by (subst sum_level.simps) (auto simp: nxt_def body_field algebra_simps)
qed (simp add: sum_level.simps)

lemma sum_levels_eq:
  assumes "\<forall>(q, l)\<in>set m. level_ok (storage p) sd q l (g q)"
  shows "sum_levels p stop t m = Some (t + (\<Sum>r\<leftarrow>takeWhile (\<lambda>r. \<not> stop (price r))
    (map (body (storage p)) (queue_of m g)). remaining_qty r))"
  using assms
proof (induction m arbitrary: t)
  case (Cons e m)
  obtain q l where e: "e = (q, l)" by (cases e)
  then have l: "level_ok (storage p) sd q l (g q)" using Cons.prems by auto
  have pr: "price (body (storage p) i) = q" if "i \<in> set (g q)" for i
    using that l by (auto simp: level_ok_def)
  show ?case
  proof (cases "stop q")
    case True
    have "g q \<noteq> []" using l by (simp add: level_ok_def)
    then obtain i xs where g: "g q = i # xs" by (cases "g q") auto
    then have "stop (price (body (storage p) i))" using True pr by simp
    then show ?thesis using True e g by simp
  next
    case False
    have "sum_level p t (head_idx l) = Some (t + (\<Sum>j\<leftarrow>g q. remaining_qty (body (storage p) j)))"
      using l by (intro sum_level_eq level_chain) (auto simp: level_ok_def)
    moreover have "takeWhile (\<lambda>r. \<not> stop (price r)) (map (body (storage p)) (g q) @ ys) =
        map (body (storage p)) (g q) @ takeWhile (\<lambda>r. \<not> stop (price r)) ys" for ys
      using pr False by (intro takeWhile_append2) auto
    ultimately show ?thesis
      using Cons e False by (auto simp: o_def algebra_simps)
  qed
qed simp

text \<open>A resting order at price \<open>q\<close> of side \<open>sd\<close> can trade with an incoming price \<open>p\<close>.\<close>

definition crosses :: "side \<Rightarrow> u32 \<Rightarrow> u32 \<Rightarrow> bool" where
  [code_eval]: "crosses sd p q \<longleftrightarrow> (if sd = BUY then p \<le> q else q \<le> p)"

lemma availableQty_eq:
  assumes ok: "book_ok b g F Oth" and S: "sd \<in> {BUY, SELL}"
  shows "availableQty (opposite sd) p b =
    Some (\<Sum>r\<leftarrow>takeWhile (\<lambda>r. crosses sd p (price r)) (orders sd b g). remaining_qty r)"
proof -
  have lev: "\<forall>(q, l)\<in>set (lv sd b). level_ok (storage (ob_pool b)) sd q l (g sd q)"
    using side_levels [OF book_side [OF ok S]] by auto
  show ?thesis
    using S sum_levels_eq [OF lev]
    by (auto simp: availableQty_def opposite_def lv_def orders_def qslots_def crosses_def not_less)
qed

section \<open>Changes\<close>

text \<open>
  The abstract operations: insertion behind every order of the same or a better price,
  removal and update by order number.
\<close>

definition a_insert :: "side \<Rightarrow> order \<Rightarrow> order list \<Rightarrow> order list" where
  [code_eval]: "a_insert sd ord q = takeWhile (\<lambda>r. \<not> blt sd (price ord) (price r)) q @ [strip ord]
     @ dropWhile (\<lambda>r. \<not> blt sd (price ord) (price r)) q"

definition a_remove :: "u64 \<Rightarrow> order list \<Rightarrow> order list" where
  [code_eval]: "a_remove oid q = filter (\<lambda>r. order_id r \<noteq> oid) q"

definition a_update :: "u64 \<Rightarrow> (order \<Rightarrow> order) \<Rightarrow> order list \<Rightarrow> order list" where
  [code_eval]: "a_update oid f q = map (\<lambda>r. if order_id r = oid then f r else r) q"

text \<open>The prices of a side are those with a slot, so the queue depends on the ghost only.\<close>

definition keys_ok :: "side \<Rightarrow> levels \<Rightarrow> (u32 \<Rightarrow> u32 list) \<Rightarrow> bool" where
  "keys_ok sd m g \<longleftrightarrow> side_order.srt sd m \<and> fst ` set m = {p. g p \<noteq> []}"

lemma side_keys_ok:
  assumes "side_ok s sd m g"
  shows "keys_ok sd m g"
proof -
  have d: "dom (map_of m) = fst ` set m" by (rule dom_map_of_conv_image_fst)
  have "p \<in> dom (map_of m) \<longleftrightarrow> g p \<noteq> []" for p
    using assms by (auto simp: side_ok_def level_ok_def domIff split: option.splits dest!: spec [of _ p])
  then show ?thesis using assms d by (auto simp: keys_ok_def side_ok_def)
qed

lemma queue_of_fst: "queue_of m g = concat (map g (map fst m))"
  by (simp add: queue_of_def o_def)

lemma queue_of_unique: "keys_ok sd m g \<Longrightarrow> keys_ok sd m' g \<Longrightarrow> queue_of m g = queue_of m' g"
  unfolding queue_of_fst keys_ok_def side_order.srt_def
  by (metis side_order.sorted_unique set_map)

lemma qslots_add:
  assumes ok: "book_ok b g F Oth" and S: "sd \<in> {BUY, SELL}"
    and ok': "book_ok b' (ghost_add sd p i g) F' Oth'"
  obtains as bs where "qslots sd b g = as @ bs" "qslots sd b' (ghost_add sd p i g) = as @ i # bs"
    "\<forall>j\<in>set as. \<not> blt sd p (price (body (slots b) j))" "\<forall>j\<in>set bs. blt sd p (price (body (slots b) j))"
proof -
  note side = book_side [OF ok S]
  have srt: "side_order.srt sd (lv sd b)" using side by (simp add: side_ok_def)
  let ?tw = "takeWhile (\<lambda>e. blt sd (fst e) p) (lv sd b)"
  let ?dw = "dropWhile (\<lambda>e. blt sd (fst e) p \<or> fst e = p) (lv sd b)"
  let ?as = "queue_of ?tw (g sd) @ g sd p" and ?bs = "queue_of ?dw (g sd)"
  let ?m = "omap_put (blt sd) p default_level (lv sd b)"
  have g': "ghost_add sd p i g sd = (g sd)(p := g sd p @ [i])" by (simp add: ghost_add_def)
  have pr: "price (body (slots b) j) = q" if "j \<in> set (g sd q)" for j q
    using side_slot(1) [OF side that] .
  have "qslots sd b g = ?as @ ?bs"
    unfolding qslots_def using queue_of_split [OF side, of p] by simp
  moreover have "keys_ok sd ?m (ghost_add sd p i g sd)"
    using side_keys_ok [OF side] unfolding g' keys_ok_def set_keys_put
    by (auto intro: side_order.srt_put)
  then have "qslots sd b' (ghost_add sd p i g) = queue_of ?m (ghost_add sd p i g sd)"
    unfolding qslots_def by (rule queue_of_unique [OF side_keys_ok [OF book_side [OF ok' S]]])
  then have "qslots sd b' (ghost_add sd p i g) = ?as @ i # ?bs"
    unfolding g' using queue_of_put [OF side, of p default_level "g sd p @ [i]"] by simp
  moreover have "\<not> blt sd p (price (body (slots b) j))" if j: "j \<in> set ?as" for j
  proof (cases "j \<in> set (g sd p)")
    case True
    then show ?thesis using pr side_order.irrefl by simp
  next
    case False
    then obtain e where "e \<in> set ?tw" "j \<in> set (g sd (fst e))" using j by (auto simp: queue_of_def)
    then have "blt sd (price (body (slots b) j)) p" using pr set_takeWhileD by metis
    then show ?thesis by (rule side_order.asym)
  qed
  moreover have "blt sd p (price (body (slots b) j))" if j: "j \<in> set ?bs" for j
  proof -
    obtain e where "e \<in> set ?dw" "j \<in> set (g sd (fst e))" using j by (auto simp: queue_of_def)
    then have "blt sd p (fst e)" "price (body (slots b) j) = fst e"
      using pr side_order.srt_dropWhile [OF srt] by auto
    then show ?thesis by simp
  qed
  ultimately show ?thesis using that by blast
qed

lemma takeWhile_split:
  "\<forall>x\<in>set as. P x \<Longrightarrow> \<forall>x\<in>set bs. \<not> P x \<Longrightarrow> takeWhile P (as @ bs) = as \<and> dropWhile P (as @ bs) = bs"
  by (induction as) (cases bs; auto)+

lemma orders_add:
  assumes ok: "book_ok b g F Oth" and S: "sd \<in> {BUY, SELL}" and p: "price ord = p"
    and ok': "book_ok b' (ghost_add sd p i g) F' Oth'"
    and i: "i \<notin> live g" and bd: "body (slots b') = (body (slots b))(i := strip ord)"
  shows "orders sd b' (ghost_add sd p i g) = a_insert sd ord (orders sd b g)"
proof -
  from qslots_add [OF ok S ok'] obtain as bs where
    ab: "qslots sd b g = as @ bs" "qslots sd b' (ghost_add sd p i g) = as @ i # bs"
    "\<forall>j\<in>set as. \<not> blt sd p (price (body (slots b) j))"
    "\<forall>j\<in>set bs. blt sd p (price (body (slots b) j))" by metis
  have "i \<notin> set as \<union> set bs" using i ab(1) qslots_live [OF ok S] by auto
  then have "map (body (slots b')) as = map (body (slots b)) as" "map (body (slots b')) bs = map (body (slots b)) bs"
    using bd by auto
  then show ?thesis
    using ab(3,4) bd p takeWhile_split [of "map (body (slots b)) as" "\<lambda>r. \<not> blt sd p (price r)" "map (body (slots b)) bs"]
    by (simp add: orders_def ab(1,2) a_insert_def)
qed

lemma orders_other:
  assumes "book_ok b g F Oth" "book_ok b' g' F' Oth'" "sd \<in> {BUY, SELL}" "g' sd = g sd"
    "\<And>i. i \<in> slots_of (g sd) \<Longrightarrow> body (slots b') i = body (slots b) i"
  shows "orders sd b' g' = orders sd b g"
proof -
  have "qslots sd b' g' = qslots sd b g"
    unfolding qslots_def assms(4)
    using side_keys_ok [OF book_side [OF assms(2,3)]] side_keys_ok [OF book_side [OF assms(1,3)]]
    unfolding assms(4) by (rule queue_of_unique)
  then show ?thesis using assms(5) set_qslots [OF assms(1,3)] by (auto simp: orders_def)
qed

lemma orders_write:
  assumes ok: "book_ok b g F Oth" and S: "sd \<in> {BUY, SELL}" and ok': "book_ok b' g F' Oth'"
    and x: "x \<in> live g" and bd: "body (slots b') = (body (slots b))(x := f (body (slots b) x))"
  shows "orders sd b' g = a_update (order_id (body (slots b) x)) f (orders sd b g)"
proof -
  have "qslots sd b' g = qslots sd b g"
    unfolding qslots_def
    by (rule queue_of_unique [OF side_keys_ok [OF book_side [OF ok' S]] side_keys_ok [OF book_side [OF ok S]]])
  moreover have "(i = x) = (order_id (body (slots b) i) = order_id (body (slots b) x))" if "i \<in> set (qslots sd b g)" for i
    using book_inj [OF ok, of i x] x qslots_live [OF ok S that] by auto
  ultimately show ?thesis by (auto simp: orders_def a_update_def bd)
qed

lemma qslots_del:
  assumes ok: "book_ok b g F Oth" and S: "sd \<in> {BUY, SELL}" and ok': "book_ok b' (ghost_del x g) F' Oth'"
  shows "qslots sd b' (ghost_del x g) = filter (\<lambda>i. i \<noteq> x) (qslots sd b g)"
proof -
  let ?m = "filter (\<lambda>e. ghost_del x g sd (fst e) \<noteq> []) (lv sd b)"
  have k: "keys_ok sd (lv sd b) (g sd)" by (rule side_keys_ok [OF book_side [OF ok S]])
  have srt: "sorted_wrt (blt sd) (map fst (lv sd b))" using k by (simp add: keys_ok_def side_order.srt_def)
  have "sorted_wrt (blt sd) (map fst (filter P (lv sd b)))" for P
    using srt by (simp add: sorted_wrt_map sorted_wrt_filter)
  moreover have "fst ` set ?m = {p. ghost_del x g sd p \<noteq> []}"
    using k by (force simp: keys_ok_def ghost_del_def)
  ultimately have "keys_ok sd ?m (ghost_del x g sd)" by (simp add: keys_ok_def side_order.srt_def)
  then have "qslots sd b' (ghost_del x g) = queue_of ?m (ghost_del x g sd)"
    unfolding qslots_def by (rule queue_of_unique [OF side_keys_ok [OF book_side [OF ok' S]]])
  also have "\<dots> = queue_of (lv sd b) (ghost_del x g sd)"
  proof -
    have "queue_of (filter (\<lambda>e. h (fst e) \<noteq> []) m) h = queue_of m h" for m :: levels and h
      by (induction m) (auto simp: queue_of_def)
    then show ?thesis .
  qed
  also have "\<dots> = filter (\<lambda>i. i \<noteq> x) (qslots sd b g)"
    by (simp add: qslots_def queue_of_def ghost_del_def filter_concat o_def)
  finally show ?thesis .
qed

lemma orders_remove:
  assumes ok: "book_ok b g F Oth" and S: "sd \<in> {BUY, SELL}" and ok': "book_ok b' (ghost_del x g) F' Oth'"
    and x: "x \<in> live g" and bd: "\<forall>i\<in>live g - {x}. body (slots b') i = body (slots b) i"
  shows "orders sd b' (ghost_del x g) = a_remove (order_id (body (slots b) x)) (orders sd b g)"
proof -
  have "(i \<noteq> x) = (order_id (body (slots b) i) \<noteq> order_id (body (slots b) x))" if "i \<in> set (qslots sd b g)" for i
    using book_inj [OF ok, of i x] x qslots_live [OF ok S that] by auto
  then have "filter (\<lambda>i. i \<noteq> x) (qslots sd b g) =
      filter (\<lambda>i. order_id (body (slots b) i) \<noteq> order_id (body (slots b) x)) (qslots sd b g)"
    by (rule filter_cong [OF refl])
  then show ?thesis
    using bd qslots_live [OF ok S] qslots_del [OF ok S ok']
    by (auto simp: orders_def a_remove_def filter_map o_def)
qed

text \<open>An order number that is not resting, or rests on the other side, changes nothing.\<close>

lemma a_update_absent: "oid \<notin> order_id ` set q \<Longrightarrow> a_update oid f q = q"
  by (induction q) (auto simp: a_update_def)

lemma a_remove_absent: "oid \<notin> order_id ` set q \<Longrightarrow> a_remove oid q = q"
  by (induction q) (auto simp: a_remove_def)

end
