(* ===== verification/Wal.thy ===== *)
theory Wal
  imports Prelude
begin

text \<open>
  The write-ahead log (\<open>src/exchange/wal.h\<close>, \<open>wal.cpp\<close>): a ring of \<open>WAL_ENTRIES\<close> records in a
  memory mapped file. The mapping is a function from positions to records, so that the ring of
  13 million records need not be spelled out; a file is its size and that function. System
  calls are taken to succeed; their failure is the model's absent file or failed mapping.
\<close>

record wal_entry =
  we_type :: u8
  we_side :: u8
  we_locate :: u16
  we_price :: u32
  we_quantity :: u32
  we_user_id :: u64
  we_order_id :: u64
  we_seq :: u64

definition zero_entry :: wal_entry where
  [code_eval]: "zero_entry = \<lparr>we_type = 0, we_side = 0, we_locate = 0, we_price = 0, we_quantity = 0,
     we_user_id = 0, we_order_id = 0, we_seq = 0\<rparr>"

text \<open>\<open>512UL << 20\<close> bytes, \<open>sizeof(WalEntry) = 40\<close>.\<close>

definition WAL_SIZE :: nat where
  [code_eval]: "WAL_SIZE = 536870912"

definition WAL_ENTRIES :: nat where
  [code_eval]: "WAL_ENTRIES = WAL_SIZE div 40"

record wal_file =
  file_bytes :: nat
  file_entries :: "nat \<Rightarrow> wal_entry"

section \<open>Writer\<close>

record wal_writer =
  wal_base :: "nat \<Rightarrow> wal_entry"
  wal_total :: u64

text \<open>\<open>init\<close> opens the file, growing an empty one to full size; the mapping may be refused.\<close>

definition wal_init :: "bool \<Rightarrow> wal_file \<Rightarrow> (wal_writer \<times> wal_file) option" where
  [code_eval]: "wal_init mmap_ok f =
     (let f' = (if file_bytes f = 0 then f\<lparr>file_bytes := WAL_SIZE\<rparr> else f);
          tot = (if file_bytes f = 0 then 0 else min (file_bytes f div 40) WAL_ENTRIES) in
      if mmap_ok then Some (\<lparr>wal_base = file_entries f', wal_total = of_nat tot\<rparr>, f') else None)"

definition wal_append :: "wal_entry \<Rightarrow> wal_writer \<Rightarrow> wal_writer" where
  [code_eval]: "wal_append entry w =
     (let pos = unat (wal_total w) mod WAL_ENTRIES in
      w\<lparr>wal_base := (wal_base w)(pos := entry), wal_total := wal_total w + 1\<rparr>)"

definition needCheckpoint :: "wal_writer \<Rightarrow> bool" where
  [code_eval]: "needCheckpoint w \<longleftrightarrow> wal_total w > 0 \<and> unat (wal_total w) mod WAL_ENTRIES = 0"

definition curPosition :: "wal_writer \<Rightarrow> nat" where
  [code_eval]: "curPosition w = unat (wal_total w) mod WAL_ENTRIES"

text \<open>\<open>close\<close> syncs the mapping: the file holds what the writer wrote.\<close>

definition wal_close :: "wal_writer \<Rightarrow> wal_file \<Rightarrow> wal_file" where
  [code_eval]: "wal_close w f = f\<lparr>file_entries := wal_base w\<rparr>"

section \<open>Reader\<close>

record wal_reader =
  rd_base :: "nat \<Rightarrow> wal_entry"
  rd_count :: nat

definition wal_open :: "bool \<Rightarrow> wal_file option \<Rightarrow> wal_reader option" where
  [code_eval]: "wal_open mmap_ok mf =
     (case mf of
        None \<Rightarrow> None
      | Some f \<Rightarrow>
          if file_bytes f < 40 then None
          else if mmap_ok then Some \<lparr>rd_base = file_entries f, rd_count = min (file_bytes f div 40) WAL_ENTRIES\<rparr>
          else None)"

definition entryAt :: "wal_reader \<Rightarrow> nat \<Rightarrow> wal_entry option" where
  [code_eval]: "entryAt r i = (if i < rd_count r then Some (rd_base r i) else None)"

section \<open>The ring holds the last records in order\<close>

lemma WAL_ENTRIES_pos: "0 < WAL_ENTRIES" "WAL_ENTRIES < 2 ^ 32"
  by (simp_all add: WAL_ENTRIES_def WAL_SIZE_def)

definition wal_append_all :: "wal_entry list \<Rightarrow> wal_writer \<Rightarrow> wal_writer" where
  "wal_append_all es w = fold wal_append es w"

lemma wal_total_append_all [simp]: "wal_total (wal_append_all es w) = wal_total w + of_nat (length es)"
  unfolding wal_append_all_def by (induction es arbitrary: w) (simp_all add: wal_append_def Let_def)

text \<open>
  After appending \<open>es\<close> to a writer with total \<open>n\<close>, record \<open>j\<close> of \<open>es\<close> stands at position
  \<open>(n + j) mod WAL_ENTRIES\<close>, unless a later one has overwritten it.
\<close>

lemma wal_append_all_nth:
  assumes "unat (wal_total w) + length es < 2 ^ 64" "j < length es" "length es \<le> j + WAL_ENTRIES"
  shows "wal_base (wal_append_all es w) ((unat (wal_total w) + j) mod WAL_ENTRIES) = es ! j"
  using assms
proof (induction es rule: rev_induct)
  case (snoc e es)
  have step: "wal_append_all (es @ [e]) w = wal_append e (wal_append_all es w)"
    by (simp add: wal_append_all_def)
  have tot: "unat (wal_total w + of_nat (length es)) = unat (wal_total w) + length es"
    using snoc.prems(1) by (simp add: unat_word_ariths(1) unat_of_nat take_bit_nat_eq_self)
  show ?case
  proof (cases "j = length es")
    case True
    then show ?thesis unfolding step by (simp add: wal_append_def Let_def tot)
  next
    case False
    then have j: "j < length es" "length es \<le> j + WAL_ENTRIES" using snoc.prems by auto
    have "(unat (wal_total w) + j) mod WAL_ENTRIES \<noteq> (unat (wal_total w) + length es) mod WAL_ENTRIES"
    proof
      assume "(unat (wal_total w) + j) mod WAL_ENTRIES = (unat (wal_total w) + length es) mod WAL_ENTRIES"
      then have "WAL_ENTRIES dvd (length es - j)"
        using j by (metis add_diff_cancel_left mod_eq_dvd_iff_nat less_imp_le nat_add_left_cancel_le)
      moreover have "0 < length es - j" "length es - j < WAL_ENTRIES" using j snoc.prems by auto
      ultimately show False by (auto dest: dvd_imp_le)
    qed
    then show ?thesis
      using snoc.IH j snoc.prems by (simp add: step wal_append_def Let_def tot nth_append)
  qed
qed simp

text \<open>
  C17: What was appended can be read back. A log of at most \<open>WAL_ENTRIES\<close> records written to an
  empty file, closed and opened for reading gives every record at its index; the reader counts
  the whole ring, whatever was written.
\<close>

theorem wal_read_back:
  assumes "file_bytes f0 = 0" "wal_init True f0 = Some (w, f1)" "length es \<le> WAL_ENTRIES" "j < length es"
  shows "\<exists>r. wal_open True (Some (wal_close (wal_append_all es w) f1)) = Some r \<and>
    entryAt r j = Some (es ! j) \<and> rd_count r = WAL_ENTRIES"
proof -
  have w: "wal_total w = 0" "file_bytes f1 = WAL_SIZE"
    using assms(1,2) by (auto simp: wal_init_def Let_def)
  have "length es < 2 ^ 64" using assms(3) by (simp add: WAL_ENTRIES_def WAL_SIZE_def)
  then have "wal_base (wal_append_all es w) (j mod WAL_ENTRIES) = es ! j"
    using wal_append_all_nth [of w es j] assms(3,4) w by simp
  then show ?thesis
    using w assms(3,4)
    by (auto simp: wal_open_def wal_close_def entryAt_def WAL_SIZE_def WAL_ENTRIES_def)
qed

definition sample_entry :: "u64 \<Rightarrow> wal_entry" where
  [code_eval]: "sample_entry k = zero_entry\<lparr>we_type := 1, we_order_id := k\<rparr>"

definition empty_file :: wal_file where
  [code_eval]: "empty_file = \<lparr>file_bytes = 0, file_entries = (\<lambda>_. zero_entry)\<rparr>"

lemma wal_read_back_witness:
  "\<exists>w f1 r. wal_init True empty_file = Some (w, f1) \<and>
     wal_open True (Some (wal_close (wal_append_all [sample_entry 5, sample_entry 9] w) f1)) = Some r \<and>
     entryAt r 1 = Some (sample_entry 9)"
proof -
  obtain w f1 where w: "wal_init True empty_file = Some (w, f1)" by (simp add: wal_init_def Let_def)
  show ?thesis
    using w wal_read_back [OF _ w, of "[sample_entry 5, sample_entry 9]" 1]
    by (auto simp: empty_file_def WAL_ENTRIES_def WAL_SIZE_def)
qed

text \<open>
  C20: Reopening an existing log restarts the writer at position 0. \<open>init\<close> derives the total from
  the size of the file, which \<open>ftruncate\<close> made \<open>WAL_SIZE\<close>, not from the records in it: whatever
  was appended before, the next record overwrites record 0.
\<close>

theorem wal_reopen_overwrites:
  assumes "file_bytes f0 = 0" "wal_init True f0 = Some (w0, f1)"
    "wal_init True (wal_close (wal_append_all es w0) f1) = Some (w, f2)"
  shows "wal_total w = of_nat WAL_ENTRIES \<and> curPosition w = 0 \<and>
    wal_base (wal_append e w) = (wal_base (wal_append_all es w0))(0 := e)"
proof -
  have "file_bytes f1 = WAL_SIZE"
    using assms(1,2) by (auto simp: wal_init_def Let_def)
  then have w: "wal_total w = of_nat WAL_ENTRIES" "wal_base w = wal_base (wal_append_all es w0)"
    using assms(3) by (auto simp: wal_init_def Let_def wal_close_def WAL_SIZE_def WAL_ENTRIES_def)
  then have "unat (wal_total w) = WAL_ENTRIES"
    by (simp add: unat_of_nat take_bit_nat_eq_self WAL_ENTRIES_def WAL_SIZE_def)
  then show ?thesis using w by (simp add: curPosition_def wal_append_def Let_def)
qed

lemma wal_reopen_overwrites_witness:
  "\<exists>w0 f1 w f2. wal_init True empty_file = Some (w0, f1) \<and>
     wal_init True (wal_close (wal_append_all [sample_entry 5] w0) f1) = Some (w, f2) \<and>
     wal_base (wal_append (sample_entry 9) w) 0 = sample_entry 9"
proof -
  obtain w0 f1 where w0: "wal_init True empty_file = Some (w0, f1)" by (simp add: wal_init_def Let_def)
  obtain w f2 where w: "wal_init True (wal_close (wal_append_all [sample_entry 5] w0) f1) = Some (w, f2)"
    by (simp add: wal_init_def Let_def)
  have "file_bytes empty_file = 0" by (simp add: empty_file_def)
  from wal_reopen_overwrites [OF this w0 w, of "sample_entry 9"] w0 w show ?thesis by auto
qed

end
