(* ===== verification/Matching.thy ===== *)
theory Matching
  imports Ex_Book_Abs Wal
begin

text \<open>
  The matching engine (\<open>src/exchange/matching_engine.h\<close>, \<open>matching_engine.cpp\<close>) with the
  protocol constants, counters and trade ring it writes (\<open>protocol.h\<close>, \<open>metrics.h\<close>,
  \<open>trade_pool.h\<close>). The engine is the record of its fields; a handler takes the responses sent so
  far and returns them extended.
\<close>

section \<open>Protocol, counters, trade ring\<close>

datatype error_code = INVALID_SIDE | INVALID_PRICE_QTY_USER | ORDER_NOT_FOUND | INVALID_COMMAND_TYPE
  | POOL_FULL | MKT_NO_LIQUIDITY | FOK_NO_FULL_FILL

datatype order_tif = DAY | IOC | FOK

definition SIDE_BUY :: u8 where [code_eval]: "SIDE_BUY = 1"
definition SIDE_SELL :: u8 where [code_eval]: "SIDE_SELL = 2"

datatype response =
    RSP_TRADE (tr_locate: u64) (tr_order_ref: u64) (tr_side: u8) (tr_price: u32) (tr_quantity: u32)
  | RSP_OK u64
  | RSP_FILLED u64
  | RSP_CANCELLED u64
  | RSP_ERROR error_code
  | RSP_BOOK (bk_locate: u64) (bk_bid_price: u32) (bk_bid_volume: u32) (bk_ask_price: u32) (bk_ask_volume: u32)

record io_counters =
  recv_frames :: u64
  new_orders :: u64
  cancels :: u64
  book_queries :: u64
  trades :: u64
  errors :: u64
  order_pool_used :: u64
  order_pool_capacity :: u64
  tick_counter :: u64

record trade_entry =
  te_trade_id :: u64
  te_buy_order_id :: u64
  te_sell_order_id :: u64
  te_price :: u32
  te_quantity :: u32
  te_buyer_id :: u64
  te_seller_id :: u64
  te_timestamp :: u64
  te_seq :: u64

definition TRADE_CAPACITY :: nat where
  [code_eval]: "TRADE_CAPACITY = 1048576"

record trade_pool =
  entries :: "nat \<Rightarrow> trade_entry"
  write_idx :: u64

text \<open>
  What a match writes besides the book: the counters and the trade ring, when attached, and the
  static trade numbers of \<open>matchBuyOrder\<close> and of \<open>matchSellOrder\<close>.
\<close>

record trade_log =
  metrics :: "io_counters option"
  trade_ring :: "trade_pool option"
  buy_trade_id :: u64
  sell_trade_id :: u64

definition count_trade :: "trade_log \<Rightarrow> trade_log" where
  [code_eval]: "count_trade lg = lg\<lparr>metrics := map_option (\<lambda>m. m\<lparr>trades := trades m + 1\<rparr>) (metrics lg)\<rparr>"

definition put_trade :: "(trade_entry \<Rightarrow> trade_entry) \<Rightarrow> trade_pool \<Rightarrow> trade_pool" where
  [code_eval]: "put_trade f tp =
     (let idx = unat (write_idx tp) mod TRADE_CAPACITY in
      tp\<lparr>entries := (entries tp)(idx := f (entries tp idx)), write_idx := write_idx tp + 1\<rparr>)"

definition log_buy_trade :: "u64 \<Rightarrow> order \<Rightarrow> order \<Rightarrow> u32 \<Rightarrow> trade_log \<Rightarrow> trade_log" where
  [code_eval]: "log_buy_trade seq ord best_ask qty lg =
     (let lg1 = count_trade lg in
      case trade_ring lg1 of
        None \<Rightarrow> lg1
      | Some tp \<Rightarrow>
          let tid = buy_trade_id lg1 + 1 in
          lg1\<lparr>buy_trade_id := tid, trade_ring := Some (put_trade (\<lambda>t. t\<lparr>te_trade_id := tid,
            te_buy_order_id := order_id ord, te_sell_order_id := order_id best_ask,
            te_price := price best_ask, te_quantity := qty, te_buyer_id := user_id ord,
            te_seller_id := user_id best_ask, te_seq := seq\<rparr>) tp)\<rparr>)"

definition log_sell_trade :: "u64 \<Rightarrow> order \<Rightarrow> order \<Rightarrow> u32 \<Rightarrow> trade_log \<Rightarrow> trade_log" where
  [code_eval]: "log_sell_trade seq ord best_bid qty lg =
     (let lg1 = count_trade lg in
      case trade_ring lg1 of
        None \<Rightarrow> lg1
      | Some tp \<Rightarrow>
          let tid = sell_trade_id lg1 + 1 in
          lg1\<lparr>sell_trade_id := tid, trade_ring := Some (put_trade (\<lambda>t. t\<lparr>te_trade_id := tid,
            te_buy_order_id := order_id best_bid, te_sell_order_id := order_id ord,
            te_price := price best_bid, te_quantity := qty, te_buyer_id := user_id best_bid,
            te_seller_id := user_id ord, te_seq := seq\<rparr>) tp)\<rparr>)"

section \<open>The match loops\<close>

type_synonym match_state = "order_book \<times> order \<times> response list \<times> trade_log"

partial_function (option) matchBuyOrder ::
  "u64 \<Rightarrow> u64 \<Rightarrow> order_book \<Rightarrow> order \<Rightarrow> response list \<Rightarrow> trade_log \<Rightarrow> match_state option" where
  [code, code_eval]: "matchBuyOrder locate seq book ord out lg =
     (if remaining_qty ord = 0 then Some (book, ord, out, lg)
      else do {
        best_ask \<leftarrow> getBestAsk (user_id ord) book;
        case best_ask of
          None \<Rightarrow> Some (book, ord, out, lg)
        | Some idx \<Rightarrow> do {
            ask \<leftarrow> pool_at (ob_pool book) idx;
            if price ord < price ask then Some (book, ord, out, lg)
            else do {
              let trade_qty = min (remaining_qty ord) (remaining_qty ask);
              let ord1 = ord\<lparr>remaining_qty := remaining_qty ord - trade_qty,
                             filled_qty := filled_qty ord + trade_qty\<rparr>;
              book1 \<leftarrow> reduceOrderQty idx trade_qty book;
              ask1 \<leftarrow> pool_at (ob_pool book1) idx;
              let out1 = out @ [RSP_TRADE locate (order_id ask1) SIDE_SELL (price ask1) trade_qty];
              let lg1 = log_buy_trade seq ord1 ask1 trade_qty lg;
              book2 \<leftarrow> (if remaining_qty ask1 = 0
                       then do { b \<leftarrow> set_status idx FILLED book1; removeOrderPtr idx b }
                       else set_status idx PARTIALLY_FILLED book1);
              let ord2 = ord1\<lparr>status := (if remaining_qty ord1 = 0 then FILLED else PARTIALLY_FILLED)\<rparr>;
              matchBuyOrder locate seq book2 ord2 out1 lg1
            }
          }
      })"

partial_function (option) matchSellOrder ::
  "u64 \<Rightarrow> u64 \<Rightarrow> order_book \<Rightarrow> order \<Rightarrow> response list \<Rightarrow> trade_log \<Rightarrow> match_state option" where
  [code, code_eval]: "matchSellOrder locate seq book ord out lg =
     (if remaining_qty ord = 0 then Some (book, ord, out, lg)
      else do {
        best_bid \<leftarrow> getBestBid (user_id ord) book;
        case best_bid of
          None \<Rightarrow> Some (book, ord, out, lg)
        | Some idx \<Rightarrow> do {
            bid \<leftarrow> pool_at (ob_pool book) idx;
            if price ord > price bid then Some (book, ord, out, lg)
            else do {
              let trade_qty = min (remaining_qty ord) (remaining_qty bid);
              let ord1 = ord\<lparr>remaining_qty := remaining_qty ord - trade_qty,
                             filled_qty := filled_qty ord + trade_qty\<rparr>;
              book1 \<leftarrow> reduceOrderQty idx trade_qty book;
              bid1 \<leftarrow> pool_at (ob_pool book1) idx;
              let out1 = out @ [RSP_TRADE locate (order_id bid1) SIDE_BUY (price bid1) trade_qty];
              let lg1 = log_sell_trade seq ord1 bid1 trade_qty lg;
              book2 \<leftarrow> (if remaining_qty bid1 = 0
                       then do { b \<leftarrow> set_status idx FILLED book1; removeOrderPtr idx b }
                       else set_status idx PARTIALLY_FILLED book1);
              let ord2 = ord1\<lparr>status := (if remaining_qty ord1 = 0 then FILLED else PARTIALLY_FILLED)\<rparr>;
              matchSellOrder locate seq book2 ord2 out1 lg1
            }
          }
      })"

section \<open>The engine\<close>

record engine =
  shared_pool :: ex_pool
  shared_index :: "u32 order_map"
  books :: "nat \<Rightarrow> (levels \<times> levels) option"
  next_order_id :: u64
  next_sequence :: u64
  tlog :: trade_log
  wal :: "wal_writer option"

definition kMaxLocate :: nat where
  [code_eval]: "kMaxLocate = 65536"

text \<open>
  A book is its levels; with the engine's pool and index it is the \<open>order_book\<close> of the previous
  theories. \<open>book_for\<close> creates a missing book, \<open>None\<close> is the \<open>nullptr\<close> of a locate out of range.
\<close>

definition the_book :: "engine \<Rightarrow> levels \<times> levels \<Rightarrow> order_book" where
  [code_eval]: "the_book e bk = \<lparr>ob_pool = shared_pool e, ob_index = shared_index e, bids = fst bk, asks = snd bk\<rparr>"

definition book_for :: "u64 \<Rightarrow> engine \<Rightarrow> (order_book ptr \<times> engine)" where
  [code_eval]: "book_for locate e =
     (if unat locate \<ge> kMaxLocate then (None, e)
      else case books e (unat locate) of
             Some bk \<Rightarrow> (Some (the_book e bk), e)
           | None \<Rightarrow> (Some (the_book e ([], [])), e\<lparr>books := (books e)(unat locate \<mapsto> ([], []))\<rparr>))"

definition put_book :: "u64 \<Rightarrow> order_book \<Rightarrow> engine \<Rightarrow> engine" where
  [code_eval]: "put_book locate b e = e\<lparr>shared_pool := ob_pool b, shared_index := ob_index b,
     books := (books e)(unat locate \<mapsto> (bids b, asks b))\<rparr>"

definition bump :: "(io_counters \<Rightarrow> io_counters) \<Rightarrow> engine \<Rightarrow> engine" where
  [code_eval]: "bump f e = e\<lparr>tlog := (tlog e)\<lparr>metrics := map_option f (metrics (tlog e))\<rparr>\<rparr>"

definition count_new :: "engine \<Rightarrow> engine" where
  [code_eval]: "count_new = bump (\<lambda>m. m\<lparr>new_orders := new_orders m + 1\<rparr>)"
definition count_cancel :: "engine \<Rightarrow> engine" where
  [code_eval]: "count_cancel = bump (\<lambda>m. m\<lparr>cancels := cancels m + 1\<rparr>)"
definition count_error :: "engine \<Rightarrow> engine" where
  [code_eval]: "count_error = bump (\<lambda>m. m\<lparr>errors := errors m + 1\<rparr>)"
definition note_usage :: "engine \<Rightarrow> engine" where
  [code_eval]: "note_usage e = bump (\<lambda>m. m\<lparr>order_pool_used := pool_size (shared_pool e)\<rparr>) e"

definition log_wal :: "wal_entry \<Rightarrow> engine \<Rightarrow> engine" where
  [code_eval]: "log_wal entry e = e\<lparr>wal := map_option (wal_append entry) (wal e)\<rparr>"

definition canFullFill :: "order_book \<Rightarrow> side \<Rightarrow> u32 \<Rightarrow> u32 \<Rightarrow> bool option" where
  [code_eval]: "canFullFill book sd pr quantity = do {
     avail \<leftarrow> availableQty sd pr book;
     Some (avail \<ge> quantity)
   }"

text \<open>The match of one incoming order against the book of \<open>locate\<close>.\<close>

definition run_match ::
  "u64 \<Rightarrow> order_book \<Rightarrow> order \<Rightarrow> response list \<Rightarrow> engine \<Rightarrow> (order_book \<times> order \<times> response list \<times> engine) option" where
  [code_eval]: "run_match locate book ord out e = do {
     (book', ord', out', lg') \<leftarrow>
       (if side ord = BUY then matchBuyOrder locate (next_sequence e) book ord out (tlog e)
        else matchSellOrder locate (next_sequence e) book ord out (tlog e));
     Some (book', ord', out', put_book locate book' (e\<lparr>tlog := lg'\<rparr>))
   }"

text \<open>An unfilled rest enters the book; the response and counters of both outcomes.\<close>

definition rest_order ::
  "u64 \<Rightarrow> order_book \<Rightarrow> order \<Rightarrow> response list \<Rightarrow> engine \<Rightarrow> (response list \<times> engine) option" where
  [code_eval]: "rest_order locate book ord out e = do {
     (added, book') \<leftarrow> addOrder ord book;
     let e' = put_book locate book' e;
     if \<not> added then Some (out @ [RSP_ERROR POOL_FULL], note_usage (count_error e'))
     else Some (out @ [RSP_OK (order_id ord)], note_usage e')
   }"

definition processAdd ::
  "u64 \<Rightarrow> u64 \<Rightarrow> side \<Rightarrow> u32 \<Rightarrow> u32 \<Rightarrow> u64 \<Rightarrow> order_tif \<Rightarrow> response list \<Rightarrow> engine \<Rightarrow> (response list \<times> engine) option" where
  [code_eval]: "processAdd locate order_ref sd pr quantity uid tif out e0 =
     (let e1 = count_new e0 in
      case book_for locate e1 of
        (None, e2) \<Rightarrow> Some (out @ [RSP_ERROR INVALID_COMMAND_TYPE], count_error e2)
      | (Some book, e2) \<Rightarrow>
          if sd = INVALID then Some (out @ [RSP_ERROR INVALID_SIDE], count_error e2)
          else
            let is_market = (tif = IOC \<or> tif = FOK) \<and> pr = 0;
                price' = (if is_market then (if sd = BUY then UINT32_MAX else 0) else pr) in
            if (\<not> is_market \<and> pr = 0) \<or> quantity = 0 \<or> uid = 0 \<or> order_ref = 0
            then Some (out @ [RSP_ERROR INVALID_PRICE_QTY_USER], count_error e2)
            else do {
              full \<leftarrow> (if tif = FOK then canFullFill book sd price' quantity else Some True);
              if \<not> full then Some (out @ [RSP_ERROR FOK_NO_FULL_FILL], count_error e2)
              else do {
                let ord = default_order\<lparr>user_id := uid, order_id := order_ref, side := sd, price := price',
                  original_qty := quantity, remaining_qty := quantity, filled_qty := 0,
                  sequence := next_sequence e2, status := OPEN\<rparr>;
                let e3 = e2\<lparr>next_sequence := next_sequence e2 + 1\<rparr>;
                let e4 = log_wal \<lparr>we_type = 1, we_side = (if sd = BUY then 1 else 2), we_locate = ucast locate,
                  we_price = price', we_quantity = quantity, we_user_id = uid, we_order_id = order_ref,
                  we_seq = next_sequence e3\<rparr> e3;
                (book', ord', out', e5) \<leftarrow> run_match locate book ord out e4;
                if status ord' = FILLED then Some (out' @ [RSP_FILLED order_ref], note_usage e5)
                else if tif = IOC then
                  (if filled_qty ord' = 0
                   then Some (out' @ [RSP_ERROR MKT_NO_LIQUIDITY], count_error e5)
                   else Some (out', e5))
                else if tif = FOK then
                  (if filled_qty ord' < quantity
                   then Some (out' @ [RSP_ERROR FOK_NO_FULL_FILL], count_error e5)
                   else Some (out', e5))
                else if status ord' = OPEN \<or> status ord' = PARTIALLY_FILLED
                then rest_order locate book' ord' out' e5
                else Some (out', e5)
              }
            })"

definition processCancel ::
  "u64 \<Rightarrow> u64 \<Rightarrow> u64 \<Rightarrow> response list \<Rightarrow> engine \<Rightarrow> (response list \<times> engine) option" where
  [code_eval]: "processCancel locate order_ref uid out e0 =
     (let e1 = count_cancel e0 in
      case book_for locate e1 of
        (None, e2) \<Rightarrow> Some (out @ [RSP_ERROR ORDER_NOT_FOUND], count_error e2)
      | (Some book, e2) \<Rightarrow> do {
          let e3 = log_wal \<lparr>we_type = 2, we_side = 0, we_locate = ucast locate, we_price = 0,
            we_quantity = 0, we_user_id = uid, we_order_id = order_ref, we_seq = next_sequence e2\<rparr> e2;
          (removed, book') \<leftarrow> removeOrder order_ref uid book;
          let e4 = put_book locate book' e3;
          if removed then Some (out @ [RSP_CANCELLED order_ref], e4)
          else Some (out @ [RSP_ERROR ORDER_NOT_FOUND], count_error e4)
        })"

definition processCancelShares ::
  "u64 \<Rightarrow> u64 \<Rightarrow> u32 \<Rightarrow> u64 \<Rightarrow> response list \<Rightarrow> engine \<Rightarrow> (response list \<times> engine) option" where
  [code_eval]: "processCancelShares locate order_ref shares uid out e0 =
     (let e1 = count_cancel e0 in
      case book_for locate e1 of
        (None, e2) \<Rightarrow> Some (out @ [RSP_ERROR ORDER_NOT_FOUND], count_error e2)
      | (Some book, e2) \<Rightarrow> do {
          let e3 = log_wal \<lparr>we_type = 3, we_side = 0, we_locate = ucast locate, we_price = 0,
            we_quantity = shares, we_user_id = uid, we_order_id = order_ref, we_seq = next_sequence e2\<rparr> e2;
          found \<leftarrow> findOrder order_ref book;
          case found of
            None \<Rightarrow> Some (out @ [RSP_ERROR ORDER_NOT_FOUND], count_error e3)
          | Some idx \<Rightarrow> do {
              o' \<leftarrow> pool_at (ob_pool book) idx;
              if user_id o' \<noteq> uid then Some (out @ [RSP_ERROR ORDER_NOT_FOUND], count_error e3)
              else if shares \<ge> remaining_qty o' then do {
                book' \<leftarrow> removeOrderPtr idx book;
                Some (out @ [RSP_CANCELLED order_ref], put_book locate book' e3)
              }
              else do {
                book' \<leftarrow> reduceQtyCancel idx shares book;
                Some (out @ [RSP_OK order_ref], put_book locate book' e3)
              }
            }
        })"

definition processReplace ::
  "u64 \<Rightarrow> u64 \<Rightarrow> u64 \<Rightarrow> side \<Rightarrow> u32 \<Rightarrow> u32 \<Rightarrow> u64 \<Rightarrow> response list \<Rightarrow> engine \<Rightarrow> (response list \<times> engine) option" where
  [code_eval]: "processReplace locate old_ref new_ref sd pr quantity uid out e0 =
     (let e1 = count_cancel e0 in
      case book_for locate e1 of
        (None, e2) \<Rightarrow> Some (out @ [RSP_ERROR ORDER_NOT_FOUND], count_error e2)
      | (Some book, e2) \<Rightarrow> do {
          let e3 = log_wal \<lparr>we_type = 4, we_side = 0, we_locate = ucast locate, we_price = pr,
            we_quantity = quantity, we_user_id = uid, we_order_id = new_ref, we_seq = next_sequence e2\<rparr> e2;
          found \<leftarrow> findOrder old_ref book;
          case found of
            None \<Rightarrow> Some (out @ [RSP_ERROR ORDER_NOT_FOUND], count_error e3)
          | Some idx \<Rightarrow> do {
              old \<leftarrow> pool_at (ob_pool book) idx;
              if user_id old \<noteq> uid then Some (out @ [RSP_ERROR ORDER_NOT_FOUND], count_error e3)
              else do {
                book1 \<leftarrow> removeOrderPtr idx book;
                let ord = default_order\<lparr>user_id := new_ref, order_id := new_ref, side := sd, price := pr,
                  original_qty := quantity, remaining_qty := quantity, filled_qty := 0,
                  sequence := next_sequence e3, status := OPEN\<rparr>;
                let e4 = put_book locate book1 (e3\<lparr>next_sequence := next_sequence e3 + 1\<rparr>);
                (book', ord', out', e5) \<leftarrow> run_match locate book1 ord out e4;
                if status ord' = OPEN \<or> status ord' = PARTIALLY_FILLED
                then rest_order locate book' ord' out' e5
                else if status ord' = FILLED then Some (out' @ [RSP_FILLED new_ref], e5)
                else Some (out', e5)
              }
            }
        })"

definition processNewOrder ::
  "side \<Rightarrow> u32 \<Rightarrow> u32 \<Rightarrow> u64 \<Rightarrow> response list \<Rightarrow> engine \<Rightarrow> (response list \<times> engine) option" where
  [code_eval]: "processNewOrder sd pr quantity uid out e =
     processAdd 0 (next_order_id e) sd pr quantity uid DAY out (e\<lparr>next_order_id := next_order_id e + 1\<rparr>)"

definition processCancel0 :: "u64 \<Rightarrow> u64 \<Rightarrow> response list \<Rightarrow> engine \<Rightarrow> (response list \<times> engine) option" where
  [code_eval]: "processCancel0 oid uid out e = processCancel 0 oid uid out e"

definition getBook :: "u64 \<Rightarrow> engine \<Rightarrow> response \<times> engine" where
  [code_eval]: "getBook locate e =
     (let e1 = bump (\<lambda>m. m\<lparr>book_queries := book_queries m + 1\<rparr>) e in
      (if unat locate \<ge> kMaxLocate then RSP_BOOK locate 0 0 0 0
       else case books e (unat locate) of
              None \<Rightarrow> RSP_BOOK locate 0 0 0 0
            | Some bk \<Rightarrow>
                let tob = getTopOfBook (the_book e bk) in
                RSP_BOOK locate (bid_price tob) (bid_volume tob) (ask_price tob) (ask_volume tob), e1))"

text \<open>The three constructors: shared pool and index, own pool and index, external pool.\<close>

definition note_capacity :: "engine \<Rightarrow> engine" where
  [code_eval]: "note_capacity e = bump (\<lambda>m. m\<lparr>order_pool_capacity := of_nat (pool_capacity (shared_pool e))\<rparr>) e"

definition engine_shared :: "ex_pool \<Rightarrow> u32 order_map \<Rightarrow> io_counters option \<Rightarrow> engine" where
  [code_eval]: "engine_shared pool ix ms = note_capacity
     \<lparr>shared_pool = pool, shared_index = ix, books = (\<lambda>_. None), next_order_id = 1, next_sequence = 1,
      tlog = \<lparr>metrics = ms, trade_ring = None, buy_trade_id = 0, sell_trade_id = 0\<rparr>, wal = None\<rparr>"

definition engine_owned :: "nat \<Rightarrow> io_counters option \<Rightarrow> engine option" where
  [code_eval]: "engine_owned capacity ms = do {
     pool \<leftarrow> pool_new default_order capacity;
     ix \<leftarrow> om_new capacity;
     Some (engine_shared pool ix ms)
   }"

definition engine_external :: "ex_pool \<Rightarrow> io_counters option \<Rightarrow> engine option" where
  [code_eval]: "engine_external pool ms = do {
     ix \<leftarrow> om_new (pool_capacity pool);
     Some (engine_shared pool ix ms)
   }"

end
