(* ===== verification/Match_Spec.thy ===== *)
theory Match_Spec
  imports Matching
begin

text \<open>
  The matching rule on the abstract queue, and the refinement: both match loops compute it on the
  side they match against, whatever else rests in the pool.
\<close>

section \<open>The rule\<close>

text \<open>
  \<open>a_match sd ex p n q\<close>: an order of user \<open>ex\<close> with price \<open>p\<close> and quantity \<open>n\<close> meets the queue
  \<open>q\<close> of side \<open>sd\<close>. Own orders are skipped; the result is the quantity left, the queue left and
  the trades (the resting order as it was, and the quantity).
\<close>

fun a_match :: "side \<Rightarrow> u64 \<Rightarrow> u32 \<Rightarrow> u32 \<Rightarrow> order list \<Rightarrow> u32 \<times> order list \<times> (order \<times> u32) list" where
  "a_match sd ex p n [] = (n, [], [])"
| "a_match sd ex p n (r # q) =
     (if n = 0 then (n, r # q, [])
      else if \<not> foreign ex r
      then (let (n', q', ts) = a_match sd ex p n q in (n', r # q', ts))
      else if \<not> crosses sd p (price r) then (n, r # q, [])
      else if remaining_qty r \<le> n
      then (let (n', q', ts) = a_match sd ex p (n - remaining_qty r) q
            in (n', q', (r, remaining_qty r) # ts))
      else (0, mark PARTIALLY_FILLED (fill n r) # q, [(r, n)]))"

declare a_match.simps [code_eval]

lemma a_match_zero [simp]: "a_match sd ex p 0 q = (0, q, [])"
  by (cases q) auto

lemma a_match_own:
  "\<forall>r\<in>set own. \<not> foreign ex r \<Longrightarrow>
   a_match sd ex p n (own @ q) = (let (n', q', ts) = a_match sd ex p n q in (n', own @ q', ts))"
  by (induction own) (auto simp: Let_def split: prod.splits if_splits)

lemma a_match_none: "\<forall>r\<in>set q. \<not> foreign ex r \<Longrightarrow> a_match sd ex p n q = (n, q, [])"
  using a_match_own [of q ex sd p n "[]"] by simp

text \<open>The incoming order after the trades.\<close>

definition taker :: "u32 \<Rightarrow> (order \<times> u32) list \<Rightarrow> order \<Rightarrow> order" where
  [code_eval]: "taker n ts ord =
     (if ts = [] then ord
      else ord\<lparr>remaining_qty := n, filled_qty := filled_qty ord + (remaining_qty ord - n),
               status := (if n = 0 then FILLED else PARTIALLY_FILLED)\<rparr>)"

definition rside :: "side \<Rightarrow> u8" where
  [code_eval]: "rside sd = (if sd = SELL then SIDE_SELL else SIDE_BUY)"

definition trade_rsp :: "u64 \<Rightarrow> side \<Rightarrow> order \<times> u32 \<Rightarrow> response" where
  [code_eval]: "trade_rsp locate sd t = RSP_TRADE locate (order_id (fst t)) (rside sd) (price (fst t)) (snd t)"

definition log_trade :: "side \<Rightarrow> u64 \<Rightarrow> order \<Rightarrow> order \<times> u32 \<Rightarrow> trade_log \<Rightarrow> trade_log" where
  [code_eval]: "log_trade sd seq ord t lg =
     (if sd = SELL then log_buy_trade seq ord (fst t) (snd t) lg else log_sell_trade seq ord (fst t) (snd t) lg)"

lemma log_trade_fields:
  "order_id ord' = order_id ord \<Longrightarrow> user_id ord' = user_id ord \<Longrightarrow> order_id r' = order_id r \<Longrightarrow>
   user_id r' = user_id r \<Longrightarrow> price r' = price r \<Longrightarrow>
   log_trade sd seq ord' (r', n) lg = log_trade sd seq ord (r, n) lg"
  by (simp add: log_trade_def log_buy_trade_def log_sell_trade_def Let_def split: option.split)

section \<open>One round of the loops\<close>

definition match_loop ::
  "side \<Rightarrow> u64 \<Rightarrow> u64 \<Rightarrow> order_book \<Rightarrow> order \<Rightarrow> response list \<Rightarrow> trade_log \<Rightarrow> match_state option" where
  "match_loop sd = (if sd = SELL then matchBuyOrder else matchSellOrder)"

definition trade_round ::
  "side \<Rightarrow> u64 \<Rightarrow> u64 \<Rightarrow> u32 \<Rightarrow> order_book \<Rightarrow> order \<Rightarrow> order \<Rightarrow> response list \<Rightarrow> trade_log \<Rightarrow> match_state option" where
  "trade_round sd locate seq idx book r ord out lg = do {
     let trade_qty = min (remaining_qty ord) (remaining_qty r);
     let ord1 = ord\<lparr>remaining_qty := remaining_qty ord - trade_qty, filled_qty := filled_qty ord + trade_qty\<rparr>;
     book1 \<leftarrow> reduceOrderQty idx trade_qty book;
     r1 \<leftarrow> pool_at (ob_pool book1) idx;
     let out1 = out @ [trade_rsp locate sd (r1, trade_qty)];
     let lg1 = log_trade sd seq ord1 (r1, trade_qty) lg;
     book2 \<leftarrow> (if remaining_qty r1 = 0
              then do { b \<leftarrow> set_status idx FILLED book1; removeOrderPtr idx b }
              else set_status idx PARTIALLY_FILLED book1);
     let ord2 = ord1\<lparr>status := (if remaining_qty ord1 = 0 then FILLED else PARTIALLY_FILLED)\<rparr>;
     Some (book2, ord2, out1, lg1)
   }"

lemma match_loop_eq:
  assumes "sd \<in> {BUY, SELL}"
  shows "match_loop sd locate seq book ord out lg =
     (if remaining_qty ord = 0 then Some (book, ord, out, lg)
      else do {
        bst \<leftarrow> best sd (user_id ord) book;
        case bst of
          None \<Rightarrow> Some (book, ord, out, lg)
        | Some idx \<Rightarrow> do {
            r \<leftarrow> pool_at (ob_pool book) idx;
            if \<not> crosses sd (price ord) (price r) then Some (book, ord, out, lg)
            else do {
              (book', ord', out', lg') \<leftarrow> trade_round sd locate seq idx book r ord out lg;
              match_loop sd locate seq book' ord' out' lg'
            }
          }
      })"
proof -
  have "sd = BUY \<or> sd = SELL" using assms by auto
  then show ?thesis
  proof
    assume "sd = SELL"
    then show ?thesis
      unfolding match_loop_def
      by (simp only: if_True simp_thms, subst matchBuyOrder.simps)
        (simp add: best_def crosses_def not_le trade_round_def Let_def log_trade_def trade_rsp_def rside_def
          cong: if_cong option.case_cong)
  next
    assume "sd = BUY"
    then show ?thesis
      unfolding match_loop_def
      by (simp only: side.distinct if_False simp_thms, subst matchSellOrder.simps)
        (simp add: best_def crosses_def not_le trade_round_def Let_def log_trade_def trade_rsp_def rside_def
          cong: if_cong option.case_cong)
  qed
qed

lemma a_remove_unique:
  "distinct (map order_id (as @ r # bs)) \<Longrightarrow> order_id r' = order_id r \<Longrightarrow> a_remove (order_id r) (as @ r' # bs) = as @ bs"
  using a_remove_absent [of "order_id r" as] a_remove_absent [of "order_id r" bs] by (auto simp: a_remove_def)

lemma a_update_unique:
  "distinct (map order_id (as @ r # bs)) \<Longrightarrow> a_update (order_id r) f (as @ r # bs) = as @ f r # bs"
  using a_update_absent [of "order_id r" as] a_update_absent [of "order_id r" bs] by (auto simp: a_update_def)

lemma write_fields [simp]:
  "order_id (fill n r) = order_id r" "user_id (fill n r) = user_id r" "price (fill n r) = price r"
  "side (fill n r) = side r" "remaining_qty (fill n r) = remaining_qty r - n"
  "order_id (mark st r) = order_id r" "user_id (mark st r) = user_id r" "price (mark st r) = price r"
  "side (mark st r) = side r" "remaining_qty (mark st r) = remaining_qty r"
  "order_id (shrink n r) = order_id r" "user_id (shrink n r) = user_id r" "price (shrink n r) = price r"
  "side (shrink n r) = side r" "remaining_qty (shrink n r) = remaining_qty r - n"
  by (simp_all add: fill_def mark_def shrink_def)

text \<open>
  What matching makes of a book: the side \<open>sd\<close> becomes the queue \<open>q\<close>, the other side stays, the slots \<open>P\<close> come
  free, orders keep their numbers.
\<close>

definition settles ::
  "side \<Rightarrow> order_book \<Rightarrow> ghost \<Rightarrow> u32 list \<Rightarrow> u32 set \<Rightarrow> order list \<Rightarrow> order_book \<Rightarrow> ghost \<Rightarrow> u32 list \<Rightarrow> bool" where
  "settles sd b g F Oth q b' g' P \<longleftrightarrow> book_ok b' g' (P @ F) Oth \<and> agree (slots b) (slots b') Oth \<and> roomier b b' \<and> live g' \<subseteq> live g \<and>
     (\<forall>i\<in>live g'. order_id (body (slots b') i) = order_id (body (slots b) i)) \<and>
     orders sd b' g' = q \<and> orders (opposite sd) b' g' = orders (opposite sd) b g"

lemma settles_refl: "book_ok b g F Oth \<Longrightarrow> settles sd b g F Oth (orders sd b g) b g []"
  by (simp add: settles_def roomier_def)

lemma settles_trans:
  "settles sd b g F Oth q1 b1 g1 P1 \<Longrightarrow> settles sd b1 g1 (P1 @ F) Oth q2 b2 g2 P2 \<Longrightarrow> settles sd b g F Oth q2 b2 g2 (P2 @ P1)"
  unfolding settles_def roomier_def by (auto intro: agree_trans)

text \<open>Writing fields that do not place an order, and removing an order of the side.\<close>

lemma settles_write:
  assumes ok: "book_ok b g F Oth" "book_ok b' g F Oth" and S: "sd \<in> {BUY, SELL}" and x: "x \<in> set (qslots sd b g)"
    and b': "agree (slots b) (slots b') Oth" "ob_index b' = ob_index b" "body (slots b') = (body (slots b))(x := f (body (slots b) x))"
    and f: "order_id (f (body (slots b) x)) = order_id (body (slots b) x)" and q: "orders sd b' g = q"
  shows "settles sd b g F Oth q b' g []"
proof -
  have opp: "opposite sd \<in> {BUY, SELL}" using opposite_side [OF S] by simp
  have "i \<noteq> x" if "i \<in> slots_of (g (opposite sd))" for i
    using that x set_qslots [OF ok(1) S] book_sides_disjoint [OF ok(1) S] by auto
  then have "orders (opposite sd) b' g = orders (opposite sd) b g" using orders_other [OF ok opp refl] b'(3) by simp
  then show ?thesis using ok(2) b' f q by (simp add: settles_def roomier_def)
qed

lemma settles_remove:
  assumes ok: "book_ok b g F Oth" and S: "sd \<in> {BUY, SELL}" and x: "x \<in> set (qslots sd b g)"
  shows "\<exists>b'. removeOrderPtr x b = Some b' \<and>
    settles sd b g F Oth (a_remove (order_id (body (slots b) x)) (orders sd b g)) b' (ghost_del x g) [x]"
proof -
  have xl: "x \<in> live g" by (rule qslots_live [OF ok S x])
  have opp: "opposite sd \<in> {BUY, SELL}" using opposite_side [OF S] by simp
  have xo: "i \<noteq> x" if "i \<in> slots_of (g (opposite sd))" for i
    using that x set_qslots [OF ok S] book_sides_disjoint [OF ok S] by auto
  obtain b' where b': "removeOrderPtr x b = Some b'" "book_ok b' (ghost_del x g) (x # F) Oth"
    "agree (slots b) (slots b') Oth" "\<forall>i\<in>live g - {x}. body (slots b') i = body (slots b) i" "roomier b b'"
    using removeOrderPtr_ok [OF ok xl] by auto
  have "orders sd b' (ghost_del x g) = a_remove (order_id (body (slots b) x)) (orders sd b g)"
    by (rule orders_remove [OF ok S b'(2) xl b'(4)])
  moreover have "orders (opposite sd) b' (ghost_del x g) = orders (opposite sd) b g"
  proof (rule orders_other [OF ok b'(2) opp])
    show "ghost_del x g (opposite sd) = g (opposite sd)"
      using xo by (auto simp: ghost_del_def slots_of_def fun_eq_iff intro!: filter_neq_id)
    show "body (slots b') i = body (slots b) i" if "i \<in> slots_of (g (opposite sd))" for i
      using that xo b'(4) live_sides [OF S, of g] by auto
  qed
  ultimately show ?thesis using b' by (auto simp: settles_def live_del)
qed

text \<open>
  The round trades \<open>n\<close> with the order \<open>r = body x\<close> and marks it; when it is used up, it leaves the queue.
\<close>

lemma trade_round_marks:
  fixes ord :: order
  assumes ok: "book_ok b g F Oth" and S: "sd \<in> {BUY, SELL}" and x: "x \<in> set (qslots sd b g)"
    and q: "orders sd b g = as @ body (slots b) x # bs"
  defines "r \<equiv> body (slots b) x"
  defines "n \<equiv> min (remaining_qty ord) (remaining_qty r)" and "st \<equiv> (if remaining_qty r \<le> remaining_qty ord then FILLED else PARTIALLY_FILLED)"
  shows "\<exists>b2. settles sd b g F Oth (as @ mark st (fill n r) # bs) b2 g [] \<and> body (slots b2) x = mark st (fill n r) \<and>
    trade_round sd locate seq x b (slots b ! unat x) ord out lg =
      do { b3 \<leftarrow> (if remaining_qty r \<le> remaining_qty ord then removeOrderPtr x b2 else Some b2);
           Some (b3, taker (remaining_qty ord - n) [(r, n)] ord, out @ [trade_rsp locate sd (r, n)],
             log_trade sd seq ord (r, n) lg) }"
proof -
  have xl: "x \<in> live g" by (rule qslots_live [OF ok S x])
  have ids: "distinct (map order_id (as @ r # bs))"
    using orders_ids [OF ok S] unfolding q r_def .
  obtain b1 where b1: "reduceOrderQty x n b = Some b1" "book_ok b1 g F Oth" "agree (slots b) (slots b1) Oth"
    "ob_index b1 = ob_index b" "body (slots b1) = (body (slots b))(x := fill n r)"
    using reduceOrderQty_ok [OF ok xl, of n] by (auto simp: r_def)
  have x1: "body (slots b1) x = fill n r" using b1(5) by simp
  have p1: "pool_at (ob_pool b1) x = Some (slots b1 ! unat x)"
    using book_bound [OF b1(2) xl] by simp
  define r1 where "r1 = slots b1 ! unat x"
  have r1: "order_id r1 = order_id r" "user_id r1 = user_id r" "price r1 = price r"
    "remaining_qty r1 = remaining_qty r - n"
    using x1 by (simp_all add: r1_def body_field)
  have full: "remaining_qty r1 = 0 \<longleftrightarrow> remaining_qty r \<le> remaining_qty ord"
    by (auto simp: r1 n_def min_def)
  obtain b2 where b2: "set_status x st b1 = Some b2" "book_ok b2 g F Oth" "agree (slots b1) (slots b2) Oth"
    "ob_index b2 = ob_index b1" "body (slots b2) = (body (slots b1))(x := mark st (fill n r))"
    using set_status_ok [OF b1(2) xl, of st] x1 by auto
  have body2: "body (slots b2) = (body (slots b))(x := (\<lambda>o'. mark st (fill n o')) (body (slots b) x))"
    using b1(5) b2(5) by (simp add: r_def)
  have "orders sd b2 g = as @ mark st (fill n r) # bs"
    using orders_write [OF ok S b2(2) xl, of "\<lambda>o'. mark st (fill n o')"] body2
      a_update_unique [OF ids, of "\<lambda>o'. mark st (fill n o')"] q by (simp add: r_def)
  then have s: "settles sd b g F Oth (as @ mark st (fill n r) # bs) b2 g []"
    using settles_write [OF ok b2(2) S x, where f = "\<lambda>o'. mark st (fill n o')"] body2 agree_trans [OF b1(3) b2(3)] b1(4) b2(4) by simp
  have rr: "remaining_qty (slots b ! unat x) = remaining_qty r" by (simp add: r_def body_field)
  have "trade_rsp locate sd (r1, n) = trade_rsp locate sd (r, n)" by (simp add: trade_rsp_def r1)
  moreover have "log_trade sd seq (ord\<lparr>remaining_qty := remaining_qty ord - n, filled_qty := filled_qty ord + n\<rparr>) (r1, n) lg
      = log_trade sd seq ord (r, n) lg"
    by (rule log_trade_fields) (simp_all add: r1)
  ultimately have "trade_round sd locate seq x b (slots b ! unat x) ord out lg =
      do { b3 \<leftarrow> (if remaining_qty r \<le> remaining_qty ord then removeOrderPtr x b2 else Some b2);
           Some (b3, taker (remaining_qty ord - n) [(r, n)] ord, out @ [trade_rsp locate sd (r, n)],
             log_trade sd seq ord (r, n) lg) }"
    using b2(1) unfolding st_def
    by (cases "remaining_qty r \<le> remaining_qty ord")
      (simp_all add: trade_round_def rr n_def [symmetric] b1(1) p1 r1_def [symmetric] full taker_def)
  then show ?thesis using s body2 by (intro exI [of _ b2]) (simp add: r_def)
qed

lemma trade_round_ok:
  fixes ord :: order
  assumes ok: "book_ok b g F Oth" and S: "sd \<in> {BUY, SELL}" and x: "x \<in> set (qslots sd b g)"
    and q: "orders sd b g = as @ body (slots b) x # bs"
  defines "r \<equiv> body (slots b) x"
  defines "n \<equiv> min (remaining_qty ord) (remaining_qty r)"
  shows "\<exists>b' g' P. trade_round sd locate seq x b (slots b ! unat x) ord out lg =
      Some (b', taker (remaining_qty ord - n) [(r, n)] ord, out @ [trade_rsp locate sd (r, n)],
        log_trade sd seq ord (r, n) lg) \<and>
    settles sd b g F Oth (if remaining_qty r \<le> remaining_qty ord then as @ bs else as @ mark PARTIALLY_FILLED (fill n r) # bs) b' g' P"
proof -
  let ?st = "if remaining_qty r \<le> remaining_qty ord then FILLED else PARTIALLY_FILLED"
  obtain b2 where b2: "settles sd b g F Oth (as @ mark ?st (fill n r) # bs) b2 g []" "body (slots b2) x = mark ?st (fill n r)"
    "trade_round sd locate seq x b (slots b ! unat x) ord out lg =
      do { b3 \<leftarrow> (if remaining_qty r \<le> remaining_qty ord then removeOrderPtr x b2 else Some b2);
           Some (b3, taker (remaining_qty ord - n) [(r, n)] ord, out @ [trade_rsp locate sd (r, n)],
             log_trade sd seq ord (r, n) lg) }"
    using trade_round_marks [OF ok S x q, where ord = ord and locate = locate and seq = seq and out = out and lg = lg,
        folded r_def, folded n_def]
    by (elim exE conjE) (rule that)
  show ?thesis
  proof (cases "remaining_qty r \<le> remaining_qty ord")
    case True
    have ok2: "book_ok b2 g F Oth" and q2: "orders sd b2 g = as @ mark ?st (fill n r) # bs" using b2(1) by (simp_all add: settles_def)
    have "x \<in> slots_of (g sd)" using x set_qslots [OF ok S] by simp
    then have "x \<in> set (qslots sd b2 g)" using set_qslots [OF ok2 S] by simp
    from settles_remove [OF ok2 S this] obtain b3 where b3: "removeOrderPtr x b2 = Some b3"
      "settles sd b2 g F Oth (a_remove (order_id r) (orders sd b2 g)) b3 (ghost_del x g) [x]"
      using b2(2) by auto
    have "distinct (map order_id (as @ r # bs))" using orders_ids [OF ok S] unfolding q r_def .
    then have "a_remove (order_id r) (orders sd b2 g) = as @ bs" unfolding q2 by (intro a_remove_unique) simp_all
    with b3(2) settles_trans [OF b2(1), of "as @ bs" b3 "ghost_del x g" "[x]"] show ?thesis using b2(3) b3(1) True by auto
  next
    case False
    then show ?thesis using b2(1,3) by auto
  qed
qed

section \<open>The loops compute the rule\<close>

lemma a_match_no_trades: "a_match sd ex p n q = (n', q', []) \<Longrightarrow> n' = n \<and> q' = q"
proof (induction q arbitrary: q')
  case (Cons r q)
  then show ?case by (auto simp: Let_def split: if_splits prod.splits)
qed simp

lemma taker_taker:
  "a_match sd ex p (remaining_qty ord - n) q = (n', q', ts) \<Longrightarrow>
   taker n' ts (taker (remaining_qty ord - n) [(r, n)] ord) = taker n' ((r, n) # ts) ord"
  by (cases ts) (auto simp: taker_def dest: a_match_no_trades)

lemma taker_fields [simp]:
  "user_id (taker n ts ord) = user_id ord" "order_id (taker n ts ord) = order_id ord"
  "price (taker n ts ord) = price ord" "side (taker n ts ord) = side ord"
  "sequence (taker n ts ord) = sequence ord" "original_qty (taker n ts ord) = original_qty ord"
  by (simp_all add: taker_def)

lemma log_trade_taker: "log_trade sd seq (taker n ts ord) = log_trade sd seq ord"
  by (intro ext) (simp add: log_trade_def log_buy_trade_def log_sell_trade_def Let_def split: option.split)

lemma first_match:
  assumes "as @ x # bs = cs @ y # ds" "\<forall>z\<in>set as. \<not> P z" "P x" "\<forall>z\<in>set cs. \<not> P z" "P y"
  shows "as = cs \<and> x = y \<and> bs = ds"
  using assms
proof (induction as arbitrary: cs)
  case Nil
  then show ?case by (cases cs) auto
next
  case (Cons a as)
  then show ?case by (cases cs) auto
qed

text \<open>A loop stops, in agreement with the rule, or does a round with the first order of another user.\<close>

lemma match_loop_stops:
  assumes ok: "book_ok b g F Oth" and S: "sd \<in> {BUY, SELL}"
    and stop: "remaining_qty ord = 0 \<or> (\<forall>r\<in>set (orders sd b g). \<not> foreign (user_id ord) r) \<or>
      (\<exists>as r bs. orders sd b g = as @ r # bs \<and> (\<forall>y\<in>set as. \<not> foreign (user_id ord) y) \<and> foreign (user_id ord) r \<and>
        \<not> crosses sd (price ord) (price r))"
  shows "match_loop sd locate seq b ord out lg = Some (b, ord, out, lg) \<and>
    a_match sd (user_id ord) (price ord) (remaining_qty ord) (orders sd b g) = (remaining_qty ord, orders sd b g, [])"
proof (cases "remaining_qty ord = 0")
  case True
  then show ?thesis using match_loop_eq [OF S, of locate seq b ord out lg] by (cases "orders sd b g") auto
next
  case n0: False
  note loop = match_loop_eq [OF S, of locate seq b ord out lg] and bst = best_eq [OF ok S, of "user_id ord"]
  show ?thesis
  proof (cases "find (\<lambda>i. foreign (user_id ord) (body (slots b) i)) (qslots sd b g)")
    case None
    then have "\<forall>r\<in>set (orders sd b g). \<not> foreign (user_id ord) r" by (auto simp: find_None_set orders_def)
    then show ?thesis using loop n0 None bst a_match_none by auto
  next
    case (Some x)
    obtain cs ds where q: "qslots sd b g = cs @ x # ds" "\<forall>i\<in>set cs. \<not> foreign (user_id ord) (body (slots b) i)"
      "foreign (user_id ord) (body (slots b) x)"
      by (rule find_split [OF Some])
    let ?cs = "map (body (slots b)) cs" and ?ds = "map (body (slots b)) ds" and ?r = "body (slots b) x"
    have oq: "orders sd b g = ?cs @ ?r # ?ds" by (simp add: orders_def q)
    then obtain as r bs where r: "orders sd b g = as @ r # bs" "\<forall>y\<in>set as. \<not> foreign (user_id ord) y" "foreign (user_id ord) r"
      "\<not> crosses sd (price ord) (price r)"
      using stop n0 q(3) by auto
    have "as = ?cs \<and> r = ?r" 
      using first_match [where P = "foreign (user_id ord)" and as = as and x = r and bs = bs and cs = ?cs and y = ?r and ds = ?ds] r q oq by auto
    then have cr: "\<not> crosses sd (price ord) (price ?r)" using r(4) by simp
    have "pool_at (ob_pool b) x = Some (slots b ! unat x)"
      using book_bound [OF ok qslots_live [OF ok S, of x]] q(1) by simp
    then have "match_loop sd locate seq b ord out lg = Some (b, ord, out, lg)"
      using loop n0 Some bst cr by (simp add: body_field)
    moreover have "a_match sd (user_id ord) (price ord) (remaining_qty ord) (?cs @ ?r # ?ds) = (remaining_qty ord, ?cs @ ?r # ?ds, [])"
      using a_match_own [of ?cs "user_id ord" sd "price ord" _ "?r # ?ds"] q(2,3) cr n0 by auto
    ultimately show ?thesis unfolding oq by blast
  qed
qed

lemma match_loop_round:
  assumes ok: "book_ok b g F Oth" and S: "sd \<in> {BUY, SELL}" and n0: "remaining_qty ord \<noteq> 0"
    and q: "orders sd b g = as @ r # bs" "\<forall>y\<in>set as. \<not> foreign (user_id ord) y" "foreign (user_id ord) r"
    and cr: "crosses sd (price ord) (price r)"
  defines "n \<equiv> min (remaining_qty ord) (remaining_qty r)"
  shows "\<exists>b1 g1 P. match_loop sd locate seq b ord out lg = match_loop sd locate seq b1 (taker (remaining_qty ord - n) [(r, n)] ord)
      (out @ [trade_rsp locate sd (r, n)]) (log_trade sd seq ord (r, n) lg) \<and>
    settles sd b g F Oth (if remaining_qty r \<le> remaining_qty ord then as @ bs else as @ mark PARTIALLY_FILLED (fill n r) # bs) b1 g1 P"
proof -
  note loop = match_loop_eq [OF S, of locate seq b ord out lg] and bst = best_eq [OF ok S, of "user_id ord"]
  have "find (\<lambda>i. foreign (user_id ord) (body (slots b) i)) (qslots sd b g) \<noteq> None"
    using q(1,3) unfolding find_None_iff orders_def by (metis in_set_conv_decomp in_set_conv_nth length_map nth_map nth_mem)
  then obtain x where x: "find (\<lambda>i. foreign (user_id ord) (body (slots b) i)) (qslots sd b g) = Some x" by auto
  obtain cs ds where s: "qslots sd b g = cs @ x # ds" "\<forall>i\<in>set cs. \<not> foreign (user_id ord) (body (slots b) i)"
    "foreign (user_id ord) (body (slots b) x)"
    by (rule find_split [OF x])
  have "as = map (body (slots b)) cs \<and> r = body (slots b) x \<and> bs = map (body (slots b)) ds"
    using first_match [where P = "foreign (user_id ord)" and as = as and x = r and bs = bs and cs = "map (body (slots b)) cs"
        and y = "body (slots b) x" and ds = "map (body (slots b)) ds"] s q
    by (auto simp: orders_def)
  then have r: "r = body (slots b) x" by simp
  have xq: "x \<in> set (qslots sd b g)" using s(1) by simp
  have "pool_at (ob_pool b) x = Some (slots b ! unat x)" using book_bound [OF ok qslots_live [OF ok S xq]] by simp
  moreover have "price (slots b ! unat x) = price r" by (simp add: r body_field)
  moreover obtain b1 g1 P where tr: "trade_round sd locate seq x b (slots b ! unat x) ord out lg =
      Some (b1, taker (remaining_qty ord - n) [(r, n)] ord, out @ [trade_rsp locate sd (r, n)], log_trade sd seq ord (r, n) lg)"
    "settles sd b g F Oth (if remaining_qty r \<le> remaining_qty ord then as @ bs else as @ mark PARTIALLY_FILLED (fill n r) # bs) b1 g1 P"
    using trade_round_ok [OF ok S xq q(1) [unfolded r], where ord = ord and locate = locate and seq = seq and out = out and lg = lg,
        folded r, folded n_def]
    by (elim exE conjE) (rule that)
  ultimately have "match_loop sd locate seq b ord out lg = match_loop sd locate seq b1 (taker (remaining_qty ord - n) [(r, n)] ord)
      (out @ [trade_rsp locate sd (r, n)]) (log_trade sd seq ord (r, n) lg)"
    using loop n0 x bst cr by simp
  then show ?thesis using tr(2) by blast
qed

lemma match_loop_settles:
  assumes "book_ok b g F Oth" "sd \<in> {BUY, SELL}"
    and "a_match sd (user_id ord) (price ord) (remaining_qty ord) (orders sd b g) = (n', q', ts)"
  shows "\<exists>b' g' P. match_loop sd locate seq b ord out lg =
      Some (b', taker n' ts ord, out @ map (trade_rsp locate sd) ts, fold (log_trade sd seq ord) ts lg) \<and>
    settles sd b g F Oth q' b' g' P"
  using assms
proof (induction "length (orders sd b g)" arbitrary: b g F ord out lg n' q' ts rule: less_induct)
  case less
  note ok = less.prems(1) and S = less.prems(2) and am = less.prems(3)
  let ?ex = "user_id ord" and ?p = "price ord" and ?n = "remaining_qty ord"
  consider (stop) "?n = 0 \<or> (\<forall>r\<in>set (orders sd b g). \<not> foreign ?ex r) \<or> (\<exists>as r bs. orders sd b g = as @ r # bs \<and>
      (\<forall>y\<in>set as. \<not> foreign ?ex y) \<and> foreign ?ex r \<and> \<not> crosses sd ?p (price r))"
    | (round) as r bs where "?n \<noteq> 0" "orders sd b g = as @ r # bs" "\<forall>y\<in>set as. \<not> foreign ?ex y" "foreign ?ex r" "crosses sd ?p (price r)"
    using split_list_first_prop [of "orders sd b g" "foreign ?ex"] by metis
  then show ?case
  proof cases
    case stop
    from match_loop_stops [OF ok S this, of locate seq out lg] settles_refl [OF ok, of sd] am show ?thesis by (auto simp: taker_def)
  next
    case round
    define n where "n = min ?n (remaining_qty r)"
    let ?ord = "taker (?n - n) [(r, n)] ord" and ?out = "out @ [trade_rsp locate sd (r, n)]" and ?lg = "log_trade sd seq ord (r, n) lg"
    obtain b1 g1 P1 where r1: "match_loop sd locate seq b ord out lg = match_loop sd locate seq b1 ?ord ?out ?lg"
      "settles sd b g F Oth (if remaining_qty r \<le> ?n then as @ bs else as @ mark PARTIALLY_FILLED (fill n r) # bs) b1 g1 P1"
      using match_loop_round [OF ok S round, of locate seq out lg] unfolding n_def by blast
    then have ok1: "book_ok b1 g1 (P1 @ F) Oth" by (simp add: settles_def)
    have rem: "remaining_qty ?ord = ?n - n" by (simp add: taker_def)
    note split = a_match_own [OF round(3), of sd ?p _ "r # bs"] a_match_own [OF round(3), of sd ?p _ bs]
    show ?thesis
    proof (cases "remaining_qty r \<le> ?n")
      case True
      then have n: "n = remaining_qty r" by (simp add: n_def)
      have o1: "orders sd b1 g1 = as @ bs" using r1(2) True by (simp add: settles_def)
      obtain n1 q1 t1 where m1: "a_match sd ?ex ?p (?n - n) (as @ bs) = (n1, q1, t1)" by (metis prod_cases3)
      then have res: "n' = n1" "q' = q1" "ts = (r, n) # t1"
        using am split(1) [of ?n] split(2) [of "?n - n"] True n round unfolding round(2)
        by (auto simp: Let_def split: prod.splits)
      have "length (orders sd b1 g1) < length (orders sd b g)" using o1 round(2) by simp
      from less.hyps [OF this ok1 S, of ?ord n1 q1 t1 ?out ?lg] m1
      obtain b2 g2 P2 where b2: "match_loop sd locate seq b1 ?ord ?out ?lg =
          Some (b2, taker n1 t1 ?ord, ?out @ map (trade_rsp locate sd) t1, fold (log_trade sd seq ?ord) t1 ?lg)"
        "settles sd b1 g1 (P1 @ F) Oth q1 b2 g2 P2"
        unfolding o1 rem taker_fields by (elim meta_impE exE conjE) (simp, rule that)
      show ?thesis
        using r1(1) b2(1) settles_trans [OF r1(2) b2(2)] res taker_taker [OF m1, of r] log_trade_taker [of sd seq _ "[(r, n)]" ord]
        by auto
    next
      case False
      then have n: "n = ?n" unfolding n_def by (intro min_absorb1) simp
      have res: "n' = 0" "q' = as @ mark PARTIALLY_FILLED (fill n r) # bs" "ts = [(r, n)]"
        using am split(1) [of ?n] False n round unfolding round(2) by auto
      have "match_loop sd locate seq b1 ?ord ?out ?lg = Some (b1, ?ord, ?out, ?lg)"
        using match_loop_eq [OF S, of locate seq b1 ?ord] rem n by simp
      then show ?thesis using r1 False res n by auto
    qed
  qed
qed

lemma match_loop_ok:
  assumes "book_ok b g F Oth" "sd \<in> {BUY, SELL}"
    and "a_match sd (user_id ord) (price ord) (remaining_qty ord) (orders sd b g) = (n', q', ts)"
  shows "\<exists>b' g' P. match_loop sd locate seq b ord out lg =
      Some (b', taker n' ts ord, out @ map (trade_rsp locate sd) ts, fold (log_trade sd seq ord) ts lg) \<and>
    book_ok b' g' (P @ F) Oth \<and> agree (slots b) (slots b') Oth \<and> roomier b b' \<and> live g' \<subseteq> live g \<and>
    (\<forall>i\<in>live g'. order_id (body (slots b') i) = order_id (body (slots b) i)) \<and>
    orders sd b' g' = q' \<and> orders (opposite sd) b' g' = orders (opposite sd) b g"
  using match_loop_settles [OF assms] unfolding settles_def .

section \<open>What the rule guarantees\<close>

definition traded :: "(order \<times> u32) list \<Rightarrow> nat" where
  [code_eval]: "traded ts = (\<Sum>(r, m)\<leftarrow>ts. unat m)"

text \<open>Nothing is created or lost: the quantity left and the traded quantities add up.\<close>

lemma a_match_conserves:
  "a_match sd ex p n q = (n', q', ts) \<Longrightarrow> unat n = unat n' + traded ts"
proof (induction q arbitrary: n n' q' ts)
  case (Cons r q)
  have "unat (n - remaining_qty r) = unat n - unat (remaining_qty r)" if "remaining_qty r \<le> n"
    using that by (rule unat_sub)
  then show ?case
    using Cons.prems Cons.IH
    by (fastforce simp: traded_def word_le_nat_alt Let_def split: if_splits prod.splits)
qed (simp add: traded_def)

text \<open>The resting side loses exactly what was traded, in quantity, and no order of the taker.\<close>

definition total_rest :: "order list \<Rightarrow> nat" where
  [code_eval]: "total_rest q = (\<Sum>r\<leftarrow>q. unat (remaining_qty r))"

lemma a_match_rest:
  "a_match sd ex p n q = (n', q', ts) \<Longrightarrow> total_rest q = total_rest q' + traded ts"
proof (induction q arbitrary: n n' q' ts)
  case (Cons r q)
  show ?case
  proof (cases "n \<noteq> 0 \<and> foreign ex r \<and> crosses sd p (price r) \<and> \<not> remaining_qty r \<le> n")
    case True
    then have "unat (remaining_qty r - n) = unat (remaining_qty r) - unat n"
      by (intro unat_sub) auto
    then show ?thesis using Cons.prems True by (auto simp: total_rest_def traded_def word_le_nat_alt)
  next
    case False
    then show ?thesis
      using Cons.prems Cons.IH by (fastforce simp: total_rest_def traded_def Let_def split: if_splits prod.splits)
  qed
qed (simp add: total_rest_def traded_def)

lemma a_match_own_kept:
  "a_match sd ex p n q = (n', q', ts) \<Longrightarrow> filter (\<lambda>r. \<not> foreign ex r) q' = filter (\<lambda>r. \<not> foreign ex r) q"
proof (induction q arbitrary: n n' q' ts)
  case (Cons r q)
  have "foreign ex (mark st (fill m r)) = foreign ex r" for st m by (simp add: foreign_def)
  then show ?case
    using Cons.prems Cons.IH by (fastforce simp: Let_def split: if_splits prod.splits)
qed simp

text \<open>
  Priority: the trades are with the first orders of other users in the queue, in queue order; each
  but the last uses its order up.
\<close>

lemma a_match_priority:
  "a_match sd ex p n q = (n', q', ts) \<Longrightarrow>
   map fst ts = take (length ts) (filter (foreign ex) q) \<and>
   (\<forall>t\<in>set ts. crosses sd p (price (fst t)) \<and> snd t \<le> remaining_qty (fst t)) \<and>
   (\<forall>t\<in>set (butlast ts). snd t = remaining_qty (fst t))"
proof (induction q arbitrary: n n' q' ts)
  case (Cons r q)
  then show ?case
    by (fastforce simp: Let_def split: if_splits prod.splits)
qed simp

text \<open>
  Exhaustion: quantity is left only if no order of another user that crosses is left, on a queue
  sorted by price.
\<close>

lemma a_match_exhausts:
  assumes "sorted_wrt (\<lambda>r r'. \<not> blt sd (price r') (price r)) q" "sd \<in> {BUY, SELL}"
    and "a_match sd ex p n q = (n', q', ts)" "n' \<noteq> 0"
  shows "\<forall>r\<in>set q'. foreign ex r \<longrightarrow> \<not> crosses sd p (price r)"
  using assms
proof (induction q arbitrary: n n' q' ts)
  case (Cons r q)
  show ?case
  proof (cases "n \<noteq> 0 \<and> foreign ex r \<and> \<not> crosses sd p (price r)")
    case True
    then have "q' = r # q" using Cons.prems by auto
    moreover have "\<not> crosses sd p (price r')" if "r' \<in> set q" for r'
      using that True Cons.prems(1,2) by (auto simp: crosses_def blt_def)
    ultimately show ?thesis using True by auto
  next
    case False
    then show ?thesis
      using Cons.prems Cons.IH by (fastforce simp: Let_def split: if_splits prod.splits)
  qed
qed simp

text \<open>The last trade may be partial only when nothing of the taker is left.\<close>

lemma a_match_full:
  "a_match sd ex p n q = (n', q', ts) \<Longrightarrow>
   unat n \<le> total_rest (filter (\<lambda>r. foreign ex r \<and> crosses sd p (price r)) q) \<Longrightarrow>
   sorted_wrt (\<lambda>r r'. \<not> blt sd (price r') (price r)) q \<Longrightarrow> sd \<in> {BUY, SELL} \<Longrightarrow> n' = 0"
proof (induction q arbitrary: n n' q' ts)
  case Nil
  then show ?case by (auto simp: total_rest_def unat_zero_iff)
next
  case (Cons r q)
  show ?case
  proof (cases "n \<noteq> 0 \<and> foreign ex r \<and> \<not> crosses sd p (price r)")
    case True
    have "\<not> crosses sd p (price r')" if "r' \<in> set q" for r'
      using that True Cons.prems(3,4) by (auto simp: crosses_def blt_def)
    then have "filter (\<lambda>r. foreign ex r \<and> crosses sd p (price r)) q = []" by (auto simp: filter_empty_conv)
    then have "unat n = 0" using Cons.prems(2) True by (simp add: total_rest_def)
    then show ?thesis using True by (simp add: unat_zero_iff)
  next
    case False
    have "unat (n - remaining_qty r) = unat n - unat (remaining_qty r)" if "remaining_qty r \<le> n"
      using that by (rule unat_sub)
    then show ?thesis
      using Cons.prems False Cons.IH
      by (fastforce simp: Let_def total_rest_def word_le_nat_alt split: if_splits prod.splits)
  qed
qed

end
