(* ===== verification/Engine_Inv.thy ===== *)
theory Engine_Inv
  imports Match_Spec
begin

text \<open>
  The invariant of the engine: every book is well formed, the books share the pool and the index
  without sharing a slot. \<open>G k\<close> is the ghost of the book of locate \<open>k\<close>, \<open>F\<close> the free slots. A
  handler changes one book, so its work is a \<open>book_ok\<close> step against the slots of the others.
\<close>

section \<open>Invariant\<close>

definition others :: "(nat \<Rightarrow> ghost) \<Rightarrow> nat \<Rightarrow> u32 set" where
  "others G k = (\<Union>j\<in>-{k}. live (G j))"

definition no_ghost :: ghost where
  "no_ghost = (\<lambda>_ _. [])"

definition engine_ok :: "engine \<Rightarrow> (nat \<Rightarrow> ghost) \<Rightarrow> u32 list \<Rightarrow> bool" where
  "engine_ok e G F \<longleftrightarrow> pool_ok (shared_pool e) F \<and>
     order_map.indexes (shared_index e) (\<Union>k. live (G k)) (\<lambda>i. order_id (body (storage (shared_pool e)) i)) \<and>
     (\<Union>k. live (G k)) \<inter> set F = {} \<and>
     (\<forall>k. books e k = None \<longrightarrow> G k = no_ghost) \<and>
     (\<forall>k bk. books e k = Some bk \<longrightarrow> book_ok (the_book e bk) (G k) F (others G k))"

definition engine_inv :: "engine \<Rightarrow> bool" where
  "engine_inv e \<longleftrightarrow> (\<exists>G F. engine_ok e G F)"

lemma the_book_fields [simp]:
  "ob_pool (the_book e bk) = shared_pool e" "ob_index (the_book e bk) = shared_index e"
  "bids (the_book e bk) = fst bk" "asks (the_book e bk) = snd bk"
  by (simp_all add: the_book_def)

lemma live_no_ghost [simp]: "live no_ghost = {}"
  by (simp add: live_def no_ghost_def slots_of_def)

lemma live_all: "(\<Union>j. live (G j)) = live (G k) \<union> others G k"
  by (auto simp: others_def)

lemma lv_the_book: "lv sd (the_book e bk) = (if sd = BUY then fst bk else snd bk)"
  by (simp add: lv_def)

lemma engine_book: "engine_ok e G F \<Longrightarrow> books e k = Some bk \<Longrightarrow> book_ok (the_book e bk) (G k) F (others G k)"
  unfolding engine_ok_def by blast

text \<open>An empty book may be created at any locate.\<close>

lemma engine_ok_bounds:
  assumes "engine_ok e G F" "i \<in> live (G k)"
  shows "unat i < length (storage (shared_pool e))"
proof (cases "books e k")
  case None
  then have "G k = no_ghost" using assms(1) by (simp add: engine_ok_def)
  then show ?thesis using assms(2) by simp
next
  case (Some bk)
  then show ?thesis using book_bound [OF engine_book [OF assms(1) Some] assms(2)] by simp
qed

lemma empty_book_ok:
  assumes ok: "engine_ok e G F" and k: "books e k = None"
  shows "book_ok (the_book e ([], [])) (G k) F (others G k)"
proof -
  have G: "G k = no_ghost" using ok k by (simp add: engine_ok_def)
  have "(\<Union>j. live (G j)) = others G k" using live_all [of G k] G by simp
  moreover have "unat i < length (storage (shared_pool e))" if "i \<in> others G k" for i
    using that engine_ok_bounds [OF ok] by (auto simp: others_def)
  moreover have "side_ok (storage (shared_pool e)) sd [] (G k sd)" for sd
    by (simp add: side_ok_def G no_ghost_def)
  moreover have "lv sd (the_book e ([], [])) = []" for sd by (simp add: lv_def)
  ultimately show ?thesis using ok G by (simp add: book_ok_def engine_ok_def)
qed

lemma book_for_ok:
  assumes "engine_ok e G F" "unat locate < kMaxLocate"
  obtains b e' bk where "book_for locate e = (Some b, e')" "engine_ok e' G F" "b = the_book e' bk"
    "books e' (unat locate) = Some bk" "book_ok b (G (unat locate)) F (others G (unat locate))"
    "e' = e\<lparr>books := (books e)(unat locate \<mapsto> bk)\<rparr>"
    "bk = (case books e (unat locate) of None \<Rightarrow> ([], []) | Some bk \<Rightarrow> bk)"
proof (cases "books e (unat locate)")
  case None
  let ?e = "e\<lparr>books := (books e)(unat locate \<mapsto> ([], []))\<rparr>"
  have tb: "the_book ?e = the_book e" by (simp add: the_book_def fun_eq_iff)
  note emp = empty_book_ok [OF assms(1) None]
  have "engine_ok ?e G F"
    using assms(1) emp unfolding engine_ok_def tb by (simp add: None del: split_paired_All)
  then show ?thesis
    by (rule that [of "the_book e ([], [])" ?e "([], [])", rotated]) (use None assms(2) emp in \<open>simp_all add: book_for_def tb\<close>)
next
  case (Some bk)
  have "e = e\<lparr>books := (books e)(unat locate \<mapsto> bk)\<rparr>" using Some by (simp add: fun_upd_idem)
  then show ?thesis
    by (rule that [of "the_book e bk" e bk, rotated 5])
      (use Some assms engine_book [OF assms(1) Some] in \<open>simp_all add: book_for_def\<close>)
qed

section \<open>A step of one book\<close>

lemma engine_put_book:
  assumes ok: "engine_ok e G F" and k: "books e (unat locate) = Some bk"
    and b': "book_ok b' g' F' (others G (unat locate))"
    and agr: "agree (storage (shared_pool e)) (slots b') (others G (unat locate))"
  shows "engine_ok (put_book locate b' e) (G(unat locate := g')) F'"
proof -
  let ?k = "unat locate" let ?e = "put_book locate b' e" let ?G = "G(unat locate := g')"
  have tb: "the_book ?e bk' = \<lparr>ob_pool = ob_pool b', ob_index = ob_index b', bids = fst bk', asks = snd bk'\<rparr>" for bk'
    by (simp add: the_book_def put_book_def)
  have oth: "others ?G ?k = others G ?k" by (auto simp: others_def)
  have all: "(\<Union>j. live (?G j)) = live g' \<union> others G ?k" using live_all [of ?G ?k] oth by simp
  have book: "book_ok (the_book ?e bj) (G j) F' (others ?G j)" if j: "j \<noteq> ?k" "books e j = Some bj" for j bj
  proof -
    note okj = engine_book [OF ok j(2)]
    have sub: "live (G j) \<subseteq> others G ?k" using j by (auto simp: others_def)
    have un: "live (G j) \<union> others ?G j = live g' \<union> others G ?k"
      using live_all [of ?G j] all j by simp
    have "live (G j) \<inter> live (G i) = {}" if "i \<noteq> j" for i
      using okj that by (auto simp: book_ok_def others_def)
    moreover have "live (G j) \<inter> live g' = {}" using sub b' by (auto simp: book_ok_def)
    moreover have "others ?G j \<subseteq> live g' \<union> (\<Union>i\<in>-{j}. live (G i))" by (auto simp: others_def split: if_splits)
    ultimately have "live (G j) \<inter> others ?G j = {}" by blast
    moreover have "unat i < length (slots b')" if "i \<in> others ?G j" for i
    proof -
      have "i \<in> live g' \<union> others G ?k" using that un by blast
      then show ?thesis using b' book_bound [OF b'] by (auto simp: book_ok_def)
    qed
    moreover have sides: "side_ok (slots b') sd (lv sd (the_book e bj)) (G j sd)" if sd: "sd \<in> {BUY, SELL}" for sd
    proof -
      have "agree (storage (shared_pool e)) (slots b') (slots_of (G j sd))"
        using sub sd live_sides [OF sd, of "G j"] by (intro agree_mono [OF agr]) auto
      then show ?thesis using book_other_side [OF okj sd] by simp
    qed
    ultimately show ?thesis
      using b' un sides [of BUY] sides [of SELL] by (simp add: book_ok_def tb lv_def)
  qed
  have own: "the_book ?e (bids b', asks b') = b'" by (simp add: tb)
  show ?thesis
    unfolding engine_ok_def
  proof (intro conjI allI)
    show "pool_ok (shared_pool ?e) F'" using b' by (simp add: put_book_def book_ok_def)
    show "order_map.indexes (shared_index ?e) (\<Union>j. live (?G j)) (\<lambda>i. order_id (body (storage (shared_pool ?e)) i))"
      unfolding all using b' by (simp add: put_book_def book_ok_def)
    show "(\<Union>j. live (?G j)) \<inter> set F' = {}" unfolding all using b' by (simp add: book_ok_def)
    fix j
    show "books ?e j = None \<longrightarrow> ?G j = no_ghost" using ok by (simp add: put_book_def engine_ok_def)
    fix bj
    show "books ?e j = Some bj \<longrightarrow> book_ok (the_book ?e bj) (?G j) F' (others ?G j)"
    proof (cases "j = ?k")
      case True
      have "books ?e ?k = Some (bids b', asks b')" by (simp add: put_book_def)
      then show ?thesis using True b' own oth by auto
    next
      case False
      then have "books ?e j = books e j" by (simp add: put_book_def)
      then show ?thesis using book [OF False] False by simp
    qed
  qed
qed

text \<open>Counters, log and sequence numbers are not part of the invariant.\<close>

lemma engine_ok_cong:
  "shared_pool e' = shared_pool e \<Longrightarrow> shared_index e' = shared_index e \<Longrightarrow> books e' = books e \<Longrightarrow>
   engine_ok e' G F = engine_ok e G F"
  by (simp add: engine_ok_def the_book_def [abs_def])

lemma aux_fields [simp]:
  "shared_pool (bump f e) = shared_pool e" "shared_index (bump f e) = shared_index e" "books (bump f e) = books e"
  "next_sequence (bump f e) = next_sequence e" "next_order_id (bump f e) = next_order_id e" "wal (bump f e) = wal e"
  "shared_pool (count_new e) = shared_pool e" "shared_index (count_new e) = shared_index e" "books (count_new e) = books e"
  "next_sequence (count_new e) = next_sequence e" "next_order_id (count_new e) = next_order_id e" "wal (count_new e) = wal e"
  "shared_pool (count_cancel e) = shared_pool e" "shared_index (count_cancel e) = shared_index e"
  "books (count_cancel e) = books e" "next_sequence (count_cancel e) = next_sequence e" "next_order_id (count_cancel e) = next_order_id e"
  "wal (count_cancel e) = wal e"
  "shared_pool (count_error e) = shared_pool e" "shared_index (count_error e) = shared_index e"
  "books (count_error e) = books e" "next_sequence (count_error e) = next_sequence e" "next_order_id (count_error e) = next_order_id e"
  "wal (count_error e) = wal e"
  "shared_pool (note_usage e) = shared_pool e" "shared_index (note_usage e) = shared_index e"
  "books (note_usage e) = books e" "next_sequence (note_usage e) = next_sequence e" "next_order_id (note_usage e) = next_order_id e"
  "wal (note_usage e) = wal e"
  "shared_pool (log_wal w e) = shared_pool e" "shared_index (log_wal w e) = shared_index e" "books (log_wal w e) = books e"
  "next_sequence (log_wal w e) = next_sequence e" "next_order_id (log_wal w e) = next_order_id e"
  by (simp_all add: bump_def count_new_def count_cancel_def count_error_def note_usage_def log_wal_def)

lemma engine_ok_aux [simp]:
  "engine_ok (bump f e) G F = engine_ok e G F" "engine_ok (count_new e) G F = engine_ok e G F"
  "engine_ok (count_cancel e) G F = engine_ok e G F" "engine_ok (count_error e) G F = engine_ok e G F"
  "engine_ok (note_usage e) G F = engine_ok e G F" "engine_ok (log_wal w e) G F = engine_ok e G F"
  "engine_ok (e\<lparr>next_sequence := s\<rparr>) G F = engine_ok e G F" "engine_ok (e\<lparr>tlog := l\<rparr>) G F = engine_ok e G F"
  "engine_ok (e\<lparr>next_order_id := s\<rparr>) G F = engine_ok e G F"
  by (rule engine_ok_cong; simp)+

lemma engine_inv_aux [simp]:
  "engine_inv (bump f e) = engine_inv e" "engine_inv (count_new e) = engine_inv e"
  "engine_inv (count_cancel e) = engine_inv e" "engine_inv (count_error e) = engine_inv e"
  "engine_inv (note_usage e) = engine_inv e" "engine_inv (log_wal w e) = engine_inv e"
  "engine_inv (e\<lparr>next_sequence := s\<rparr>) = engine_inv e" "engine_inv (e\<lparr>tlog := l\<rparr>) = engine_inv e"
  "engine_inv (e\<lparr>next_order_id := s\<rparr>) = engine_inv e"
  by (simp_all add: engine_inv_def)

lemma engine_invI: "engine_ok e G F \<Longrightarrow> engine_inv e"
  by (auto simp: engine_inv_def)

section \<open>The abstract view\<close>

text \<open>The orders resting at a locate; a missing book is empty.\<close>

definition view :: "engine \<Rightarrow> nat \<Rightarrow> side \<Rightarrow> order list option" where
  [code_eval]: "view e k sd = (case books e k of None \<Rightarrow> Some [] | Some bk \<Rightarrow> side_orders sd (the_book e bk))"

lemma view_cong:
  "shared_pool e' = shared_pool e \<Longrightarrow> books e' = books e \<Longrightarrow> view e' = view e"
  by (intro ext) (auto simp: view_def side_orders_def lv_def split: option.split)

lemma view_aux [simp]:
  "view (bump f e) = view e" "view (count_new e) = view e" "view (count_cancel e) = view e"
  "view (count_error e) = view e" "view (note_usage e) = view e" "view (log_wal w e) = view e"
  "view (e\<lparr>next_sequence := s\<rparr>) = view e" "view (e\<lparr>tlog := l\<rparr>) = view e" "view (e\<lparr>next_order_id := s\<rparr>) = view e"
  by (rule view_cong; simp)+

lemma view_book:
  assumes "engine_ok e G F" "books e k = Some bk" "sd \<in> {BUY, SELL}"
  shows "view e k sd = Some (orders sd (the_book e bk) (G k))"
  using side_orders_eq [OF engine_book [OF assms(1,2)] assms(3)] assms(2) by (simp add: view_def)

lemma view_book_for:
  assumes "e' = e\<lparr>books := (books e)(k \<mapsto> bk)\<rparr>" "bk = (case books e k of None \<Rightarrow> ([], []) | Some bk \<Rightarrow> bk)"
  shows "view e' = view e"
  using assms by (intro ext) (auto simp: view_def side_orders_def lv_def the_book_def split: option.split)

lemma view_put_same:
  assumes "engine_ok e G F" "book_ok b' g' F' (others G (unat locate))" "sd \<in> {BUY, SELL}"
  shows "view (put_book locate b' e) (unat locate) sd = Some (orders sd b' g')"
proof -
  have "the_book (put_book locate b' e) (bids b', asks b') = b'" by (simp add: put_book_def the_book_def)
  moreover have "books (put_book locate b' e) (unat locate) = Some (bids b', asks b')" by (simp add: put_book_def)
  ultimately show ?thesis using side_orders_eq [OF assms(2,3)] by (simp add: view_def)
qed

lemma view_put_other:
  assumes ok: "engine_ok e G F" and k: "books e (unat locate) = Some bk"
    and b': "book_ok b' g' F' (others G (unat locate))"
    and agr: "agree (storage (shared_pool e)) (slots b') (others G (unat locate))"
    and j: "j \<noteq> unat locate" and sd: "sd \<in> {BUY, SELL}"
  shows "view (put_book locate b' e) j sd = view e j sd"
proof (cases "books e j")
  case None
  then show ?thesis using j by (simp add: view_def put_book_def)
next
  case (Some bj)
  let ?e = "put_book locate b' e"
  note ok' = engine_put_book [OF ok k b' agr]
  have bj: "books ?e j = Some bj" using Some j by (simp add: put_book_def)
  have "orders sd (the_book ?e bj) (G j) = orders sd (the_book e bj) (G j)"
  proof (rule orders_other [OF engine_book [OF ok Some] _ sd])
    show "book_ok (the_book ?e bj) (G j) F' (others (G(unat locate := g')) j)"
      using engine_book [OF ok' bj] j by simp
    show "G j sd = G j sd" ..
    fix i assume "i \<in> slots_of (G j sd)"
    then have "i \<in> others G (unat locate)" using j live_sides [OF sd, of "G j"] by (auto simp: others_def)
    then show "body (slots (the_book ?e bj)) i = body (slots (the_book e bj)) i"
      using agr by (simp add: agree_def put_book_def)
  qed
  then show ?thesis using view_book [OF ok' bj sd] view_book [OF ok Some sd] j by simp
qed

end
