(* ===== verification/Engine_Ops.thy ===== *)
theory Engine_Ops
  imports Engine_Inv
begin

text \<open>
  The handlers of the engine on the abstract view: what a match, a resting order, a cancel and a
  replacement do to the book of their locate, and that the other books do not change.
\<close>

section \<open>References in use\<close>

definition fresh_ref :: "engine \<Rightarrow> u64 \<Rightarrow> bool" where
  [code_eval]: "fresh_ref e k \<longleftrightarrow> om_find (shared_index e) k = Some None"

definition index_room :: "engine \<Rightarrow> u64 \<Rightarrow> bool" where
  [code_eval]: "index_room e k \<longleftrightarrow> om_room (shared_index e) k"

lemma fresh_ref_iff:
  assumes "engine_ok e G F"
  shows "fresh_ref e k \<longleftrightarrow> k \<notin> (\<lambda>i. order_id (body (storage (shared_pool e)) i)) ` (\<Union>j. live (G j))"
proof -
  have ix: "order_map.indexes (shared_index e) (\<Union>k. live (G k)) (\<lambda>i. order_id (body (storage (shared_pool e)) i))"
    using assms by (simp add: engine_ok_def)
  show ?thesis
  proof
    assume fresh: "fresh_ref e k"
    show "k \<notin> (\<lambda>i. order_id (body (storage (shared_pool e)) i)) ` (\<Union>j. live (G j))"
    proof
      assume "k \<in> (\<lambda>i. order_id (body (storage (shared_pool e)) i)) ` (\<Union>j. live (G j))"
      then obtain i where i: "i \<in> (\<Union>j. live (G j))" "k = order_id (body (storage (shared_pool e)) i)" by blast
      from order_map.indexes_look [OF ix i(1)] fresh i(2) show False by (simp add: fresh_ref_def)
    qed
  qed (auto simp: fresh_ref_def intro: order_map.indexes_absent [OF ix])
qed

text \<open>The frame of a handler: only the book of its locate changes.\<close>

definition only_book :: "nat \<Rightarrow> engine \<Rightarrow> engine \<Rightarrow> bool" where
  "only_book k e e' \<longleftrightarrow> (\<forall>j sd. j \<noteq> k \<longrightarrow> sd \<in> {BUY, SELL} \<longrightarrow> view e' j sd = view e j sd)"

lemma only_book_refl [simp]: "only_book k e e"
  by (simp add: only_book_def)

lemma only_book_trans: "only_book k e e' \<Longrightarrow> only_book k e' e'' \<Longrightarrow> only_book k e e''"
  by (simp add: only_book_def)

lemma only_book_view: "view e' = view e \<Longrightarrow> only_book k e e'"
  by (simp add: only_book_def)

section \<open>Matching\<close>

lemma put_book_fields [simp]:
  "next_sequence (put_book l b e) = next_sequence e" "next_order_id (put_book l b e) = next_order_id e"
  "tlog (put_book l b e) = tlog e" "wal (put_book l b e) = wal e"
  by (simp_all add: put_book_def)

lemma put_the_book: "books e (unat locate) = Some bk \<Longrightarrow> put_book locate (the_book e bk) e = e"
  by (simp add: put_book_def the_book_def fun_upd_idem)

lemma run_match_ok:
  assumes ok: "engine_ok e G F" and bk: "books e (unat locate) = Some bk" and S: "side ord \<in> {BUY, SELL}"
    and q: "view e (unat locate) (opposite (side ord)) = Some q"
    and m: "a_match (opposite (side ord)) (user_id ord) (price ord) (remaining_qty ord) q = (n', q', ts)"
  shows "\<exists>e' G' P bk'. run_match locate (the_book e bk) ord out e =
      Some (the_book e' bk', taker n' ts ord, out @ map (trade_rsp locate (opposite (side ord))) ts, e') \<and>
    engine_ok e' G' (P @ F) \<and> books e' (unat locate) = Some bk' \<and>
    view e' (unat locate) (opposite (side ord)) = Some q' \<and>
    view e' (unat locate) (side ord) = view e (unat locate) (side ord) \<and> only_book (unat locate) e e' \<and>
    (\<forall>k. index_room e k \<longrightarrow> index_room e' k) \<and> (\<forall>k. fresh_ref e k \<longrightarrow> fresh_ref e' k) \<and>
    (\<forall>n. om_spare n (shared_index e) \<longrightarrow> om_spare n (shared_index e')) \<and>
    next_sequence e' = next_sequence e \<and> next_order_id e' = next_order_id e \<and> wal e' = wal e \<and>
    tlog e' = fold (log_trade (opposite (side ord)) (next_sequence e) ord) ts (tlog e)"
proof -
  let ?k = "unat locate" and ?op = "opposite (side ord)"
  note O = opposite_side [OF S]
  have oo: "opposite ?op = side ord" using S by (auto simp: opposite_def)
  note okb = engine_book [OF ok bk]
  have "orders ?op (the_book e bk) (G ?k) = q" using view_book [OF ok bk, of ?op] O q by simp
  then have m': "a_match ?op (user_id ord) (price ord) (remaining_qty ord) (orders ?op (the_book e bk) (G ?k)) = (n', q', ts)"
    using m by simp
  have op: "?op \<in> {BUY, SELL}" using O by simp
  obtain b' g' P where r: "match_loop ?op locate (next_sequence e) (the_book e bk) ord out (tlog e) =
      Some (b', taker n' ts ord, out @ map (trade_rsp locate ?op) ts, fold (log_trade ?op (next_sequence e) ord) ts (tlog e))"
    and ok': "book_ok b' g' (P @ F) (others G ?k)" and agr: "agree (slots (the_book e bk)) (slots b') (others G ?k)"
    and rm: "roomier (the_book e bk) b'" and lv: "live g' \<subseteq> live (G ?k)"
    and ids: "\<forall>i\<in>live g'. order_id (body (slots b') i) = order_id (body (slots (the_book e bk)) i)"
    and o1: "orders ?op b' g' = q'" and o2: "orders (opposite ?op) b' g' = orders (opposite ?op) (the_book e bk) (G ?k)"
    using match_loop_ok [OF okb op m', where locate = locate and seq = "next_sequence e" and out = out and lg = "tlog e"]
    by (elim exE conjE) (rule that)
  let ?lg = "fold (log_trade ?op (next_sequence e) ord) ts (tlog e)"
  let ?e = "e\<lparr>tlog := ?lg\<rparr>" and ?bk = "(bids b', asks b')"
  let ?e' = "put_book locate b' ?e"
  have bk': "books ?e' ?k = Some ?bk" "the_book ?e' ?bk = b'" by (simp_all add: put_book_def the_book_def)
  have run: "run_match locate (the_book e bk) ord out e =
      Some (the_book ?e' ?bk, taker n' ts ord, out @ map (trade_rsp locate ?op) ts, ?e')"
    using r S bk'(2) by (auto simp: run_match_def match_loop_def opposite_def)
  have okt: "engine_ok ?e G F" "books ?e ?k = Some bk" using ok bk by simp_all
  have agt: "agree (storage (shared_pool ?e)) (slots b') (others G ?k)" using agr by simp
  note ok2 = engine_put_book [OF okt ok' agt]
  have v1: "view ?e' ?k ?op = Some q'" using view_put_same [OF okt(1) ok' op] o1 by simp
  have v2: "view ?e' ?k (side ord) = view e ?k (side ord)"
    using view_put_same [OF okt(1) ok' S] view_book [OF ok bk S] o2 oo by simp
  have v3: "only_book ?k e ?e'"
    using view_put_other [OF okt ok' agt] by (simp add: only_book_def)
  have room: "\<forall>k. index_room e k \<longrightarrow> index_room ?e' k" "\<forall>n. om_spare n (shared_index e) \<longrightarrow> om_spare n (shared_index ?e')"
    using rm by (simp_all add: roomier_def index_room_def put_book_def)
  have fresh: "fresh_ref ?e' k" if "fresh_ref e k" for k
  proof -
    have "i \<in> (\<Union>j. live (G j)) \<and> order_id (body (slots b') i) = order_id (body (storage (shared_pool e)) i)"
      if "i \<in> live g' \<union> others G ?k" for i
      using that lv ids agr live_all [of G ?k] by (auto simp: agree_def)
    moreover have "(\<Union>j. live ((G(?k := g')) j)) = live g' \<union> others G ?k"
      using live_all [of "G(?k := g')" ?k] by (simp add: others_def)
    ultimately show ?thesis
      using that unfolding fresh_ref_iff [OF ok] fresh_ref_iff [OF ok2] by (auto simp: put_book_def)
  qed
  show ?thesis
    by (rule exI [of _ ?e'], rule exI [of _ "G(?k := g')"], rule exI [of _ P], rule exI [of _ ?bk])
      (use run ok2 bk' v1 v2 v3 room fresh in simp)
qed

section \<open>Resting\<close>

lemma rest_order_ok:
  assumes ok: "engine_ok e G (i # F)" and bk: "books e (unat locate) = Some bk" and S: "side ord \<in> {BUY, SELL}"
    and fresh: "fresh_ref e (order_id ord)" and room: "index_room e (order_id ord)"
    and own: "view e (unat locate) (side ord) = Some own"
  shows "\<exists>e' G'. rest_order locate (the_book e bk) ord out e = Some (out @ [RSP_OK (order_id ord)], e') \<and>
    engine_ok e' G' F \<and> view e' (unat locate) (side ord) = Some (a_insert (side ord) ord own) \<and>
    view e' (unat locate) (opposite (side ord)) = view e (unat locate) (opposite (side ord)) \<and>
    only_book (unat locate) e e' \<and> wal e' = wal e \<and> next_sequence e' = next_sequence e"
proof -
  let ?k = "unat locate" and ?sd = "side ord" and ?g = "ghost_add (side ord) (price ord) i (G (unat locate))"
  note okb = engine_book [OF ok bk]
  have opp: "opposite ?sd \<in> {BUY, SELL}" "opposite ?sd \<noteq> ?sd" using opposite_side [OF S] by auto
  have "order_id ord \<notin> (\<lambda>j. order_id (body (slots (the_book e bk)) j)) ` (live (G ?k) \<union> others G ?k)"
    using fresh unfolding fresh_ref_iff [OF ok] live_all [of G ?k] by simp
  then obtain b' where add: "addOrder ord (the_book e bk) = Some (True, b')"
    and ok': "book_ok b' ?g F (others G ?k)" and agr: "agree (slots (the_book e bk)) (slots b') (others G ?k)"
    and bd: "body (slots b') = (body (slots (the_book e bk)))(i := strip ord)"
    using addOrder_ok [OF okb S] room by (auto simp: index_room_def)
  have il: "i \<notin> live (G ?k)" using okb by (auto simp: book_ok_def)
  have o1: "orders ?sd b' ?g = a_insert ?sd ord own"
    using orders_add [OF okb S refl ok' il bd] view_book [OF ok bk S] own by simp
  have o2: "orders (opposite ?sd) b' ?g = orders (opposite ?sd) (the_book e bk) (G ?k)"
  proof (rule orders_other [OF okb ok' opp(1)])
    show "?g (opposite ?sd) = G ?k (opposite ?sd)" using opp by (simp add: ghost_add_def)
    show "body (slots b') j = body (slots (the_book e bk)) j" if "j \<in> slots_of (G ?k (opposite ?sd))" for j
      using that il live_sides [OF S, of "G ?k"] bd by auto
  qed
  have agt: "agree (storage (shared_pool e)) (slots b') (others G ?k)" using agr by simp
  let ?e = "note_usage (put_book locate b' e)"
  have "rest_order locate (the_book e bk) ord out e = Some (out @ [RSP_OK (order_id ord)], ?e)"
    by (simp add: rest_order_def add Let_def)
  moreover have "engine_ok ?e (G(?k := ?g)) F" using engine_put_book [OF ok bk ok' agt] by simp
  moreover have "view ?e ?k ?sd = Some (a_insert ?sd ord own)"
    using view_put_same [OF ok ok' S] o1 by simp
  moreover have "view ?e ?k (opposite ?sd) = view e ?k (opposite ?sd)"
    using view_put_same [OF ok ok' opp(1)] view_book [OF ok bk opp(1)] o2 by simp
  moreover have "only_book ?k e ?e"
    using view_put_other [OF ok bk ok' agt] by (simp add: only_book_def)
  ultimately show ?thesis
    by (intro exI [of _ ?e] exI [of _ "G(?k := ?g)"]) simp
qed

lemma rest_order_full:
  assumes ok: "engine_ok e G []" and bk: "books e (unat locate) = Some bk" and S: "side ord \<in> {BUY, SELL}"
  shows "rest_order locate (the_book e bk) ord out e =
    Some (out @ [RSP_ERROR POOL_FULL], note_usage (count_error e))"
  using addOrder_full [OF engine_book [OF ok bk]] S put_the_book [OF bk]
  by (auto simp: rest_order_def Let_def)

text \<open>The pool has a free slot exactly when its usage is below its capacity.\<close>

lemma pool_not_full:
  assumes "engine_ok e G F" "unat (pool_size (shared_pool e)) < pool_capacity (shared_pool e)"
  shows "F \<noteq> []"
proof
  assume "F = []"
  then have "pool_size (shared_pool e) = of_nat (length (storage (shared_pool e)))"
    "length (storage (shared_pool e)) < 2 ^ 32"
    using assms(1) by (simp_all add: engine_ok_def pool_ok_def)
  then show False using assms(2) by (simp add: pool_capacity_def unat_of_nat take_bit_nat_eq_self)
qed

section \<open>Removing and shrinking a resting order\<close>

text \<open>An order of a view is the order in one live slot, found under its number.\<close>

lemma view_slot:
  assumes ok: "engine_ok e G F" and bk: "books e k = Some bk" and S: "sd \<in> {BUY, SELL}"
    and q: "view e k sd = Some q" and r: "r \<in> set q"
  obtains x where "x \<in> live (G k)" "body (storage (shared_pool e)) x = r" "unat x < length (storage (shared_pool e))"
    "om_find (shared_index e) (order_id r) = Some (Some x)" "side r = sd"
proof -
  note okb = engine_book [OF ok bk]
  have qo: "q = orders sd (the_book e bk) (G k)" using view_book [OF ok bk S] q by simp
  obtain x where x: "x \<in> set (qslots sd (the_book e bk) (G k))" "r = body (storage (shared_pool e)) x"
    using r qo by (auto simp: orders_def)
  have l: "x \<in> live (G k)" by (rule qslots_live [OF okb S x(1)])
  have f: "om_find (shared_index e) (order_id r) = Some (Some x)"
    using book_find [OF okb, of x] l x(2) by (simp add: findOrder_def)
  have "side r = sd" by (rule orders_side [OF okb S r [unfolded qo]])
  from that [OF l x(2) [symmetric] _ f this] show ?thesis using book_bound [OF okb l] by simp
qed

lemma view_books: "view e k sd = Some q \<Longrightarrow> r \<in> set q \<Longrightarrow> \<exists>bk. books e k = Some bk"
  by (auto simp: view_def split: option.splits)

text \<open>Every side of the book at \<open>k\<close> is mapped by \<open>f\<close>, the other books do not change.\<close>

definition maps_book :: "nat \<Rightarrow> (order list \<Rightarrow> order list) \<Rightarrow> engine \<Rightarrow> engine \<Rightarrow> bool" where
  "maps_book k f e e' \<longleftrightarrow> only_book k e e' \<and> (\<forall>sd\<in>{BUY, SELL}. view e' k sd = map_option f (view e k sd))"

lemma engine_remove:
  assumes ok: "engine_ok e G F" and bk: "books e (unat locate) = Some bk" and x: "x \<in> live (G (unat locate))"
  defines "oid \<equiv> order_id (body (storage (shared_pool e)) x)"
  shows "\<exists>b' G'. removeOrderPtr x (the_book e bk) = Some b' \<and> engine_ok (put_book locate b' e) G' (x # F) \<and>
    maps_book (unat locate) (a_remove oid) e (put_book locate b' e) \<and>
    (\<forall>k. index_room e k \<longrightarrow> index_room (put_book locate b' e) k) \<and>
    (\<forall>n. om_spare n (shared_index e) \<longrightarrow> om_spare n (shared_index (put_book locate b' e))) \<and>
    (\<forall>k. k = oid \<or> fresh_ref e k \<longrightarrow> fresh_ref (put_book locate b' e) k)"
proof -
  let ?k = "unat locate" and ?g = "ghost_del x (G (unat locate))"
  note okb = engine_book [OF ok bk]
  obtain b' where b': "removeOrderPtr x (the_book e bk) = Some b'" "book_ok b' ?g (x # F) (others G ?k)"
    "agree (slots (the_book e bk)) (slots b') (others G ?k)"
    "\<forall>i\<in>live (G ?k) - {x}. body (slots b') i = body (slots (the_book e bk)) i" "roomier (the_book e bk) b'"
    using removeOrderPtr_ok [OF okb x] by blast
  have agt: "agree (storage (shared_pool e)) (slots b') (others G ?k)" using b'(3) by simp
  let ?e = "put_book locate b' e"
  note ok' = engine_put_book [OF ok bk b'(2) agt]
  have "view ?e ?k sd = map_option (a_remove oid) (view e ?k sd)" if sd: "sd \<in> {BUY, SELL}" for sd
    using view_put_same [OF ok b'(2) sd] view_book [OF ok bk sd] orders_remove [OF okb sd b'(2) x b'(4)]
    by (simp add: oid_def)
  then have mb: "maps_book ?k (a_remove oid) e ?e"
    using view_put_other [OF ok bk b'(2) agt] by (simp add: maps_book_def only_book_def)
  have all: "(\<Union>j. live ((G(?k := ?g)) j)) = (live (G ?k) - {x}) \<union> others G ?k"
    using live_all [of "G(?k := ?g)" ?k] by (simp add: others_def live_del)
  have same: "order_id (body (slots b') i) = order_id (body (storage (shared_pool e)) i) \<and> i \<noteq> x"
    if "i \<in> (live (G ?k) - {x}) \<union> others G ?k" for i
    using that b'(4) agt okb x by (auto simp: agree_def book_ok_def)
  have "fresh_ref ?e k" if "k = oid \<or> fresh_ref e k" for k
  proof -
    have "k \<noteq> order_id (body (slots b') i)" if i: "i \<in> (live (G ?k) - {x}) \<union> others G ?k" for i
    proof
      assume "k = order_id (body (slots b') i)"
      then have k: "k = order_id (body (storage (shared_pool e)) i)" using same [OF i] by simp
      have il: "i \<in> live (G ?k) \<union> others G ?k" using i by auto
      show False using \<open>k = oid \<or> fresh_ref e k\<close>
      proof
        assume "k = oid"
        then have "i = x" using book_inj [OF okb il, of x] x k by (simp add: oid_def)
        then show False using same [OF i] by simp
      next
        assume "fresh_ref e k"
        then show False using il k live_all [of G ?k] unfolding fresh_ref_iff [OF ok] by auto
      qed
    qed
    then show ?thesis unfolding fresh_ref_iff [OF ok'] all by (auto simp: put_book_def)
  qed
  moreover have "\<forall>k. index_room e k \<longrightarrow> index_room ?e k" "\<forall>n. om_spare n (shared_index e) \<longrightarrow> om_spare n (shared_index ?e)"
    using b'(5) by (simp_all add: roomier_def index_room_def put_book_def)
  ultimately show ?thesis using b'(1) ok' mb by blast
qed

lemma engine_shrink:
  assumes ok: "engine_ok e G F" and bk: "books e (unat locate) = Some bk" and x: "x \<in> live (G (unat locate))"
  defines "oid \<equiv> order_id (body (storage (shared_pool e)) x)"
  shows "\<exists>b' G'. reduceQtyCancel x amount (the_book e bk) = Some b' \<and> engine_ok (put_book locate b' e) G' F \<and>
    maps_book (unat locate) (a_update oid (shrink amount)) e (put_book locate b' e)"
proof -
  let ?k = "unat locate"
  note okb = engine_book [OF ok bk]
  obtain b' where b': "reduceQtyCancel x amount (the_book e bk) = Some b'" "book_ok b' (G ?k) F (others G ?k)"
    "agree (slots (the_book e bk)) (slots b') (others G ?k)"
    "body (slots b') = (body (slots (the_book e bk)))(x := shrink amount (body (slots (the_book e bk)) x))"
    using reduceQtyCancel_ok [OF okb x] by blast
  have agt: "agree (storage (shared_pool e)) (slots b') (others G ?k)" using b'(3) by simp
  let ?e = "put_book locate b' e"
  note ok' = engine_put_book [OF ok bk b'(2) agt]
  have "view ?e ?k sd = map_option (a_update oid (shrink amount)) (view e ?k sd)" if sd: "sd \<in> {BUY, SELL}" for sd
    using view_put_same [OF ok b'(2) sd] view_book [OF ok bk sd] orders_write [where f = "shrink amount", OF okb sd b'(2) x b'(4)]
    by (simp add: oid_def)
  then have "maps_book ?k (a_update oid (shrink amount)) e ?e"
    using view_put_other [OF ok bk b'(2) agt] by (simp add: maps_book_def only_book_def)
  then show ?thesis using b'(1) ok' by blast
qed

end
