(* ===== verification/Engine_Props.thy ===== *)
theory Engine_Props
  imports Engine_Ops
begin

text \<open>
  What the handlers of \<open>matching_engine.cpp\<close> guarantee to a client: each result is stated on the
  orders resting at the locate before and after, in price-time priority.
\<close>

section \<open>Adding\<close>

text \<open>The order \<open>processAdd\<close> builds from its arguments.\<close>

definition incoming :: "engine \<Rightarrow> u64 \<Rightarrow> u64 \<Rightarrow> side \<Rightarrow> u32 \<Rightarrow> u32 \<Rightarrow> order" where
  [code_eval]: "incoming e uid ref sd pr quantity = default_order\<lparr>user_id := uid, order_id := ref, side := sd,
     price := pr, original_qty := quantity, remaining_qty := quantity, filled_qty := 0,
     sequence := next_sequence e, status := OPEN\<rparr>"

lemma incoming_fields [simp]:
  "user_id (incoming e uid ref sd pr qt) = uid" "order_id (incoming e uid ref sd pr qt) = ref"
  "side (incoming e uid ref sd pr qt) = sd" "price (incoming e uid ref sd pr qt) = pr"
  "remaining_qty (incoming e uid ref sd pr qt) = qt" "filled_qty (incoming e uid ref sd pr qt) = 0"
  "status (incoming e uid ref sd pr qt) = OPEN" "original_qty (incoming e uid ref sd pr qt) = qt"
  by (simp_all add: incoming_def)

text \<open>The price a market order is matched at.\<close>

definition limit_of :: "side \<Rightarrow> order_tif \<Rightarrow> u32 \<Rightarrow> u32" where
  [code_eval]: "limit_of sd tif pr =
     (if (tif = IOC \<or> tif = FOK) \<and> pr = 0 then (if sd = BUY then UINT32_MAX else 0) else pr)"

definition valid_add :: "u64 \<Rightarrow> u64 \<Rightarrow> side \<Rightarrow> u32 \<Rightarrow> u32 \<Rightarrow> u64 \<Rightarrow> order_tif \<Rightarrow> bool" where
  [code_eval]: "valid_add locate ref sd pr quantity uid tif \<longleftrightarrow> unat locate < kMaxLocate \<and> sd \<in> {BUY, SELL} \<and>
     (pr \<noteq> 0 \<or> tif \<noteq> DAY) \<and> quantity \<noteq> 0 \<and> uid \<noteq> 0 \<and> ref \<noteq> 0"

text \<open>After validation a handler matches, then decides by the status and the time in force.\<close>

definition finish_add ::
  "u64 \<Rightarrow> u64 \<Rightarrow> u32 \<Rightarrow> order_tif \<Rightarrow> order_book \<times> order \<times> response list \<times> engine \<Rightarrow> (response list \<times> engine) option" where
  "finish_add locate ref quantity tif = (\<lambda>(book', ord', out', e5).
     if status ord' = FILLED then Some (out' @ [RSP_FILLED ref], note_usage e5)
     else if tif = IOC then
       (if filled_qty ord' = 0 then Some (out' @ [RSP_ERROR MKT_NO_LIQUIDITY], count_error e5) else Some (out', e5))
     else if tif = FOK then
       (if filled_qty ord' < quantity then Some (out' @ [RSP_ERROR FOK_NO_FULL_FILL], count_error e5)
        else Some (out', e5))
     else if status ord' = OPEN \<or> status ord' = PARTIALLY_FILLED then rest_order locate book' ord' out' e5
     else Some (out', e5))"

lemma processAdd_valid:
  assumes v: "valid_add locate ref sd pr quantity uid tif" and ok: "engine_ok e G F"
    and full: "tif = FOK \<Longrightarrow> availableQty sd (limit_of sd tif pr)
      (the_book e (case books e (unat locate) of None \<Rightarrow> ([], []) | Some bk \<Rightarrow> bk)) = Some av \<and> quantity \<le> av"
  obtains e4 bk where "engine_ok e4 G F" "books e4 (unat locate) = Some bk" "view e4 = view e"
    "shared_index e4 = shared_index e" "next_sequence e4 = next_sequence e + 1"
    "wal e4 = map_option (wal_append \<lparr>we_type = 1, we_side = (if sd = BUY then 1 else 2), we_locate = ucast locate,
       we_price = limit_of sd tif pr, we_quantity = quantity, we_user_id = uid, we_order_id = ref,
       we_seq = next_sequence e + 1\<rparr>) (wal e)"
    "processAdd locate ref sd pr quantity uid tif out e =
       run_match locate (the_book e4 bk) (incoming e uid ref sd (limit_of sd tif pr) quantity) out e4
         \<bind> finish_add locate ref quantity tif"
proof -
  have ok1: "engine_ok (count_new e) G F" using ok by simp
  have lc: "unat locate < kMaxLocate" using v by (simp add: valid_add_def)
  obtain b e2 bk where bf: "book_for locate (count_new e) = (Some b, e2)" "engine_ok e2 G F" "b = the_book e2 bk"
    "books e2 (unat locate) = Some bk"
    "e2 = (count_new e)\<lparr>books := (books (count_new e))(unat locate \<mapsto> bk)\<rparr>"
    "bk = (case books (count_new e) (unat locate) of None \<Rightarrow> ([], []) | Some bk \<Rightarrow> bk)"
    using book_for_ok [OF ok1 lc] by blast
  define e4 where "e4 = log_wal \<lparr>we_type = 1, we_side = (if sd = BUY then 1 else 2), we_locate = ucast locate,
       we_price = limit_of sd tif pr, we_quantity = quantity, we_user_id = uid, we_order_id = ref,
       we_seq = next_sequence e + 1\<rparr> (e2\<lparr>next_sequence := next_sequence e2 + 1\<rparr>)"
  have e2: "next_sequence e2 = next_sequence e" "shared_pool e2 = shared_pool e" "shared_index e2 = shared_index e"
    "wal e2 = wal e" "view e2 = view e"
    using bf(5) view_book_for [OF bf(5,6)] by simp_all
  have e4: "engine_ok e4 G F" "books e4 (unat locate) = Some bk" "view e4 = view e" "shared_pool e4 = shared_pool e"
    "shared_index e4 = shared_index e" "next_sequence e4 = next_sequence e + 1"
    using bf(2,4) e2 by (simp_all add: e4_def)
  have tb: "the_book e4 bk = b" "the_book e bk = b" using e2 e4 bf(3) by (simp_all add: the_book_def)
  have tbe: "the_book e (case books e (unat locate) of None \<Rightarrow> ([], []) | Some bk \<Rightarrow> bk) = b"
    using bf(6) tb(2) by simp
  have w: "wal e4 = map_option (wal_append \<lparr>we_type = 1, we_side = (if sd = BUY then 1 else 2), we_locate = ucast locate,
       we_price = limit_of sd tif pr, we_quantity = quantity, we_user_id = uid, we_order_id = ref,
       we_seq = next_sequence e + 1\<rparr>) (wal e)"
    using e2 by (simp add: e4_def log_wal_def)
  have "(if tif = FOK then canFullFill b sd (limit_of sd tif pr) quantity else Some True) = Some True"
    using full tbe by (auto simp: canFullFill_def)
  then have "processAdd locate ref sd pr quantity uid tif out e =
       run_match locate (the_book e4 bk) (incoming e uid ref sd (limit_of sd tif pr) quantity) out e4
         \<bind> finish_add locate ref quantity tif"
    using v unfolding processAdd_def Let_def bf(1) prod.case option.case tb valid_add_def limit_of_def [symmetric]
    by (cases tif) (auto simp: incoming_def e2 e4_def finish_add_def)
  then show ?thesis by (intro that [OF e4(1-3,5,6) w])
qed

lemma taker_status:
  assumes "a_match sd ex p n q = (n', q', ts)" "n \<noteq> 0" "remaining_qty ord = n" "status ord = OPEN" "filled_qty ord = 0"
  shows "status (taker n' ts ord) = (if n' = 0 then FILLED else if ts = [] then OPEN else PARTIALLY_FILLED)"
    "filled_qty (taker n' ts ord) = n - n'" "remaining_qty (taker n' ts ord) = n'"
  using assms by (auto simp: taker_def dest: a_match_no_trades)

text \<open>
  The outcome of a valid order after the match left \<open>n\<close> of it: the last response, and whether the
  rest enters the book; \<open>full\<close> says that no slot was left for it.
\<close>

definition add_response :: "bool \<Rightarrow> u64 \<Rightarrow> u32 \<Rightarrow> order_tif \<Rightarrow> u32 \<Rightarrow> response list" where
  [code_eval]: "add_response full ref quantity tif n =
     (if n = 0 then [RSP_FILLED ref]
      else if tif = IOC then (if n = quantity then [RSP_ERROR MKT_NO_LIQUIDITY] else [])
      else if tif = FOK then [RSP_ERROR FOK_NO_FULL_FILL]
      else if full then [RSP_ERROR POOL_FULL]
      else [RSP_OK ref])"

definition add_outcome ::
  "bool \<Rightarrow> u64 \<Rightarrow> u64 \<Rightarrow> side \<Rightarrow> u32 \<Rightarrow> u32 \<Rightarrow> u64 \<Rightarrow> order_tif \<Rightarrow> response list \<Rightarrow> engine \<Rightarrow>
   order list \<Rightarrow> order list \<Rightarrow> response list \<times> engine \<Rightarrow> bool" where
  "add_outcome full locate ref sd pr quantity uid tif out e q own = (\<lambda>(out', e').
     let (n', q', ts) = a_match (opposite sd) uid (limit_of sd tif pr) quantity q in
     out' = out @ map (trade_rsp locate (opposite sd)) ts @ add_response full ref quantity tif n' \<and>
     engine_inv e' \<and> view e' (unat locate) (opposite sd) = Some q' \<and>
     view e' (unat locate) sd = Some (if n' = 0 \<or> tif \<noteq> DAY \<or> full then own
       else a_insert sd (taker n' ts (incoming e uid ref sd pr quantity)) own) \<and>
     only_book (unat locate) e e')"

lemma part_left:
  assumes "a_match sd ex p quantity q = (n', q', ts)"
  shows "quantity - n' < quantity \<longleftrightarrow> n' \<noteq> 0" "quantity - n' = 0 \<longleftrightarrow> n' = quantity"
proof -
  have le: "n' \<le> quantity" using a_match_conserves [OF assms] by (simp add: word_le_nat_alt)
  then show "quantity - n' < quantity \<longleftrightarrow> n' \<noteq> 0" "quantity - n' = 0 \<longleftrightarrow> n' = quantity"
    using unat_sub [OF le] by (auto simp: word_less_nat_alt word_le_nat_alt unat_zero_iff [symmetric])
qed

text \<open>After the match: an order that is filled or must not rest changes no book; another one is queued if there is a slot.\<close>

lemma finish_add_stops:
  assumes m: "a_match sd ex p quantity q = (n', q', ts)" and qn: "quantity \<noteq> 0"
    and o': "remaining_qty ord = quantity" "status ord = OPEN" "filled_qty ord = 0" and stop: "n' = 0 \<or> tif \<noteq> DAY"
  shows "\<exists>e'. finish_add locate ref quantity tif (b, taker n' ts ord, out, e) = Some (out @ add_response False ref quantity tif n', e') \<and>
    engine_inv e' = engine_inv e \<and> view e' = view e"
proof -
  note st = taker_status [OF m qn o'] and part = part_left [OF m]
  consider "n' = 0" | "n' \<noteq> 0" "tif = IOC" | "n' \<noteq> 0" "tif = FOK" using stop by (cases tif) auto
  then show ?thesis
  proof cases
    case 1
    then show ?thesis using st by (intro exI [of _ "note_usage e"]) (simp add: finish_add_def add_response_def)
  next
    case 2
    then show ?thesis using st part
      by (intro exI [of _ "if n' = quantity then count_error e else e"]) (simp add: finish_add_def add_response_def)
  next
    case 3
    then show ?thesis using st part by (intro exI [of _ "count_error e"]) (simp add: finish_add_def add_response_def)
  qed
qed

lemma finish_add_rests:
  assumes ok: "engine_ok e G F" and bk: "books e (unat locate) = Some bk" and S: "side ord \<in> {BUY, SELL}"
    and st: "status ord = OPEN \<or> status ord = PARTIALLY_FILLED"
    and fresh: "fresh_ref e (order_id ord)" and room: "index_room e (order_id ord)" and own: "view e (unat locate) (side ord) = Some own"
  shows "\<exists>e'. finish_add locate (order_id ord) quantity DAY (the_book e bk, ord, out, e) =
      Some (out @ [if F = [] then RSP_ERROR POOL_FULL else RSP_OK (order_id ord)], e') \<and> engine_inv e' \<and>
    view e' (unat locate) (side ord) = Some (if F = [] then own else a_insert (side ord) ord own) \<and>
    view e' (unat locate) (opposite (side ord)) = view e (unat locate) (opposite (side ord)) \<and> only_book (unat locate) e e'"
proof (cases F)
  case Nil
  then show ?thesis
    using st rest_order_full [OF ok [unfolded Nil] bk S] own engine_invI [OF ok]
    by (intro exI [of _ "note_usage (count_error e)"]) (auto simp: finish_add_def only_book_def)
next
  case (Cons i F')
  obtain e' G' where "rest_order locate (the_book e bk) ord out e = Some (out @ [RSP_OK (order_id ord)], e')"
    "engine_ok e' G' F'" "view e' (unat locate) (side ord) = Some (a_insert (side ord) ord own)"
    "view e' (unat locate) (opposite (side ord)) = view e (unat locate) (opposite (side ord))" "only_book (unat locate) e e'"
    using rest_order_ok [OF ok [unfolded Cons] bk S fresh room own, of out] by (elim exE conjE) (rule that)
  then show ?thesis using st Cons engine_invI [of e' G' F'] by (intro exI [of _ e']) (auto simp: finish_add_def)
qed

lemma processAdd_total:
  assumes inv: "engine_inv e" and v: "valid_add locate ref sd pr quantity uid tif"
    and fresh: "fresh_ref e ref" and room: "index_room e ref"
    and full: "tif = FOK \<Longrightarrow> availableQty sd (limit_of sd tif pr)
      (the_book e (case books e (unat locate) of None \<Rightarrow> ([], []) | Some bk \<Rightarrow> bk)) = Some av \<and> quantity \<le> av"
    and q: "view e (unat locate) (opposite sd) = Some q" and own: "view e (unat locate) sd = Some own"
  shows "\<exists>full r. processAdd locate ref sd pr quantity uid tif out e = Some r \<and>
    add_outcome full locate ref sd pr quantity uid tif out e q own r \<and>
    (full \<longrightarrow> \<not> unat (pool_size (shared_pool e)) < pool_capacity (shared_pool e))"
proof -
  obtain n' q' ts where m: "a_match (opposite sd) uid (limit_of sd tif pr) quantity q = (n', q', ts)"
    by (metis prod_cases3)
  obtain G F where ok: "engine_ok e G F" using inv by (auto simp: engine_inv_def)
  let ?ord = "incoming e uid ref sd (limit_of sd tif pr) quantity" and ?out = "out @ map (trade_rsp locate (opposite sd)) ts"
  have S: "sd \<in> {BUY, SELL}" and qn: "quantity \<noteq> 0" using v by (auto simp: valid_add_def)
  obtain e4 bk where e4: "engine_ok e4 G F" "books e4 (unat locate) = Some bk" "view e4 = view e"
    "shared_index e4 = shared_index e"
    and add: "processAdd locate ref sd pr quantity uid tif out e =
       run_match locate (the_book e4 bk) ?ord out e4 \<bind> finish_add locate ref quantity tif"
    by (rule processAdd_valid [OF v ok full])
  have q4: "view e4 (unat locate) (opposite sd) = Some q" using q e4(3) by simp
  note run = run_match_ok [OF e4(1,2), of ?ord q n' q' ts out, unfolded incoming_fields, OF S q4 m]
  obtain e5 G5 P bk5 where r: "run_match locate (the_book e4 bk) ?ord out e4 =
      Some (the_book e5 bk5, taker n' ts ?ord, ?out, e5)"
    and ok5: "engine_ok e5 G5 (P @ F)" and bk5: "books e5 (unat locate) = Some bk5"
    and v1: "view e5 (unat locate) (opposite sd) = Some q'" and v2: "view e5 (unat locate) sd = view e4 (unat locate) sd"
    and fr: "only_book (unat locate) e4 e5" and rm: "\<forall>k. index_room e4 k \<longrightarrow> index_room e5 k"
    and fs: "\<forall>k. fresh_ref e4 k \<longrightarrow> fresh_ref e5 k"
    using run by (elim exE conjE) (rule that)
  have ob: "only_book (unat locate) e e5" using fr e4(3) by (simp add: only_book_def)
  have own5: "view e5 (unat locate) sd = Some own" using v2 e4(3) own by simp
  show ?thesis
  proof (cases "n' = 0 \<or> tif \<noteq> DAY")
    case True
    obtain e' where "processAdd locate ref sd pr quantity uid tif out e = Some (?out @ add_response False ref quantity tif n', e')"
      "engine_inv e' = engine_inv e5" "view e' = view e5"
      using finish_add_stops [OF m qn _ _ _ True, of ?ord locate ref "the_book e5 bk5" ?out e5] add r by auto
    then show ?thesis
      using True v1 own5 ob engine_invI [OF ok5] m by (intro exI [of _ False]) (simp add: add_outcome_def only_book_def)
  next
    case False
    note st = taker_status [OF m qn, of ?ord, simplified]
    have st': "status (taker n' ts ?ord) = OPEN \<or> status (taker n' ts ?ord) = PARTIALLY_FILLED" using st False by simp
    have fr5: "fresh_ref e5 ref" "index_room e5 ref"
      using fresh room fs rm e4(4) by (simp_all add: fresh_ref_def index_room_def)
    obtain e6 where e6: "processAdd locate ref sd pr quantity uid tif out e =
        Some (?out @ [if P @ F = [] then RSP_ERROR POOL_FULL else RSP_OK ref], e6)" "engine_inv e6"
      "view e6 (unat locate) sd = Some (if P @ F = [] then own else a_insert sd (taker n' ts ?ord) own)"
      "view e6 (unat locate) (opposite sd) = Some q'" "only_book (unat locate) e e6"
      using finish_add_rests [OF ok5 bk5, of "taker n' ts ?ord" own quantity ?out, unfolded taker_fields incoming_fields, OF S st' fr5 own5]
        add r False v1 only_book_trans [OF ob] by auto
    have "limit_of sd tif pr = pr" using False by (simp add: limit_of_def)
    moreover have "P @ F = [] \<longrightarrow> \<not> unat (pool_size (shared_pool e)) < pool_capacity (shared_pool e)"
      using pool_not_full [OF ok] by auto
    ultimately show ?thesis
      using e6 False m by (intro exI [of _ "P @ F = []"]) (auto simp: add_outcome_def add_response_def)
  qed
qed

lemma processAdd_ok:
  assumes "engine_inv e" "valid_add locate ref sd pr quantity uid tif" "fresh_ref e ref" "index_room e ref"
    and "unat (pool_size (shared_pool e)) < pool_capacity (shared_pool e)"
    and "tif = FOK \<Longrightarrow> availableQty sd (limit_of sd tif pr)
      (the_book e (case books e (unat locate) of None \<Rightarrow> ([], []) | Some bk \<Rightarrow> bk)) = Some av \<and> quantity \<le> av"
    and "view e (unat locate) (opposite sd) = Some q" "view e (unat locate) sd = Some own"
  shows "\<exists>r. processAdd locate ref sd pr quantity uid tif out e = Some r \<and>
    add_outcome False locate ref sd pr quantity uid tif out e q own r"
  using processAdd_total [OF assms(1-4,6-8), of out] assms(5) by auto

section \<open>The fill-or-kill check\<close>

lemma availableQty_view:
  assumes ok: "engine_ok e G F" and S: "sd \<in> {BUY, SELL}" and q: "view e k (opposite sd) = Some q"
  shows "availableQty sd p (the_book e (case books e k of None \<Rightarrow> ([], []) | Some bk \<Rightarrow> bk)) =
    Some (\<Sum>r\<leftarrow>takeWhile (\<lambda>r. crosses (opposite sd) p (price r)) q. remaining_qty r)"
proof (cases "books e k")
  case None
  then have "q = []" using q by (simp add: view_def)
  then show ?thesis using None by (simp add: availableQty_def)
next
  case (Some bk)
  have O: "opposite sd \<in> {BUY, SELL}" "opposite (opposite sd) = sd" using S by (auto simp: opposite_def)
  show ?thesis
    using availableQty_eq [OF engine_book [OF ok Some] O(1), of p] view_book [OF ok Some O(1)] q Some O(2) by simp
qed

lemma unat_sum_list: "(\<Sum>x\<leftarrow>xs. unat (f x)) < 2 ^ 32 \<Longrightarrow> unat (\<Sum>x\<leftarrow>xs. (f x :: u32)) = (\<Sum>x\<leftarrow>xs. unat (f x))"
  by (induction xs) (simp_all add: unat_word_ariths(1))

lemma takeWhile_filter_sorted:
  assumes "sorted_wrt (\<lambda>r r'. \<not> blt sd (price r') (price r)) q" "sd \<in> {BUY, SELL}"
  shows "takeWhile (\<lambda>r. crosses sd p (price r)) q = filter (\<lambda>r. crosses sd p (price r)) q"
  using assms(1)
proof (induction q)
  case (Cons r q)
  show ?case
  proof (cases "crosses sd p (price r)")
    case False
    then have "\<forall>r'\<in>set q. \<not> crosses sd p (price r')"
      using Cons.prems assms(2) by (auto simp: crosses_def blt_def)
    then show ?thesis using False by (simp add: filter_empty_conv)
  qed (use Cons in auto)
qed simp

lemma view_sorted:
  assumes "engine_ok e G F" "sd \<in> {BUY, SELL}" "view e k sd = Some q"
  shows "sorted_wrt (\<lambda>r r'. \<not> blt sd (price r') (price r)) q"
proof (cases "books e k")
  case None
  then show ?thesis using assms(3) by (simp add: view_def)
next
  case (Some bk)
  then show ?thesis
    using orders_sorted [OF engine_book [OF assms(1) Some] assms(2)] view_book [OF assms(1) Some assms(2)] assms(3) by simp
qed

lemma processAdd_fok_reject:
  assumes inv: "engine_inv e" and v: "valid_add locate ref sd pr quantity uid FOK"
    and q: "view e (unat locate) (opposite sd) = Some q"
    and no: "(\<Sum>r\<leftarrow>takeWhile (\<lambda>r. crosses (opposite sd) (limit_of sd FOK pr) (price r)) q. remaining_qty r) < quantity"
  shows "\<exists>e'. processAdd locate ref sd pr quantity uid FOK out e = Some (out @ [RSP_ERROR FOK_NO_FULL_FILL], e') \<and>
    engine_inv e' \<and> view e' = view e"
proof -
  obtain G F where ok: "engine_ok e G F" using inv by (auto simp: engine_inv_def)
  have S: "sd \<in> {BUY, SELL}" and lc: "unat locate < kMaxLocate" using v by (auto simp: valid_add_def)
  have ok1: "engine_ok (count_new e) G F" using ok by simp
  obtain b e2 bk where bf: "book_for locate (count_new e) = (Some b, e2)" "engine_ok e2 G F" "b = the_book e2 bk"
    "e2 = (count_new e)\<lparr>books := (books (count_new e))(unat locate \<mapsto> bk)\<rparr>"
    "bk = (case books (count_new e) (unat locate) of None \<Rightarrow> ([], []) | Some bk \<Rightarrow> bk)"
    using book_for_ok [OF ok1 lc] by blast
  have v2: "view e2 = view e" using view_book_for [OF bf(4,5)] by simp
  have "shared_pool e2 = shared_pool e" "shared_index e2 = shared_index e" using bf(4) by simp_all
  then have "b = the_book e (case books e (unat locate) of None \<Rightarrow> ([], []) | Some bk \<Rightarrow> bk)"
    using bf(3,5) by (simp add: the_book_def)
  then have "canFullFill b sd (limit_of sd FOK pr) quantity = Some False"
    using availableQty_view [OF ok S q] no by (simp add: canFullFill_def not_le)
  then have "processAdd locate ref sd pr quantity uid FOK out e = Some (out @ [RSP_ERROR FOK_NO_FULL_FILL], count_error e2)"
    using v unfolding processAdd_def Let_def bf(1) prod.case option.case valid_add_def limit_of_def [symmetric] by auto
  then show ?thesis using engine_invI [OF bf(2)] v2 by simp
qed

section \<open>Cancelling\<close>

lemma cancel_book:
  assumes ok: "engine_ok e G F" and lc: "unat locate < kMaxLocate"
  obtains e2 bk where "book_for locate (count_cancel e) = (Some (the_book e2 bk), e2)" "engine_ok e2 G F"
    "books e2 (unat locate) = Some bk" "view e2 = view e" "shared_pool e2 = shared_pool e"
    "shared_index e2 = shared_index e" "next_sequence e2 = next_sequence e" "wal e2 = wal e"
proof -
  have ok1: "engine_ok (count_cancel e) G F" using ok by simp
  obtain b e2 bk where bf: "book_for locate (count_cancel e) = (Some b, e2)" "engine_ok e2 G F" "b = the_book e2 bk"
    "books e2 (unat locate) = Some bk" "e2 = (count_cancel e)\<lparr>books := (books (count_cancel e))(unat locate \<mapsto> bk)\<rparr>"
    "bk = (case books (count_cancel e) (unat locate) of None \<Rightarrow> ([], []) | Some bk \<Rightarrow> bk)"
    using book_for_ok [OF ok1 lc] by blast
  then show ?thesis
    using that [of e2 bk] view_book_for [OF bf(5,6)] by simp
qed

lemma the_book_log [simp]: "the_book (log_wal w e) = the_book e"
  by (simp add: the_book_def fun_eq_iff)

lemma maps_book_view: "view e1 = view e \<Longrightarrow> maps_book k f e1 e' = maps_book k f e e'"
  by (simp add: maps_book_def only_book_def)

lemma maps_book_view': "view e1 = view e' \<Longrightarrow> maps_book k f e e1 = maps_book k f e e'"
  by (simp add: maps_book_def only_book_def)

text \<open>The order a request names: it rests in the book of the locate under its number.\<close>

definition rests :: "engine \<Rightarrow> nat \<Rightarrow> side \<Rightarrow> order \<Rightarrow> bool" where
  [code_eval]: "rests e k sd r \<longleftrightarrow> (case view e k sd of None \<Rightarrow> False | Some q \<Rightarrow> r \<in> set q)"

lemma rests_slot:
  assumes ok: "engine_ok e G F" and S: "sd \<in> {BUY, SELL}" and r: "rests e k sd r"
  obtains x bk where "books e k = Some bk" "x \<in> live (G k)" "body (storage (shared_pool e)) x = r"
    "unat x < length (storage (shared_pool e))" "om_find (shared_index e) (order_id r) = Some (Some x)" "side r = sd"
proof -
  obtain q where q: "view e k sd = Some q" "r \<in> set q" using r by (auto simp: rests_def split: option.splits)
  then obtain bk where bk: "books e k = Some bk" using view_books by blast
  show ?thesis by (rule view_slot [OF ok bk S q]) (rule that [OF bk])
qed

lemma rests_cong: "view e' = view e \<Longrightarrow> rests e' = rests e"
  by (intro ext) (simp add: rests_def)

lemma processCancel_ok:
  assumes inv: "engine_inv e" and lc: "unat locate < kMaxLocate" and S: "sd \<in> {BUY, SELL}"
    and r: "rests e (unat locate) sd r"
  shows "\<exists>e'. processCancel locate (order_id r) (user_id r) out e = Some (out @ [RSP_CANCELLED (order_id r)], e') \<and>
    engine_inv e' \<and> maps_book (unat locate) (a_remove (order_id r)) e e' \<and> fresh_ref e' (order_id r)"
proof -
  obtain G F where ok: "engine_ok e G F" using inv by (auto simp: engine_inv_def)
  obtain e2 bk where e2: "book_for locate (count_cancel e) = (Some (the_book e2 bk), e2)" "engine_ok e2 G F"
    "books e2 (unat locate) = Some bk" "view e2 = view e" "shared_pool e2 = shared_pool e" "shared_index e2 = shared_index e"
    by (rule cancel_book [OF ok lc])
  let ?w = "\<lparr>we_type = 2, we_side = 0, we_locate = ucast locate, we_price = 0, we_quantity = 0,
    we_user_id = user_id r, we_order_id = order_id r, we_seq = next_sequence e2\<rparr>"
  let ?e3 = "log_wal ?w e2"
  have ok3: "engine_ok ?e3 G F" "books ?e3 (unat locate) = Some bk" using e2 by simp_all
  have r3: "rests ?e3 (unat locate) sd r" using r rests_cong [of ?e3 e] e2(4) by simp
  obtain x bk' where x: "books ?e3 (unat locate) = Some bk'" "x \<in> live (G (unat locate))"
    "body (storage (shared_pool ?e3)) x = r" "unat x < length (storage (shared_pool ?e3))"
    "om_find (shared_index ?e3) (order_id r) = Some (Some x)"
    by (rule rests_slot [OF ok3(1) S r3])
  obtain b' G' where b': "removeOrderPtr x (the_book ?e3 bk) = Some b'" "engine_ok (put_book locate b' ?e3) G' (x # F)"
    "maps_book (unat locate) (a_remove (order_id r)) ?e3 (put_book locate b' ?e3)"
    "\<forall>k. k = order_id r \<or> fresh_ref ?e3 k \<longrightarrow> fresh_ref (put_book locate b' ?e3) k"
    using engine_remove [OF ok3 x(2)] x(3) by auto
  have "removeOrder (order_id r) (user_id r) (the_book e2 bk) = Some (True, b')"
    using x(3-5) b'(1) by (simp add: removeOrder_def body_field)
  then have "processCancel locate (order_id r) (user_id r) out e
      = Some (out @ [RSP_CANCELLED (order_id r)], put_book locate b' ?e3)"
    by (simp add: processCancel_def e2(1) Let_def)
  then show ?thesis
    using engine_invI [OF b'(2)] b'(3,4) e2(4) maps_book_view [of ?e3 e] by simp
qed

text \<open>A number that is not in use, or belongs to another user.\<close>

lemma processCancel_reject_ok:
  assumes inv: "engine_inv e" and lc: "unat locate < kMaxLocate"
    and bad: "fresh_ref e ref \<or> (\<exists>k. \<exists>sd\<in>{BUY, SELL}. \<exists>r. rests e k sd r \<and> order_id r = ref \<and> user_id r \<noteq> uid)"
  shows "\<exists>e'. processCancel locate ref uid out e = Some (out @ [RSP_ERROR ORDER_NOT_FOUND], e') \<and>
    engine_inv e' \<and> view e' = view e"
proof -
  obtain G F where ok: "engine_ok e G F" using inv by (auto simp: engine_inv_def)
  obtain e2 bk where e2: "book_for locate (count_cancel e) = (Some (the_book e2 bk), e2)" "engine_ok e2 G F"
    "books e2 (unat locate) = Some bk" "view e2 = view e" "shared_pool e2 = shared_pool e" "shared_index e2 = shared_index e"
    by (rule cancel_book [OF ok lc])
  let ?w = "\<lparr>we_type = 2, we_side = 0, we_locate = ucast locate, we_price = 0, we_quantity = 0,
    we_user_id = uid, we_order_id = ref, we_seq = next_sequence e2\<rparr>"
  have "removeOrder ref uid (the_book e2 bk) = Some (False, the_book e2 bk)"
    using bad
  proof
    assume "fresh_ref e ref"
    then show ?thesis using e2(6) by (simp add: removeOrder_def fresh_ref_def)
  next
    assume "\<exists>k. \<exists>sd\<in>{BUY, SELL}. \<exists>r. rests e k sd r \<and> order_id r = ref \<and> user_id r \<noteq> uid"
    then obtain k sd r where r: "sd \<in> {BUY, SELL}" "rests e k sd r" "order_id r = ref" "user_id r \<noteq> uid" by blast
    obtain x bk' where x: "books e k = Some bk'" "x \<in> live (G k)" "body (storage (shared_pool e)) x = r"
      "unat x < length (storage (shared_pool e))" "om_find (shared_index e) (order_id r) = Some (Some x)"
      by (rule rests_slot [OF ok r(1,2)])
    then show ?thesis using e2(5,6) r by (simp add: removeOrder_def body_field)
  qed
  then have "processCancel locate ref uid out e =
      Some (out @ [RSP_ERROR ORDER_NOT_FOUND], count_error (put_book locate (the_book e2 bk) (log_wal ?w e2)))"
    by (simp add: processCancel_def e2(1) Let_def)
  moreover have "put_book locate (the_book e2 bk) (log_wal ?w e2) = log_wal ?w e2"
    using put_the_book [of "log_wal ?w e2" locate bk] e2(3) by simp
  ultimately show ?thesis using engine_invI [OF e2(2)] e2(4) by simp
qed

lemma processCancelShares_ok:
  assumes inv: "engine_inv e" and lc: "unat locate < kMaxLocate" and S: "sd \<in> {BUY, SELL}"
    and r: "rests e (unat locate) sd r"
  shows "\<exists>e'. processCancelShares locate (order_id r) shares (user_id r) out e =
      Some (out @ [if remaining_qty r \<le> shares then RSP_CANCELLED (order_id r) else RSP_OK (order_id r)], e') \<and>
    engine_inv e' \<and> maps_book (unat locate) (if remaining_qty r \<le> shares then a_remove (order_id r)
      else a_update (order_id r) (shrink shares)) e e'"
proof -
  obtain G F where ok: "engine_ok e G F" using inv by (auto simp: engine_inv_def)
  obtain e2 bk where e2: "book_for locate (count_cancel e) = (Some (the_book e2 bk), e2)" "engine_ok e2 G F"
    "books e2 (unat locate) = Some bk" "view e2 = view e"
    by (rule cancel_book [OF ok lc])
  let ?w = "\<lparr>we_type = 3, we_side = 0, we_locate = ucast locate, we_price = 0, we_quantity = shares,
    we_user_id = user_id r, we_order_id = order_id r, we_seq = next_sequence e2\<rparr>"
  let ?e3 = "log_wal ?w e2"
  have ok3: "engine_ok ?e3 G F" "books ?e3 (unat locate) = Some bk" using e2 by simp_all
  have r3: "rests ?e3 (unat locate) sd r" using r rests_cong [of ?e3 e] e2(4) by simp
  obtain x bk' where x: "books ?e3 (unat locate) = Some bk'" "x \<in> live (G (unat locate))"
    "body (storage (shared_pool ?e3)) x = r" "unat x < length (storage (shared_pool ?e3))"
    "om_find (shared_index ?e3) (order_id r) = Some (Some x)"
    by (rule rests_slot [OF ok3(1) S r3])
  show ?thesis
  proof (cases "remaining_qty r \<le> shares")
    case True
    obtain b' G' where b': "removeOrderPtr x (the_book ?e3 bk) = Some b'" "engine_ok (put_book locate b' ?e3) G' (x # F)"
      "maps_book (unat locate) (a_remove (order_id r)) ?e3 (put_book locate b' ?e3)"
      using engine_remove [OF ok3 x(2)] x(3) by auto
    have "processCancelShares locate (order_id r) shares (user_id r) out e
        = Some (out @ [RSP_CANCELLED (order_id r)], put_book locate b' ?e3)"
      using x(3-5) b'(1) True by (simp add: processCancelShares_def e2(1) Let_def findOrder_def body_field)
    then show ?thesis
      using True engine_invI [OF b'(2)] b'(3) e2(4) maps_book_view [of ?e3 e] by simp
  next
    case False
    obtain b' G' where b': "reduceQtyCancel x shares (the_book ?e3 bk) = Some b'" "engine_ok (put_book locate b' ?e3) G' F"
      "maps_book (unat locate) (a_update (order_id r) (shrink shares)) ?e3 (put_book locate b' ?e3)"
      using engine_shrink [OF ok3 x(2), of shares] x(3) by auto
    have "processCancelShares locate (order_id r) shares (user_id r) out e
        = Some (out @ [RSP_OK (order_id r)], put_book locate b' ?e3)"
      using x(3-5) b'(1) False by (simp add: processCancelShares_def e2(1) Let_def findOrder_def body_field)
    then show ?thesis
      using False engine_invI [OF b'(2)] b'(3) e2(4) maps_book_view [of ?e3 e] by simp
  qed
qed

section \<open>Replacing\<close>

text \<open>A replacement removes the old order, then matches the new one and rests what is left.\<close>

definition finish_replace ::
  "u64 \<Rightarrow> u64 \<Rightarrow> order_book \<times> order \<times> response list \<times> engine \<Rightarrow> (response list \<times> engine) option" where
  "finish_replace locate new_ref = (\<lambda>(book', ord', out', e5).
     if status ord' = OPEN \<or> status ord' = PARTIALLY_FILLED then rest_order locate book' ord' out' e5
     else if status ord' = FILLED then Some (out' @ [RSP_FILLED new_ref], e5)
     else Some (out', e5))"

lemma processReplace_removes:
  assumes ok: "engine_ok e G F" and lc: "unat locate < kMaxLocate" and S: "osd \<in> {BUY, SELL}"
    and r: "rests e (unat locate) osd r" and fresh: "new_ref = order_id r \<or> fresh_ref e new_ref"
  obtains e4 G1 x bk4 where "processReplace locate (order_id r) new_ref sd pr quantity (user_id r) out e =
      run_match locate (the_book e4 bk4) (incoming e new_ref new_ref sd pr quantity) out e4 \<bind> finish_replace locate new_ref"
    "engine_ok e4 G1 (x # F)" "books e4 (unat locate) = Some bk4" "maps_book (unat locate) (a_remove (order_id r)) e e4"
    "fresh_ref e4 new_ref" "\<forall>k. index_room e k \<longrightarrow> index_room e4 k"
    "\<forall>n. om_spare n (shared_index e) \<longrightarrow> om_spare n (shared_index e4)"
proof -
  let ?k = "unat locate"
  obtain e2 bk where e2: "book_for locate (count_cancel e) = (Some (the_book e2 bk), e2)" "engine_ok e2 G F"
    "books e2 ?k = Some bk" "view e2 = view e" "shared_index e2 = shared_index e" "next_sequence e2 = next_sequence e"
    by (rule cancel_book [OF ok lc])
  let ?w = "\<lparr>we_type = 4, we_side = 0, we_locate = ucast locate, we_price = pr, we_quantity = quantity,
    we_user_id = user_id r, we_order_id = new_ref, we_seq = next_sequence e2\<rparr>"
  let ?e3 = "log_wal ?w e2"
  have ok3: "engine_ok ?e3 G F" "books ?e3 ?k = Some bk" using e2 by simp_all
  have r3: "rests ?e3 ?k osd r" using r rests_cong [of ?e3 e] e2(4) by simp
  obtain x bk' where x: "books ?e3 ?k = Some bk'" "x \<in> live (G ?k)"
    "body (storage (shared_pool ?e3)) x = r" "unat x < length (storage (shared_pool ?e3))"
    "om_find (shared_index ?e3) (order_id r) = Some (Some x)"
    by (rule rests_slot [OF ok3(1) S r3])
  obtain b1 G1 where b1: "removeOrderPtr x (the_book ?e3 bk) = Some b1" "engine_ok (put_book locate b1 ?e3) G1 (x # F)"
    "maps_book ?k (a_remove (order_id r)) ?e3 (put_book locate b1 ?e3)"
    "\<forall>k. index_room ?e3 k \<longrightarrow> index_room (put_book locate b1 ?e3) k"
    "\<forall>n. om_spare n (shared_index ?e3) \<longrightarrow> om_spare n (shared_index (put_book locate b1 ?e3))"
    "\<forall>k. k = order_id r \<or> fresh_ref ?e3 k \<longrightarrow> fresh_ref (put_book locate b1 ?e3) k"
    using engine_remove [OF ok3 x(2)] x(3) by auto
  define e4 where "e4 = (put_book locate b1 ?e3)\<lparr>next_sequence := next_sequence ?e3 + 1\<rparr>"
  have p4: "put_book locate b1 (?e3\<lparr>next_sequence := next_sequence ?e3 + 1\<rparr>) = e4" by (simp add: e4_def put_book_def)
  have bk4: "books e4 ?k = Some (bids b1, asks b1)" "the_book e4 (bids b1, asks b1) = b1"
    by (simp_all add: e4_def put_book_def the_book_def)
  have v4: "view e4 = view (put_book locate b1 ?e3)" "shared_index e4 = shared_index (put_book locate b1 ?e3)" by (simp_all add: e4_def)
  have run: "processReplace locate (order_id r) new_ref sd pr quantity (user_id r) out e =
      run_match locate (the_book e4 (bids b1, asks b1)) (incoming e new_ref new_ref sd pr quantity) out e4 \<bind> finish_replace locate new_ref"
    using x(3-5) b1(1) p4 bk4(2)
    by (simp add: processReplace_def e2(1,6) Let_def findOrder_def body_field incoming_def finish_replace_def)
  have "engine_ok e4 G1 (x # F)" using b1(2) by (simp add: e4_def)
  moreover have "maps_book ?k (a_remove (order_id r)) e e4"
    using b1(3) maps_book_view [of ?e3 e] maps_book_view' [OF v4(1)] e2(4) by simp
  moreover have "fresh_ref e4 new_ref" "\<forall>k. index_room e k \<longrightarrow> index_room e4 k"
    using b1(4,6) fresh e2(5) v4(2) by (auto simp: fresh_ref_def index_room_def)
  moreover have "\<forall>n. om_spare n (shared_index e) \<longrightarrow> om_spare n (shared_index e4)" using b1(5) e2(5) v4(2) by simp
  ultimately show ?thesis using run bk4(1) that by blast
qed

lemma processReplace_ok:
  assumes inv: "engine_inv e" and lc: "unat locate < kMaxLocate" and S: "osd \<in> {BUY, SELL}" "sd \<in> {BUY, SELL}"
    and r: "rests e (unat locate) osd r"
    and fresh: "new_ref = order_id r \<or> fresh_ref e new_ref" and room: "index_room e new_ref"
    and q: "view e (unat locate) (opposite sd) = Some q" and own: "view e (unat locate) sd = Some own"
    and m: "a_match (opposite sd) new_ref pr quantity (a_remove (order_id r) q) = (n', q', ts)"
  shows "\<exists>e'. processReplace locate (order_id r) new_ref sd pr quantity (user_id r) out e =
      Some (out @ map (trade_rsp locate (opposite sd)) ts @
        [if n' = 0 \<and> ts \<noteq> [] then RSP_FILLED new_ref else RSP_OK new_ref], e') \<and>
    engine_inv e' \<and> view e' (unat locate) (opposite sd) = Some q' \<and>
    view e' (unat locate) sd = Some (if n' = 0 \<and> ts \<noteq> [] then a_remove (order_id r) own
      else a_insert sd (taker n' ts (incoming e new_ref new_ref sd pr quantity)) (a_remove (order_id r) own)) \<and>
    only_book (unat locate) e e'"
proof -
  let ?k = "unat locate" and ?out = "out @ map (trade_rsp locate (opposite sd)) ts" and ?ord = "incoming e new_ref new_ref sd pr quantity"
  obtain G F where ok: "engine_ok e G F" using inv by (auto simp: engine_inv_def)
  obtain e4 G1 x bk4 where start: "processReplace locate (order_id r) new_ref sd pr quantity (user_id r) out e =
      run_match locate (the_book e4 bk4) ?ord out e4 \<bind> finish_replace locate new_ref"
    and e4: "engine_ok e4 G1 (x # F)" "books e4 ?k = Some bk4" "maps_book ?k (a_remove (order_id r)) e e4" "fresh_ref e4 new_ref"
      "\<forall>k. index_room e k \<longrightarrow> index_room e4 k"
    by (rule processReplace_removes [OF ok lc S(1) r fresh])
  have q4: "view e4 ?k (opposite sd) = Some (a_remove (order_id r) q)" "view e4 ?k sd = Some (a_remove (order_id r) own)"
    using e4(3) q own opposite_side [OF S(2)] S(2) by (auto simp: maps_book_def)
  note run = run_match_ok [OF e4(1,2), of ?ord _ n' q' ts out, unfolded incoming_fields, OF S(2) q4(1) m]
  obtain e5 G5 P bk5 where r5: "run_match locate (the_book e4 bk4) ?ord out e4 = Some (the_book e5 bk5, taker n' ts ?ord, ?out, e5)"
    and ok5: "engine_ok e5 G5 (P @ x # F)" and bk5: "books e5 ?k = Some bk5"
    and v1: "view e5 ?k (opposite sd) = Some q'" and v2: "view e5 ?k sd = view e4 ?k sd"
    and fr: "only_book ?k e4 e5" and rm: "\<forall>k. index_room e4 k \<longrightarrow> index_room e5 k"
    and fs: "\<forall>k. fresh_ref e4 k \<longrightarrow> fresh_ref e5 k"
    using run by (elim exE conjE) (rule that)
  have ob: "only_book ?k e e5" using fr e4(3) only_book_trans by (auto simp: maps_book_def)
  have st: "status (taker n' ts ?ord) = (if ts = [] then OPEN else if n' = 0 then FILLED else PARTIALLY_FILLED)"
    by (simp add: taker_def)
  show ?thesis
  proof (cases "n' = 0 \<and> ts \<noteq> []")
    case True
    then show ?thesis
      using start r5 st v1 v2 q4(2) engine_invI [OF ok5] ob by (simp add: finish_replace_def)
  next
    case False
    obtain i F' where iF: "P @ x # F = i # F'" by (cases "P @ x # F") auto
    have fr5: "fresh_ref e5 new_ref" "index_room e5 new_ref" using e4(4,5) room fs rm by simp_all
    have own5: "view e5 ?k sd = Some (a_remove (order_id r) own)" using v2 q4(2) by simp
    note rest = rest_order_ok [OF ok5 [unfolded iF] bk5, of "taker n' ts ?ord" _ ?out,
        unfolded taker_fields incoming_fields, OF S(2) fr5 own5]
    obtain e6 G6 where e6: "rest_order locate (the_book e5 bk5) (taker n' ts ?ord) ?out e5 = Some (?out @ [RSP_OK new_ref], e6)"
      "engine_ok e6 G6 F'" "view e6 ?k sd = Some (a_insert sd (taker n' ts ?ord) (a_remove (order_id r) own))"
      "view e6 ?k (opposite sd) = view e5 ?k (opposite sd)" "only_book ?k e5 e6"
      using rest by (elim exE conjE) (rule that)
    have "status (taker n' ts ?ord) = OPEN \<or> status (taker n' ts ?ord) = PARTIALLY_FILLED"
      using False st by auto
    then show ?thesis
      using start r5 False e6 v1 engine_invI [OF e6(2)] only_book_trans [OF ob e6(5)] by (auto simp: finish_replace_def)
  qed
qed

text \<open>
  A cancel that names the wrong locate: the shared index still finds the order, but the book of
  that locate has no level at its price, so nothing is removed.
\<close>

lemma removeOrderPtr_no_level:
  "unat x < length (slots b) \<Longrightarrow>
   map_of (lv (side (body (slots b) x)) b) (price (body (slots b) x)) = None \<Longrightarrow> removeOrderPtr x b = Some b"
  by (simp add: removeOrderPtr_def body_field lv_def)

lemma no_level:
  assumes "book_ok b g F Oth" "sd \<in> {BUY, SELL}" "p \<notin> price ` set (orders sd b g)"
  shows "map_of (lv sd b) p = None"
proof (rule ccontr)
  assume "map_of (lv sd b) p \<noteq> None"
  then have "p \<in> fst ` set (lv sd b)" by (metis domI dom_map_of_conv_image_fst option.exhaust_sel)
  then have "g sd p \<noteq> []" using side_keys_ok [OF book_side [OF assms(1,2)]] by (auto simp: keys_ok_def)
  then obtain i where i: "i \<in> set (g sd p)" by (cases "g sd p") auto
  then have "i \<in> set (qslots sd b g)" using set_qslots [OF assms(1,2)] by (auto simp: slots_of_def)
  then show False using book_slot(1) [OF assms(1,2) i] assms(3) by (auto simp: orders_def)
qed

lemma processCancel_wrong_book_ok:
  assumes inv: "engine_inv e" and lc: "unat locate < kMaxLocate" and S: "sd \<in> {BUY, SELL}"
    and r: "rests e k sd r" and q: "view e (unat locate) sd = Some q" and np: "price r \<notin> price ` set q"
  shows "\<exists>e'. processCancel locate (order_id r) (user_id r) out e = Some (out @ [RSP_CANCELLED (order_id r)], e') \<and>
    engine_inv e' \<and> view e' = view e"
proof -
  obtain G F where ok: "engine_ok e G F" using inv by (auto simp: engine_inv_def)
  obtain e2 bk where e2: "book_for locate (count_cancel e) = (Some (the_book e2 bk), e2)" "engine_ok e2 G F"
    "books e2 (unat locate) = Some bk" "view e2 = view e" "shared_pool e2 = shared_pool e" "shared_index e2 = shared_index e"
    by (rule cancel_book [OF ok lc])
  obtain x bk' where x: "books e k = Some bk'" "x \<in> live (G k)" "body (storage (shared_pool e)) x = r"
    "unat x < length (storage (shared_pool e))" "om_find (shared_index e) (order_id r) = Some (Some x)" "side r = sd"
    by (rule rests_slot [OF ok S r])
  have "q = orders sd (the_book e2 bk) (G (unat locate))"
    using view_book [OF e2(2,3) S] q e2(4) by simp
  then have "map_of (lv sd (the_book e2 bk)) (price r) = None"
    using no_level [OF engine_book [OF e2(2,3)] S] np by simp
  then have "removeOrderPtr x (the_book e2 bk) = Some (the_book e2 bk)"
    using x(3,4,6) e2(5) by (intro removeOrderPtr_no_level) simp_all
  then have "removeOrder (order_id r) (user_id r) (the_book e2 bk) = Some (True, the_book e2 bk)"
    using x(3-5) e2(5,6) by (simp add: removeOrder_def body_field)
  then have "processCancel locate (order_id r) (user_id r) out e = Some (out @ [RSP_CANCELLED (order_id r)],
      put_book locate (the_book e2 bk) (log_wal \<lparr>we_type = 2, we_side = 0, we_locate = ucast locate, we_price = 0,
        we_quantity = 0, we_user_id = user_id r, we_order_id = order_id r, we_seq = next_sequence e2\<rparr> e2))"
    by (simp add: processCancel_def e2(1) Let_def)
  moreover have "put_book locate (the_book e2 bk) (log_wal w e2) = log_wal w e2" for w
    using put_the_book [of "log_wal w e2" locate bk] e2(3) by simp
  ultimately show ?thesis using engine_invI [OF e2(2)] e2(4) by simp
qed

section \<open>Requests that are refused\<close>

text \<open>
  The error of an invalid order, in the order of the checks.
\<close>

definition add_error :: "u64 \<Rightarrow> side \<Rightarrow> error_code" where
  [code_eval]: "add_error locate sd =
     (if unat locate \<ge> kMaxLocate then INVALID_COMMAND_TYPE
      else if sd = INVALID then INVALID_SIDE else INVALID_PRICE_QTY_USER)"

lemma processAdd_invalid_ok:
  assumes inv: "engine_inv e" and bad: "\<not> valid_add locate ref sd pr quantity uid tif"
  shows "\<exists>e'. processAdd locate ref sd pr quantity uid tif out e = Some (out @ [RSP_ERROR (add_error locate sd)], e') \<and>
    engine_inv e' \<and> view e' = view e"
proof (cases "unat locate < kMaxLocate")
  case False
  then have "processAdd locate ref sd pr quantity uid tif out e =
      Some (out @ [RSP_ERROR (add_error locate sd)], count_error (count_new e))"
    by (simp add: processAdd_def book_for_def Let_def add_error_def)
  then show ?thesis using inv by simp
next
  case True
  obtain G F where ok: "engine_ok e G F" using inv by (auto simp: engine_inv_def)
  have ok1: "engine_ok (count_new e) G F" using ok by simp
  obtain b e2 bk where bf: "book_for locate (count_new e) = (Some b, e2)" "engine_ok e2 G F"
    "e2 = (count_new e)\<lparr>books := (books (count_new e))(unat locate \<mapsto> bk)\<rparr>"
    "bk = (case books (count_new e) (unat locate) of None \<Rightarrow> ([], []) | Some bk \<Rightarrow> bk)"
    using book_for_ok [OF ok1 True] by blast
  have "view e2 = view e" using view_book_for [OF bf(3,4)] by simp
  moreover have "processAdd locate ref sd pr quantity uid tif out e =
      Some (out @ [RSP_ERROR (add_error locate sd)], count_error e2)"
    using bad True unfolding processAdd_def Let_def bf(1) prod.case option.case valid_add_def add_error_def
    by (cases sd; cases tif) auto
  ultimately show ?thesis using engine_invI [OF bf(2)] by simp
qed

text \<open>The order of a number that is in use but belongs to another user.\<close>

definition foreign_ref :: "engine \<Rightarrow> u64 \<Rightarrow> u64 \<Rightarrow> bool" where
  "foreign_ref e ref uid \<longleftrightarrow> fresh_ref e ref \<or> (\<exists>k. \<exists>sd\<in>{BUY, SELL}. \<exists>r. rests e k sd r \<and> order_id r = ref \<and> user_id r \<noteq> uid)"

lemma foreign_ref_slot:
  assumes "engine_ok e G F" "foreign_ref e ref uid" "shared_pool e2 = shared_pool e" "shared_index e2 = shared_index e"
  shows "om_find (shared_index e2) ref = Some None \<or>
    (\<exists>x. om_find (shared_index e2) ref = Some (Some x) \<and> unat x < length (storage (shared_pool e2)) \<and>
      user_id (storage (shared_pool e2) ! unat x) \<noteq> uid)"
  using assms(2) unfolding foreign_ref_def
proof
  assume "fresh_ref e ref"
  then show ?thesis using assms(4) by (simp add: fresh_ref_def)
next
  assume "\<exists>k. \<exists>sd\<in>{BUY, SELL}. \<exists>r. rests e k sd r \<and> order_id r = ref \<and> user_id r \<noteq> uid"
  then obtain k sd r where r: "sd \<in> {BUY, SELL}" "rests e k sd r" "order_id r = ref" "user_id r \<noteq> uid" by blast
  obtain x bk where x: "books e k = Some bk" "x \<in> live (G k)" "body (storage (shared_pool e)) x = r"
    "unat x < length (storage (shared_pool e))" "om_find (shared_index e) (order_id r) = Some (Some x)"
    by (rule rests_slot [OF assms(1) r(1,2)])
  then show ?thesis using assms(3,4) r(3,4) by (auto simp: body_field)
qed

lemma processCancelShares_reject_ok:
  assumes inv: "engine_inv e" and bad: "unat locate \<ge> kMaxLocate \<or> foreign_ref e ref uid"
  shows "\<exists>e'. processCancelShares locate ref shares uid out e = Some (out @ [RSP_ERROR ORDER_NOT_FOUND], e') \<and>
    engine_inv e' \<and> view e' = view e"
proof (cases "unat locate < kMaxLocate")
  case False
  then show ?thesis using inv by (simp add: processCancelShares_def book_for_def Let_def)
next
  case True
  obtain G F where ok: "engine_ok e G F" using inv by (auto simp: engine_inv_def)
  obtain e2 bk where e2: "book_for locate (count_cancel e) = (Some (the_book e2 bk), e2)" "engine_ok e2 G F"
    "view e2 = view e" "shared_pool e2 = shared_pool e" "shared_index e2 = shared_index e"
    by (rule cancel_book [OF ok True])
  have "foreign_ref e ref uid" using bad True by simp
  from foreign_ref_slot [OF ok this e2(4,5)] show ?thesis
    using engine_invI [OF e2(2)] e2(3)
    by (elim disjE exE conjE) (simp_all add: processCancelShares_def e2(1) Let_def findOrder_def)
qed

lemma processReplace_reject_ok:
  assumes inv: "engine_inv e" and bad: "unat locate \<ge> kMaxLocate \<or> foreign_ref e old_ref uid"
  shows "\<exists>e'. processReplace locate old_ref new_ref sd pr quantity uid out e = Some (out @ [RSP_ERROR ORDER_NOT_FOUND], e') \<and>
    engine_inv e' \<and> view e' = view e"
proof (cases "unat locate < kMaxLocate")
  case False
  then show ?thesis using inv by (simp add: processReplace_def book_for_def Let_def)
next
  case True
  obtain G F where ok: "engine_ok e G F" using inv by (auto simp: engine_inv_def)
  obtain e2 bk where e2: "book_for locate (count_cancel e) = (Some (the_book e2 bk), e2)" "engine_ok e2 G F"
    "view e2 = view e" "shared_pool e2 = shared_pool e" "shared_index e2 = shared_index e"
    by (rule cancel_book [OF ok True])
  have "foreign_ref e old_ref uid" using bad True by simp
  from foreign_ref_slot [OF ok this e2(4,5)] show ?thesis
    using engine_invI [OF e2(2)] e2(3)
    by (elim disjE exE conjE) (simp_all add: processReplace_def e2(1) Let_def findOrder_def)
qed

lemma processCancel_bad_locate:
  "unat locate \<ge> kMaxLocate \<Longrightarrow>
   processCancel locate ref uid out e = Some (out @ [RSP_ERROR ORDER_NOT_FOUND], count_error (count_cancel e))"
  by (simp add: processCancel_def book_for_def Let_def)

end
