(* ===== verification/Exchange_Claims.thy ===== *)
theory Exchange_Claims
  imports Engine_Props
begin

text \<open>
  The properties of the exchange: each is a statement about \<open>matching_engine.cpp\<close> or
  \<open>order_book.cpp\<close> on every state with the invariant, followed by a run of the model that meets
  its hypotheses.
\<close>

section \<open>A running engine\<close>

lemma engine_owned_start:
  assumes "2 \<le> c" "c \<le> 2 ^ 31"
  shows "\<exists>e. engine_owned c ms = Some e \<and> engine_ok e (\<lambda>_. no_ghost) (map of_nat [0..<c]) \<and> books e = (\<lambda>_. None) \<and>
    om_spare c (shared_index e) \<and> (\<forall>k. om_find (shared_index e) k = Some None) \<and> (\<forall>k. om_room (shared_index e) k) \<and>
    length (storage (shared_pool e)) = c \<and> next_sequence e = 1 \<and> next_order_id e = 1"
proof -
  obtain p where p: "pool_new default_order c = Some p" "pool_ok p (map of_nat [0..<c])" "length (storage p) = c"
    using pool_init_ok [of "\<lparr>storage = replicate c default_order, free_head = 0, pool_size = 0\<rparr>"] assms
    by (auto simp: pool_new_def)
  obtain ix :: "u32 order_map" where ix: "om_new c = Some ix" "om_inv ix" "\<forall>k. om_find ix k = Some None" "\<forall>k. om_room ix k"
    "om_spare c ix"
    using om_new_ok [OF assms] by blast
  let ?e = "engine_shared p ix ms"
  have f: "shared_pool ?e = p" "shared_index ?e = ix" "books ?e = (\<lambda>_. None)" "next_sequence ?e = 1" "next_order_id ?e = 1"
    by (simp_all add: engine_shared_def note_capacity_def)
  have "engine_ok ?e (\<lambda>_. no_ghost) (map of_nat [0..<c])"
    using p(2) ix by (simp add: engine_ok_def f order_map.indexes_def)
  moreover have "engine_owned c ms = Some ?e" by (simp add: engine_owned_def p ix)
  ultimately show ?thesis
    using ix p(3) by (intro exI [of _ ?e]) (simp add: f)
qed

lemma engine_owned_ok:
  assumes "2 \<le> c" "c \<le> 2 ^ 31"
  shows "\<exists>e. engine_owned c ms = Some e \<and> engine_inv e \<and> (\<forall>k sd. view e k sd = Some []) \<and>
    (\<forall>k. fresh_ref e k) \<and> (\<forall>k. index_room e k) \<and> pool_size (shared_pool e) = 0 \<and> pool_capacity (shared_pool e) = c"
proof -
  obtain e where e: "engine_owned c ms = Some e" "engine_ok e (\<lambda>_. no_ghost) (map of_nat [0..<c])" "books e = (\<lambda>_. None)"
    "\<forall>k. om_find (shared_index e) k = Some None" "\<forall>k. om_room (shared_index e) k" "length (storage (shared_pool e)) = c"
    using engine_owned_start [OF assms] by blast
  then have "pool_size (shared_pool e) = 0" by (simp add: engine_ok_def pool_ok_def)
  then show ?thesis
    using e engine_invI [OF e(2)] by (simp add: view_def fresh_ref_def index_room_def pool_capacity_def)
qed

text \<open>A small engine with one ask of user 42 at locate 7, five shares at 100.\<close>

definition demo_ask :: order where
  [code_eval]: "demo_ask = \<lparr>prev_idx = 0, next_idx = 0, pool_next_free = 0, user_id = 42, order_id = 1, side = SELL,
     price = 100, original_qty = 5, remaining_qty = 5, filled_qty = 0, sequence = 1, status = OPEN\<rparr>"

lemma demo_run:
  "\<exists>e e1. engine_owned 2 None = Some e \<and> processAdd 7 1 SELL 100 5 42 DAY [] e = Some ([RSP_OK 1], e1) \<and>
     fresh_ref e1 2 \<and> index_room e1 2 \<and> pool_size (shared_pool e1) = 1 \<and> pool_capacity (shared_pool e1) = 2 \<and>
     next_sequence e1 = 2 \<and> view e1 7 SELL = Some [demo_ask] \<and> view e1 7 BUY = Some []"
  by (simp add: code_eval om_room_def hash_of_def cong: bind_eval_cong)

lemma demo_engine:
  "\<exists>e1. engine_inv e1 \<and> fresh_ref e1 2 \<and> index_room e1 2 \<and> pool_size (shared_pool e1) = 1 \<and>
     pool_capacity (shared_pool e1) = 2 \<and> next_sequence e1 = 2 \<and> view e1 7 SELL = Some [demo_ask] \<and> view e1 7 BUY = Some []"
proof -
  obtain e e1 where r: "engine_owned 2 None = Some e" "processAdd 7 1 SELL 100 5 42 DAY [] e = Some ([RSP_OK 1], e1)"
    "fresh_ref e1 2" "index_room e1 2" "pool_size (shared_pool e1) = 1" "pool_capacity (shared_pool e1) = 2"
    "next_sequence e1 = 2" "view e1 7 SELL = Some [demo_ask]" "view e1 7 BUY = Some []"
    using demo_run by blast
  have e: "engine_inv e" "view e 7 SELL = Some []" "view e 7 BUY = Some []" "fresh_ref e 1" "index_room e 1"
    "pool_size (shared_pool e) = 0" "pool_capacity (shared_pool e) = 2"
    using engine_owned_ok [of 2 None] r(1) by auto
  have "valid_add 7 1 SELL 100 5 42 DAY" by (simp add: valid_add_def kMaxLocate_def)
  from processAdd_ok [OF e(1) this e(4,5), of 0 "[]" "[]" "[]"] e r(2)
  have "engine_inv e1" by (simp add: add_outcome_def opposite_def)
  then show ?thesis using r by blast
qed

section \<open>Orders\<close>

text \<open>
  C3: A valid day order is matched by price-time priority against the other side of its own book,
  own orders excepted (\<open>a_match\<close>). The responses are the trades, then FILLED, or OK when the rest
  is entered behind the orders of the same and better prices; the invariant is kept and the books
  of other locates do not change.
\<close>

theorem processAdd_day:
  assumes "engine_inv e" "valid_add locate ref sd pr quantity uid DAY" "fresh_ref e ref" "index_room e ref"
    and "unat (pool_size (shared_pool e)) < pool_capacity (shared_pool e)"
    and "view e (unat locate) (opposite sd) = Some q" "view e (unat locate) sd = Some own"
    and "a_match (opposite sd) uid pr quantity q = (n', q', ts)"
  shows "\<exists>e'. processAdd locate ref sd pr quantity uid DAY out e =
      Some (out @ map (trade_rsp locate (opposite sd)) ts @ [if n' = 0 then RSP_FILLED ref else RSP_OK ref], e') \<and>
    engine_inv e' \<and> view e' (unat locate) (opposite sd) = Some q' \<and>
    view e' (unat locate) sd = Some (if n' = 0 then own
      else a_insert sd (taker n' ts (incoming e uid ref sd pr quantity)) own) \<and>
    only_book (unat locate) e e'"
  using processAdd_ok [OF assms(1-5) _ assms(6,7), of 0 out] assms(8)
  by (auto simp: add_outcome_def limit_of_def add_response_def)

lemma processAdd_day_witness:
  "\<exists>e1 e2. engine_inv e1 \<and> view e1 7 SELL = Some [demo_ask] \<and>
     processAdd 7 2 BUY 101 8 43 DAY [] e1 = Some ([RSP_TRADE 7 1 SIDE_SELL 100 5, RSP_OK 2], e2) \<and>
     engine_inv e2 \<and> view e2 7 SELL = Some []"
proof -
  obtain e1 where e1: "engine_inv e1" "fresh_ref e1 2" "index_room e1 2" "pool_size (shared_pool e1) = 1"
    "pool_capacity (shared_pool e1) = 2" "view e1 7 SELL = Some [demo_ask]" "view e1 7 BUY = Some []"
    using demo_engine by blast
  have v: "valid_add 7 2 BUY 101 8 43 DAY" by (simp add: valid_add_def kMaxLocate_def)
  have m: "a_match (opposite BUY) 43 101 8 [demo_ask] = (3, [], [(demo_ask, 5)])"
    by (simp add: code_eval)
  show ?thesis
    using e1 processAdd_day [OF e1(1) v e1(2,3) _ _ _ m, of "[]" "[]"]
    by (auto simp: opposite_def trade_rsp_def rside_def demo_ask_def)
qed

text \<open>
  C10: An immediate-or-cancel order never rests: whatever is left after the match is dropped, and
  the side of the order does not change. Without a trade the response is MKT_NO_LIQUIDITY.
\<close>

theorem processAdd_ioc:
  assumes "engine_inv e" "valid_add locate ref sd pr quantity uid IOC" "fresh_ref e ref" "index_room e ref"
    and "unat (pool_size (shared_pool e)) < pool_capacity (shared_pool e)"
    and "view e (unat locate) (opposite sd) = Some q" "view e (unat locate) sd = Some own"
    and "a_match (opposite sd) uid (limit_of sd IOC pr) quantity q = (n', q', ts)"
  shows "\<exists>e'. processAdd locate ref sd pr quantity uid IOC out e =
      Some (out @ map (trade_rsp locate (opposite sd)) ts @
        (if n' = 0 then [RSP_FILLED ref] else if n' = quantity then [RSP_ERROR MKT_NO_LIQUIDITY] else []), e') \<and>
    engine_inv e' \<and> view e' (unat locate) (opposite sd) = Some q' \<and> view e' (unat locate) sd = Some own \<and>
    only_book (unat locate) e e'"
  using processAdd_ok [OF assms(1-5) _ assms(6,7), of 0 out] assms(8)
  by (auto simp: add_outcome_def add_response_def)

lemma processAdd_ioc_witness:
  "\<exists>e1 e2. engine_inv e1 \<and> processAdd 7 2 BUY 0 8 43 IOC [] e1 = Some ([RSP_TRADE 7 1 SIDE_SELL 100 5], e2) \<and>
     view e2 7 SELL = Some [] \<and> view e2 7 BUY = Some []"
proof -
  obtain e1 where e1: "engine_inv e1" "fresh_ref e1 2" "index_room e1 2" "pool_size (shared_pool e1) = 1"
    "pool_capacity (shared_pool e1) = 2" "view e1 7 SELL = Some [demo_ask]" "view e1 7 BUY = Some []"
    using demo_engine by blast
  have v: "valid_add 7 2 BUY 0 8 43 IOC" by (simp add: valid_add_def kMaxLocate_def)
  have m: "a_match (opposite BUY) 43 (limit_of BUY IOC 0) 8 [demo_ask] = (3, [], [(demo_ask, 5)])"
    by (simp add: code_eval)
  show ?thesis
    using e1 processAdd_ioc [OF e1(1) v e1(2,3) _ _ _ m, of "[]" "[]"]
    by (auto simp: opposite_def trade_rsp_def rside_def demo_ask_def)
qed

text \<open>
  C11: Fill-or-kill is all or nothing when the other side holds no order of the same user and its
  quantities add up below \<open>2 ^ 32\<close>: the order is filled at once, or rejected without a trace.
\<close>

theorem processAdd_fok:
  assumes inv: "engine_inv e" and v: "valid_add locate ref sd pr quantity uid FOK"
    and fr: "fresh_ref e ref" "index_room e ref"
    and sp: "unat (pool_size (shared_pool e)) < pool_capacity (shared_pool e)"
    and q: "view e (unat locate) (opposite sd) = Some q" and own: "view e (unat locate) sd = Some own"
    and alien: "\<forall>r\<in>set q. foreign uid r" and small: "total_rest q < 2 ^ 32"
  shows "\<exists>rs e'. processAdd locate ref sd pr quantity uid FOK out e = Some (out @ rs, e') \<and> engine_inv e' \<and>
    (rs = [RSP_ERROR FOK_NO_FULL_FILL] \<and> view e' = view e \<or>
     (\<exists>q' ts. a_match (opposite sd) uid (limit_of sd FOK pr) quantity q = (0, q', ts) \<and>
       rs = map (trade_rsp locate (opposite sd)) ts @ [RSP_FILLED ref] \<and>
       view e' (unat locate) (opposite sd) = Some q' \<and> view e' (unat locate) sd = Some own \<and>
       only_book (unat locate) e e'))"
proof -
  obtain G F where ok: "engine_ok e G F" using inv by (auto simp: engine_inv_def)
  have S: "sd \<in> {BUY, SELL}" using v by (auto simp: valid_add_def)
  have O: "opposite sd \<in> {BUY, SELL}" using opposite_side [OF S] by simp
  let ?p = "limit_of sd FOK pr"
  let ?cr = "filter (\<lambda>r. crosses (opposite sd) ?p (price r)) q"
  note srt = view_sorted [OF ok O q]
  have tw: "takeWhile (\<lambda>r. crosses (opposite sd) ?p (price r)) q = ?cr"
    by (rule takeWhile_filter_sorted [OF srt O])
  have "(\<Sum>r\<leftarrow>?cr. unat (remaining_qty r)) \<le> total_rest q"
    unfolding total_rest_def by (induction q) auto
  then have sum: "unat (\<Sum>r\<leftarrow>?cr. remaining_qty r) = (\<Sum>r\<leftarrow>?cr. unat (remaining_qty r))"
    using small by (intro unat_sum_list) simp
  show ?thesis
  proof (cases "quantity \<le> (\<Sum>r\<leftarrow>?cr. remaining_qty r)")
    case False
    then have "(\<Sum>r\<leftarrow>takeWhile (\<lambda>r. crosses (opposite sd) ?p (price r)) q. remaining_qty r) < quantity"
      using tw by simp
    from processAdd_fok_reject [OF inv v q this, of out] show ?thesis by blast
  next
    case True
    obtain n' q' ts where m: "a_match (opposite sd) uid ?p quantity q = (n', q', ts)" by (metis prod_cases3)
    have "filter (\<lambda>r. foreign uid r \<and> crosses (opposite sd) ?p (price r)) q = ?cr"
      using alien by (intro filter_cong) auto
    then have "unat quantity \<le> total_rest (filter (\<lambda>r. foreign uid r \<and> crosses (opposite sd) ?p (price r)) q)"
      using True sum by (simp add: total_rest_def word_le_nat_alt)
    then have n0: "n' = 0" by (rule a_match_full [OF m _ srt O])
    have "availableQty sd ?p (the_book e (case books e (unat locate) of None \<Rightarrow> ([], []) | Some bk \<Rightarrow> bk))
        = Some (\<Sum>r\<leftarrow>?cr. remaining_qty r) \<and> quantity \<le> (\<Sum>r\<leftarrow>?cr. remaining_qty r)"
      using availableQty_view [OF ok S q] tw True by simp
    from processAdd_ok [OF inv v fr sp this q own, of out] obtain r where
      "processAdd locate ref sd pr quantity uid FOK out e = Some r"
      "add_outcome False locate ref sd pr quantity uid FOK out e q own r" by blast
    then show ?thesis using m n0 by (cases r) (auto simp: add_outcome_def add_response_def)
  qed
qed

lemma processAdd_fok_witness:
  "\<exists>e1 e2 rs. engine_inv e1 \<and> processAdd 7 2 BUY 100 4 43 FOK [] e1 = Some (rs, e2) \<and> engine_inv e2"
proof -
  obtain e1 where e1: "engine_inv e1" "fresh_ref e1 2" "index_room e1 2" "pool_size (shared_pool e1) = 1"
    "pool_capacity (shared_pool e1) = 2" "view e1 7 SELL = Some [demo_ask]" "view e1 7 BUY = Some []"
    using demo_engine by blast
  have v: "valid_add 7 2 BUY 100 4 43 FOK" by (simp add: valid_add_def kMaxLocate_def)
  show ?thesis
    using e1 processAdd_fok [OF e1(1) v e1(2,3), of "[demo_ask]" "[]" "[]"]
    by (auto simp: opposite_def demo_ask_def foreign_def total_rest_def)
qed

section \<open>The match loops\<close>

lemma demo_book:
  obtains b g F Oth where "book_ok b g F Oth" "side_orders SELL b = Some [demo_ask]" "side_orders BUY b = Some []"
proof -
  obtain e1 where e1: "engine_inv e1" "view e1 7 SELL = Some [demo_ask]" "view e1 7 BUY = Some []"
    using demo_engine by blast
  then obtain G F where ok: "engine_ok e1 G F" by (auto simp: engine_inv_def)
  obtain bk where bk: "books e1 7 = Some bk" using view_books [OF e1(2)] by auto
  show ?thesis
    using that [OF engine_book [OF ok bk]] e1(2,3) bk by (simp add: view_def)
qed

definition demo_taker :: order where
  [code_eval]: "demo_taker = default_order\<lparr>user_id := 43, order_id := 2, side := BUY, price := 101,
     original_qty := 8, remaining_qty := 8\<rparr>"

definition demo_log :: trade_log where
  [code_eval]: "demo_log = \<lparr>metrics = None, trade_ring = None, buy_trade_id = 0, sell_trade_id = 0\<rparr>"

text \<open>
  C2: Both match loops terminate and compute the matching rule \<open>a_match\<close> on the side they match
  against: for \<open>sd = SELL\<close> this is \<open>matchBuyOrder\<close>, for \<open>sd = BUY\<close> \<open>matchSellOrder\<close>. The incoming
  order, the responses, the trade log and the queue are those of the rule; the other side and the
  slots of other books do not change.
\<close>

theorem match_refines:
  assumes ok: "book_ok b g F Oth" and S: "sd \<in> {BUY, SELL}" and q: "side_orders sd b = Some q"
    and m: "a_match sd (user_id ord) (price ord) (remaining_qty ord) q = (n', q', ts)"
  shows "\<exists>b' g' P. (if sd = SELL then matchBuyOrder else matchSellOrder) locate seq b ord out lg =
      Some (b', taker n' ts ord, out @ map (trade_rsp locate sd) ts, fold (log_trade sd seq ord) ts lg) \<and>
    book_ok b' g' (P @ F) Oth \<and> agree (slots b) (slots b') Oth \<and>
    side_orders sd b' = Some q' \<and> side_orders (opposite sd) b' = side_orders (opposite sd) b"
proof -
  have O: "opposite sd \<in> {BUY, SELL}" using opposite_side [OF S] by simp
  have "q = orders sd b g" using side_orders_eq [OF ok S] q by simp
  then have m': "a_match sd (user_id ord) (price ord) (remaining_qty ord) (orders sd b g) = (n', q', ts)"
    using m by simp
  obtain b' g' P where r: "match_loop sd locate seq b ord out lg =
      Some (b', taker n' ts ord, out @ map (trade_rsp locate sd) ts, fold (log_trade sd seq ord) ts lg)"
    and f: "book_ok b' g' (P @ F) Oth" "agree (slots b) (slots b') Oth" "roomier b b'" "live g' \<subseteq> live g"
      "\<forall>i\<in>live g'. order_id (body (slots b') i) = order_id (body (slots b) i)"
      "orders sd b' g' = q'" "orders (opposite sd) b' g' = orders (opposite sd) b g"
    using match_loop_ok [OF ok S m', where locate = locate and seq = seq and out = out and lg = lg]
    by (elim exE conjE) (rule that)
  show ?thesis
    using r f side_orders_eq [OF f(1) S] side_orders_eq [OF f(1) O] side_orders_eq [OF ok O]
    unfolding match_loop_def by auto
qed

lemma match_refines_witness:
  "\<exists>b lg r. side_orders SELL b = Some [demo_ask] \<and> matchBuyOrder 7 5 b demo_taker [] lg = Some r \<and>
     side_orders SELL (fst r) = Some [] \<and> fst (snd (snd r)) = [RSP_TRADE 7 1 SIDE_SELL 100 5]"
proof -
  obtain b g F Oth where b: "book_ok b g F Oth" "side_orders SELL b = Some [demo_ask]"
    by (rule demo_book)
  have m: "a_match SELL (user_id demo_taker) (price demo_taker) (remaining_qty demo_taker) [demo_ask]
      = (3, [], [(demo_ask, 5)])"
    by (simp add: code_eval)
  from match_refines [OF b(1) _ b(2) m, of 7 5 "[]"] b(2) show ?thesis
    by (fastforce simp: trade_rsp_def rside_def demo_ask_def)
qed

text \<open>The new responses of a match are trades; their quantities add up to this.\<close>

definition rsp_qty :: "response list \<Rightarrow> nat" where
  [code_eval]: "rsp_qty rs = (\<Sum>r\<leftarrow>rs. unat (tr_quantity r))"

lemma rsp_qty_trades: "rsp_qty (map (trade_rsp locate sd) ts) = traded ts"
  by (induction ts) (auto simp: rsp_qty_def traded_def trade_rsp_def)

lemma match_result:
  assumes ok: "book_ok b g F Oth" and S: "sd \<in> {BUY, SELL}"
    and r: "match_loop sd locate seq b ord out lg = Some (b', ord', out', lg')"
  obtains n' q' ts where
    "a_match sd (user_id ord) (price ord) (remaining_qty ord) (orders sd b g) = (n', q', ts)"
    "ord' = taker n' ts ord" "out' = out @ map (trade_rsp locate sd) ts" "side_orders sd b' = Some q'"
    "side_orders sd b = Some (orders sd b g)"
proof -
  obtain n' q' ts where m: "a_match sd (user_id ord) (price ord) (remaining_qty ord) (orders sd b g) = (n', q', ts)"
    by (metis prod_cases3)
  obtain b2 g2 P where r2: "match_loop sd locate seq b ord out lg =
      Some (b2, taker n' ts ord, out @ map (trade_rsp locate sd) ts, fold (log_trade sd seq ord) ts lg)"
    and f: "book_ok b2 g2 (P @ F) Oth" "orders sd b2 g2 = q'"
    using match_loop_ok [OF ok S m, where locate = locate and seq = seq and out = out and lg = lg] by blast
  show ?thesis
    using that [OF m] r r2 f(2) side_orders_eq [OF f(1) S] side_orders_eq [OF ok S] by simp
qed

text \<open>
  C7: Quantity is conserved: what the incoming order loses is what the resting side loses, and
  both are the sum of the reported trades. The filled quantity grows by the same amount.
\<close>

theorem match_conserves:
  assumes "book_ok b g F Oth" "sd \<in> {BUY, SELL}" "side_orders sd b = Some q"
    and "match_loop sd locate seq b ord out lg = Some (b', ord', out', lg')"
  shows "\<exists>q' rs. side_orders sd b' = Some q' \<and> out' = out @ rs \<and>
    unat (remaining_qty ord) = unat (remaining_qty ord') + rsp_qty rs \<and>
    total_rest q = total_rest q' + rsp_qty rs \<and>
    filled_qty ord' - filled_qty ord = remaining_qty ord - remaining_qty ord'"
proof -
  obtain n' q' ts where m: "a_match sd (user_id ord) (price ord) (remaining_qty ord) (orders sd b g) = (n', q', ts)"
    and r: "ord' = taker n' ts ord" "out' = out @ map (trade_rsp locate sd) ts" "side_orders sd b' = Some q'"
      "side_orders sd b = Some (orders sd b g)"
    by (rule match_result [OF assms(1,2,4)])
  have "remaining_qty ord' = n'" using r(1) m by (auto simp: taker_def dest: a_match_no_trades)
  then show ?thesis
    using r assms(3) a_match_conserves [OF m] a_match_rest [OF m]
    by (auto simp: rsp_qty_trades taker_def)
qed

lemma match_conserves_witness:
  "\<exists>b r. side_orders SELL b = Some [demo_ask] \<and> match_loop SELL 7 5 b demo_taker [] demo_log = Some r \<and>
     rsp_qty (fst (snd (snd r))) + unat (remaining_qty (fst (snd r))) = 8"
proof -
  obtain b g F Oth where b: "book_ok b g F Oth" "side_orders SELL b = Some [demo_ask]" by (rule demo_book)
  obtain n' q' ts where m: "a_match SELL (user_id demo_taker) (price demo_taker) (remaining_qty demo_taker) (orders SELL b g) = (n', q', ts)"
    by (metis prod_cases3)
  obtain b' ord' out' lg' where r: "match_loop SELL 7 5 b demo_taker [] demo_log = Some (b', ord', out', lg')"
    using match_loop_ok [OF b(1) _ m, where locate = 7 and seq = 5 and out = "[]" and lg = demo_log] by blast
  show ?thesis
    using match_conserves [OF b(1) _ b(2) r] b(2) r by (auto simp: demo_taker_def default_order_def)
qed

text \<open>
  C8: Price-time priority and no trade through the limit: the trades are with the first orders of
  other users in the queue, in queue order, each at the resting order's price, which crosses the
  incoming limit; every trade but the last takes the whole order.
\<close>

theorem match_priority:
  assumes "book_ok b g F Oth" "sd \<in> {BUY, SELL}" "side_orders sd b = Some q"
    and "match_loop sd locate seq b ord out lg = Some (b', ord', out', lg')"
  shows "\<exists>ts. out' = out @ map (trade_rsp locate sd) ts \<and>
    map fst ts = take (length ts) (filter (foreign (user_id ord)) q) \<and>
    (\<forall>t\<in>set ts. crosses sd (price ord) (price (fst t)) \<and> snd t \<le> remaining_qty (fst t)) \<and>
    (\<forall>t\<in>set (butlast ts). snd t = remaining_qty (fst t))"
proof -
  obtain n' q' ts where m: "a_match sd (user_id ord) (price ord) (remaining_qty ord) (orders sd b g) = (n', q', ts)"
    and r: "out' = out @ map (trade_rsp locate sd) ts" "side_orders sd b = Some (orders sd b g)"
    by (rule match_result [OF assms(1,2,4)])
  show ?thesis using a_match_priority [OF m] r assms(3) by auto
qed

lemma match_priority_witness:
  "\<exists>b r ts. side_orders SELL b = Some [demo_ask] \<and> match_loop SELL 7 5 b demo_taker [] demo_log = Some r \<and>
     fst (snd (snd r)) = map (trade_rsp 7 SELL) ts \<and> map fst ts = take (length ts) [demo_ask]"
proof -
  obtain b g F Oth where b: "book_ok b g F Oth" "side_orders SELL b = Some [demo_ask]" by (rule demo_book)
  obtain n' q' ts where m: "a_match SELL (user_id demo_taker) (price demo_taker) (remaining_qty demo_taker) (orders SELL b g) = (n', q', ts)"
    by (metis prod_cases3)
  obtain b' ord' out' lg' where r: "match_loop SELL 7 5 b demo_taker [] demo_log = Some (b', ord', out', lg')"
    using match_loop_ok [OF b(1) _ m, where locate = 7 and seq = 5 and out = "[]" and lg = demo_log] by blast
  have f: "filter (foreign (user_id demo_taker)) [demo_ask] = [demo_ask]" by (simp add: code_eval)
  obtain ts where "out' = map (trade_rsp 7 SELL) ts" "map fst ts = take (length ts) [demo_ask]"
    using match_priority [OF b(1) _ b(2) r] unfolding f by auto
  then show ?thesis
    using b(2) r by (intro exI [of _ b] exI [of _ "(b', ord', out', lg')"] exI [of _ ts]) simp
qed

text \<open>
  C9: A match leaves no crossed book: quantity of the incoming order is left only when no order of
  another user within its limit rests on the other side. Own orders are never traded: they stay
  as they were, in order.
\<close>

theorem match_exhausts:
  assumes "book_ok b g F Oth" "sd \<in> {BUY, SELL}" "side_orders sd b = Some q"
    and "match_loop sd locate seq b ord out lg = Some (b', ord', out', lg')"
  shows "\<exists>q'. side_orders sd b' = Some q' \<and>
    (remaining_qty ord' \<noteq> 0 \<longrightarrow> (\<forall>r\<in>set q'. foreign (user_id ord) r \<longrightarrow> \<not> crosses sd (price ord) (price r))) \<and>
    filter (\<lambda>r. \<not> foreign (user_id ord) r) q' = filter (\<lambda>r. \<not> foreign (user_id ord) r) q"
proof -
  obtain n' q' ts where m: "a_match sd (user_id ord) (price ord) (remaining_qty ord) (orders sd b g) = (n', q', ts)"
    and r: "ord' = taker n' ts ord" "out' = out @ map (trade_rsp locate sd) ts" "side_orders sd b' = Some q'"
      "side_orders sd b = Some (orders sd b g)"
    by (rule match_result [OF assms(1,2,4)])
  have "remaining_qty ord' = n'" using r(1) m by (auto simp: taker_def dest: a_match_no_trades)
  then show ?thesis
    using r assms(3) a_match_exhausts [OF orders_sorted [OF assms(1,2)] assms(2) m] a_match_own_kept [OF m] by auto
qed

lemma match_exhausts_witness:
  "\<exists>b r q'. side_orders SELL b = Some [demo_ask] \<and> match_loop SELL 7 5 b demo_taker [] demo_log = Some r \<and>
     side_orders SELL (fst r) = Some q' \<and>
     (remaining_qty (fst (snd r)) \<noteq> 0 \<longrightarrow> (\<forall>r\<in>set q'. foreign 43 r \<longrightarrow> \<not> crosses SELL 101 (price r)))"
proof -
  obtain b g F Oth where b: "book_ok b g F Oth" "side_orders SELL b = Some [demo_ask]" by (rule demo_book)
  obtain n' q' ts where m: "a_match SELL (user_id demo_taker) (price demo_taker) (remaining_qty demo_taker) (orders SELL b g) = (n', q', ts)"
    by (metis prod_cases3)
  obtain b' ord' out' lg' where r: "match_loop SELL 7 5 b demo_taker [] demo_log = Some (b', ord', out', lg')"
    using match_loop_ok [OF b(1) _ m, where locate = 7 and seq = 5 and out = "[]" and lg = demo_log] by blast
  have "user_id demo_taker = 43" "price demo_taker = 101" by (simp_all add: demo_taker_def default_order_def)
  then show ?thesis
    using match_exhausts [OF b(1) _ b(2) r] b(2) r by auto
qed

section \<open>Cancels and replacements\<close>

lemma demo_rests: "view e1 7 SELL = Some [demo_ask] \<Longrightarrow> rests e1 (unat (7 :: u64)) SELL demo_ask"
  by (simp add: rests_def)

text \<open>
  C12: A cancel with the right locate, number and user removes exactly that order, from its side of
  its book; the order's number is free again and every other order keeps its place.
\<close>

theorem processCancel_removes:
  assumes "engine_inv e" "unat locate < kMaxLocate" "sd \<in> {BUY, SELL}" "rests e (unat locate) sd r"
  shows "\<exists>e'. processCancel locate (order_id r) (user_id r) out e = Some (out @ [RSP_CANCELLED (order_id r)], e') \<and>
    engine_inv e' \<and> maps_book (unat locate) (a_remove (order_id r)) e e' \<and> fresh_ref e' (order_id r)"
  by (rule processCancel_ok [OF assms])

lemma processCancel_removes_witness:
  "\<exists>e1 e2. engine_inv e1 \<and> view e1 7 SELL = Some [demo_ask] \<and>
     processCancel 7 1 42 [] e1 = Some ([RSP_CANCELLED 1], e2) \<and> engine_inv e2 \<and> view e2 7 SELL = Some []"
proof -
  obtain e1 where e1: "engine_inv e1" "view e1 7 SELL = Some [demo_ask]" using demo_engine by blast
  show ?thesis
    using processCancel_removes [OF e1(1) _ _ demo_rests [OF e1(2)], of "[]"] e1
    by (auto simp: kMaxLocate_def maps_book_def demo_ask_def a_remove_def)
qed

text \<open>
  C15: A cancel of a number that is not in use, or of an order of another user, is answered
  ORDER_NOT_FOUND and changes no book.
\<close>

theorem processCancel_rejects:
  assumes "engine_inv e" "unat locate < kMaxLocate"
    and "fresh_ref e ref \<or> (\<exists>k. \<exists>sd\<in>{BUY, SELL}. \<exists>r. rests e k sd r \<and> order_id r = ref \<and> user_id r \<noteq> uid)"
  shows "\<exists>e'. processCancel locate ref uid out e = Some (out @ [RSP_ERROR ORDER_NOT_FOUND], e') \<and>
    engine_inv e' \<and> view e' = view e"
  by (rule processCancel_reject_ok [OF assms])

lemma processCancel_rejects_witness:
  "\<exists>e1 e2. engine_inv e1 \<and> view e1 7 SELL = Some [demo_ask] \<and>
     processCancel 7 1 43 [] e1 = Some ([RSP_ERROR ORDER_NOT_FOUND], e2) \<and> view e2 7 SELL = Some [demo_ask]"
proof -
  obtain e1 where e1: "engine_inv e1" "view e1 7 SELL = Some [demo_ask]" using demo_engine by blast
  have "\<exists>k. \<exists>sd\<in>{BUY, SELL}. \<exists>r. rests e1 k sd r \<and> order_id r = 1 \<and> user_id r \<noteq> 43"
    using demo_rests [OF e1(2)] by (intro exI [of _ "unat (7 :: u64)"] bexI [of _ SELL] exI [of _ demo_ask]) (auto simp: demo_ask_def)
  then show ?thesis
    using processCancel_rejects [OF e1(1), of 7 1 43 "[]"] e1 by (auto simp: kMaxLocate_def)
qed

text \<open>
  C16: A cancel that names the wrong locate is answered CANCELLED although the order keeps resting:
  the shared index finds it, but \<open>removeOrder\<close> finds no level at its price in the named book and
  returns without removing it.
\<close>

theorem processCancel_wrong_locate:
  assumes "engine_inv e" "unat locate < kMaxLocate" "sd \<in> {BUY, SELL}" "rests e k sd r"
    and "view e (unat locate) sd = Some q" "price r \<notin> price ` set q"
  shows "\<exists>e'. processCancel locate (order_id r) (user_id r) out e = Some (out @ [RSP_CANCELLED (order_id r)], e') \<and>
    engine_inv e' \<and> rests e' k sd r"
  using processCancel_wrong_book_ok [OF assms, of out] rests_cong assms(4) by metis

lemma demo_elsewhere: "\<exists>e1. engine_inv e1 \<and> view e1 7 SELL = Some [demo_ask] \<and> view e1 8 SELL = Some []"
proof -
  obtain e e1 where r: "engine_owned 2 None = Some e" "processAdd 7 1 SELL 100 5 42 DAY [] e = Some ([RSP_OK 1], e1)"
    "view e1 7 SELL = Some [demo_ask]"
    using demo_run by blast
  have e: "engine_inv e" "view e 7 SELL = Some []" "view e 7 BUY = Some []" "view e 8 SELL = Some []"
    "fresh_ref e 1" "index_room e 1" "pool_size (shared_pool e) = 0" "pool_capacity (shared_pool e) = 2"
    using engine_owned_ok [of 2 None] r(1) by auto
  have "valid_add 7 1 SELL 100 5 42 DAY" by (simp add: valid_add_def kMaxLocate_def)
  from processAdd_ok [OF e(1) this e(5,6), of 0 "[]" "[]" "[]"] e r(2)
  have "engine_inv e1" "only_book 7 e e1" by (simp_all add: add_outcome_def opposite_def)
  then show ?thesis using r(3) e(4) by (auto simp: only_book_def)
qed

lemma processCancel_wrong_locate_witness:
  "\<exists>e1 e2. engine_inv e1 \<and> processCancel 8 1 42 [] e1 = Some ([RSP_CANCELLED 1], e2) \<and> rests e2 7 SELL demo_ask"
proof -
  obtain e1 where e1: "engine_inv e1" "view e1 7 SELL = Some [demo_ask]" "view e1 8 SELL = Some []"
    using demo_elsewhere by blast
  show ?thesis
    using processCancel_wrong_locate [OF e1(1), of 8 SELL 7 demo_ask "[]" "[]"] demo_rests [OF e1(2)] e1
    by (auto simp: kMaxLocate_def demo_ask_def)
qed

text \<open>
  C13: A partial cancel takes the shares off the order in place, keeping its priority and its filled
  quantity, or removes the order when nothing would remain.
\<close>

theorem processCancelShares_shrinks:
  assumes "engine_inv e" "unat locate < kMaxLocate" "sd \<in> {BUY, SELL}" "rests e (unat locate) sd r"
  shows "\<exists>e'. processCancelShares locate (order_id r) shares (user_id r) out e =
      Some (out @ [if remaining_qty r \<le> shares then RSP_CANCELLED (order_id r) else RSP_OK (order_id r)], e') \<and>
    engine_inv e' \<and> maps_book (unat locate) (if remaining_qty r \<le> shares then a_remove (order_id r)
      else a_update (order_id r) (shrink shares)) e e'"
  by (rule processCancelShares_ok [OF assms])

lemma processCancelShares_shrinks_witness:
  "\<exists>e1 e2. engine_inv e1 \<and> view e1 7 SELL = Some [demo_ask] \<and>
     processCancelShares 7 1 2 42 [] e1 = Some ([RSP_OK 1], e2) \<and>
     view e2 7 SELL = Some [demo_ask\<lparr>remaining_qty := 3\<rparr>]"
proof -
  obtain e1 where e1: "engine_inv e1" "view e1 7 SELL = Some [demo_ask]" using demo_engine by blast
  show ?thesis
    using processCancelShares_shrinks [OF e1(1) _ _ demo_rests [OF e1(2)], of 2 "[]"] e1
    by (auto simp: kMaxLocate_def maps_book_def demo_ask_def a_update_def shrink_def)
qed

text \<open>
  C14: A replacement removes the old order, then matches and rests the new one at the back of its
  price, under the new number, which also becomes its user. A replacement by quantity zero rests
  an empty order (\<open>processReplace\<close> validates neither price nor quantity).
\<close>

theorem processReplace_moves:
  assumes "engine_inv e" "unat locate < kMaxLocate" "osd \<in> {BUY, SELL}" "sd \<in> {BUY, SELL}" "rests e (unat locate) osd r"
    and "new_ref = order_id r \<or> fresh_ref e new_ref" "index_room e new_ref"
    and "view e (unat locate) (opposite sd) = Some q" "view e (unat locate) sd = Some own"
    and "a_match (opposite sd) new_ref pr quantity (a_remove (order_id r) q) = (n', q', ts)"
  shows "\<exists>e'. processReplace locate (order_id r) new_ref sd pr quantity (user_id r) out e =
      Some (out @ map (trade_rsp locate (opposite sd)) ts @
        [if n' = 0 \<and> ts \<noteq> [] then RSP_FILLED new_ref else RSP_OK new_ref], e') \<and>
    engine_inv e' \<and> view e' (unat locate) (opposite sd) = Some q' \<and>
    view e' (unat locate) sd = Some (if n' = 0 \<and> ts \<noteq> [] then a_remove (order_id r) own
      else a_insert sd (taker n' ts (incoming e new_ref new_ref sd pr quantity)) (a_remove (order_id r) own)) \<and>
    only_book (unat locate) e e'"
  by (rule processReplace_ok [OF assms])

lemma processReplace_moves_witness:
  "\<exists>e1 e2. engine_inv e1 \<and> view e1 7 SELL = Some [demo_ask] \<and>
     processReplace 7 1 2 SELL 105 0 42 [] e1 = Some ([RSP_OK 2], e2) \<and>
     (\<exists>r. view e2 7 SELL = Some [r] \<and> order_id r = 2 \<and> user_id r = 2 \<and> price r = 105 \<and> remaining_qty r = 0)"
proof -
  obtain e1 where e1: "engine_inv e1" "fresh_ref e1 2" "index_room e1 2" "view e1 7 SELL = Some [demo_ask]"
    "view e1 7 BUY = Some []"
    using demo_engine by blast
  have m: "a_match (opposite SELL) 2 105 0 (a_remove (order_id demo_ask) []) = (0, [], [])"
    by (simp add: code_eval)
  have f: "user_id demo_ask = 42" "order_id demo_ask = 1" by (simp_all add: demo_ask_def)
  show ?thesis
    using processReplace_moves [OF e1(1) _ _ _ demo_rests [OF e1(4)] _ e1(3) _ _ m, of "[demo_ask]" "[]"] e1 f
    by (auto simp: kMaxLocate_def opposite_def a_remove_def a_insert_def taker_def)
qed

end
