(* ===== verification/Engine_Reach.thy ===== *)
theory Engine_Reach
  imports Exchange_Claims
begin

text \<open>
  Sequences of commands: every state the engine reaches from a fresh one by admissible commands
  keeps the invariant and never shows a crossed book, and every admissible command is answered.
\<close>

section \<open>Commands\<close>

datatype command =
    Add u64 u64 side u32 u32 u64 order_tif
  | Cancel u64 u64 u64
  | CancelShares u64 u64 u32 u64
  | Replace u64 u64 u64 side u32 u32 u64

fun exec :: "command \<Rightarrow> response list \<Rightarrow> engine \<Rightarrow> (response list \<times> engine) option" where
  "exec (Add locate ref sd pr quantity uid tif) out e = processAdd locate ref sd pr quantity uid tif out e"
| "exec (Cancel locate ref uid) out e = processCancel locate ref uid out e"
| "exec (CancelShares locate ref shares uid) out e = processCancelShares locate ref shares uid out e"
| "exec (Replace locate old_ref new_ref sd pr quantity uid) out e =
     processReplace locate old_ref new_ref sd pr quantity uid out e"

text \<open>A session: commands one after the other, each with a response list of its own.\<close>

fun exec_all :: "command list \<Rightarrow> engine \<Rightarrow> engine option" where
  "exec_all [] e = Some e"
| "exec_all (c # cs) e = do { (rs, e') \<leftarrow> exec c [] e; exec_all cs e' }"

text \<open>
  What the caller has to respect: numbers of new orders are not in use and find room in the index,
  a number is only sent to the locate its order rests at, a replacement has a side and a quantity.
\<close>

definition at_home :: "engine \<Rightarrow> u64 \<Rightarrow> u64 \<Rightarrow> bool" where
  "at_home e locate ref \<longleftrightarrow> unat locate < kMaxLocate \<longrightarrow>
     fresh_ref e ref \<or> (\<exists>sd\<in>{BUY, SELL}. \<exists>r. rests e (unat locate) sd r \<and> order_id r = ref)"

fun admissible :: "engine \<Rightarrow> command \<Rightarrow> bool" where
  "admissible e (Add locate ref sd pr quantity uid tif) \<longleftrightarrow> fresh_ref e ref \<and> index_room e ref"
| "admissible e (Cancel locate ref uid) \<longleftrightarrow> at_home e locate ref"
| "admissible e (CancelShares locate ref shares uid) \<longleftrightarrow> at_home e locate ref"
| "admissible e (Replace locate old_ref new_ref sd pr quantity uid) \<longleftrightarrow> at_home e locate old_ref \<and>
     (new_ref = old_ref \<or> fresh_ref e new_ref) \<and> index_room e new_ref \<and> sd \<in> {BUY, SELL} \<and> quantity \<noteq> 0"

inductive reach :: "engine \<Rightarrow> bool" where
  start: "2 \<le> c \<Longrightarrow> c \<le> 2 ^ 31 \<Longrightarrow> engine_owned c ms = Some e \<Longrightarrow> reach e"
| step: "reach e \<Longrightarrow> admissible e cmd \<Longrightarrow> exec cmd out e = Some (out', e') \<Longrightarrow> reach e'"

section \<open>Uncrossed books\<close>

definition uncrossed :: "engine \<Rightarrow> nat \<Rightarrow> bool" where
  "uncrossed e k \<longleftrightarrow> (\<forall>b a. rests e k BUY b \<longrightarrow> rests e k SELL a \<longrightarrow> price a \<le> price b \<longrightarrow> user_id a = user_id b)"

definition apart :: "side \<Rightarrow> order list \<Rightarrow> order list \<Rightarrow> bool" where
  "apart sd own q \<longleftrightarrow> (\<forall>r\<in>set own. \<forall>r'\<in>set q. crosses (opposite sd) (price r) (price r') \<longrightarrow> user_id r = user_id r')"

lemma inv_view: "engine_inv e \<Longrightarrow> sd \<in> {BUY, SELL} \<Longrightarrow> \<exists>q. view e k sd = Some q"
  by (cases "books e k") (auto simp: engine_inv_def view_def dest: view_book)

lemma uncrossed_apart:
  assumes "sd \<in> {BUY, SELL}" "view e k sd = Some own" "view e k (opposite sd) = Some q"
  shows "uncrossed e k \<longleftrightarrow> apart sd own q"
  using assms by (auto simp: uncrossed_def rests_def apart_def crosses_def opposite_def)

text \<open>What is left of a queue after a match stems from orders with the same price and user.\<close>

lemma a_match_sub:
  "a_match sd ex p n q = (n', q', ts) \<Longrightarrow> r \<in> set q' \<Longrightarrow> \<exists>r0\<in>set q. price r = price r0 \<and> user_id r = user_id r0"
proof (induction q arbitrary: n n' q' ts)
  case (Cons a q)
  then show ?case by (fastforce simp: Let_def split: if_splits prod.splits)
qed simp

lemma apart_sub:
  "apart sd own q \<Longrightarrow> (\<And>r. r \<in> set own' \<Longrightarrow> \<exists>r0\<in>set own. price r = price r0 \<and> user_id r = user_id r0) \<Longrightarrow>
   (\<And>r. r \<in> set q' \<Longrightarrow> \<exists>r0\<in>set q. price r = price r0 \<and> user_id r = user_id r0) \<Longrightarrow> apart sd own' q'"
  unfolding apart_def by metis

lemma set_a_insert: "set (a_insert sd ord q) = insert (strip ord) (set q)"
  unfolding a_insert_def using takeWhile_dropWhile_id [of "\<lambda>r. \<not> blt sd (price ord) (price r)" q]
  by (metis Un_insert_right append.left_neutral append_Cons list.simps(15) set_append)

lemma apart_rest:
  assumes S: "sd \<in> {BUY, SELL}" and a: "apart sd own q"
    and srt: "sorted_wrt (\<lambda>r r'. \<not> blt (opposite sd) (price r') (price r)) q"
    and m: "a_match (opposite sd) (user_id ord) (price ord) n q = (n', q', ts)" and n: "n' \<noteq> 0"
  shows "apart sd (a_insert sd ord own) q'"
proof -
  have O: "opposite sd \<in> {BUY, SELL}" using opposite_side [OF S] by simp
  have "apart sd own q'" by (rule apart_sub [OF a]) (use a_match_sub [OF m] in auto)
  moreover have "\<forall>r\<in>set q'. crosses (opposite sd) (price ord) (price r) \<longrightarrow> user_id ord = user_id r"
    using a_match_exhausts [OF srt O m n] by (auto simp: foreign_def)
  ultimately show ?thesis by (auto simp: apart_def set_a_insert)
qed

lemma uncrossed_view: "view e' = view e \<Longrightarrow> uncrossed e' = uncrossed e"
  by (intro ext) (simp add: uncrossed_def rests_def)

lemma uncrossed_other: "only_book k e e' \<Longrightarrow> j \<noteq> k \<Longrightarrow> uncrossed e' j = uncrossed e j"
  by (simp add: uncrossed_def rests_def only_book_def)

lemma maps_book_uncrossed:
  assumes mb: "maps_book k f e e'" and u: "\<forall>j. uncrossed e j"
    and f: "\<And>q r. r \<in> set (f q) \<Longrightarrow> \<exists>r0\<in>set q. price r = price r0 \<and> user_id r = user_id r0"
  shows "uncrossed e' j"
proof (cases "j = k")
  case False
  then show ?thesis using mb u uncrossed_other by (auto simp: maps_book_def)
next
  case True
  have r: "\<exists>r0. rests e k sd r0 \<and> price r = price r0 \<and> user_id r = user_id r0" if "rests e' k sd r" "sd \<in> {BUY, SELL}" for sd r
    using that mb f by (fastforce simp: maps_book_def rests_def split: option.splits)
  show ?thesis
    unfolding True uncrossed_def
  proof (intro allI impI)
    fix b a assume "rests e' k BUY b" "rests e' k SELL a" "price a \<le> price b"
    moreover obtain b0 a0 where "rests e k BUY b0" "price b = price b0" "user_id b = user_id b0"
      "rests e k SELL a0" "price a = price a0" "user_id a = user_id a0"
      using r [of BUY b] r [of SELL a] calculation by auto
    ultimately show "user_id a = user_id b" using u by (auto simp: uncrossed_def)
  qed
qed

section \<open>Every command is answered\<close>

definition good :: "engine \<Rightarrow> bool" where
  "good e \<longleftrightarrow> engine_inv e \<and> (\<forall>k. uncrossed e k)"

lemma good_view: "good e \<Longrightarrow> view e' = view e \<Longrightarrow> engine_inv e' \<Longrightarrow> good e'"
  using uncrossed_view [of e' e] by (simp add: good_def)

lemma add_outcome_good:
  assumes g: "good e" and S: "sd \<in> {BUY, SELL}" and q: "view e (unat locate) (opposite sd) = Some q"
    and own: "view e (unat locate) sd = Some own"
    and o: "add_outcome full locate ref sd pr quantity uid tif out e q own (out', e')"
  shows "good e' \<and> take (length out) out' = out"
proof -
  let ?k = "unat locate"
  obtain n' q' ts where m: "a_match (opposite sd) uid (limit_of sd tif pr) quantity q = (n', q', ts)"
    by (metis prod_cases3)
  have O: "opposite sd \<in> {BUY, SELL}" using opposite_side [OF S] by simp
  obtain G F where ok: "engine_ok e G F" using g by (auto simp: good_def engine_inv_def)
  have e': "engine_inv e'" "view e' ?k (opposite sd) = Some q'" "only_book ?k e e'"
    "view e' ?k sd = Some (if n' = 0 \<or> tif \<noteq> DAY \<or> full then own
       else a_insert sd (taker n' ts (incoming e uid ref sd pr quantity)) own)"
    and out: "take (length out) out' = out"
    using o m by (auto simp: add_outcome_def)
  have a: "apart sd own q" using g uncrossed_apart [OF S own q] by (simp add: good_def)
  have "apart sd (if n' = 0 \<or> tif \<noteq> DAY \<or> full then own
       else a_insert sd (taker n' ts (incoming e uid ref sd pr quantity)) own) q'"
  proof (cases "n' = 0 \<or> tif \<noteq> DAY \<or> full")
    case True
    then show ?thesis using a by (auto intro!: apart_sub [OF a] dest: a_match_sub [OF m])
  next
    case False
    then have m2: "a_match (opposite sd) (user_id (taker n' ts (incoming e uid ref sd pr quantity)))
        (price (taker n' ts (incoming e uid ref sd pr quantity))) quantity q = (n', q', ts)"
      using m by (simp add: limit_of_def)
    show ?thesis
      using apart_rest [OF S a view_sorted [OF ok O q] m2] False by simp
  qed
  then have "uncrossed e' ?k" using uncrossed_apart [OF S e'(4,2)] by simp
  then have "uncrossed e' j" for j using g uncrossed_other [OF e'(3), of j] by (cases "j = ?k") (auto simp: good_def)
  then show ?thesis using e'(1) out by (simp add: good_def)
qed

lemma exec_add:
  assumes g: "good e" and adm: "admissible e (Add locate ref sd pr quantity uid tif)"
  shows "\<exists>out' e'. processAdd locate ref sd pr quantity uid tif out e = Some (out', e') \<and> good e' \<and> take (length out) out' = out"
proof -
  have inv: "engine_inv e" using g by (simp add: good_def)
  show ?thesis
  proof (cases "valid_add locate ref sd pr quantity uid tif")
    case False
    then show ?thesis using processAdd_invalid_ok [OF inv False, of out] good_view [OF g] by auto
  next
    case v: True
    then have S: "sd \<in> {BUY, SELL}" by (simp add: valid_add_def)
    have O: "opposite sd \<in> {BUY, SELL}" using opposite_side [OF S] by simp
    obtain q own where q: "view e (unat locate) (opposite sd) = Some q" and own: "view e (unat locate) sd = Some own"
      using inv_view [OF inv O] inv_view [OF inv S] by metis
    obtain G F where ok: "engine_ok e G F" using inv by (auto simp: engine_inv_def)
    let ?av = "\<Sum>r\<leftarrow>takeWhile (\<lambda>r. crosses (opposite sd) (limit_of sd tif pr) (price r)) q. remaining_qty r"
    show ?thesis
    proof (cases "tif = FOK \<and> ?av < quantity")
      case True
      then show ?thesis using processAdd_fok_reject [of e locate ref sd pr quantity uid q out] inv v q good_view [OF g] by auto
    next
      case False
      then have "tif = FOK \<Longrightarrow> availableQty sd (limit_of sd tif pr)
          (the_book e (case books e (unat locate) of None \<Rightarrow> ([], []) | Some bk \<Rightarrow> bk)) = Some ?av \<and> quantity \<le> ?av"
        using availableQty_view [OF ok S q] by (auto simp: not_less)
      from processAdd_total [OF inv v _ _ this q own, of out] adm obtain full r where
        "processAdd locate ref sd pr quantity uid tif out e = Some r"
        "add_outcome full locate ref sd pr quantity uid tif out e q own r" by auto
      then show ?thesis using add_outcome_good [OF g S q own] by (cases r) auto
    qed
  qed
qed

lemma at_home_cases:
  assumes "at_home e locate ref" "unat locate < kMaxLocate"
  obtains "foreign_ref e ref uid" | sd r where "sd \<in> {BUY, SELL}" "rests e (unat locate) sd r" "order_id r = ref" "user_id r = uid"
  using assms unfolding at_home_def foreign_ref_def by metis

lemma exec_cancel:
  assumes g: "good e" and adm: "at_home e locate ref"
  shows "\<exists>out' e'. processCancel locate ref uid out e = Some (out', e') \<and> good e' \<and> take (length out) out' = out"
proof (cases "unat locate < kMaxLocate")
  case False
  then show ?thesis using g processCancel_bad_locate good_view [OF g] by (auto simp: good_def)
next
  case True
  have inv: "engine_inv e" using g by (simp add: good_def)
  from adm True show ?thesis
  proof (cases rule: at_home_cases [where uid = uid])
    case 1
    then show ?thesis
      using processCancel_reject_ok [OF inv True, of ref uid out] good_view [OF g] by (auto simp: foreign_ref_def)
  next
    case (2 sd r)
    obtain e' where e': "processCancel locate ref uid out e = Some (out @ [RSP_CANCELLED (order_id r)], e')"
      "engine_inv e'" "maps_book (unat locate) (a_remove (order_id r)) e e'"
      using processCancel_ok [OF inv True 2(1,2), of out] 2(3,4) by auto
    have "uncrossed e' j" for j
      by (rule maps_book_uncrossed [OF e'(3)]) (use g in \<open>auto simp: good_def a_remove_def\<close>)
    then show ?thesis using e' by (auto simp: good_def)
  qed
qed

lemma exec_cancel_shares:
  assumes g: "good e" and adm: "at_home e locate ref"
  shows "\<exists>out' e'. processCancelShares locate ref shares uid out e = Some (out', e') \<and> good e' \<and> take (length out) out' = out"
proof (cases "unat locate < kMaxLocate")
  case False
  then show ?thesis using g processCancelShares_reject_ok [of e locate ref uid shares out] good_view [OF g] by (auto simp: good_def)
next
  case True
  have inv: "engine_inv e" using g by (simp add: good_def)
  from adm True show ?thesis
  proof (cases rule: at_home_cases [where uid = uid])
    case 1
    then show ?thesis
      using processCancelShares_reject_ok [OF inv, of locate ref uid shares out] good_view [OF g] by auto
  next
    case (2 sd r)
    obtain e' rs where e': "processCancelShares locate ref shares uid out e = Some (out @ rs, e')" "engine_inv e'"
      "maps_book (unat locate) (if remaining_qty r \<le> shares then a_remove (order_id r)
        else a_update (order_id r) (shrink shares)) e e'"
      using processCancelShares_ok [OF inv True 2(1,2), of shares out] 2(3,4) by auto
    have "uncrossed e' j" for j
      by (rule maps_book_uncrossed [OF e'(3)])
        (use g in \<open>auto simp: good_def a_remove_def a_update_def split: if_splits\<close>)
    then show ?thesis using e' by (auto simp: good_def)
  qed
qed

lemma exec_replace:
  assumes g: "good e" and adm: "admissible e (Replace locate old_ref new_ref sd pr quantity uid)"
  shows "\<exists>out' e'. processReplace locate old_ref new_ref sd pr quantity uid out e = Some (out', e') \<and> good e' \<and>
    take (length out) out' = out"
proof (cases "unat locate < kMaxLocate")
  case False
  then show ?thesis
    using g processReplace_reject_ok [of e locate old_ref uid new_ref sd pr quantity out] good_view [OF g]
    by (auto simp: good_def)
next
  case lc: True
  have inv: "engine_inv e" using g by (simp add: good_def)
  have S: "sd \<in> {BUY, SELL}" and home: "at_home e locate old_ref" and qn: "quantity \<noteq> 0"
    and nr: "new_ref = old_ref \<or> fresh_ref e new_ref" "index_room e new_ref" using adm by auto
  have O: "opposite sd \<in> {BUY, SELL}" using opposite_side [OF S] by simp
  let ?k = "unat locate"
  from home lc show ?thesis
  proof (cases rule: at_home_cases [where uid = uid])
    case 1
    then show ?thesis
      using processReplace_reject_ok [OF inv, of locate old_ref uid new_ref sd pr quantity out] good_view [OF g] by auto
  next
    case (2 osd r)
    obtain q own where q: "view e ?k (opposite sd) = Some q" and own: "view e ?k sd = Some own"
      using inv_view [OF inv O] inv_view [OF inv S] by metis
    obtain G F where ok: "engine_ok e G F" using inv by (auto simp: engine_inv_def)
    obtain n' q' ts where m: "a_match (opposite sd) new_ref pr quantity (a_remove old_ref q) = (n', q', ts)"
      by (metis prod_cases3)
    let ?ord = "taker n' ts (incoming e new_ref new_ref sd pr quantity)"
    obtain rs e' where e': "processReplace locate old_ref new_ref sd pr quantity uid out e = Some (out @ rs, e')"
      "engine_inv e'" "view e' ?k (opposite sd) = Some q'"
      "view e' ?k sd = Some (if n' = 0 \<and> ts \<noteq> [] then a_remove old_ref own else a_insert sd ?ord (a_remove old_ref own))"
      "only_book ?k e e'"
      using processReplace_ok [OF inv lc 2(1) S 2(2) _ nr(2) q own] nr(1) m 2(3,4) by fastforce
    have a: "apart sd own q" using g uncrossed_apart [OF S own q] by (simp add: good_def)
    have a1: "apart sd (a_remove old_ref own) (a_remove old_ref q)"
      by (rule apart_sub [OF a]) (auto simp: a_remove_def)
    have srt: "sorted_wrt (\<lambda>r r'. \<not> blt (opposite sd) (price r') (price r)) (a_remove old_ref q)"
      using view_sorted [OF ok O q] by (simp add: a_remove_def sorted_wrt_filter)
    have "apart sd (if n' = 0 \<and> ts \<noteq> [] then a_remove old_ref own else a_insert sd ?ord (a_remove old_ref own)) q'"
    proof (cases "n' = 0")
      case True
      then have "ts \<noteq> []" using m qn by (auto dest: a_match_no_trades)
      then show ?thesis using True by (auto intro!: apart_sub [OF a1] dest: a_match_sub [OF m])
    next
      case False
      then show ?thesis using apart_rest [OF S a1 srt, of ?ord quantity n' q' ts] m by simp
    qed
    then have "uncrossed e' ?k" using uncrossed_apart [OF S e'(4,3)] by simp
    then have "uncrossed e' j" for j using g uncrossed_other [OF e'(5), of j] by (cases "j = ?k") (auto simp: good_def)
    then show ?thesis using e'(1,2) by (auto simp: good_def)
  qed
qed

lemma exec_good:
  assumes "good e" "admissible e cmd"
  shows "\<exists>out' e'. exec cmd out e = Some (out', e') \<and> good e' \<and> take (length out) out' = out"
  using assms exec_add exec_cancel exec_cancel_shares exec_replace by (cases cmd) (simp_all del: admissible.simps, simp_all)

lemma reach_good: "reach e \<Longrightarrow> good e"
proof (induction rule: reach.induct)
  case (start c ms e)
  then have "engine_inv e" "\<forall>k sd. view e k sd = Some []" using engine_owned_ok [of c ms] by auto
  then show ?case by (simp add: good_def uncrossed_def rests_def)
next
  case (step e cmd out out' e')
  then show ?case using exec_good [of e cmd out] by auto
qed

lemma demo_reach: "\<exists>e1. reach e1 \<and> view e1 7 SELL = Some [demo_ask] \<and> fresh_ref e1 2 \<and> index_room e1 2"
proof -
  obtain e e1 where r: "engine_owned 2 None = Some e" "processAdd 7 1 SELL 100 5 42 DAY [] e = Some ([RSP_OK 1], e1)"
    "view e1 7 SELL = Some [demo_ask]" "fresh_ref e1 2" "index_room e1 2"
    using demo_run by blast
  have e: "reach e" by (rule reach.start [OF _ _ r(1)]) simp_all
  have "admissible e (Add 7 1 SELL 100 5 42 DAY)" using engine_owned_ok [of 2 None] r(1) by auto
  from reach.step [OF e this] r show ?thesis by auto
qed





end
