(* ===== verification/Index_Wear.thy ===== *)
theory Index_Wear
  imports Engine_Reach
begin

text \<open>
  How the order index wears out (\<open>src/exchange/order_map.h\<close>). A converted bucket keeps its eight
  nodes for good, and with the free list empty \<open>insert\<close> drops the entry instead of converting the
  bucket: its guard compares the tagged list head with the untagged null index.
\<close>

text \<open>Eight order numbers of one bucket, out of eight buckets: all are entered, then all are cancelled.\<close>

definition colliding :: "u64 list" where
  "colliding = [1, 9, 17, 22, 30, 43, 51, 56]"

definition wearing :: "command list" where
  "wearing = map (\<lambda>r. Add 0 r SELL 100 5 42 DAY) colliding @ map (\<lambda>r. Cancel 0 r 42) colliding"

text \<open>
  An order can be acknowledged and rest in the book, and its owner's cancel is answered
  ORDER_NOT_FOUND. In an exchange for eight orders this happens to the next order after eight orders
  with numbers of one bucket came and went: the pool is empty again, but the index has no node left,
  so \<open>insert\<close> drops the entry and \<open>addOrder\<close> does not look at its answer.
\<close>

lemma order_lost:
  "\<exists>e0 e e1 e2. engine_owned 8 None = Some e0 \<and> exec_all wearing e0 = Some e \<and>
     pool_size (shared_pool e) = 0 \<and> view e 0 SELL = Some [] \<and> \<not> index_room e 2 \<and>
     processAdd 0 2 SELL 100 5 42 DAY [] e = Some ([RSP_OK 2], e1) \<and>
     processCancel 0 2 42 [] e1 = Some ([RSP_ERROR ORDER_NOT_FOUND], e2) \<and>
     map_option (map order_id) (view e2 0 SELL) = Some [2]"
  by (simp add: wearing_def colliding_def code_eval index_room_def om_room_def hash_of_def cong: bind_eval_cong)

end
