(* ===== verification/Recovery.thy ===== *)
theory Recovery
  imports Matching
begin

text \<open>
  Snapshots and recovery (\<open>src/exchange/order_book.cpp\<close>, \<open>matching_engine.cpp\<close>): a book written to a
  file and read back, the replay of the write-ahead log, and the recovery from a pool that has survived
  in shared memory. A snapshot file is its magic number and the orders after it; \<open>None\<close> is a file that
  cannot be opened. A short read ends the list.
\<close>

section \<open>Snapshots of a book\<close>

record snapshot_file =
  sp_magic :: u32
  sp_orders :: "order list"

definition SNAPSHOT_MAGIC :: u32 where
  [code_eval]: "SNAPSHOT_MAGIC = 0x4E4253"

text \<open>The orders of one level as they lie in the pool, from the head on.\<close>

partial_function (option) save_level :: "ex_pool \<Rightarrow> u32 \<Rightarrow> order list option" where
  [code, code_eval]: "save_level p idx =
     (if idx = UINT32_MAX then Some []
      else do {
        o' \<leftarrow> pool_at p idx;
        rest \<leftarrow> save_level p (next_idx o');
        Some (o' # rest)
      })"

fun save_levels :: "ex_pool \<Rightarrow> levels \<Rightarrow> order list option" where
  "save_levels p [] = Some []"
| "save_levels p ((pr, level) # ls) = do {
     xs \<leftarrow> save_level p (head_idx level);
     ys \<leftarrow> save_levels p ls;
     Some (xs @ ys)
   }"

declare save_levels.simps [code_eval]

text \<open>The highest order number is the result; a file that cannot be created gives 0.\<close>

definition book_save :: "bool \<Rightarrow> order_book \<Rightarrow> (u64 \<times> snapshot_file option) option" where
  [code_eval]: "book_save can_open b =
     (if \<not> can_open then Some (0, None)
      else do {
        xs \<leftarrow> save_levels (ob_pool b) (bids b);
        ys \<leftarrow> save_levels (ob_pool b) (asks b);
        let max_id = fold (\<lambda>o' m. if order_id o' > m then order_id o' else m) (xs @ ys) 0;
        Some (max_id, Some \<lparr>sp_magic = SNAPSHOT_MAGIC, sp_orders = xs @ ys\<rparr>)
      })"

text \<open>One order of the file: links reset, the two maxima raised, the order added if it fits.\<close>

definition load_order :: "order \<Rightarrow> (u64 \<times> u64) \<times> order_book \<Rightarrow> ((u64 \<times> u64) \<times> order_book) option" where
  [code_eval]: "load_order o0 st =
     (case st of ((max_seq, max_id), b) \<Rightarrow>
        (let o' = o0\<lparr>prev_idx := UINT32_MAX, next_idx := UINT32_MAX, pool_next_free := UINT32_MAX\<rparr>;
             max_seq' = (if sequence o' > max_seq then sequence o' else max_seq);
             max_id' = (if order_id o' > max_id then order_id o' else max_id) in do {
           (added, b1) \<leftarrow> addOrder o' b;
           Some ((max_seq', max_id'), b1)
         }))"

definition book_load :: "snapshot_file option \<Rightarrow> (u64 \<times> u64) \<times> order_book \<Rightarrow> ((u64 \<times> u64) \<times> order_book) option" where
  [code_eval]: "book_load file st =
     (case file of
        None \<Rightarrow> Some st
      | Some f \<Rightarrow> if sp_magic f \<noteq> SNAPSHOT_MAGIC then Some st else foldo load_order (sp_orders f) st)"

section \<open>Snapshots of the engine\<close>

text \<open>Only the book of locate 0 is written; without one no file is made.\<close>

definition saveSnapshot :: "bool \<Rightarrow> engine \<Rightarrow> snapshot_file option option" where
  [code_eval]: "saveSnapshot can_open e =
     (case books e 0 of
        None \<Rightarrow> Some None
      | Some bk \<Rightarrow> map_option snd (book_save can_open (the_book e bk)))"

definition loadSnapshot :: "snapshot_file option \<Rightarrow> engine \<Rightarrow> engine option" where
  [code_eval]: "loadSnapshot file e0 =
     (case book_for 0 e0 of
        (None, e) \<Rightarrow> None
      | (Some b, e) \<Rightarrow> do {
          ((max_seq, max_id), b1) \<leftarrow> book_load file ((0, 0), b);
          let e1 = put_book 0 b1 e;
          let e2 = (if max_seq > 0 then e1\<lparr>next_sequence := max_seq + 1\<rparr> else e1);
          let e3 = (if max_id > 0 then e2\<lparr>next_order_id := max_id + 1\<rparr> else e2);
          Some (note_usage e3)
        })"

section \<open>Recovery from the log\<close>

text \<open>The two counters after an entry.\<close>

definition raise_counters :: "wal_entry \<Rightarrow> engine \<Rightarrow> engine" where
  [code_eval]: "raise_counters en e =
     (let e1 = (if we_seq en \<ge> next_sequence e then e\<lparr>next_sequence := we_seq en + 1\<rparr> else e) in
      if we_order_id en \<ge> next_order_id e1 then e1\<lparr>next_order_id := we_order_id en + 1\<rparr> else e1)"

text \<open>A logged order: matched again, whatever its kind was, and its rest added.\<close>

definition replay_new :: "u64 \<Rightarrow> wal_entry \<Rightarrow> order_book \<Rightarrow> engine \<Rightarrow> engine option" where
  [code_eval]: "replay_new locate en book e =
     (let ord = default_order\<lparr>user_id := we_user_id en, order_id := we_order_id en,
            side := (if we_side en = 1 then BUY else SELL), price := we_price en, original_qty := we_quantity en,
            remaining_qty := we_quantity en, sequence := we_seq en, status := OPEN\<rparr> in do {
        (book', ord', tmp, e1) \<leftarrow> run_match locate book ord [] e;
        if status ord' = OPEN \<or> status ord' = PARTIALLY_FILLED then do {
          (added, b1) \<leftarrow> addOrder ord' book';
          Some (put_book locate b1 e1)
        }
        else Some e1
      })"

definition replay_shrink :: "u64 \<Rightarrow> wal_entry \<Rightarrow> order_book \<Rightarrow> engine \<Rightarrow> engine option" where
  [code_eval]: "replay_shrink locate en book e = do {
     found \<leftarrow> findOrder (we_order_id en) book;
     case found of
       None \<Rightarrow> Some e
     | Some idx \<Rightarrow>
         if we_quantity en > 0 then do {
           o' \<leftarrow> pool_at (ob_pool book) idx;
           b1 \<leftarrow> (if we_quantity en \<ge> remaining_qty o' then removeOrderPtr idx book
                  else do {
                    p \<leftarrow> pool_put idx (\<lambda>s. s\<lparr>remaining_qty := remaining_qty s - we_quantity en\<rparr>) (ob_pool book);
                    reduceOrderQty idx (we_quantity en) (book\<lparr>ob_pool := p\<rparr>)
                  });
           Some (put_book locate b1 e)
         }
         else Some e
   }"

definition replay_replace :: "u64 \<Rightarrow> wal_entry \<Rightarrow> order_book \<Rightarrow> engine \<Rightarrow> engine option" where
  [code_eval]: "replay_replace locate en book e = do {
     found \<leftarrow> findOrder (we_order_id en) book;
     case found of
       None \<Rightarrow> Some e
     | Some idx \<Rightarrow> do {
         o' \<leftarrow> pool_at (ob_pool book) idx;
         if user_id o' = we_user_id en then do {
           b1 \<leftarrow> removeOrderPtr idx book;
           Some (put_book locate b1 e)
         }
         else Some e
       }
   }"

definition replay_entry :: "wal_entry \<Rightarrow> engine \<Rightarrow> engine option" where
  [code_eval]: "replay_entry en e0 =
     (let locate = ucast (we_locate en) in
      case book_for locate e0 of
        (None, e) \<Rightarrow> Some e
      | (Some book, e) \<Rightarrow>
          if we_type en = 1 then do {
            found \<leftarrow> findOrder (we_order_id en) book;
            if found \<noteq> None then Some e
            else do { e1 \<leftarrow> replay_new locate en book e; Some (raise_counters en e1) }
          }
          else if we_type en = 2 then do {
            (removed, b1) \<leftarrow> removeOrder (we_order_id en) (we_user_id en) book;
            Some (raise_counters en (put_book locate b1 e))
          }
          else if we_type en = 3 then do { e1 \<leftarrow> replay_shrink locate en book e; Some (raise_counters en e1) }
          else if we_type en = 4 then do { e1 \<leftarrow> replay_replace locate en book e; Some (raise_counters en e1) }
          else Some (raise_counters en e))"

definition recoverFromWal :: "bool \<Rightarrow> wal_file option \<Rightarrow> engine \<Rightarrow> engine option" where
  [code_eval]: "recoverFromWal mmap_ok file e =
     (case wal_open mmap_ok file of
        None \<Rightarrow> Some e
      | Some r \<Rightarrow> do {
          e1 \<leftarrow> foldo (\<lambda>i e. case entryAt r i of None \<Rightarrow> Some e | Some en \<Rightarrow> replay_entry en e)
            [0..<min (rd_count r) WAL_ENTRIES] e;
          Some (note_usage e1)
        })"

section \<open>Recovery from shared memory\<close>

text \<open>
  The storage is that of the engine's own pool: a slot handed out by the rebuilt free list is never
  behind the scan, so every slot is read before it can be overwritten.
\<close>

definition recover_slot :: "nat \<Rightarrow> engine \<Rightarrow> engine option" where
  [code_eval]: "recover_slot i e = do {
     o' \<leftarrow> pool_at (shared_pool e) (of_nat i);
     if order_id o' = 0 \<or> status o' = FILLED \<or> status o' = CANCELLED then Some e
     else case book_for 0 e of
       (None, e1) \<Rightarrow> None
     | (Some book, e1) \<Rightarrow> do {
         (added, b1) \<leftarrow> addOrder (o'\<lparr>prev_idx := UINT32_MAX, next_idx := UINT32_MAX\<rparr>) book;
         let e2 = put_book 0 b1 e1;
         o2 \<leftarrow> pool_at (shared_pool e2) (of_nat i);
         let e3 = (if order_id o2 \<ge> next_order_id e2 then e2\<lparr>next_order_id := order_id o2 + 1\<rparr> else e2);
         Some (if sequence o2 \<ge> next_sequence e3 then e3\<lparr>next_sequence := sequence o2 + 1\<rparr> else e3)
       }
   }"

definition recoverFromShared :: "engine \<Rightarrow> engine option" where
  [code_eval]: "recoverFromShared e0 = do {
     p \<leftarrow> pool_rebuild_freelist (shared_pool e0);
     case book_for 0 (e0\<lparr>shared_pool := p\<rparr>) of
       (None, e) \<Rightarrow> None
     | (Some b, e) \<Rightarrow> do {
         e1 \<leftarrow> foldo recover_slot [0..<pool_capacity (shared_pool e)] e;
         Some (note_usage e1)
       }
   }"

section \<open>Checkpoints\<close>

text \<open>
  \<open>checkpointIfNeeded\<close>: \<open>base\<close> is the shared memory behind \<open>book_base_\<close>, \<open>None\<close> for a null pointer. The
  result is the file the forked child writes, \<open>None\<close> when it writes none; the parent goes on as it was.
\<close>

definition checkpointIfNeeded :: "bool \<Rightarrow> 'byte list ptr \<Rightarrow> engine \<Rightarrow> ('byte list \<times> nat) option" where
  [code_eval]: "checkpointIfNeeded can_open base e =
     (case (wal e, base) of
        (Some w, Some bytes) \<Rightarrow>
          if bytes = [] then None
          else if \<not> needCheckpoint w then None
          else if can_open then Some (bytes, curPosition w) else None
      | _ \<Rightarrow> None)"

text \<open>The position it records is always 0: a checkpoint is due exactly when the ring has just been filled.\<close>

lemma checkpoint_position: "checkpointIfNeeded can_open base e = Some (bytes, pos) \<Longrightarrow> pos = 0"
  by (auto simp: checkpointIfNeeded_def needCheckpoint_def curPosition_def split: option.splits if_splits)

end
