(* ===== verification/Snapshot.thy ===== *)
theory Snapshot
  imports Recovery Exchange_Claims
begin

text \<open>
  A snapshot read back gives the book that was written: the walks of \<open>saveSnapshot\<close> list both sides in
  priority order, and adding orders in that order rebuilds each queue.
\<close>

section \<open>Writing\<close>

lemma save_level_eq:
  "chain (nxt (storage p)) i xs \<Longrightarrow> \<forall>j\<in>set xs. unat j < length (storage p) \<Longrightarrow>
   save_level p i = Some (map (\<lambda>j. storage p ! unat j) xs)"
proof (induction xs arbitrary: i)
  case (Cons x xs)
  then show ?case by (subst save_level.simps) (auto simp: nxt_def)
qed (simp add: save_level.simps)

lemma save_levels_eq:
  "\<forall>(q, l)\<in>set m. level_ok (storage p) sd q l (g q) \<Longrightarrow>
   save_levels p m = Some (map (\<lambda>j. storage p ! unat j) (queue_of m g))"
proof (induction m)
  case (Cons e m)
  obtain q l where e: "e = (q, l)" by (cases e)
  then have l: "level_ok (storage p) sd q l (g q)" using Cons.prems by auto
  then have "save_level p (head_idx l) = Some (map (\<lambda>j. storage p ! unat j) (g q))"
    by (intro save_level_eq level_chain) (auto simp: level_ok_def)
  then show ?case using Cons e by auto
qed simp

lemma save_side:
  assumes "book_ok b g F Oth" "sd \<in> {BUY, SELL}"
  shows "\<exists>xs. save_levels (ob_pool b) (lv sd b) = Some xs \<and> map strip xs = orders sd b g"
proof -
  have "save_levels (ob_pool b) (lv sd b) = Some (map (\<lambda>j. slots b ! unat j) (qslots sd b g))"
    unfolding qslots_def by (rule save_levels_eq [where sd = sd]) (use side_levels [OF book_side [OF assms]] in auto)
  moreover have "map strip (map (\<lambda>j. slots b ! unat j) (qslots sd b g)) = orders sd b g"
    by (simp add: orders_def body_def)
  ultimately show ?thesis by blast
qed

lemma book_save_ok:
  assumes "book_ok b g F Oth"
  shows "\<exists>f m xs ys. book_save True b = Some (m, Some f) \<and> sp_magic f = SNAPSHOT_MAGIC \<and> sp_orders f = xs @ ys \<and>
    map strip xs = orders BUY b g \<and> map strip ys = orders SELL b g"
proof -
  obtain xs ys where "save_levels (ob_pool b) (lv BUY b) = Some xs" "map strip xs = orders BUY b g"
    "save_levels (ob_pool b) (lv SELL b) = Some ys" "map strip ys = orders SELL b g"
    using save_side [OF assms, of BUY] save_side [OF assms, of SELL] by auto
  then show ?thesis by (simp add: book_save_def lv_def Let_def) blast
qed

section \<open>Reading\<close>

lemma addOrder_index:
  "addOrder ord b = Some (True, b') \<Longrightarrow> \<exists>i r. om_insert (order_id ord) (Some i) (ob_index b) = Some (r, ob_index b')"
  by (auto simp: addOrder_def set_level_fields Let_def split: bind_split_asm if_splits option.splits prod.splits)
    blast+

text \<open>Orders that arrive in the order of their queue are appended.\<close>

lemma a_insert_last:
  assumes "\<forall>r \<in> set q. \<not> blt sd (price ord) (price r)"
  shows "a_insert sd ord q = q @ [strip ord]"
  using assms by (simp add: a_insert_def takeWhile_eq_all_conv [THEN iffD2] dropWhile_eq_Nil_conv [THEN iffD2])

lemma fold_a_insert:
  assumes "sorted_wrt (\<lambda>r r'. \<not> blt sd (price r') (price r)) (qs @ rs)"
  shows "fold (a_insert sd) rs (map strip qs) = map strip (qs @ rs)"
  using assms
proof (induction rs arbitrary: qs)
  case (Cons r rs)
  have "\<forall>x \<in> set (map strip qs). \<not> blt sd (price r) (price x)"
    using Cons.prems by (auto simp: sorted_wrt_append)
  then have "a_insert sd r (map strip qs) = map strip (qs @ [r])" by (simp add: a_insert_last)
  then show ?case using Cons.IH [of "qs @ [r]"] Cons.prems by simp
qed simp

lemma load_order_step:
  assumes ok: "book_ok b g (i # F) {}" and sd: "side r \<in> {BUY, SELL}" and sp: "om_spare (Suc n) (ob_index b)"
    and fresh: "order_id r \<notin> (\<lambda>j. order_id (body (slots b) j)) ` live g"
  shows "\<exists>b' g'. load_order r (mm, b) = Some ((max (fst mm) (sequence r), max (snd mm) (order_id r)), b') \<and>
    book_ok b' g' F {} \<and> om_spare n (ob_index b') \<and> length (slots b') = length (slots b) \<and>
    (\<lambda>j. order_id (body (slots b') j)) ` live g' = insert (order_id r) ((\<lambda>j. order_id (body (slots b) j)) ` live g) \<and>
    (\<forall>sd \<in> {BUY, SELL}. orders sd b' g' = (if sd = side r then a_insert sd r (orders sd b g) else orders sd b g))"
proof -
  let ?o = "r\<lparr>prev_idx := UINT32_MAX, next_idx := UINT32_MAX, pool_next_free := UINT32_MAX\<rparr>"
  let ?g = "ghost_add (side r) (price r) i g"
  obtain b' where b': "addOrder ?o b = Some (True, b')" "book_ok b' ?g F {}"
    "body (slots b') = (body (slots b))(i := strip r)" "length (slots b') = length (slots b)"
    using addOrder_ok [OF ok, of ?o] sd fresh om_spare_room [OF sp] by (auto simp: agree_def)
  obtain k rr where k: "om_insert (order_id r) (Some k) (ob_index b) = Some (rr, ob_index b')"
    using addOrder_index [OF b'(1)] by auto
  have ix: "order_map.indexes (ob_index b) (live g) (\<lambda>j. order_id (body (slots b) j))" using ok by (simp add: book_ok_def)
  have il: "i \<notin> live g" using ok by (auto simp: book_ok_def)
  have "orders (side r) b' ?g = a_insert (side r) r (orders (side r) b g)"
    using orders_add [OF ok sd refl b'(2) il b'(3)] .
  moreover have "orders sd' b' ?g = orders sd' b g" if "sd' \<in> {BUY, SELL}" "sd' \<noteq> side r" for sd'
  proof (rule orders_other [OF ok b'(2) that(1)])
    show "?g sd' = g sd'" using that(2) by (simp add: ghost_add_def)
    show "body (slots b') j = body (slots b) j" if "j \<in> slots_of (g sd')" for j
      using that il live_sides [OF \<open>sd' \<in> {BUY, SELL}\<close>, of g] b'(3) by auto
  qed
  moreover have "om_spare n (ob_index b')" by (rule counted_map.indexes_ins_spare [OF ix fresh sp k])
  moreover have "(\<lambda>j. order_id (body (slots b') j)) ` live ?g = insert (order_id r) ((\<lambda>j. order_id (body (slots b) j)) ` live g)"
  proof -
    have "live ?g = insert i (live g)" using live_add [OF sd] by simp
    then show ?thesis using b'(3) il by (auto simp: image_iff)
  qed
  moreover have "load_order r (mm, b) = Some ((max (fst mm) (sequence r), max (snd mm) (order_id r)), b')"
    using b'(1) by (cases mm) (auto simp: load_order_def Let_def max_def)
  ultimately show ?thesis using b'(2,4) by (intro exI [of _ b'] exI [of _ ?g]) auto
qed

lemma load_orders_ok:
  assumes "book_ok b g F {}" "length rs \<le> length F" "\<forall>r \<in> set rs. side r \<in> {BUY, SELL}" "om_spare (length rs) (ob_index b)"
    and "distinct (map order_id rs)" "order_id ` set rs \<inter> (\<lambda>j. order_id (body (slots b) j)) ` live g = {}"
  shows "\<exists>mm' b' g' F'. foldo load_order rs (mm, b) = Some (mm', b') \<and> book_ok b' g' F' {} \<and> length (slots b') = length (slots b) \<and>
    (\<forall>sd \<in> {BUY, SELL}. orders sd b' g' = fold (a_insert sd) (filter (\<lambda>r. side r = sd) rs) (orders sd b g)) \<and>
    fst mm \<le> fst mm' \<and> snd mm \<le> snd mm' \<and> (\<forall>r \<in> set rs. sequence r \<le> fst mm' \<and> order_id r \<le> snd mm') \<and>
    fst mm' \<in> insert (fst mm) (sequence ` set rs) \<and> snd mm' \<in> insert (snd mm) (order_id ` set rs)"
  using assms
proof (induction rs arbitrary: mm b g F)
  case Nil
  then show ?case by auto
next
  case (Cons r rs)
  obtain i F1 where F: "F = i # F1" using Cons.prems(2) by (cases F) auto
  obtain b1 g1 where s: "load_order r (mm, b) = Some ((max (fst mm) (sequence r), max (snd mm) (order_id r)), b1)"
    "book_ok b1 g1 F1 {}" "om_spare (length rs) (ob_index b1)" "length (slots b1) = length (slots b)"
    "(\<lambda>j. order_id (body (slots b1) j)) ` live g1 = insert (order_id r) ((\<lambda>j. order_id (body (slots b) j)) ` live g)"
    "\<forall>sd \<in> {BUY, SELL}. orders sd b1 g1 = (if sd = side r then a_insert sd r (orders sd b g) else orders sd b g)"
    using load_order_step [of b g i F1 r "length rs" mm] Cons.prems F by auto
  let ?mm = "(max (fst mm) (sequence r), max (snd mm) (order_id r))"
  have d: "order_id ` set rs \<inter> (\<lambda>j. order_id (body (slots b1) j)) ` live g1 = {}"
    unfolding s(5) using Cons.prems(5,6) by auto
  obtain mm' b' g' F' where r: "foldo load_order rs (?mm, b1) = Some (mm', b')" "book_ok b' g' F' {}" "length (slots b') = length (slots b1)"
    "\<forall>sd \<in> {BUY, SELL}. orders sd b' g' = fold (a_insert sd) (filter (\<lambda>r. side r = sd) rs) (orders sd b1 g1)"
    "fst ?mm \<le> fst mm'" "snd ?mm \<le> snd mm'" "\<forall>r \<in> set rs. sequence r \<le> fst mm' \<and> order_id r \<le> snd mm'"
    "fst mm' \<in> insert (fst ?mm) (sequence ` set rs)" "snd mm' \<in> insert (snd ?mm) (order_id ` set rs)"
    using Cons.IH [of b1 g1 F1 ?mm, OF s(2) _ _ s(3) _ d] Cons.prems F by auto
  have "\<forall>sd \<in> {BUY, SELL}. orders sd b' g' = fold (a_insert sd) (filter (\<lambda>r. side r = sd) (r # rs)) (orders sd b g)"
    using r(4) s(6) by auto
  moreover have "foldo load_order (r # rs) (mm, b) = Some (mm', b')" using s(1) r(1) by simp
  moreover have "fst mm \<le> fst mm'" "sequence r \<le> fst mm'" "snd mm \<le> snd mm'" "order_id r \<le> snd mm'" using r(5,6) by auto
  moreover have "fst mm' \<in> insert (fst mm) (sequence ` set (r # rs))" "snd mm' \<in> insert (snd mm) (order_id ` set (r # rs))"
    using r(8,9) by (auto simp: max_def split: if_splits)
  ultimately show ?case using r(2,3,7) s(4) by (intro exI [of _ mm'] exI [of _ b'] exI [of _ g'] exI [of _ F']) auto
qed

section \<open>There and back\<close>

lemma saved_orders:
  assumes ok: "book_ok b g F Oth" and xs: "map strip xs = orders BUY b g" and ys: "map strip ys = orders SELL b g"
  shows "distinct (map order_id (xs @ ys))" "filter (\<lambda>r. side r = BUY) (xs @ ys) = xs"
    "filter (\<lambda>r. side r = SELL) (xs @ ys) = ys" "\<forall>r \<in> set (xs @ ys). side r \<in> {BUY, SELL}"
proof -
  have st: "set (orders BUY b g) = strip ` set xs" "set (orders SELL b g) = strip ` set ys"
    unfolding xs [symmetric] ys [symmetric] by simp_all
  have sd: "side r = BUY" if "r \<in> set xs" for r
    using orders_side [OF ok, of BUY "strip r"] that st(1) by simp
  have sd': "side r = SELL" if "r \<in> set ys" for r
    using orders_side [OF ok, of SELL "strip r"] that st(2) by simp
  have ids: "map order_id xs = map order_id (orders BUY b g)" "map order_id ys = map order_id (orders SELL b g)"
    unfolding xs [symmetric] ys [symmetric] by simp_all
  have ne: "order_id (body (slots b) i) \<noteq> order_id (body (slots b) j)"
    if "i \<in> set (qslots BUY b g)" "j \<in> set (qslots SELL b g)" for i j
  proof
    assume "order_id (body (slots b) i) = order_id (body (slots b) j)"
    then have "i = j" using book_inj [OF ok, of i j] qslots_live [OF ok, of BUY i] qslots_live [OF ok, of SELL j] that by simp
    moreover have "side (body (slots b) i) = BUY" "side (body (slots b) j) = SELL"
      using that by (auto intro!: orders_side [OF ok] simp: orders_def)
    ultimately show False by simp
  qed
  have "set (map order_id (orders BUY b g)) \<inter> set (map order_id (orders SELL b g)) = {}"
    unfolding orders_def using ne by fastforce
  then show "distinct (map order_id (xs @ ys))"
    using orders_ids [OF ok, of BUY] orders_ids [OF ok, of SELL] by (simp add: ids)
  have f: "filter (\<lambda>r. side r = BUY) xs = xs" "filter (\<lambda>r. side r = SELL) ys = ys"
    using sd sd' by (simp_all add: filter_id_conv)
  have n: "filter (\<lambda>r. side r = SELL) xs = []" "filter (\<lambda>r. side r = BUY) ys = []"
    using sd sd' by (simp_all add: filter_empty_conv)
  show "filter (\<lambda>r. side r = BUY) (xs @ ys) = xs" by (simp add: f n)
  show "filter (\<lambda>r. side r = SELL) (xs @ ys) = ys" by (simp add: f n)
  show "\<forall>r \<in> set (xs @ ys). side r \<in> {BUY, SELL}" using sd sd' by (simp add: ball_Un)
qed

lemma saved_sorted:
  assumes "book_ok b g F Oth" "sd \<in> {BUY, SELL}" "map strip xs = orders sd b g"
  shows "fold (a_insert sd) xs [] = orders sd b g"
proof -
  have "sorted_wrt (\<lambda>r r'. \<not> blt sd (price r') (price r)) xs"
    using orders_sorted [OF assms(1,2)] by (simp add: sorted_wrt_map flip: assms(3))
  then show ?thesis using fold_a_insert [of sd "[]" xs] assms(3) by simp
qed

text \<open>A counter raised above the largest number of a list, unless that is the largest number there is.\<close>

lemma below_next:
  fixes m x :: u64
  assumes "x \<le> m" "m \<noteq> - 1"
  shows "x < (if m > 0 then m + 1 else 1)"
proof (cases "m > 0")
  case True
  then show ?thesis using assms(1) word_less_Suc [OF assms(2)] by (simp add: le_less_trans)
next
  case False
  then show ?thesis using assms(1) by (simp add: word_gt_0)
qed

text \<open>Loading a list of orders into a new engine.\<close>

lemma load_new:
  assumes "engine_owned c ms = Some e0" "2 \<le> c" "c \<le> 2 ^ 31" "length rs \<le> c"
    and "\<forall>r \<in> set rs. side r \<in> {BUY, SELL}" "distinct (map order_id rs)"
    and small: "\<forall>r \<in> set rs. sequence r \<noteq> - 1 \<and> order_id r \<noteq> - 1"
    and rd: "\<And>st. book_load f st = foldo load_order rs st"
  shows "\<exists>e1. loadSnapshot f e0 = Some e1 \<and> engine_inv e1 \<and>
    (\<forall>sd \<in> {BUY, SELL}. view e1 0 sd = Some (fold (a_insert sd) (filter (\<lambda>r. side r = sd) rs) [])) \<and>
    (\<forall>r \<in> set rs. sequence r < next_sequence e1 \<and> order_id r < next_order_id e1)"
proof -
  let ?G = "\<lambda>_. no_ghost"
  have e0: "engine_ok e0 ?G (map of_nat [0..<c])" "books e0 = (\<lambda>_. None)" "om_spare c (shared_index e0)"
    "next_sequence e0 = 1" "next_order_id e0 = 1"
    using engine_owned_start [OF assms(2,3), of ms] assms(1) by auto
  have k: "unat (0 :: u64) < kMaxLocate" by (simp add: kMaxLocate_def)
  obtain b e where e: "book_for 0 e0 = (Some b, e)" "engine_ok e ?G (map of_nat [0..<c])" "b = the_book e ([], [])"
    "books e 0 = Some ([], [])" "book_ok b no_ghost (map of_nat [0..<c]) (others ?G 0)" "e = e0\<lparr>books := (books e0)(0 \<mapsto> ([], []))\<rparr>"
    by (rule book_for_ok [OF e0(1) k]) (simp add: e0(2))
  have oth: "others ?G 0 = {}" by (simp add: others_def)
  have sp: "om_spare (length rs) (ob_index b)"
    using e0(3) assms(4) unfolding om_spare_def by (auto simp: e(3,6) dest: le_trans)
  have emp: "live no_ghost = {}" by simp
  obtain mm' b' g' F' where l: "foldo load_order rs ((0, 0), b) = Some (mm', b')" "book_ok b' g' F' {}" "length (slots b') = length (slots b)"
    "\<forall>sd \<in> {BUY, SELL}. orders sd b' g' = fold (a_insert sd) (filter (\<lambda>r. side r = sd) rs) (orders sd b no_ghost)"
    "\<forall>r \<in> set rs. sequence r \<le> fst mm' \<and> order_id r \<le> snd mm'"
    "fst mm' \<in> insert 0 (sequence ` set rs)" "snd mm' \<in> insert 0 (order_id ` set rs)"
    using load_orders_ok [OF e(5)[unfolded oth], of rs "(0, 0)"] assms(4-6) sp by (auto simp: emp)
  have oe: "orders sd b no_ghost = []" if "sd \<in> {BUY, SELL}" for sd
    using that by (simp add: orders_def qslots_def queue_of_def no_ghost_def)
  let ?e1 = "put_book 0 b' e"
  have ok1: "engine_ok ?e1 (?G(unat (0 :: u64) := g')) F'"
    by (rule engine_put_book [OF e(2)]) (use e(4) l(2,3) in \<open>simp_all add: oth agree_def e(3)\<close>)
  have v1: "view ?e1 0 sd = Some (orders sd b' g')" if "sd \<in> {BUY, SELL}" for sd
    using view_put_same [OF e(2), of b' g' F' 0 sd] l(2) that oth by simp
  define e2 where "e2 = (if fst mm' > 0 then ?e1\<lparr>next_sequence := fst mm' + 1\<rparr> else ?e1)"
  define e3 where "e3 = note_usage (if snd mm' > 0 then e2\<lparr>next_order_id := snd mm' + 1\<rparr> else e2)"
  have run: "loadSnapshot f e0 = Some e3"
    using e(1) l(1) by (cases mm') (simp add: loadSnapshot_def rd e3_def e2_def Let_def)
  have "engine_inv e3" using engine_invI [OF ok1] by (simp add: e3_def e2_def)
  moreover have "view e3 0 sd = view ?e1 0 sd" for sd by (simp add: e3_def e2_def)
  moreover have "next_sequence e3 = (if fst mm' > 0 then fst mm' + 1 else 1)" "next_order_id e3 = (if snd mm' > 0 then snd mm' + 1 else 1)"
    using e0(4,5) by (simp_all add: e3_def e2_def e(6) put_book_def)
  moreover have "fst mm' \<noteq> - 1" "snd mm' \<noteq> - 1" using l(6,7) small by auto
  then have "\<forall>r \<in> set rs. sequence r < (if fst mm' > 0 then fst mm' + 1 else 1) \<and> order_id r < (if snd mm' > 0 then snd mm' + 1 else 1)"
    using l(5) below_next by blast
  ultimately show ?thesis
    using run l(4) v1 oe by (intro exI [of _ e3]) simp
qed

text \<open>What the saved engine holds at locate 0, as a list to load.\<close>

lemma saved_engine:
  assumes "engine_inv e" "view e 0 BUY = Some bs" "view e 0 SELL = Some as"
  shows "\<exists>f rs. saveSnapshot True e = Some f \<and> (\<forall>st. book_load f st = foldo load_order rs st) \<and>
    map strip rs = bs @ as \<and> distinct (map order_id rs) \<and> (\<forall>r \<in> set rs. side r \<in> {BUY, SELL}) \<and>
    fold (a_insert BUY) (filter (\<lambda>r. side r = BUY) rs) [] = bs \<and>
    fold (a_insert SELL) (filter (\<lambda>r. side r = SELL) rs) [] = as"
proof (cases "books e 0")
  case None
  then show ?thesis
    using assms(2,3) by (intro exI [of _ None] exI [of _ "[]"]) (simp add: saveSnapshot_def view_def book_load_def)
next
  case (Some bk)
  obtain G F where ok: "engine_ok e G F" using assms(1) by (auto simp: engine_inv_def)
  note b = engine_book [OF ok Some]
  have v: "orders BUY (the_book e bk) (G 0) = bs" "orders SELL (the_book e bk) (G 0) = as"
    using view_book [OF ok Some] assms(2,3) by simp_all
  obtain m f xs ys where s: "book_save True (the_book e bk) = Some (m, Some f)" "sp_magic f = SNAPSHOT_MAGIC"
    "sp_orders f = xs @ ys" "map strip xs = bs" "map strip ys = as"
    using book_save_ok [OF b] unfolding v by blast
  note o = saved_orders [OF b, unfolded v, OF s(4,5)]
  have "fold (a_insert BUY) xs [] = bs" "fold (a_insert SELL) ys [] = as"
    using saved_sorted [OF b, of BUY xs] saved_sorted [OF b, of SELL ys] v s(4,5) by simp_all
  moreover have "\<forall>st. book_load (Some f) st = foldo load_order (xs @ ys) st" using s(2,3) by (simp add: book_load_def)
  moreover have "saveSnapshot True e = Some (Some f)" using s(1) Some by (simp add: saveSnapshot_def)
  moreover have "map strip (xs @ ys) = bs @ as" using s(4,5) by simp
  ultimately show ?thesis using o by (intro exI [of _ "Some f"] exI [of _ "xs @ ys"]) simp
qed

text \<open>
  C18: A snapshot of the book at locate 0, loaded into a new engine whose pool is large enough,
  gives the same two queues, every order with its priority, and counters above every order number
  and sequence number of the file, so the next order gets fresh ones. The pool indices are new: only
  the order of the file carries the priority.
\<close>

theorem snapshot_round_trip:
  assumes "engine_inv e" "view e 0 BUY = Some bs" "view e 0 SELL = Some as"
    and "engine_owned c ms = Some e0" "2 \<le> c" "c \<le> 2 ^ 31" "length bs + length as \<le> c"
    and "\<forall>r \<in> set (bs @ as). sequence r \<noteq> - 1 \<and> order_id r \<noteq> - 1"
  shows "\<exists>f e1. saveSnapshot True e = Some f \<and> loadSnapshot f e0 = Some e1 \<and> engine_inv e1 \<and>
    view e1 0 BUY = Some bs \<and> view e1 0 SELL = Some as \<and>
    (\<forall>r \<in> set (bs @ as). sequence r < next_sequence e1 \<and> order_id r < next_order_id e1)"
proof -
  obtain f rs where s: "saveSnapshot True e = Some f" "\<And>st. book_load f st = foldo load_order rs st"
    "map strip rs = bs @ as" "distinct (map order_id rs)" "\<forall>r \<in> set rs. side r \<in> {BUY, SELL}"
    "fold (a_insert BUY) (filter (\<lambda>r. side r = BUY) rs) [] = bs"
    "fold (a_insert SELL) (filter (\<lambda>r. side r = SELL) rs) [] = as"
    using saved_engine [OF assms(1-3)] by blast
  have len: "length rs \<le> c" using arg_cong [OF s(3), of length] assms(7) by simp
  have st: "set (bs @ as) = strip ` set rs" unfolding s(3) [symmetric] by simp
  have small: "\<forall>r \<in> set rs. sequence r \<noteq> - 1 \<and> order_id r \<noteq> - 1" using assms(8) unfolding st by simp
  show ?thesis using load_new [OF assms(4-6) len s(5,4) small s(2)] s(1,6,7) unfolding st by auto
qed

lemma demo_zero:
  "\<exists>e e1. engine_owned 2 None = Some e \<and> processAdd 0 1 SELL 100 5 42 DAY [] e = Some ([RSP_OK 1], e1) \<and>
     view e1 0 SELL = Some [demo_ask] \<and> view e1 0 BUY = Some []"
  by (simp add: code_eval om_room_def hash_of_def cong: bind_eval_cong)

lemma snapshot_round_trip_witness:
  "\<exists>e f e0 e1. view e 0 SELL = Some [demo_ask] \<and> saveSnapshot True e = Some f \<and> engine_owned 2 None = Some e0 \<and>
     loadSnapshot f e0 = Some e1 \<and> view e1 0 SELL = Some [demo_ask] \<and> view e1 0 BUY = Some [] \<and> 1 < next_order_id e1"
proof -
  obtain e e1 where r: "engine_owned 2 None = Some e" "processAdd 0 1 SELL 100 5 42 DAY [] e = Some ([RSP_OK 1], e1)"
    "view e1 0 SELL = Some [demo_ask]" "view e1 0 BUY = Some []"
    using demo_zero by blast
  have e: "engine_inv e" "view e 0 SELL = Some []" "view e 0 BUY = Some []" "fresh_ref e 1" "index_room e 1"
    "pool_size (shared_pool e) = 0" "pool_capacity (shared_pool e) = 2"
    using engine_owned_ok [of 2 None] r(1) by auto
  have "valid_add 0 1 SELL 100 5 42 DAY" by (simp add: valid_add_def kMaxLocate_def)
  from processAdd_ok [OF e(1) this e(4,5), of 0 "[]" "[]" "[]"] e r(2)
  have "engine_inv e1" by (simp add: add_outcome_def opposite_def)
  then show ?thesis
    using snapshot_round_trip [OF _ r(4,3,1)] r(1,3) by (force simp: demo_ask_def)
qed

end
