(* ===== verification/Log_Recovery.thy ===== *)
theory Log_Recovery
  imports Snapshot Engine_Reach
begin

text \<open>
  Recovery from the log leads back to the books of a session of day orders and cancels. The engine
  that ran the session and the one that replays its log take the same steps; their orders differ in
  the sequence number only, since the log holds the number after the order's own.
\<close>

section \<open>Orders up to their sequence number\<close>

definition unseq :: "order \<Rightarrow> order" where
  "unseq r = r\<lparr>sequence := 0\<rparr>"

lemma unseq_fields [simp]:
  "order_id (unseq r) = order_id r" "user_id (unseq r) = user_id r" "side (unseq r) = side r" "price (unseq r) = price r"
  "remaining_qty (unseq r) = remaining_qty r" "filled_qty (unseq r) = filled_qty r" "status (unseq r) = status r"
  "foreign ex (unseq r) = foreign ex r"
  by (simp_all add: unseq_def foreign_def)

lemma unseq_mark [simp]: "unseq (mark st (fill n r)) = mark st (fill n (unseq r))"
  by (simp add: unseq_def mark_def fill_def)

lemma unseq_strip: "unseq (strip r) = strip (unseq r)"
  by (simp add: unseq_def strip_def)

lemma a_match_unseq:
  "a_match sd ex p n q = (n', q', ts) \<Longrightarrow>
   a_match sd ex p n (map unseq q) = (n', map unseq q', map (\<lambda>t. (unseq (fst t), snd t)) ts)"
  by (induction sd ex p n q arbitrary: n' q' ts rule: a_match.induct)
    (auto simp: Let_def split: if_splits prod.splits)

lemma a_insert_unseq: "map unseq (a_insert sd ord q) = a_insert sd (unseq ord) (map unseq q)"
  by (simp add: a_insert_def takeWhile_map dropWhile_map comp_def unseq_strip)

lemma a_remove_unseq: "map unseq (a_remove oid q) = a_remove oid (map unseq q)"
  by (simp add: a_remove_def filter_map comp_def)

lemma taker_unseq: "unseq (taker n ts ord) = taker n (map f ts) (unseq ord)"
  by (simp add: taker_def unseq_def)

text \<open>Two queues that differ in sequence numbers only give the same match.\<close>

lemma a_match_alike:
  assumes "map unseq q = map unseq q2" "a_match sd ex p n q = (n', q', ts)"
  shows "\<exists>q2' ts2. a_match sd ex p n q2 = (n', q2', ts2) \<and> map unseq q' = map unseq q2' \<and> (ts = [] \<longleftrightarrow> ts2 = [])"
proof -
  obtain n2 q2' ts2 where m: "a_match sd ex p n q2 = (n2, q2', ts2)" by (metis prod_cases3)
  show ?thesis using a_match_unseq [OF assms(2)] a_match_unseq [OF m] assms(1) m by (auto dest: map_eq_imp_length_eq)
qed

definition alike :: "engine \<Rightarrow> engine \<Rightarrow> bool" where
  "alike e e' \<longleftrightarrow> (\<forall>k. \<forall>sd\<in>{BUY, SELL}. map_option (map unseq) (view e k sd) = map_option (map unseq) (view e' k sd))"

lemma alike_view:
  assumes "alike e e'" "sd \<in> {BUY, SELL}" "view e k sd = Some q"
  shows "\<exists>q2. view e' k sd = Some q2 \<and> map unseq q = map unseq q2"
  using assms unfolding alike_def by (metis map_option_eq_Some option.simps(9))

section \<open>Room\<close>

text \<open>An engine with room for \<open>n\<close> more orders, in the pool and in the index.\<close>

definition able :: "nat \<Rightarrow> engine \<Rightarrow> bool" where
  "able n e \<longleftrightarrow> (\<exists>G F. engine_ok e G F \<and> n \<le> length F \<and> om_spare n (shared_index e))"

lemma able_inv: "able n e \<Longrightarrow> engine_inv e"
  by (auto simp: able_def engine_inv_def)

lemma able_mono: "able n e \<Longrightarrow> m \<le> n \<Longrightarrow> able m e"
  unfolding able_def om_spare_def by (meson le_trans)

lemma able_room: "able (Suc n) e \<Longrightarrow> index_room e k"
  using om_spare_room by (auto simp: able_def index_room_def)

lemma able_cong:
  "shared_pool e' = shared_pool e \<Longrightarrow> shared_index e' = shared_index e \<Longrightarrow> books e' = books e \<Longrightarrow> able n e' = able n e"
  using engine_ok_cong [of e' e] by (simp add: able_def)

lemma able_book_for:
  assumes "able n e" "unat locate < kMaxLocate"
  obtains e2 bk where "book_for locate e = (Some (the_book e2 bk), e2)" "able n e2" "books e2 (unat locate) = Some bk"
    "view e2 = view e" "shared_pool e2 = shared_pool e" "shared_index e2 = shared_index e"
    "next_sequence e2 = next_sequence e" "next_order_id e2 = next_order_id e" "wal e2 = wal e"
proof -
  obtain G F where ok: "engine_ok e G F" "n \<le> length F" "om_spare n (shared_index e)" using assms(1) by (auto simp: able_def)
  obtain b e2 bk where bf: "book_for locate e = (Some b, e2)" "engine_ok e2 G F" "b = the_book e2 bk"
    "books e2 (unat locate) = Some bk" "e2 = e\<lparr>books := (books e)(unat locate \<mapsto> bk)\<rparr>"
    "bk = (case books e (unat locate) of None \<Rightarrow> ([], []) | Some bk \<Rightarrow> bk)"
    using book_for_ok [OF ok(1) assms(2)] by blast
  have "able n e2" using bf(2,5) ok(2,3) by (auto simp: able_def)
  then show ?thesis using that [of e2 bk] bf view_book_for [OF bf(5,6)] by simp
qed

text \<open>A number is in use exactly when an order with it rests somewhere.\<close>

lemma fresh_views:
  assumes "engine_inv e"
  shows "fresh_ref e k \<longleftrightarrow> (\<forall>l. \<forall>sd\<in>{BUY, SELL}. \<forall>r. rests e l sd r \<longrightarrow> order_id r \<noteq> k)"
proof -
  obtain G F where ok: "engine_ok e G F" using assms by (auto simp: engine_inv_def)
  show ?thesis
  proof
    assume f: "fresh_ref e k"
    show "\<forall>l. \<forall>sd\<in>{BUY, SELL}. \<forall>r. rests e l sd r \<longrightarrow> order_id r \<noteq> k"
    proof (intro allI ballI impI)
      fix l sd r
      assume "sd \<in> {BUY, SELL}" "rests e l sd r"
      then obtain x bk where "om_find (shared_index e) (order_id r) = Some (Some x)" by (rule rests_slot [OF ok])
      then show "order_id r \<noteq> k" using f by (auto simp: fresh_ref_def)
    qed
  next
    assume no: "\<forall>l. \<forall>sd\<in>{BUY, SELL}. \<forall>r. rests e l sd r \<longrightarrow> order_id r \<noteq> k"
    have "k \<noteq> order_id (body (storage (shared_pool e)) i)" if i: "i \<in> live (G j)" for i j
    proof -
      have "books e j \<noteq> None" using ok i unfolding engine_ok_def by (metis empty_iff live_no_ghost)
      then obtain bk where bk: "books e j = Some bk" by blast
      note b = engine_book [OF ok bk]
      obtain sd where sd: "sd \<in> {BUY, SELL}" "i \<in> slots_of (G j sd)"
        using i live_sides [of BUY "G j"] by (auto simp: opposite_def)
      have "body (storage (shared_pool e)) i \<in> set (orders sd (the_book e bk) (G j))"
        using set_qslots [OF b sd(1)] sd(2) by (auto simp: orders_def)
      then have "rests e j sd (body (storage (shared_pool e)) i)"
        using view_book [OF ok bk sd(1)] by (simp add: rests_def)
      then show ?thesis using no sd(1) by blast
    qed
    then show "fresh_ref e k" unfolding fresh_ref_iff [OF ok] by auto
  qed
qed

lemma alike_rests:
  assumes "alike e e'" "sd \<in> {BUY, SELL}" "rests e k sd r"
  shows "\<exists>r'. rests e' k sd r' \<and> order_id r' = order_id r \<and> user_id r' = user_id r"
proof -
  obtain q where q: "view e k sd = Some q" "r \<in> set q" using assms(3) by (auto simp: rests_def split: option.splits)
  obtain q2 where q2: "view e' k sd = Some q2" "map unseq q = map unseq q2" using alike_view [OF assms(1,2) q(1)] by blast
  have "unseq r \<in> unseq ` set q2" using arg_cong [OF q2(2), of set] q(2) by auto
  then obtain r' where "r' \<in> set q2" "unseq r' = unseq r" by auto
  then show ?thesis using q2(1) by (intro exI [of _ r']) (auto simp: rests_def dest: arg_cong [of _ _ order_id] arg_cong [of _ _ user_id])
qed

lemma alike_sym: "alike e e' \<Longrightarrow> alike e' e"
  by (auto simp: alike_def)

lemma alike_fresh:
  assumes "alike e e'" "engine_inv e" "engine_inv e'"
  shows "fresh_ref e' k = fresh_ref e k"
  using alike_rests [OF assms(1)] alike_rests [OF alike_sym [OF assms(1)]]
  unfolding fresh_views [OF assms(2)] fresh_views [OF assms(3)] by metis

section \<open>The steps\<close>

text \<open>A day order: matched, and its rest entered.\<close>

lemma day_order:
  assumes a: "able (Suc n) e" and bk: "books e (unat locate) = Some bk" and S: "side ord \<in> {BUY, SELL}"
    and fresh: "fresh_ref e (order_id ord)"
    and q: "view e (unat locate) (opposite (side ord)) = Some q" and own: "view e (unat locate) (side ord) = Some own"
    and m: "a_match (opposite (side ord)) (user_id ord) (price ord) (remaining_qty ord) q = (n', q', ts)"
  shows "\<exists>e5 bk5 out' e6. run_match locate (the_book e bk) ord out e = Some (the_book e5 bk5, taker n' ts ord, out', e5) \<and>
    (if n' = 0 then e6 = e5 else \<exists>b'. addOrder (taker n' ts ord) (the_book e5 bk5) = Some (True, b') \<and> e6 = put_book locate b' e5) \<and>
    able n e6 \<and> view e6 (unat locate) (opposite (side ord)) = Some q' \<and>
    view e6 (unat locate) (side ord) = Some (if n' = 0 then own else a_insert (side ord) (taker n' ts ord) own) \<and>
    only_book (unat locate) e e6 \<and> wal e6 = wal e \<and> out' = out @ map (trade_rsp locate (opposite (side ord))) ts"
proof -
  obtain G F where ok: "engine_ok e G F" "Suc n \<le> length F" "om_spare (Suc n) (shared_index e)" using a by (auto simp: able_def)
  obtain e5 G5 P bk5 where r: "run_match locate (the_book e bk) ord out e =
      Some (the_book e5 bk5, taker n' ts ord, out @ map (trade_rsp locate (opposite (side ord))) ts, e5)"
    and ok5: "engine_ok e5 G5 (P @ F)" "books e5 (unat locate) = Some bk5"
    and v: "view e5 (unat locate) (opposite (side ord)) = Some q'" "view e5 (unat locate) (side ord) = Some own"
      "only_book (unat locate) e e5"
    and f: "fresh_ref e5 (order_id ord)" and sp: "om_spare (Suc n) (shared_index e5)" and w: "wal e5 = wal e"
    using run_match_ok [OF ok(1) bk S q m, of out] fresh own ok(3) by auto
  let ?out = "out @ map (trade_rsp locate (opposite (side ord))) ts"
  show ?thesis
  proof (cases "n' = 0")
    case True
    have "able (Suc n) e5" unfolding able_def using ok5(1) ok(2) sp by (intro exI [of _ G5] exI [of _ "P @ F"]) simp
    then have "able n e5" by (rule able_mono) simp
    then show ?thesis
      by (intro exI [of _ e5] exI [of _ bk5] exI [of _ ?out]) (use r v w True in simp)
  next
    case False
    have "Suc n \<le> length (P @ F)" using ok(2) by simp
    then obtain i F' where F: "P @ F = i # F'" "n \<le> length F'" by (cases "P @ F") simp_all
    let ?o = "taker n' ts ord"
    have room: "index_room e5 (order_id ord)" using om_spare_room [OF sp] by (simp add: index_room_def)
    obtain e7 G7 where e7: "rest_order locate (the_book e5 bk5) ?o out e5 = Some (out @ [RSP_OK (order_id ord)], e7)"
      "engine_ok e7 G7 F'" "view e7 (unat locate) (side ord) = Some (a_insert (side ord) ?o own)"
      "view e7 (unat locate) (opposite (side ord)) = Some q'" "only_book (unat locate) e5 e7" "wal e7 = wal e5"
      using rest_order_ok [OF ok5(1) [unfolded F(1)] ok5(2), of ?o own out] S f room v(1,2) by auto
    then obtain b' where b': "addOrder ?o (the_book e5 bk5) = Some (True, b')" "e7 = note_usage (put_book locate b' e5)"
      by (auto simp: rest_order_def Let_def split: bind_split_asm if_splits)
    let ?e6 = "put_book locate b' e5"
    have "om_spare n (ob_index b')"
    proof -
      obtain k rr where "om_insert (order_id ?o) (Some k) (ob_index (the_book e5 bk5)) = Some (rr, ob_index b')"
        using addOrder_index [OF b'(1)] by blast
      then show ?thesis using om_insert_spare [OF sp, of "order_id ord" "Some k"] f by (auto simp: fresh_ref_def)
    qed
    then have "able n ?e6" unfolding able_def using e7(2) F(2) b'(2) by (intro exI [of _ G7] exI [of _ F']) (simp add: put_book_def)
    moreover have v6: "view ?e6 (unat locate) (side ord) = Some (a_insert (side ord) ?o own)"
      "view ?e6 (unat locate) (opposite (side ord)) = Some q'" "only_book (unat locate) e5 ?e6" "wal ?e6 = wal e5"
      using e7(3-6) by (simp_all add: b'(2) only_book_def)
    moreover have "only_book (unat locate) e ?e6" by (rule only_book_trans [OF v(3) v6(3)])
    ultimately show ?thesis
      by (intro exI [of _ e5] exI [of _ bk5] exI [of _ ?out] exI [of _ ?e6]) (use r b'(1) False w in simp)
  qed
qed

lemma cancel_hit:
  assumes a: "able n e" and bk: "books e (unat locate) = Some bk" and S: "sd \<in> {BUY, SELL}" and r: "rests e (unat locate) sd r"
  shows "\<exists>b'. removeOrder (order_id r) (user_id r) (the_book e bk) = Some (True, b') \<and> able n (put_book locate b' e) \<and>
    maps_book (unat locate) (a_remove (order_id r)) e (put_book locate b' e)"
proof -
  obtain G F where ok: "engine_ok e G F" "n \<le> length F" "om_spare n (shared_index e)" using a by (auto simp: able_def)
  obtain x bk' where x: "x \<in> live (G (unat locate))" "body (storage (shared_pool e)) x = r"
    "unat x < length (storage (shared_pool e))" "om_find (shared_index e) (order_id r) = Some (Some x)"
    by (rule rests_slot [OF ok(1) S r])
  obtain b' G' where b': "removeOrderPtr x (the_book e bk) = Some b'" "engine_ok (put_book locate b' e) G' (x # F)"
    "maps_book (unat locate) (a_remove (order_id r)) e (put_book locate b' e)"
    "om_spare n (shared_index (put_book locate b' e))"
    using engine_remove [OF ok(1) bk x(1)] x(2) ok(3) by auto
  have "removeOrder (order_id r) (user_id r) (the_book e bk) = Some (True, b')"
    using x(2-4) b'(1) by (simp add: removeOrder_def body_field)
  moreover have "able n (put_book locate b' e)"
    unfolding able_def using b'(2,4) ok(2) by (intro exI [of _ G'] exI [of _ "x # F"]) simp
  ultimately show ?thesis using b'(3) by blast
qed

lemma cancel_miss:
  assumes "engine_inv e" "foreign_ref e ref uid"
  shows "removeOrder ref uid (the_book e bk) = Some (False, the_book e bk)"
proof -
  obtain G F where ok: "engine_ok e G F" using assms(1) by (auto simp: engine_inv_def)
  show ?thesis using foreign_ref_slot [OF ok assms(2) refl refl] by (auto simp: removeOrder_def)
qed

section \<open>The log\<close>

text \<open>The log of an engine holds exactly the entries \<open>es\<close>; the rest of the ring is zero.\<close>

definition new_log :: wal_writer where
  [code_eval]: "new_log = \<lparr>wal_base = \<lambda>_. zero_entry, wal_total = 0\<rparr>"

definition holds :: "wal_entry list \<Rightarrow> wal_writer" where
  "holds es = \<lparr>wal_base = (\<lambda>i. if i < length es then es ! i else zero_entry), wal_total = of_nat (length es)\<rparr>"

lemma holds_nil: "holds [] = new_log"
  by (simp add: holds_def new_log_def)

lemma holds_append:
  assumes "length es < WAL_ENTRIES"
  shows "wal_append en (holds es) = holds (es @ [en])"
proof -
  have "unat (of_nat (length es) :: u64) = length es" using assms WAL_ENTRIES_pos(2) by (intro of_nat_inverse) simp_all
  then show ?thesis using assms by (auto simp: holds_def wal_append_def Let_def fun_eq_iff nth_append)
qed

section \<open>Replaying a command\<close>

lemma raise_same [simp]:
  "view (raise_counters en e) = view e" "able n (raise_counters en e) = able n e"
  using able_cong [of "raise_counters en e" e] view_cong [of "raise_counters en e" e]
  by (simp_all add: raise_counters_def Let_def)

lemma locate_back: "unat (locate :: u64) < kMaxLocate \<Longrightarrow> ucast (ucast locate :: u16) = locate"
proof -
  assume "unat locate < kMaxLocate"
  then have "unat (take_bit 16 locate) = unat locate" unfolding unsigned_take_bit_eq by (intro take_bit_nat_eq_self) (simp add: kMaxLocate_def)
  then have "take_bit 16 locate = locate" by (rule word_unat_eq_iff [THEN iffD2])
  then show ?thesis by (intro word_unat_eq_iff [THEN iffD2]) (simp add: unsigned_ucast_eq)
qed

definition add_entry :: "u64 \<Rightarrow> u64 \<Rightarrow> side \<Rightarrow> u32 \<Rightarrow> u32 \<Rightarrow> u64 \<Rightarrow> u64 \<Rightarrow> wal_entry" where
  "add_entry locate ref sd pr quantity uid sq = \<lparr>we_type = 1, we_side = (if sd = BUY then 1 else 2), we_locate = ucast locate,
     we_price = pr, we_quantity = quantity, we_user_id = uid, we_order_id = ref, we_seq = sq\<rparr>"

definition cancel_entry :: "u64 \<Rightarrow> u64 \<Rightarrow> u64 \<Rightarrow> u64 \<Rightarrow> wal_entry" where
  "cancel_entry locate ref uid sq = \<lparr>we_type = 2, we_side = 0, we_locate = ucast locate, we_price = 0,
     we_quantity = 0, we_user_id = uid, we_order_id = ref, we_seq = sq\<rparr>"

text \<open>The engine with the log.\<close>

lemma order_logged:
  assumes a: "able (Suc n) e" and v: "valid_add locate ref sd pr quantity uid DAY" and fresh: "fresh_ref e ref"
    and q: "view e (unat locate) (opposite sd) = Some q" and own: "view e (unat locate) sd = Some own"
    and m: "a_match (opposite sd) uid pr quantity q = (n', q', ts)"
  shows "\<exists>rs e1. processAdd locate ref sd pr quantity uid DAY [] e = Some (rs, e1) \<and> able n e1 \<and>
    view e1 (unat locate) (opposite sd) = Some q' \<and>
    view e1 (unat locate) sd = Some (if n' = 0 then own else a_insert sd (taker n' ts (incoming e uid ref sd pr quantity)) own) \<and>
    only_book (unat locate) e e1 \<and> wal e1 = map_option (wal_append (add_entry locate ref sd pr quantity uid (next_sequence e + 1))) (wal e)"
proof -
  obtain G F where ok: "engine_ok e G F" "Suc n \<le> length F" "om_spare (Suc n) (shared_index e)" using a by (auto simp: able_def)
  have S: "sd \<in> {BUY, SELL}" and qn: "quantity \<noteq> 0" using v by (auto simp: valid_add_def)
  let ?o = "incoming e uid ref sd pr quantity"
  have full: "DAY = FOK \<Longrightarrow> availableQty sd (limit_of sd DAY pr)
    (the_book e (case books e (unat locate) of None \<Rightarrow> ([], []) | Some bk \<Rightarrow> bk)) = Some 0 \<and> quantity \<le> 0" by simp
  have lim: "limit_of sd DAY pr = pr" by (simp add: limit_of_def)
  obtain e4 bk where e4: "engine_ok e4 G F" "books e4 (unat locate) = Some bk" "view e4 = view e" "shared_index e4 = shared_index e"
    "wal e4 = map_option (wal_append (add_entry locate ref sd pr quantity uid (next_sequence e + 1))) (wal e)"
    and add: "processAdd locate ref sd pr quantity uid DAY [] e =
      run_match locate (the_book e4 bk) ?o [] e4 \<bind> finish_add locate ref quantity DAY"
    by (rule processAdd_valid [OF v ok(1) full, unfolded lim, folded add_entry_def])
  have a4: "able (Suc n) e4" using e4(1,4) ok(2,3) by (auto simp: able_def)
  obtain e5 bk5 out' e6 where d: "run_match locate (the_book e4 bk) ?o [] e4 = Some (the_book e5 bk5, taker n' ts ?o, out', e5)"
    "if n' = 0 then e6 = e5 else \<exists>b'. addOrder (taker n' ts ?o) (the_book e5 bk5) = Some (True, b') \<and> e6 = put_book locate b' e5"
    "able n e6" "view e6 (unat locate) (opposite sd) = Some q'"
    "view e6 (unat locate) sd = Some (if n' = 0 then own else a_insert sd (taker n' ts ?o) own)"
    "only_book (unat locate) e4 e6" "wal e6 = wal e4"
    using day_order [OF a4 e4(2), of ?o q own n' q' ts "[]"] S fresh q own m e4(3,4) by (auto simp: fresh_ref_def)
  note st = taker_status [OF m qn, of ?o, simplified]
  have "\<exists>rs. processAdd locate ref sd pr quantity uid DAY [] e = Some (rs, note_usage e6)"
    using add d(1,2) st by (cases "n' = 0") (auto simp: finish_add_def rest_order_def Let_def)
  moreover have "able n (note_usage e6)" using d(3) able_cong [of "note_usage e6" e6] by simp
  moreover have "only_book (unat locate) e (note_usage e6)" using d(6) e4(3) by (simp add: only_book_def)
  ultimately show ?thesis using d(4,5,7) e4(5) by auto
qed

text \<open>The engine that recovers.\<close>

lemma replay_add:
  assumes a: "able (Suc n) e" and v: "valid_add locate ref sd pr quantity uid DAY" and fresh: "fresh_ref e ref"
    and q: "view e (unat locate) (opposite sd) = Some q" and own: "view e (unat locate) sd = Some own"
    and m: "a_match (opposite sd) uid pr quantity q = (n', q', ts)"
  shows "\<exists>e1 ord. replay_entry (add_entry locate ref sd pr quantity uid sq) e = Some e1 \<and> able n e1 \<and>
    unseq ord = unseq (incoming e uid ref sd pr quantity) \<and>
    view e1 (unat locate) (opposite sd) = Some q' \<and>
    view e1 (unat locate) sd = Some (if n' = 0 then own else a_insert sd (taker n' ts ord) own) \<and> only_book (unat locate) e e1"
proof -
  have S: "sd \<in> {BUY, SELL}" and qn: "quantity \<noteq> 0" and lc: "unat locate < kMaxLocate" using v by (auto simp: valid_add_def)
  obtain e2 bk where e2: "book_for locate e = (Some (the_book e2 bk), e2)" "able (Suc n) e2" "books e2 (unat locate) = Some bk"
    "view e2 = view e" "shared_index e2 = shared_index e"
    by (rule able_book_for [OF a lc])
  let ?o = "default_order\<lparr>user_id := uid, order_id := ref, side := sd, price := pr, original_qty := quantity,
    remaining_qty := quantity, sequence := sq, status := OPEN\<rparr>"
  have o: "unseq ?o = unseq (incoming e uid ref sd pr quantity)" by (simp add: unseq_def incoming_def default_order_def)
  obtain e5 bk5 out' e6 where d: "run_match locate (the_book e2 bk) ?o [] e2 = Some (the_book e5 bk5, taker n' ts ?o, out', e5)"
    "if n' = 0 then e6 = e5 else \<exists>b'. addOrder (taker n' ts ?o) (the_book e5 bk5) = Some (True, b') \<and> e6 = put_book locate b' e5"
    "able n e6" "view e6 (unat locate) (opposite sd) = Some q'"
    "view e6 (unat locate) sd = Some (if n' = 0 then own else a_insert sd (taker n' ts ?o) own)"
    "only_book (unat locate) e2 e6"
    using day_order [OF e2(2,3), of ?o q own n' q' ts "[]"] S fresh q own m e2(4,5) by (auto simp: fresh_ref_def)
  have st: "status (taker n' ts ?o) = (if n' = 0 then FILLED else if ts = [] then OPEN else PARTIALLY_FILLED)"
    by (rule taker_status(1) [OF m qn]) (simp_all add: default_order_def)
  have "(if (if sd = BUY then 1 else 2 :: u8) = 1 then BUY else SELL) = sd" using S by auto
  then have "replay_new locate (add_entry locate ref sd pr quantity uid sq) (the_book e2 bk) e2 = Some e6"
    using d(1,2) st by (cases "n' = 0") (auto simp: replay_new_def add_entry_def Let_def)
  then have "replay_entry (add_entry locate ref sd pr quantity uid sq) e =
      Some (raise_counters (add_entry locate ref sd pr quantity uid sq) e6)"
    using fresh e2(1,5) locate_back [OF lc]
    by (simp add: replay_entry_def Let_def add_entry_def findOrder_def fresh_ref_def)
  then show ?thesis
    using d(3-6) o e2(4) by (intro exI [of _ "raise_counters (add_entry locate ref sd pr quantity uid sq) e6"] exI [of _ ?o])
      (simp add: only_book_def)
qed

section \<open>Cancels\<close>

text \<open>What a cancel does to the queues of its book: its order goes, or nothing happens.\<close>

definition cancels :: "engine \<Rightarrow> u64 \<Rightarrow> u64 \<Rightarrow> u64 \<Rightarrow> (order list \<Rightarrow> order list) \<Rightarrow> bool" where
  "cancels e locate ref uid f \<longleftrightarrow>
     (\<exists>sd\<in>{BUY, SELL}. \<exists>r. rests e (unat locate) sd r \<and> order_id r = ref \<and> user_id r = uid \<and> f = a_remove ref) \<or>
     foreign_ref e ref uid \<and> f = (\<lambda>q. q)"

lemma at_home_cancels:
  assumes "at_home e locate ref" "unat locate < kMaxLocate"
  obtains f where "cancels e locate ref uid f"
  using assms by (cases rule: at_home_cases [where uid = uid]) (auto simp: cancels_def)

lemma cancels_cong: "view e' = view e \<Longrightarrow> shared_index e' = shared_index e \<Longrightarrow> cancels e' = cancels e"
  using rests_cong [of e' e] by (intro ext) (simp add: cancels_def foreign_ref_def fresh_ref_def)

lemma cancels_alike:
  assumes a: "alike e e'" "engine_inv e" "engine_inv e'" and c: "cancels e locate ref uid f"
  shows "cancels e' locate ref uid f"
proof -
  have "foreign_ref e' ref uid" if "foreign_ref e ref uid"
    using that alike_rests [OF a(1)] alike_fresh [OF a] unfolding foreign_ref_def by metis
  then show ?thesis using c alike_rests [OF a(1)] unfolding cancels_def by metis
qed

lemma cancel_order:
  assumes a: "able n e" and bk: "books e (unat locate) = Some bk" and c: "cancels e locate ref uid f"
  shows "\<exists>removed b'. removeOrder ref uid (the_book e bk) = Some (removed, b') \<and> able n (put_book locate b' e) \<and>
    maps_book (unat locate) f e (put_book locate b' e)"
  using c unfolding cancels_def
proof
  assume "\<exists>sd\<in>{BUY, SELL}. \<exists>r. rests e (unat locate) sd r \<and> order_id r = ref \<and> user_id r = uid \<and> f = a_remove ref"
  then show ?thesis using cancel_hit [OF a bk] by blast
next
  assume "foreign_ref e ref uid \<and> f = (\<lambda>q. q)"
  moreover have "put_book locate (the_book e bk) e = e" using put_the_book bk by blast
  ultimately show ?thesis
    using cancel_miss [OF able_inv [OF a]] a
    by (intro exI [of _ False] exI [of _ "the_book e bk"]) (simp add: maps_book_def option.map_ident)
qed

lemma cancel_logged:
  assumes a: "able n e" and lc: "unat locate < kMaxLocate" and c: "cancels e locate ref uid f"
  shows "\<exists>rs e1. processCancel locate ref uid [] e = Some (rs, e1) \<and> able n e1 \<and> maps_book (unat locate) f e e1 \<and>
    wal e1 = map_option (wal_append (cancel_entry locate ref uid (next_sequence e))) (wal e)"
proof -
  have a1: "able n (count_cancel e)" using a able_cong [of "count_cancel e" e] by simp
  obtain e2 bk where e2: "book_for locate (count_cancel e) = (Some (the_book e2 bk), e2)" "able n e2"
    "books e2 (unat locate) = Some bk" "view e2 = view e" "shared_index e2 = shared_index e"
    "next_sequence e2 = next_sequence e" "wal e2 = wal e"
    by (rule able_book_for [OF a1 lc]) simp
  let ?w = "cancel_entry locate ref uid (next_sequence e)"
  have a3: "able n (log_wal ?w e2)" "books (log_wal ?w e2) (unat locate) = Some bk" "cancels (log_wal ?w e2) locate ref uid f"
    using e2 c able_cong [of "log_wal ?w e2" e2] cancels_cong [of "log_wal ?w e2" e] by simp_all
  obtain removed b' where b': "removeOrder ref uid (the_book e2 bk) = Some (removed, b')"
    "able n (put_book locate b' (log_wal ?w e2))" "maps_book (unat locate) f (log_wal ?w e2) (put_book locate b' (log_wal ?w e2))"
    using cancel_order [OF a3] by auto
  let ?e4 = "put_book locate b' (log_wal ?w e2)"
  have "processCancel locate ref uid [] e =
      (if removed then Some ([RSP_CANCELLED ref], ?e4) else Some ([RSP_ERROR ORDER_NOT_FOUND], count_error ?e4))"
    using e2(1,6) b'(1) by (simp add: processCancel_def cancel_entry_def Let_def)
  moreover have "able n (count_error ?e4)" using b'(2) able_cong [of "count_error ?e4" ?e4] by simp
  moreover have "maps_book (unat locate) f e ?e4" "maps_book (unat locate) f e (count_error ?e4)"
    using b'(3) e2(4) maps_book_view [of "log_wal ?w e2" e] maps_book_view' [of "count_error ?e4" ?e4] by simp_all
  moreover have "wal ?e4 = map_option (wal_append ?w) (wal e)" using e2(7) by (cases "wal e") (simp_all add: put_book_def log_wal_def)
  ultimately show ?thesis using b'(2) by (cases removed) auto
qed

lemma replay_cancel:
  assumes a: "able n e" and lc: "unat locate < kMaxLocate" and c: "cancels e locate ref uid f"
  shows "\<exists>e1. replay_entry (cancel_entry locate ref uid sq) e = Some e1 \<and> able n e1 \<and> maps_book (unat locate) f e e1"
proof -
  obtain e2 bk where e2: "book_for locate e = (Some (the_book e2 bk), e2)" "able n e2" "books e2 (unat locate) = Some bk"
    "view e2 = view e" "shared_index e2 = shared_index e"
    by (rule able_book_for [OF a lc])
  have "cancels e2 locate ref uid f" using c e2(4,5) cancels_cong by metis
  then obtain removed b' where b': "removeOrder ref uid (the_book e2 bk) = Some (removed, b')" "able n (put_book locate b' e2)"
    "maps_book (unat locate) f e2 (put_book locate b' e2)"
    using cancel_order [OF e2(2,3)] by blast
  have "replay_entry (cancel_entry locate ref uid sq) e =
      Some (raise_counters (cancel_entry locate ref uid sq) (put_book locate b' e2))"
    using e2(1) b'(1) locate_back [OF lc] by (simp add: replay_entry_def cancel_entry_def Let_def)
  then show ?thesis
    using b'(2,3) e2(4) maps_book_view [of e2 e]
      maps_book_view' [of "raise_counters (cancel_entry locate ref uid sq) (put_book locate b' e2)" "put_book locate b' e2"]
    by simp
qed

section \<open>Requests that are not logged\<close>

lemma invalid_unlogged:
  assumes a: "able n e" and bad: "\<not> valid_add locate ref sd pr quantity uid tif"
  shows "\<exists>rs e1. processAdd locate ref sd pr quantity uid tif [] e = Some (rs, e1) \<and> able n e1 \<and> view e1 = view e \<and> wal e1 = wal e"
proof (cases "unat locate < kMaxLocate")
  case False
  then have "processAdd locate ref sd pr quantity uid tif [] e = Some ([RSP_ERROR INVALID_COMMAND_TYPE], count_error (count_new e))"
    by (simp add: processAdd_def book_for_def Let_def)
  then show ?thesis using a able_cong [of "count_error (count_new e)" e] by auto
next
  case True
  have a1: "able n (count_new e)" using a able_cong [of "count_new e" e] by simp
  obtain e2 bk where e2: "book_for locate (count_new e) = (Some (the_book e2 bk), e2)" "able n e2" "view e2 = view e" "wal e2 = wal e"
    by (rule able_book_for [OF a1 True]) simp
  have "\<exists>rs. processAdd locate ref sd pr quantity uid tif [] e = Some (rs, count_error e2)"
    using bad True by (cases sd) (auto simp: processAdd_def e2(1) Let_def valid_add_def)
  then show ?thesis using e2 able_cong [of "count_error e2" e2] by auto
qed

section \<open>Sessions\<close>

text \<open>
  Day orders and full cancels, also invalid ones. Partial cancels, replacements and orders that may
  not rest are left out: recovery treats them differently, see \<open>Recovery_Gap\<close>.
\<close>

fun plain :: "command \<Rightarrow> bool" where
  "plain (Add locate ref sd pr quantity uid tif) \<longleftrightarrow> tif = DAY"
| "plain (Cancel locate ref uid) \<longleftrightarrow> True"
| "plain (CancelShares locate ref shares uid) \<longleftrightarrow> False"
| "plain (Replace locate old_ref new_ref sd pr quantity uid) \<longleftrightarrow> False"

inductive plain_session :: "engine \<Rightarrow> command list \<Rightarrow> engine \<Rightarrow> bool" for e0 where
  start: "plain_session e0 [] e0"
| step: "plain_session e0 cmds e \<Longrightarrow> plain cmd \<Longrightarrow> admissible e cmd \<Longrightarrow> exec cmd [] e = Some (rs, e') \<Longrightarrow>
    plain_session e0 (cmds @ [cmd]) e'"

lemma alike_only:
  assumes "alike e e'" "only_book k e e1" "only_book k e' e1'"
    and "\<And>sd. sd \<in> {BUY, SELL} \<Longrightarrow> map_option (map unseq) (view e1 k sd) = map_option (map unseq) (view e1' k sd)"
  shows "alike e1 e1'"
  using assms unfolding alike_def only_book_def by metis

lemma taker_alike: "unseq r = unseq r' \<Longrightarrow> (ts = [] \<longleftrightarrow> ts2 = []) \<Longrightarrow> unseq (taker n ts r) = unseq (taker n ts2 r')"
  using taker_unseq [of n ts r "\<lambda>_. undefined"] taker_unseq [of n ts2 r' "\<lambda>_. undefined"] by (simp add: taker_def)

lemma add_alike:
  assumes a: "able (Suc n) e" "able (Suc n) e'" "alike e e'" and v: "valid_add locate ref sd pr quantity uid DAY"
    and fresh: "fresh_ref e ref" and x: "processAdd locate ref sd pr quantity uid DAY [] e = Some (rs, e1)"
  shows "\<exists>sq e1'. wal e1 = map_option (wal_append (add_entry locate ref sd pr quantity uid sq)) (wal e) \<and>
    replay_entry (add_entry locate ref sd pr quantity uid sq) e' = Some e1' \<and> able n e1 \<and> able n e1' \<and> alike e1 e1'"
proof -
  have S: "sd \<in> {BUY, SELL}" using v by (auto simp: valid_add_def)
  note inv = able_inv [OF a(1)] able_inv [OF a(2)]
  note O = opposite_side [OF S, THEN conjunct1]
  obtain q own where q: "view e (unat locate) (opposite sd) = Some q" "view e (unat locate) sd = Some own"
    using inv_view [OF inv(1) S] inv_view [OF inv(1) O] by blast
  obtain q2 where q2: "view e' (unat locate) (opposite sd) = Some q2" "map unseq q = map unseq q2"
    using alike_view [OF a(3) O q(1)] by blast
  obtain own2 where own2: "view e' (unat locate) sd = Some own2" "map unseq own = map unseq own2"
    using alike_view [OF a(3) S q(2)] by blast
  obtain n' q' ts where m: "a_match (opposite sd) uid pr quantity q = (n', q', ts)" by (metis prod_cases3)
  obtain q2' ts2 where m2: "a_match (opposite sd) uid pr quantity q2 = (n', q2', ts2)" "map unseq q' = map unseq q2'" "ts = [] \<longleftrightarrow> ts2 = []"
    using a_match_alike [OF q2(2) m] by blast
  let ?en = "add_entry locate ref sd pr quantity uid (next_sequence e + 1)"
  let ?o = "incoming e uid ref sd pr quantity"
  have l: "able n e1" "view e1 (unat locate) (opposite sd) = Some q'"
    "view e1 (unat locate) sd = Some (if n' = 0 then own else a_insert sd (taker n' ts ?o) own)"
    "only_book (unat locate) e e1" "wal e1 = map_option (wal_append ?en) (wal e)"
    using order_logged [OF a(1) v fresh q m] x by simp_all
  have fresh': "fresh_ref e' ref" using alike_fresh [OF a(3) inv] fresh by simp
  obtain e1' ord where r: "replay_entry ?en e' = Some e1'" "able n e1'" "unseq ord = unseq (incoming e' uid ref sd pr quantity)"
    "view e1' (unat locate) (opposite sd) = Some q2'"
    "view e1' (unat locate) sd = Some (if n' = 0 then own2 else a_insert sd (taker n' ts2 ord) own2)"
    "only_book (unat locate) e' e1'"
    using replay_add [OF a(2) v fresh' q2(1) own2(1) m2(1), of "next_sequence e + 1"] by blast
  have o: "unseq ?o = unseq ord" unfolding r(3) by (simp add: unseq_def incoming_def)
  have tk: "unseq (taker n' ts ?o) = unseq (taker n' ts2 ord)" by (rule taker_alike [OF o m2(3)])
  have "map unseq (a_insert sd (taker n' ts ?o) own) = map unseq (a_insert sd (taker n' ts2 ord) own2)"
    unfolding a_insert_unseq own2(2) tk ..
  then have "map_option (map unseq) (view e1 (unat locate) sd') = map_option (map unseq) (view e1' (unat locate) sd')"
    if "sd' \<in> {sd, opposite sd}" for sd'
    using that l(2,3) r(4,5) m2(2) own2(2) by auto
  moreover have "{BUY, SELL} = {sd, opposite sd}" using S by (auto simp: opposite_def)
  ultimately have "alike e1 e1'" by (intro alike_only [OF a(3) l(4) r(6)]) blast
  then show ?thesis using l(1,5) r(1,2) by blast
qed

lemma cancel_alike:
  assumes a: "able n e" "able n e'" "alike e e'" and lc: "unat locate < kMaxLocate" and home: "at_home e locate ref"
    and x: "processCancel locate ref uid [] e = Some (rs, e1)"
  shows "\<exists>sq e1'. wal e1 = map_option (wal_append (cancel_entry locate ref uid sq)) (wal e) \<and>
    replay_entry (cancel_entry locate ref uid sq) e' = Some e1' \<and> able n e1 \<and> able n e1' \<and> alike e1 e1'"
proof -
  obtain f where c: "cancels e locate ref uid f" by (rule at_home_cancels [OF home lc])
  let ?en = "cancel_entry locate ref uid (next_sequence e)"
  have l: "able n e1" "maps_book (unat locate) f e e1" "wal e1 = map_option (wal_append ?en) (wal e)"
    using cancel_logged [OF a(1) lc c] x by simp_all
  obtain e1' where r: "replay_entry ?en e' = Some e1'" "able n e1'" "maps_book (unat locate) f e' e1'"
    using replay_cancel [OF a(2) lc cancels_alike [OF a(3) able_inv [OF a(1)] able_inv [OF a(2)] c]] by blast
  have f: "map unseq (f q) = f (map unseq q)" for q
    using c by (auto simp: cancels_def a_remove_unseq)
  have "alike e1 e1'"
  proof (rule alike_only [OF a(3)])
    fix sd assume sd: "sd \<in> {BUY, SELL}"
    have f': "map_option (map unseq) (map_option f v) = map_option f (map_option (map unseq) v)" for v
      by (cases v) (simp_all add: f)
    have "view e1 (unat locate) sd = map_option f (view e (unat locate) sd)" "view e1' (unat locate) sd = map_option f (view e' (unat locate) sd)"
      using l(2) r(3) sd unfolding maps_book_def by blast+
    moreover have "map_option (map unseq) (view e (unat locate) sd) = map_option (map unseq) (view e' (unat locate) sd)"
      using a(3) sd unfolding alike_def by blast
    ultimately show "map_option (map unseq) (view e1 (unat locate) sd) = map_option (map unseq) (view e1' (unat locate) sd)"
      by (simp only: f')
  qed (use l(2) r(3) in \<open>simp_all add: maps_book_def\<close>)
  then show ?thesis using l r by blast
qed

text \<open>One command: at most one entry is logged, and replaying it keeps the engines alike.\<close>

fun is_add :: "command \<Rightarrow> bool" where
  "is_add (Add locate ref sd pr quantity uid tif) \<longleftrightarrow> True"
| "is_add cmd \<longleftrightarrow> False"

definition follows :: "nat \<Rightarrow> engine \<Rightarrow> engine \<Rightarrow> engine \<Rightarrow> bool" where
  "follows n e e' e1 \<longleftrightarrow> (\<exists>ens e1'. length ens \<le> 1 \<and> wal e1 = map_option (wal_append_all ens) (wal e) \<and>
     foldo replay_entry ens e' = Some e1' \<and> able n e1 \<and> able n e1' \<and> alike e1 e1')"

lemma follows_one:
  "\<exists>sq e1'. wal e1 = map_option (wal_append (f sq)) (wal e) \<and> replay_entry (f sq) e' = Some e1' \<and> able n e1 \<and> able n e1' \<and> alike e1 e1' \<Longrightarrow>
   follows n e e' e1"
proof -
  assume "\<exists>sq e1'. wal e1 = map_option (wal_append (f sq)) (wal e) \<and> replay_entry (f sq) e' = Some e1' \<and> able n e1 \<and> able n e1' \<and> alike e1 e1'"
  then obtain sq e1' where s: "wal e1 = map_option (wal_append (f sq)) (wal e)" "replay_entry (f sq) e' = Some e1'"
    "able n e1" "able n e1'" "alike e1 e1'" by blast
  moreover have "wal_append_all [f sq] = wal_append (f sq)" by (simp add: wal_append_all_def fun_eq_iff)
  ultimately show ?thesis unfolding follows_def by (intro exI [of _ "[f sq]"] exI [of _ e1']) simp
qed

lemma follows_none:
  assumes "wal e1 = wal e" "able n e1" "able n e'" "alike e e'" "view e1 = view e"
  shows "follows n e e' e1"
proof -
  have "alike e1 e'" using assms(4,5) by (simp add: alike_def)
  moreover have "wal_append_all [] = (\<lambda>w. w)" by (simp add: wal_append_all_def fun_eq_iff)
  ultimately show ?thesis
    unfolding follows_def using assms by (intro exI [of _ "[]"] exI [of _ e']) (simp add: option.map_ident)
qed

lemma step_follows:
  assumes "plain cmd" "admissible e cmd" "exec cmd [] e = Some (rs, e1)" "alike e e'"
    and a: "able (n + (if is_add cmd then 1 else 0)) e" "able (n + (if is_add cmd then 1 else 0)) e'"
  shows "follows n e e' e1"
proof (cases cmd)
  case (Add locate ref sd pr quantity uid tif)
  then have t: "tif = DAY" "fresh_ref e ref" "able (Suc n) e" "able (Suc n) e'"
    "processAdd locate ref sd pr quantity uid DAY [] e = Some (rs, e1)"
    using assms by simp_all
  then show ?thesis
  proof (cases "valid_add locate ref sd pr quantity uid DAY")
    case True
    show ?thesis by (rule follows_one [OF add_alike [OF t(3,4) assms(4) True t(2,5)]])
  next
    case False
    note b = able_mono [OF t(3), of n] able_mono [OF t(4), of n]
    show ?thesis using invalid_unlogged [OF b(1) False] t(5) b(2) assms(4) by (intro follows_none) simp_all
  qed
next
  case (Cancel locate ref uid)
  then have t: "at_home e locate ref" "able n e" "able n e'" "processCancel locate ref uid [] e = Some (rs, e1)"
    using assms by simp_all
  show ?thesis
  proof (cases "unat locate < kMaxLocate")
    case True
    show ?thesis by (rule follows_one [OF cancel_alike [OF t(2,3) assms(4) True t(1,4)]])
  next
    case False
    then have "e1 = count_error (count_cancel e)" using t(4) processCancel_bad_locate by simp
    then show ?thesis
      using t(2,3) assms(4) able_cong [of "count_error (count_cancel e)" e] by (intro follows_none) simp_all
  qed
qed (use assms(1) in simp_all)

lemma holds_append_all: "length es + length ens \<le> WAL_ENTRIES \<Longrightarrow> wal_append_all ens (holds es) = holds (es @ ens)"
  unfolding wal_append_all_def by (induction ens arbitrary: es) (simp_all add: holds_append)

text \<open>A whole session.\<close>

lemma session_log:
  assumes "plain_session e0 cmds e" "wal e0 = Some (holds [])" "length cmds \<le> WAL_ENTRIES"
    and "able (n + length (filter is_add cmds)) e0" "able (n + length (filter is_add cmds)) e'" "alike e0 e'"
  shows "\<exists>es e1. wal e = Some (holds es) \<and> length es \<le> length cmds \<and> foldo replay_entry es e' = Some e1 \<and>
    able n e \<and> able n e1 \<and> alike e e1"
  using assms
proof (induction arbitrary: n rule: plain_session.induct)
  case start
  then show ?case by (intro exI [of _ "[]"] exI [of _ e']) simp
next
  case (step cmds e cmd rs e2)
  let ?m = "n + (if is_add cmd then 1 else 0)"
  have m: "n + length (filter is_add (cmds @ [cmd])) = ?m + length (filter is_add cmds)" by simp
  obtain es e1 where s: "wal e = Some (holds es)" "length es \<le> length cmds" "foldo replay_entry es e' = Some e1"
    "able ?m e" "able ?m e1" "alike e e1"
    using step.IH [of ?m] step.prems unfolding m by auto
  obtain ens e1' where f: "length ens \<le> 1" "wal e2 = map_option (wal_append_all ens) (wal e)"
    "foldo replay_entry ens e1 = Some e1'" "able n e2" "able n e1'" "alike e2 e1'"
    using step_follows [OF step.hyps(2-4) s(6,4,5)] unfolding follows_def by blast
  have "length es + length ens \<le> WAL_ENTRIES" using s(2) f(1) step.prems(2) by simp
  then have "wal e2 = Some (holds (es @ ens))" using f(2) s(1) by (simp add: holds_append_all)
  moreover have "foldo replay_entry (es @ ens) e' = Some e1'" using s(3) f(3) by (simp add: foldo_append)
  ultimately show ?case using s(2) f by (intro exI [of _ "es @ ens"] exI [of _ e1']) simp
qed

section \<open>Recovery\<close>

text \<open>The zero records behind the log are replayed as well; they change nothing.\<close>

lemma replay_zero_same:
  assumes "able n e"
  shows "\<exists>e1. replay_entry zero_entry e = Some e1 \<and> able n e1 \<and> view e1 = view e"
proof -
  obtain e2 bk where e2: "book_for 0 e = (Some (the_book e2 bk), e2)" "able n e2" "view e2 = view e"
    by (rule able_book_for [OF assms, of 0]) (simp add: kMaxLocate_def)
  then show ?thesis by (intro exI [of _ "raise_counters zero_entry e2"]) (simp add: replay_entry_def zero_entry_def)
qed

lemma recover_split:
  assumes base: "wal_base w = wal_base (holds es)" and len: "length es \<le> WAL_ENTRIES" and run: "foldo replay_entry es e0 = Some e1"
  shows "recoverFromWal True (Some (wal_close w \<lparr>file_bytes = WAL_SIZE, file_entries = f\<rparr>)) e0 =
    map_option note_usage (foldo (\<lambda>_. replay_entry zero_entry) [length es..<WAL_ENTRIES] e1)"
proof -
  let ?r = "\<lparr>rd_base = wal_base (holds es), rd_count = WAL_ENTRIES\<rparr>"
  let ?f = "\<lambda>i e. case entryAt ?r i of None \<Rightarrow> Some e | Some en \<Rightarrow> replay_entry en e"
  have r: "wal_open True (Some (wal_close w \<lparr>file_bytes = WAL_SIZE, file_entries = f\<rparr>)) = Some ?r"
    by (simp add: wal_open_def wal_close_def base WAL_ENTRIES_def WAL_SIZE_def)
  have "foldo ?f is e = foldo replay_entry (map ((!) es) is) e" if "\<forall>i\<in>set is. i < length es" for "is" e
    using that len by (induction "is" arbitrary: e) (auto simp: entryAt_def holds_def intro!: Option.bind_cong [OF refl])
  from this [of "[0..<length es]"] have pre: "foldo ?f [0..<length es] e0 = Some e1" using run by (simp add: map_nth)
  have post: "foldo ?f is e = foldo (\<lambda>_. replay_entry zero_entry) is e" if "\<forall>i\<in>set is. length es \<le> i \<and> i < WAL_ENTRIES" for "is" e
    using that by (induction "is" arbitrary: e) (auto simp: entryAt_def holds_def intro!: Option.bind_cong [OF refl])
  have "[0..<WAL_ENTRIES] = [0..<length es] @ [length es..<WAL_ENTRIES]"
    using len by (metis upt_add_eq_append le_add_diff_inverse zero_le)
  then have "foldo ?f [0..<WAL_ENTRIES] e0 = foldo (\<lambda>_. replay_entry zero_entry) [length es..<WAL_ENTRIES] e1"
    using pre post [of "[length es..<WAL_ENTRIES]" e1] by (simp add: foldo_append)
  then show ?thesis
    by (cases "foldo (\<lambda>_. replay_entry zero_entry) [length es..<WAL_ENTRIES] e1") (simp_all add: recoverFromWal_def r)
qed

lemma recover_holds:
  assumes len: "length es \<le> WAL_ENTRIES" and run: "foldo replay_entry es e0 = Some e1" and a: "able n e1"
  shows "\<exists>e2. recoverFromWal True (Some (wal_close (holds es) \<lparr>file_bytes = WAL_SIZE, file_entries = f\<rparr>)) e0 = Some e2 \<and>
    able n e2 \<and> view e2 = view e1"
proof -
  have "\<exists>e2. foldo (\<lambda>_. replay_entry zero_entry) [length es..<WAL_ENTRIES] e1 = Some e2 \<and> able n e2 \<and> view e2 = view e1"
  proof (rule foldo_returns)
    fix e assume "able n e \<and> view e = view e1"
    then show "\<exists>e2. replay_entry zero_entry e = Some e2 \<and> able n e2 \<and> view e2 = view e1" using replay_zero_same [of n e] by auto
  qed (use a in simp)
  then obtain e2 where "foldo (\<lambda>_. replay_entry zero_entry) [length es..<WAL_ENTRIES] e1 = Some e2" "able n e2" "view e2 = view e1" by blast
  then show ?thesis
    using recover_split [OF refl len run, of f] able_cong [of "note_usage e2" e2] by (intro exI [of _ "note_usage e2"]) simp
qed

text \<open>
  C19: The log leads back to the books. A session of day orders and full cancels, valid or not, that
  fits the pool and the log, run on a new engine with a new log; after a crash a new engine of the same
  size recovers from the file. Then recovery returns, the engine is well formed, and every book has
  the same orders with the same quantities in the same priority; only sequence numbers may differ.
\<close>

theorem log_recovers:
  assumes "engine_owned c ms = Some e0" "2 \<le> c" "c \<le> 2 ^ 31"
    and "wal_init True \<lparr>file_bytes = 0, file_entries = \<lambda>_. zero_entry\<rparr> = Some (w0, f)"
    and "plain_session (e0\<lparr>wal := Some w0\<rparr>) cmds e"
    and "length (filter is_add cmds) \<le> c" "length cmds \<le> WAL_ENTRIES"
  shows "\<exists>w e1. wal e = Some w \<and> recoverFromWal True (Some (wal_close w f)) e0 = Some e1 \<and> engine_inv e1 \<and>
    (\<forall>k. \<forall>sd\<in>{BUY, SELL}. map_option (map unseq) (view e1 k sd) = map_option (map unseq) (view e k sd))"
proof -
  have w0: "w0 = holds []" "f = \<lparr>file_bytes = WAL_SIZE, file_entries = \<lambda>_. zero_entry\<rparr>"
    using assms(4) by (simp_all add: wal_init_def holds_nil new_log_def)
  have "engine_ok e0 (\<lambda>_. no_ghost) (map of_nat [0..<c])" "om_spare c (shared_index e0)"
    using engine_owned_start [OF assms(2,3), of ms] assms(1) by auto
  then have "able c e0" unfolding able_def by (intro exI [of _ "\<lambda>_. no_ghost"] exI [of _ "map of_nat [0..<c]"]) simp
  then have a: "able (length (filter is_add cmds)) e0" by (rule able_mono) (rule assms(6))
  let ?e = "e0\<lparr>wal := Some w0\<rparr>"
  have b: "able (length (filter is_add cmds)) ?e" "alike ?e e0"
    using a able_cong [of ?e e0] view_cong [of ?e e0] by (simp_all add: alike_def)
  obtain es e1 where s: "wal e = Some (holds es)" "length es \<le> length cmds" "foldo replay_entry es e0 = Some e1"
    "able 0 e1" "alike e e1"
    using session_log [OF assms(5) _ assms(7), of 0 e0] a b w0(1) by auto
  have len: "length es \<le> WAL_ENTRIES" using s(2) assms(7) by simp
  obtain e2 where e2: "recoverFromWal True (Some (wal_close (holds es) f)) e0 = Some e2" "able 0 e2" "view e2 = view e1"
    using recover_holds [OF len s(3,4)] unfolding w0(2) by blast
  have "alike e e2" using s(5) e2(3) by (simp add: alike_def)
  then show ?thesis using s(1) e2(1) able_inv [OF e2(2)]
    by (intro exI [of _ "holds es"] exI [of _ e2]) (simp add: alike_def)
qed

text \<open>A session of three: an ask, a bid that takes part of it, and a cancel by another user.\<close>

definition demo_session :: "command list" where
  "demo_session = [Add 7 1 SELL 100 5 42 DAY, Add 7 2 BUY 101 2 43 DAY, Cancel 7 1 43]"

lemma demo_session_run:
  "\<exists>e0 e1 e2 e3. engine_owned 2 None = Some e0 \<and> exec (Add 7 1 SELL 100 5 42 DAY) [] (e0\<lparr>wal := Some new_log\<rparr>) = Some ([RSP_OK 1], e1) \<and>
     exec (Add 7 2 BUY 101 2 43 DAY) [] e1 = Some ([RSP_TRADE 7 1 SIDE_SELL 100 2, RSP_FILLED 2], e2) \<and>
     exec (Cancel 7 1 43) [] e2 = Some ([RSP_ERROR ORDER_NOT_FOUND], e3) \<and> fresh_ref e1 2 \<and> index_room e1 2 \<and>
     map_option (map order_id) (view e2 7 SELL) = Some [1] \<and>
     map_option (map remaining_qty) (view e3 7 SELL) = Some [3]"
  by (simp add: code_eval om_room_def hash_of_def cong: bind_eval_cong)

lemma demo_session_log:
  "\<exists>e0 e. engine_owned 2 None = Some e0 \<and> plain_session (e0\<lparr>wal := Some new_log\<rparr>) demo_session e \<and>
     map_option (map remaining_qty) (view e 7 SELL) = Some [3]"
proof -
  obtain e0 e1 e2 e3 where r: "engine_owned 2 None = Some e0"
    "exec (Add 7 1 SELL 100 5 42 DAY) [] (e0\<lparr>wal := Some new_log\<rparr>) = Some ([RSP_OK 1], e1)"
    "exec (Add 7 2 BUY 101 2 43 DAY) [] e1 = Some ([RSP_TRADE 7 1 SIDE_SELL 100 2, RSP_FILLED 2], e2)"
    "exec (Cancel 7 1 43) [] e2 = Some ([RSP_ERROR ORDER_NOT_FOUND], e3)" "fresh_ref e1 2" "index_room e1 2"
    "map_option (map order_id) (view e2 7 SELL) = Some [1]"
    "map_option (map remaining_qty) (view e3 7 SELL) = Some [3]"
    using demo_session_run by (elim exE conjE) (rule that)
  let ?e = "e0\<lparr>wal := Some new_log\<rparr>"
  have "fresh_ref e0 1" "index_room e0 1" using engine_owned_ok [of 2 None] r(1) by auto
  then have a: "admissible ?e (Add 7 1 SELL 100 5 42 DAY)" by (simp add: fresh_ref_def index_room_def)
  have b: "admissible e1 (Add 7 2 BUY 101 2 43 DAY)" using r(5,6) by simp
  obtain q where q: "view e2 7 SELL = Some q" "map order_id q = [1]" using r(7) by auto
  then have "\<exists>x. rests e2 7 SELL x \<and> order_id x = 1" by (auto simp: rests_def)
  then have c: "admissible e2 (Cancel 7 1 43)" by (auto simp: at_home_def)
  note s1 = plain_session.step [OF plain_session.start _ a r(2)]
  note s2 = plain_session.step [OF s1 _ b r(3)]
  have "plain_session ?e demo_session e3"
    using plain_session.step [OF s2 _ c r(4)] by (simp add: demo_session_def)
  then show ?thesis by (intro exI [of _ e0] exI [of _ e3] conjI r(1,8))
qed

lemma log_recovers_witness:
  "\<exists>e0 f e w e1. engine_owned 2 None = Some e0 \<and> plain_session (e0\<lparr>wal := Some new_log\<rparr>) demo_session e \<and> wal e = Some w \<and>
     recoverFromWal True (Some (wal_close w f)) e0 = Some e1 \<and>
     map_option (map remaining_qty) (view e 7 SELL) = Some [3] \<and>
     map_option (map unseq) (view e1 7 SELL) = map_option (map unseq) (view e 7 SELL)"
proof -
  obtain e0 e where s: "engine_owned 2 None = Some e0" "plain_session (e0\<lparr>wal := Some new_log\<rparr>) demo_session e"
    "map_option (map remaining_qty) (view e 7 SELL) = Some [3]"
    using demo_session_log by (elim exE conjE) (rule that)
  have i: "wal_init True \<lparr>file_bytes = 0, file_entries = \<lambda>_. zero_entry\<rparr> =
    Some (new_log, \<lparr>file_bytes = WAL_SIZE, file_entries = \<lambda>_. zero_entry\<rparr>)"
    by (simp add: wal_init_def new_log_def)
  have n: "length (filter is_add demo_session) \<le> 2" "length demo_session \<le> WAL_ENTRIES"
    by (simp_all add: demo_session_def WAL_ENTRIES_def WAL_SIZE_def)
  have c: "(2 :: nat) \<le> 2" "(2 :: nat) \<le> 2 ^ 31" by simp_all
  let ?f = "\<lparr>file_bytes = WAL_SIZE, file_entries = \<lambda>_. zero_entry\<rparr>"
  obtain w e1 where r: "wal e = Some w" "recoverFromWal True (Some (wal_close w ?f)) e0 = Some e1" "engine_inv e1"
    "\<forall>k. \<forall>sd\<in>{BUY, SELL}. map_option (map unseq) (view e1 k sd) = map_option (map unseq) (view e k sd)"
    using log_recovers [OF s(1) c i s(2) n] by (elim exE conjE) (rule that)
  then have "map_option (map unseq) (view e1 7 SELL) = map_option (map unseq) (view e 7 SELL)" by simp
  then show ?thesis
    by (intro exI [of _ e0] exI [of _ ?f] exI [of _ e] exI [of _ w] exI [of _ e1] conjI s r(1,2))
qed

end
