(* ===== verification/Recovery_Gap.thy ===== *)
theory Recovery_Gap
  imports Index_Wear Log_Recovery
begin

text \<open>
  Where the log does not lead back to the book it was written for (\<open>recoverFromWal\<close> in
  \<open>src/exchange/matching_engine.cpp\<close>): partial cancels, replacements and orders that may not rest.
\<close>

section \<open>A session and its recovery\<close>

text \<open>The orders of the book at locate 0, as numbers and quantities.\<close>

definition resting_pairs :: "engine \<Rightarrow> (u64 \<times> u32) list option" where
  [code_eval]: "resting_pairs e = do {
     bs \<leftarrow> view e 0 BUY;
     as \<leftarrow> view e 0 SELL;
     Some (map (\<lambda>r. (order_id r, remaining_qty r)) (bs @ as))
   }"

text \<open>
  Commands run on a new engine with a new log; after a crash another new engine recovers from the
  log: the orders before and after.
\<close>

definition after_crash :: "command list \<Rightarrow> ((u64 \<times> u32) list \<times> (u64 \<times> u32) list) option" where
  "after_crash cmds = do {
     e0 \<leftarrow> engine_owned 8 None;
     (w0, f) \<leftarrow> wal_init True \<lparr>file_bytes = 0, file_entries = \<lambda>_. zero_entry\<rparr>;
     e \<leftarrow> exec_all cmds (e0\<lparr>wal := Some w0\<rparr>);
     w \<leftarrow> wal e;
     e1 \<leftarrow> recoverFromWal True (Some (wal_close w f)) e0;
     before \<leftarrow> resting_pairs e;
     after \<leftarrow> resting_pairs e1;
     Some (before, after)
   }"

text \<open>The unused part of the ring is zero; replaying it changes nothing.\<close>

lemma replay_zero:
  assumes "books e 0 \<noteq> None" "next_sequence e \<noteq> 0" "next_order_id e \<noteq> 0"
  shows "replay_entry zero_entry e = Some e"
proof -
  have "book_for 0 e = (Some (the_book e (the (books e 0))), e)"
    using assms(1) by (auto simp: book_for_def kMaxLocate_def)
  then show ?thesis
    using assms(2,3) by (auto simp: replay_entry_def zero_entry_def raise_counters_def Let_def)
qed

lemma after_crash_eq:
  assumes "\<exists>e0 e w e1. engine_owned 8 None = Some e0 \<and> exec_all cmds (e0\<lparr>wal := Some new_log\<rparr>) = Some e \<and>
      wal e = Some w \<and> wal_base w = (\<lambda>_. zero_entry)(0 := wal_base w 0, 1 := wal_base w 1) \<and>
      foldo replay_entry [wal_base w 0, wal_base w 1] e0 = Some e1 \<and>
      books e1 0 \<noteq> None \<and> next_sequence e1 \<noteq> 0 \<and> next_order_id e1 \<noteq> 0 \<and>
      resting_pairs e = Some before \<and> resting_pairs e1 = Some after"
  shows "after_crash cmds = Some (before, after)"
proof -
  obtain e0 e w e1 where a: "engine_owned 8 None = Some e0" "exec_all cmds (e0\<lparr>wal := Some new_log\<rparr>) = Some e"
    "wal e = Some w" "wal_base w = (\<lambda>_. zero_entry)(0 := wal_base w 0, 1 := wal_base w 1)"
    "foldo replay_entry [wal_base w 0, wal_base w 1] e0 = Some e1"
    "books e1 0 \<noteq> None" "next_sequence e1 \<noteq> 0" "next_order_id e1 \<noteq> 0"
    "resting_pairs e = Some before" "resting_pairs e1 = Some after"
    using assms by blast
  have b: "wal_base w = wal_base (holds [wal_base w 0, wal_base w 1])"
    by (subst a(4)) (auto simp: holds_def fun_eq_iff less_Suc_eq)
  have i: "wal_init True \<lparr>file_bytes = 0, file_entries = \<lambda>_. zero_entry\<rparr> =
    Some (new_log, \<lparr>file_bytes = WAL_SIZE, file_entries = \<lambda>_. zero_entry\<rparr>)"
    by (simp add: wal_init_def new_log_def)
  have zero: "foldo (\<lambda>_. replay_entry zero_entry) is e1 = Some e1" for "is" :: "nat list"
    using replay_zero [OF a(6-8)] by (induction "is") simp_all
  have "recoverFromWal True (Some (wal_close w \<lparr>file_bytes = WAL_SIZE, file_entries = \<lambda>_. zero_entry\<rparr>)) e0 = Some (note_usage e1)"
    using recover_split [OF b _ a(5)] zero by (simp add: WAL_ENTRIES_def WAL_SIZE_def)
  moreover have "resting_pairs (note_usage e1) = resting_pairs e1" by (simp add: resting_pairs_def)
  ultimately show ?thesis using a i by (simp add: after_crash_def)
qed

section \<open>Three sessions\<close>

text \<open>A partial cancel is taken off twice: 3 of 10 shares are cancelled, 4 are left.\<close>

lemma recovery_shrinks_twice:
  "after_crash [Add 0 1 SELL 100 10 42 DAY, CancelShares 0 1 3 42] = Some ([(1, 7)], [(1, 4)])"
  by (rule after_crash_eq) (simp add: code_eval om_room_def hash_of_def fun_eq_iff cong: bind_eval_cong)

text \<open>A replacement is logged under the new number: the old order is not found, nothing is replaced.\<close>

lemma recovery_misses_replacement:
  "after_crash [Add 0 1 SELL 100 10 42 DAY, Replace 0 1 2 SELL 105 10 42] = Some ([(2, 10)], [(1, 10)])"
  by (rule after_crash_eq) (simp add: code_eval om_room_def hash_of_def fun_eq_iff cong: bind_eval_cong)

text \<open>The log does not say that an order was immediate-or-cancel: its rest is entered.\<close>

lemma recovery_rests_ioc:
  "after_crash [Add 0 1 BUY 100 10 42 IOC] = Some ([], [(1, 10)])"
  by (rule after_crash_eq) (simp add: code_eval om_room_def hash_of_def fun_eq_iff cong: bind_eval_cong)

end
