(* ===== verification/Core_Types.thy ===== *)
theory Core_Types
  imports Prelude
begin

text \<open>
  The trading side's shared data (\<open>src/core/types.h\<close>, \<open>src/core/market_event.h\<close>,
  \<open>src/strategy/base/signal.h\<close>): orders, order book slots, ticks, market events and signals.
  The types \<open>Order\<close>, \<open>OrderBook\<close>, \<open>OrderPool\<close> exist twice in the program, here and in the
  exchange's namespace \<open>nxex\<close>; the constructors and fields of this side are prefixed.
\<close>

section \<open>Orders\<close>

datatype order_side = OS_BUY | OS_SELL | OS_NONE

datatype order_type = MARKET | LIMIT | ICEBERG

record core_order =
  co_order_id :: u64
  co_strategy_id :: u64
  co_symbol_id :: u64
  co_side :: order_side
  co_type :: order_type
  co_price :: int
  co_quantity :: u64
  co_timestamp :: u64

text \<open>\<open>Order{}\<close>: every field zero.\<close>

definition zero_order :: core_order where
  [code_eval]: "zero_order = \<lparr>co_order_id = 0, co_strategy_id = 0, co_symbol_id = 0, co_side = OS_BUY,
     co_type = MARKET, co_price = 0, co_quantity = 0, co_timestamp = 0\<rparr>"

record tick =
  tk_timestamp :: u64
  tk_seq_id :: u64
  tk_symbol_id :: u64
  tk_last_price :: int
  tk_volume :: u64
  tk_bid_price :: int
  tk_ask_price :: int
  tk_bid_volume :: u64
  tk_ask_volume :: u64

definition zero_tick :: tick where
  [code_eval]: "zero_tick = \<lparr>tk_timestamp = 0, tk_seq_id = 0, tk_symbol_id = 0, tk_last_price = 0,
     tk_volume = 0, tk_bid_price = 0, tk_ask_price = 0, tk_bid_volume = 0, tk_ask_volume = 0\<rparr>"

section \<open>Signals\<close>

definition kStrengthScale :: int where
  [code_eval]: "kStrengthScale = 10000"

record signal =
  sg_side :: order_side
  sg_locate :: u64
  sg_price :: int
  sg_timestamp :: u64
  sg_strength :: int

section \<open>Market events\<close>

text \<open>
  The event's \<open>type\<close> says which member of the union is set. A member that a producer does not set
  is zero (\<open>MarketEvent m{}\<close>).
\<close>

datatype event_type = EV_ADD | EV_DELETE | EV_CANCEL | EV_REPLACE | EV_TRADE | EV_EXECUTE

record market_event =
  me_type :: event_type
  me_seq_id :: u64
  me_locate :: u64
  me_timestamp :: u64
  me_side :: order_side
  me_price :: int
  me_qty :: u64
  me_order_ref :: u64
  me_new_order_ref :: u64

section \<open>Signed arithmetic\<close>

text \<open>
  \<open>int64_t\<close> multiplication, addition and division, reduced to the range of the type after each
  operation; the theorems state the ranges in which no reduction happens.
\<close>

definition mul64 :: "int \<Rightarrow> int \<Rightarrow> int" where
  [code_eval]: "mul64 a b = i64 (a * b)"

definition add64 :: "int \<Rightarrow> int \<Rightarrow> int" where
  [code_eval]: "add64 a b = i64 (a + b)"

definition sub64 :: "int \<Rightarrow> int \<Rightarrow> int" where
  [code_eval]: "sub64 a b = i64 (a - b)"

definition div64 :: "int \<Rightarrow> int \<Rightarrow> int" where
  [code_eval]: "div64 a b = i64 (a sdiv b)"

lemma in_i64_add64 [simp]: "in_i64 (add64 a b)"
  by (simp add: add64_def)

lemma in_i64_sub64 [simp]: "in_i64 (sub64 a b)"
  by (simp add: sub64_def)

lemma in_i64_mul64 [simp]: "in_i64 (mul64 a b)"
  by (simp add: mul64_def)

lemma in_i64_div64 [simp]: "in_i64 (div64 a b)"
  by (simp add: div64_def)

lemma i64_nonneg [simp]: "0 \<le> x \<Longrightarrow> x < 2 ^ 63 \<Longrightarrow> i64 x = x"
  by (rule i64_id) (simp add: in_i64_def)

text \<open>Reduction commutes with sums and products, so only the final result matters.\<close>

lemma i64_cong: "x mod 2 ^ 64 = y mod 2 ^ 64 \<Longrightarrow> i64 x = i64 y"
  unfolding i64_def by (metis mod_add_left_eq)

lemma i64_mod: "i64 x mod 2 ^ 64 = x mod 2 ^ 64"
  unfolding i64_def by (simp add: mod_diff_left_eq)

lemma add64_i64 [simp]: "add64 (i64 x) y = i64 (x + y)"
  unfolding add64_def by (rule i64_cong) (metis i64_mod mod_add_left_eq)

lemma sub64_i64 [simp]: "sub64 (i64 x) y = i64 (x - y)"
  unfolding sub64_def by (rule i64_cong) (metis i64_mod mod_diff_left_eq)

lemma i64_add_mul64 [simp]: "i64 (x + mul64 a b) = i64 (x + a * b)"
  unfolding mul64_def by (rule i64_cong) (metis i64_mod mod_add_right_eq)

lemma i64_add_mul_sub64 [simp]: "i64 (x + a * sub64 b c) = i64 (x + a * (b - c))"
  unfolding sub64_def by (rule i64_cong) (metis i64_mod mod_add_right_eq mod_mult_right_eq)

lemma sdiv_nonneg: "0 \<le> a \<Longrightarrow> 0 < b \<Longrightarrow> a sdiv b = a div (b :: int)"
  by (cases "a = 0") (simp_all add: signed_divide_int_def)

text \<open>The weighted mean, rounded towards zero, lies between its two values.\<close>

lemma wmean_bounds:
  fixes x y lo hi :: int
  assumes "lo \<le> x" "x \<le> hi" "lo \<le> y" "y \<le> hi" "0 \<le> a" "0 \<le> b" "0 < a + b"
  shows "lo \<le> (x * a + y * b) div (a + b) \<and> (x * a + y * b) div (a + b) \<le> hi"
proof
  have "lo * (a + b) \<le> x * a + y * b"
    using assms by (simp add: distrib_left add_mono mult_right_mono)
  then have "lo * (a + b) div (a + b) \<le> (x * a + y * b) div (a + b)"
    using assms(7) by (rule zdiv_mono1)
  then show "lo \<le> (x * a + y * b) div (a + b)"
    using assms(7) by simp
  have "x * a + y * b \<le> hi * (a + b)"
    using assms by (simp add: distrib_left add_mono mult_right_mono)
  then have "(x * a + y * b) div (a + b) \<le> hi * (a + b) div (a + b)"
    using assms(7) by (rule zdiv_mono1)
  then show "(x * a + y * b) div (a + b) \<le> hi"
    using assms(7) by simp
qed

text \<open>
  The weighted mean as the code computes it, \<open>(x * a + p * b) / (a + b)\<close> over \<open>int64_t\<close> with
  quantities cast from \<open>uint64_t\<close>, is the mean over the integers while the cost fits.
\<close>

definition wavg64 :: "int \<Rightarrow> u64 \<Rightarrow> int \<Rightarrow> u64 \<Rightarrow> int" where
  [code_eval]: "wavg64 x a p b = div64 (add64 (mul64 x (sint a)) (mul64 p (sint b))) (sint (a + b))"

lemma unat_plus64: "unat (a :: u64) + unat b < 2 ^ 64 \<Longrightarrow> unat (a + b) = unat a + unat b"
  by (simp add: unat_word_ariths)

lemma wavg64_mean:
  fixes x p lo hi :: int and a b :: u64
  assumes x: "a = 0 \<Longrightarrow> x = 0" "a \<noteq> 0 \<Longrightarrow> lo \<le> x \<and> x \<le> hi" and p: "0 < lo" "lo \<le> p" "p \<le> hi"
    and n: "0 < unat a + unat b" and big: "hi * (int (unat a) + int (unat b)) < 2 ^ 63"
  defines "A \<equiv> int (unat a)" and "B \<equiv> int (unat b)"
  shows "wavg64 x a p b = (x * A + p * B) div (A + B) \<and> lo \<le> wavg64 x a p b \<and> wavg64 x a p b \<le> hi \<and>
    unat (a + b) = unat a + unat b"
proof -
  have big: "hi * (A + B) < 2 ^ 63" using big by (simp only: A_def B_def)
  have pos: "0 \<le> A" "0 \<le> B" "0 < A + B" using n unfolding A_def B_def by linarith+
  have "1 \<le> hi" using p by linarith
  moreover have "0 \<le> A + B" using pos by linarith
  ultimately have "1 * (A + B) \<le> hi * (A + B)" by (rule mult_right_mono)
  then have AB: "A + B < 2 ^ 63" using big by (simp only: mult_1 le_less_trans)
  have xA: "0 \<le> x * A" "x * A \<le> hi * A"
    using p x by (cases "a = 0"; simp add: A_def mult_right_mono)+
  have pB: "0 \<le> p * B" "p * B \<le> hi * B"
    using p pos by (simp_all add: mult_right_mono)
  have s: "x * A + p * B \<le> hi * (A + B)" using xA pB by (simp add: distrib_left)
  have un: "unat (a + b) = unat a + unat b"
    by (rule unat_plus64) (use AB in \<open>simp add: A_def B_def del: of_nat_unat\<close>)
  have "unat a < 2 ^ 63" "unat b < 2 ^ 63" "unat (a + b) < 2 ^ 63"
    using AB un unfolding A_def B_def by (simp_all del: of_nat_unat)
  then have sm: "sint a = A" "sint b = B" "sint (a + b) = A + B"
    using un by (simp_all only: sint_small A_def B_def of_nat_add)
  have m: "mul64 x A = x * A" "mul64 p B = p * B"
    unfolding mul64_def using xA pB big s by (intro i64_nonneg; linarith)+
  have "0 \<le> (x * A + p * B) div (A + B)" "(x * A + p * B) div (A + B) \<le> x * A + p * B"
    using xA pB pos zdiv_mono2 [of "x * A + p * B" 1 "A + B"] by (simp_all add: pos_imp_zdiv_nonneg_iff)
  moreover have "add64 (x * A) (p * B) = x * A + p * B"
    unfolding add64_def using xA pB big s by (intro i64_nonneg; linarith)
  ultimately have w: "wavg64 x a p b = (x * A + p * B) div (A + B)"
    unfolding wavg64_def div64_def sm m using xA pB pos big s by (simp add: sdiv_nonneg)
  have "lo \<le> ((if A = 0 then lo else x) * A + p * B) div (A + B) \<and>
      ((if A = 0 then lo else x) * A + p * B) div (A + B) \<le> hi"
    using x p pos by (intro wmean_bounds) (auto simp: A_def uint_0_iff)
  moreover have "(if A = 0 then lo else x) * A = x * A" by simp
  ultimately show ?thesis using w un by simp
qed

end
