(* ===== verification/Core_Memory.thy ===== *)
theory Core_Memory
  imports Slot_Views Order_Map Core_Types
begin

text \<open>
  The pool and the index of the market data side (\<open>src/core/memory/order_pool.h\<close>,
  \<open>src/core/memory/order_map.h\<close>, struct \<open>OrderSlot\<close> of \<open>src/core/types.h\<close>). Their code is that of
  the exchange's pool and index over the slot type \<open>OrderSlot\<close>, so each operation is the polymorphic
  model at that type; \<open>insert\<close> returns nothing here, so a dropped entry goes unnoticed.
\<close>

section \<open>Slots\<close>

record order_slot = links +
  so_order_ref :: u64
  so_side :: order_side
  so_price :: int
  so_shares :: u64
  so_remaining :: u64
  so_sequence :: u64

type_synonym slot_pool_t = "unit order_slot_ext pool"
type_synonym slot_index = "u32 order_map"

definition default_slot :: order_slot where
  [code_eval]: "default_slot = \<lparr>prev_idx = UINT32_MAX, next_idx = UINT32_MAX, pool_next_free = UINT32_MAX,
     so_order_ref = 0, so_side = OS_NONE, so_price = 0, so_shares = 0, so_remaining = 0, so_sequence = 0\<rparr>"

lemma strip_slot_fields [simp]:
  "so_order_ref (strip r) = so_order_ref r" "so_side (strip r) = so_side r" "so_price (strip r) = so_price r"
  "so_shares (strip r) = so_shares r" "so_remaining (strip r) = so_remaining r" "so_sequence (strip r) = so_sequence r"
  by (simp_all add: strip_def)

lemma slot_field:
  "so_order_ref (s ! unat i) = so_order_ref (body s i)" "so_side (s ! unat i) = so_side (body s i)"
  "so_price (s ! unat i) = so_price (body s i)" "so_shares (s ! unat i) = so_shares (body s i)"
  "so_remaining (s ! unat i) = so_remaining (body s i)" "so_sequence (s ! unat i) = so_sequence (body s i)"
  by (simp_all add: body_def)

section \<open>The pool\<close>

definition slot_allocate :: "slot_pool_t \<Rightarrow> (u32 ptr \<times> slot_pool_t) option" where
  [code_eval]: "slot_allocate p = pool_allocate p"

definition slot_deallocate :: "u32 \<Rightarrow> slot_pool_t \<Rightarrow> slot_pool_t option" where
  [code_eval]: "slot_deallocate idx p = pool_deallocate idx p"

definition slot_deallocate_ptr :: "u32 ptr \<Rightarrow> slot_pool_t \<Rightarrow> slot_pool_t option" where
  [code_eval]: "slot_deallocate_ptr ptr p = (case ptr of None \<Rightarrow> Some p | Some idx \<Rightarrow> slot_deallocate idx p)"

definition slot_at :: "slot_pool_t \<Rightarrow> u32 \<Rightarrow> order_slot option" where
  [code_eval]: "slot_at p idx = pool_at p idx"

definition slot_init_free_list :: "slot_pool_t \<Rightarrow> slot_pool_t option" where
  [code_eval]: "slot_init_free_list p = pool_init_free_list p"

definition slot_rebuild_freelist :: "slot_pool_t \<Rightarrow> slot_pool_t option" where
  [code_eval]: "slot_rebuild_freelist p = pool_rebuild_freelist p"

definition slot_pool_new :: "nat \<Rightarrow> slot_pool_t option" where
  [code_eval]: "slot_pool_new capacity = pool_new default_slot capacity"

definition slot_pool_external :: "order_slot list \<Rightarrow> bool \<Rightarrow> slot_pool_t option" where
  [code_eval]: "slot_pool_external ext init_free = pool_external ext init_free"

section \<open>The index\<close>

definition slot_hash :: "slot_index \<Rightarrow> u64 \<Rightarrow> u32 option" where
  [code_eval]: "slot_hash m k = om_hash m k"

definition slot_alloc_node :: "slot_index \<Rightarrow> (u32 \<times> slot_index) option" where
  [code_eval]: "slot_alloc_node m = om_alloc_node m"

definition slot_free_node :: "u32 \<Rightarrow> slot_index \<Rightarrow> slot_index option" where
  [code_eval]: "slot_free_node idx m = om_free_node idx m"

definition slot_treeify :: "u32 \<Rightarrow> slot_index \<Rightarrow> slot_index option" where
  [code_eval]: "slot_treeify b m = om_treeify b m"

definition slot_insert :: "u64 \<Rightarrow> u32 ptr \<Rightarrow> slot_index \<Rightarrow> slot_index option" where
  [code_eval]: "slot_insert k v m = map_option snd (om_insert k v m)"

definition slot_find :: "slot_index \<Rightarrow> u64 \<Rightarrow> u32 ptr option" where
  [code_eval]: "slot_find m k = om_find m k"

definition slot_erase :: "u64 \<Rightarrow> slot_index \<Rightarrow> slot_index option" where
  [code_eval]: "slot_erase k m = om_erase k m"

definition slot_contains :: "slot_index \<Rightarrow> u64 \<Rightarrow> bool option" where
  [code_eval]: "slot_contains m k = map_option (\<lambda>p. p \<noteq> None) (slot_find m k)"

definition slot_round_pow2 :: "nat \<Rightarrow> u32 option" where
  [code_eval]: "slot_round_pow2 n = roundPow2 n"

definition slot_index_new :: "nat \<Rightarrow> slot_index option" where
  [code_eval]: "slot_index_new capacity = om_new capacity"

section \<open>The contracts of pool and index carry over\<close>

interpretation market_pool: slot_pool
  pool_ok "\<lambda>p. {i. unat i < length (storage p)}" slot_allocate slot_deallocate
proof unfold_locales
  fix p :: slot_pool_t
  assume "pool_ok p []"
  then show "slot_allocate p = Some (None, p)" unfolding slot_allocate_def by (rule pool_allocate_empty)
next
  fix p :: slot_pool_t and i F
  assume "pool_ok p (i # F)"
  then show "\<exists>p'. slot_allocate p = Some (Some i, p') \<and> pool_ok p' F \<and>
      {i. unat i < length (storage p')} = {i. unat i < length (storage p)}"
    unfolding slot_allocate_def using pool_allocate_take by fastforce
next
  fix p :: slot_pool_t and i F
  assume "pool_ok p F" "i \<in> {i. unat i < length (storage p)}" "i \<notin> set F"
  then show "\<exists>p'. slot_deallocate i p = Some p' \<and> pool_ok p' (i # F) \<and>
      {i. unat i < length (storage p')} = {i. unat i < length (storage p)}"
    unfolding slot_deallocate_def using pool_deallocate_put [of p F i] by auto
qed

text \<open>With room in the index, an entry is not dropped.\<close>

lemma slot_insert_indexes:
  assumes "order_map.indexes m L key" "k \<notin> key ` L" "i \<notin> L" "om_room m k"
  shows "\<exists>m'. slot_insert k (Some i) m = Some m' \<and> order_map.indexes m' (insert i L) (key(i := k))"
  using order_map.indexes_ins [OF assms] by (auto simp: slot_insert_def)

lemma slot_erase_indexes:
  assumes "order_map.indexes m L key" "i \<in> L"
  shows "\<exists>m'. slot_erase (key i) m = Some m' \<and> order_map.indexes m' (L - {i}) key \<and> (\<forall>q. om_room m q \<longrightarrow> om_room m' q)"
  using order_map.indexes_del [OF assms] by (simp add: slot_erase_def)

end
