(* ===== verification/Price_Table.thy ===== *)
theory Price_Table
  imports Order_Map Core_Types
begin

text \<open>
  The price level table of the market data book (class \<open>PriceLevelTable\<close> in
  \<open>src/market/book/order_book.h\<close>): open addressing with linear probing and tombstones, a cached
  best price and doubling when no free slot is left. \<open>operator[]\<close> returns a reference: here the
  index of the slot, with the table it leaves.
\<close>

section \<open>State and operations\<close>

record mlevel =
  ml_head :: u32
  ml_tail :: u32
  ml_count :: u32
  ml_total :: u32

definition new_level :: mlevel where
  [code_eval]: "new_level = \<lparr>ml_head = UINT32_MAX, ml_tail = UINT32_MAX, ml_count = 0, ml_total = 0\<rparr>"

definition kEmpty :: int where
  [code_eval]: "kEmpty = - (2 ^ 63)"

definition kTombstone :: int where
  [code_eval]: "kTombstone = - (2 ^ 63) + 1"

definition kInitCapacity :: nat where
  [code_eval]: "kInitCapacity = 1024"

type_synonym slot = "int \<times> mlevel"

record level_table =
  lt_is_bid :: bool
  lt_best :: int
  lt_slots :: "slot list"
  lt_count :: u64

text \<open>\<open>is_bid_ ? a > b : a < b\<close>, and the value \<open>best_\<close> starts from.\<close>

definition better :: "bool \<Rightarrow> int \<Rightarrow> int \<Rightarrow> bool" where
  [code_eval]: "better is_bid a b = (if is_bid then a > b else a < b)"

definition worst :: "bool \<Rightarrow> int" where
  [code_eval]: "worst is_bid = (if is_bid then - (2 ^ 63) else 2 ^ 63 - 1)"

text \<open>
  \<open>new Slot[n]\<close>: the price is set by the constructor's loop, the level holds the defaults of its
  member initializers.
\<close>

definition fresh_slots :: "nat \<Rightarrow> slot list" where
  [code_eval]: "fresh_slots n = replicate n (kEmpty, new_level)"

definition lt_new :: "bool \<Rightarrow> level_table" where
  [code_eval]: "lt_new is_bid = \<lparr>lt_is_bid = is_bid, lt_best = worst is_bid, lt_slots = fresh_slots kInitCapacity, lt_count = 0\<rparr>"

text \<open>\<open>(h >> (64 - ctz(cap))) & (cap - 1)\<close>, and the cyclic step \<open>(i + 1) & (cap - 1)\<close>.\<close>

definition probe_at :: "nat \<Rightarrow> int \<Rightarrow> nat" where
  [code_eval]: "probe_at cap price =
     (case ctz32 (of_nat cap) of
        None \<Rightarrow> 0
      | Some k \<Rightarrow> unat (drop_bit (64 - k) (word_of_int price * golden :: u64)) AND (cap - 1))"

definition next_at :: "nat \<Rightarrow> nat \<Rightarrow> nat" where
  [code_eval]: "next_at cap i = (i + 1) AND (cap - 1)"

text \<open>
  The probing loop of \<open>operator[]\<close> with \<open>n\<close> rounds left: whether the price was found, where the
  loop stopped, the first tombstone (\<open>cap\<close> for none) and whether no empty slot was met.
\<close>

fun seek :: "slot list \<Rightarrow> int \<Rightarrow> nat \<Rightarrow> nat \<Rightarrow> nat \<Rightarrow> bool \<times> nat \<times> nat \<times> bool" where
  "seek s price 0 i ft = (False, i, ft, True)"
| "seek s price (Suc n) i ft =
     (let q = fst (s ! i) in
      if q = price then (True, i, ft, True)
      else
        let ft' = (if q = kTombstone \<and> ft = length s then i else ft) in
        if q = kEmpty then (False, i, ft', False)
        else seek s price n (next_at (length s) i) ft')"

declare seek.simps [code_eval]

text \<open>\<open>while (slots_[i].price != kEmpty)\<close>: on a full table it never ends.\<close>

partial_function (option) first_empty :: "slot list \<Rightarrow> nat \<Rightarrow> nat option" where
  [code, code_eval]: "first_empty s i =
     (if fst (s ! i) = kEmpty then Some i else first_empty s (next_at (length s) i))"

definition real_price :: "int \<Rightarrow> bool" where
  [code_eval]: "real_price p \<longleftrightarrow> p \<noteq> kEmpty \<and> p \<noteq> kTombstone"

definition rehash :: "slot \<Rightarrow> slot list \<Rightarrow> slot list option" where
  [code_eval]: "rehash sl ns =
     (if \<not> real_price (fst sl) then Some ns
      else do { j \<leftarrow> first_empty ns (probe_at (length ns) (fst sl)); Some (ns[j := sl]) })"

fun rehash_all :: "slot list \<Rightarrow> slot list \<Rightarrow> slot list option" where
  "rehash_all [] ns = Some ns"
| "rehash_all (sl # sls) ns = do { ns1 \<leftarrow> rehash sl ns; rehash_all sls ns1 }"

declare rehash_all.simps [code_eval]

definition lt_grow :: "level_table \<Rightarrow> level_table option" where
  [code_eval]: "lt_grow t = do {
     ns \<leftarrow> rehash_all (lt_slots t) (fresh_slots (length (lt_slots t) * 2));
     Some (t\<lparr>lt_slots := ns\<rparr>)
   }"

definition lift_best :: "int \<Rightarrow> level_table \<Rightarrow> level_table" where
  [code_eval]: "lift_best price t = (if better (lt_is_bid t) price (lt_best t) then t\<lparr>lt_best := price\<rparr> else t)"

definition lt_ref :: "int \<Rightarrow> level_table \<Rightarrow> (nat \<times> level_table) option" where
  [code_eval]: "lt_ref price t =
     (let cap = length (lt_slots t) in
      case seek (lt_slots t) price cap (probe_at cap price) cap of
        (found, i, ft, full) \<Rightarrow>
          if found then Some (i, lift_best price t)
          else do {
            (ins, t1) \<leftarrow>
              (if full then do {
                 t1 \<leftarrow> lt_grow t;
                 i1 \<leftarrow> first_empty (lt_slots t1) (probe_at (length (lt_slots t1)) price);
                 Some (i1, t1)
               }
               else Some (if ft \<noteq> cap then ft else i, t));
            Some (ins, lift_best price (t1\<lparr>lt_slots := (lt_slots t1)[ins := (price, new_level)], lt_count := lt_count t1 + 1\<rparr>))
          })"

text \<open>The lookup loop of \<open>erase\<close>, \<open>find\<close> and \<open>best_qty\<close>.\<close>

fun lookup_at :: "slot list \<Rightarrow> int \<Rightarrow> nat \<Rightarrow> nat \<Rightarrow> nat option" where
  "lookup_at s price 0 i = None"
| "lookup_at s price (Suc n) i =
     (if fst (s ! i) = price then Some i
      else if fst (s ! i) = kEmpty then None
      else lookup_at s price n (next_at (length s) i))"

declare lookup_at.simps [code_eval]

text \<open>The same equations for the number of rounds written as a numeral.\<close>

lemma seek_numeral [code_eval]:
  "seek s pr (numeral v) i ft =
     (let q = fst (s ! i) in
      if q = pr then (True, i, ft, True)
      else
        let ft' = (if q = kTombstone \<and> ft = length s then i else ft) in
        if q = kEmpty then (False, i, ft', False)
        else seek s pr (pred_numeral v) (next_at (length s) i) ft')"
  by (simp add: numeral_eq_Suc)

lemma lookup_at_numeral [code_eval]:
  "lookup_at s pr (numeral v) i =
     (if fst (s ! i) = pr then Some i
      else if fst (s ! i) = kEmpty then None
      else lookup_at s pr (pred_numeral v) (next_at (length s) i))"
  by (simp add: numeral_eq_Suc)

definition rescan_best :: "level_table \<Rightarrow> level_table" where
  [code_eval]: "rescan_best t = t\<lparr>lt_best := fold (\<lambda>sl b.
     if real_price (fst sl) \<and> better (lt_is_bid t) (fst sl) b then fst sl else b) (lt_slots t) (worst (lt_is_bid t))\<rparr>"

definition lt_lookup :: "int \<Rightarrow> level_table \<Rightarrow> nat option" where
  [code_eval]: "lt_lookup price t =
     lookup_at (lt_slots t) price (length (lt_slots t)) (probe_at (length (lt_slots t)) price)"

definition lt_erase :: "int \<Rightarrow> level_table \<Rightarrow> level_table" where
  [code_eval]: "lt_erase price t =
     (case lt_lookup price t of
        None \<Rightarrow> t
      | Some i \<Rightarrow>
          let t1 = t\<lparr>lt_slots := (lt_slots t)[i := (kTombstone, snd (lt_slots t ! i))], lt_count := lt_count t - 1\<rparr> in
          if price = lt_best t1 then rescan_best t1 else t1)"

definition lt_find :: "int \<Rightarrow> level_table \<Rightarrow> mlevel option" where
  [code_eval]: "lt_find price t = map_option (\<lambda>i. snd (lt_slots t ! i)) (lt_lookup price t)"

definition lt_empty :: "level_table \<Rightarrow> bool" where
  [code_eval]: "lt_empty t \<longleftrightarrow> lt_count t = 0"

definition best_qty :: "level_table \<Rightarrow> u64" where
  [code_eval]: "best_qty t =
     (if lt_empty t then 0
      else case lt_lookup (lt_best t) t of None \<Rightarrow> 0 | Some i \<Rightarrow> ucast (ml_total (snd (lt_slots t ! i))))"

text \<open>A write through the reference.\<close>

definition lt_set :: "nat \<Rightarrow> mlevel \<Rightarrow> level_table \<Rightarrow> level_table" where
  [code_eval]: "lt_set i l t = t\<lparr>lt_slots := (lt_slots t)[i := (fst (lt_slots t ! i), l)]\<rparr>"

definition lt_at :: "nat \<Rightarrow> level_table \<Rightarrow> mlevel" where
  [code_eval]: "lt_at i t = snd (lt_slots t ! i)"

section \<open>Probing\<close>

text \<open>The cyclic walk from \<open>h\<close>.\<close>

definition walk_at :: "nat \<Rightarrow> nat \<Rightarrow> nat \<Rightarrow> nat" where
  "walk_at cap h d = (h + d) mod cap"

definition cap_ok :: "nat \<Rightarrow> bool" where
  "cap_ok cap \<longleftrightarrow> (\<exists>k. cap = 2 ^ k \<and> 1 \<le> k \<and> k \<le> 31)"

lemma and_mask_mod: "(i :: nat) AND (2 ^ k - Suc 0) = i mod 2 ^ k"
proof -
  have "(i :: nat) AND (2 ^ k - 1) = take_bit k i" by (simp only: take_bit_eq_mask mask_eq_exp_minus_1)
  then show ?thesis by (simp add: take_bit_eq_mod)
qed

lemma cap_okD:
  assumes "cap_ok cap"
  shows "2 \<le> cap \<and> cap < 2 ^ 32"
proof -
  obtain k where k: "cap = 2 ^ k" "1 \<le> k" "k \<le> 31" using assms unfolding cap_ok_def by blast
  have "2 ^ 1 \<le> (2 :: nat) ^ k" by (rule power_increasing [OF k(2)]) simp
  moreover have "(2 :: nat) ^ k \<le> 2 ^ 31" by (rule power_increasing [OF k(3)]) simp
  ultimately show ?thesis using k(1) by simp
qed

lemma cap_ok_mask: "cap_ok cap \<Longrightarrow> (i :: nat) AND (cap - Suc 0) = i mod cap"
  unfolding cap_ok_def using and_mask_mod by blast

lemma next_at_mod: "cap_ok cap \<Longrightarrow> next_at cap i = (i + 1) mod cap"
  by (simp add: next_at_def cap_ok_mask)

lemma probe_lt: "cap_ok cap \<Longrightarrow> probe_at cap p < cap"
  using cap_okD [of cap] by (simp add: probe_at_def cap_ok_mask split: option.split)

lemma walk_lt: "0 < cap \<Longrightarrow> walk_at cap h d < cap"
  by (simp add: walk_at_def)

lemma walk_0: "h < cap \<Longrightarrow> walk_at cap h 0 = h"
  by (simp add: walk_at_def)

lemma walk_next: "cap_ok cap \<Longrightarrow> next_at cap (walk_at cap h d) = walk_at cap h (Suc d)"
  by (simp add: next_at_mod walk_at_def mod_Suc_eq)

lemma walk_inj:
  assumes "walk_at cap h d = walk_at cap h e" "d < cap" "e < cap"
  shows "d = e"
proof (rule ccontr)
  have lt: False if "(h + x) mod cap = (h + y) mod cap" "x < y" "y < cap" for x y
  proof -
    have "cap dvd (h + y) - (h + x)" using that by (metis add_left_mono less_imp_le mod_eq_dvd_iff_nat)
    then show False using that by (auto dest: dvd_imp_le)
  qed
  assume "d \<noteq> e"
  then consider "d < e" | "e < d" by (rule linorder_neqE_nat)
  then show False
    using lt [of d e] lt [of e d] assms unfolding walk_at_def by cases simp_all
qed

lemma walk_surj:
  assumes "h < cap" "x < cap"
  shows "\<exists>d<cap. walk_at cap h d = x"
proof (cases "h \<le> x")
  case True
  then show ?thesis using assms by (intro exI [of _ "x - h"]) (auto simp: walk_at_def)
next
  case False
  then show ?thesis using assms by (intro exI [of _ "x + cap - h"]) (auto simp: walk_at_def)
qed

section \<open>The invariant of the slots\<close>

text \<open>
  A price occupies one slot, and the slots between the hash of a price and its slot are not
  empty: the lookups stop at an empty slot.
\<close>

definition slots_inj :: "slot list \<Rightarrow> bool" where
  "slots_inj s \<longleftrightarrow> (\<forall>i<length s. \<forall>j<length s. real_price (fst (s ! i)) \<and> fst (s ! i) = fst (s ! j) \<longrightarrow> i = j)"

definition open_path :: "slot list \<Rightarrow> int \<Rightarrow> nat \<Rightarrow> bool" where
  "open_path s p d \<longleftrightarrow> (\<forall>e<d. fst (s ! walk_at (length s) (probe_at (length s) p) e) \<noteq> kEmpty)"

definition chains_ok :: "slot list \<Rightarrow> bool" where
  "chains_ok s \<longleftrightarrow> (\<forall>d<length s. \<forall>p. real_price p \<longrightarrow>
     fst (s ! walk_at (length s) (probe_at (length s) p) d) = p \<longrightarrow> open_path s p d)"

definition slots_ok :: "slot list \<Rightarrow> bool" where
  "slots_ok s \<longleftrightarrow> cap_ok (length s) \<and> slots_inj s \<and> chains_ok s"

text \<open>The map a slot array stands for.\<close>

definition slots_map :: "slot list \<Rightarrow> int \<rightharpoonup> mlevel" where
  "slots_map s = map_of (filter (\<lambda>sl. real_price (fst sl)) s)"

abbreviation home :: "slot list \<Rightarrow> int \<Rightarrow> nat \<Rightarrow> nat" where
  "home s p d \<equiv> walk_at (length s) (probe_at (length s) p) d"

lemma slots_lenD: "slots_ok s \<Longrightarrow> 2 \<le> length s \<and> length s < 2 ^ 32"
  using cap_okD by (simp add: slots_ok_def)

lemma home_lt: "slots_ok s \<Longrightarrow> home s p d < length s"
  using slots_lenD [of s] by (intro walk_lt) linarith

lemma home_0: "slots_ok s \<Longrightarrow> home s p 0 = probe_at (length s) p"
  by (simp add: slots_ok_def walk_0 probe_lt)

lemma home_next: "slots_ok s \<Longrightarrow> next_at (length s) (home s p d) = home s p (Suc d)"
  by (simp add: slots_ok_def walk_next)

lemma home_surj: "slots_ok s \<Longrightarrow> i < length s \<Longrightarrow> \<exists>d<length s. home s p d = i"
  by (rule walk_surj) (simp_all add: slots_ok_def probe_lt)

lemma slots_map_iff:
  assumes "slots_inj s"
  shows "slots_map s p = Some l \<longleftrightarrow> real_price p \<and> (p, l) \<in> set s"
proof
  assume "slots_map s p = Some l"
  then show "real_price p \<and> (p, l) \<in> set s"
    unfolding slots_map_def by (auto dest!: map_of_SomeD)
next
  assume a: "real_price p \<and> (p, l) \<in> set s"
  then obtain l' where l': "slots_map s p = Some l'"
    unfolding slots_map_def by (metis (mono_tags, lifting) fst_conv mem_Collect_eq not_Some_eq set_filter weak_map_of_SomeI)
  then have "(p, l') \<in> set s"
    unfolding slots_map_def by (auto dest!: map_of_SomeD)
  then have "l' = l"
    using a assms unfolding slots_inj_def by (metis fst_conv in_set_conv_nth snd_conv)
  then show "slots_map s p = Some l" using l' by simp
qed

lemma slots_map_at:
  assumes "slots_inj s" "i < length s" "fst (s ! i) = p" "real_price p"
  shows "slots_map s p = Some (snd (s ! i))"
  using assms by (subst slots_map_iff) (auto simp: in_set_conv_nth intro!: exI [of _ i] prod_eqI)

lemma slots_map_None:
  assumes "slots_inj s" "real_price p"
  shows "slots_map s p = None \<longleftrightarrow> (\<forall>i<length s. fst (s ! i) \<noteq> p)"
proof
  assume n: "slots_map s p = None"
  show "\<forall>i<length s. fst (s ! i) \<noteq> p"
    using slots_map_at [OF assms(1) _ _ assms(2)] n by force
next
  assume "\<forall>i<length s. fst (s ! i) \<noteq> p"
  then show "slots_map s p = None"
    using slots_map_iff [OF assms(1), of p] by (metis fst_conv in_set_conv_nth not_Some_eq)
qed

text \<open>A write into one slot.\<close>

lemma slots_map_put:
  assumes "slots_inj s" "slots_inj (s[i := (p, l)])" "i < length s" "real_price p"
    "real_price (fst (s ! i)) \<Longrightarrow> fst (s ! i) = p"
  shows "slots_map (s[i := (p, l)]) = (slots_map s)(p \<mapsto> l)"
proof (rule map_le_antisym)
  have eq: "slots_map (s[i := (p, l)]) q = Some k \<longleftrightarrow> ((slots_map s)(p \<mapsto> l)) q = Some k" for q k
  proof (cases "q = p")
    case True
    then show ?thesis using slots_map_at [OF assms(2), of i p] assms(3,4) by auto
  next
    case False
    have "(q, k) \<in> set (s[i := (p, l)]) \<longleftrightarrow> (q, k) \<in> set s" if "real_price q"
    proof -
      have "s ! i \<noteq> (q, k)" using assms(5) False that by auto
      then show ?thesis using False assms(3)
        by (auto simp: in_set_conv_nth nth_list_update)
    qed
    then show ?thesis using False by (auto simp: slots_map_iff [OF assms(1)] slots_map_iff [OF assms(2)])
  qed
  show "slots_map (s[i := (p, l)]) \<subseteq>\<^sub>m (slots_map s)(p \<mapsto> l)"
    using eq by (auto simp: map_le_def)
  show "(slots_map s)(p \<mapsto> l) \<subseteq>\<^sub>m slots_map (s[i := (p, l)])"
    unfolding map_le_def by (metis eq domD)
qed

section \<open>The loops\<close>

lemma lookup_at_eq:
  assumes ok: "slots_ok s" and p: "real_price p" and n: "d + n = length s"
    and before: "\<forall>e<d. fst (s ! home s p e) \<noteq> p"
  shows "lookup_at s p n (home s p d) =
    (if \<exists>i<length s. fst (s ! i) = p then Some (THE i. i < length s \<and> fst (s ! i) = p) else None)"
    (is "_ = ?R")
  using n before
proof (induction n arbitrary: d)
  case 0
  have "fst (s ! i) \<noteq> p" if "i < length s" for i
    using home_surj [OF ok that] 0 by (metis add.right_neutral)
  then show ?case by auto
next
  case (Suc n)
  have lt: "home s p d < length s" by (rule home_lt [OF ok])
  show ?case
  proof (cases "fst (s ! home s p d) = p")
    case True
    have "(THE i. i < length s \<and> fst (s ! i) = p) = home s p d"
      using True lt p ok by (intro the_equality) (auto simp: slots_ok_def slots_inj_def)
    then show ?thesis using True lt by auto
  next
    case ne: False
    have before: "\<forall>e<Suc d. fst (s ! home s p e) \<noteq> p" using Suc.prems(2) ne by (simp add: less_Suc_eq)
    show ?thesis
    proof (cases "fst (s ! home s p d) = kEmpty")
      case True
      have "fst (s ! i) \<noteq> p" if i: "i < length s" for i
      proof
        assume f: "fst (s ! i) = p"
        obtain e where e: "e < length s" "home s p e = i" using home_surj [OF ok i] by blast
        have "open_path s p e" using ok p e f by (simp add: slots_ok_def chains_ok_def)
        moreover have "d < e" using before e f by (metis not_less_eq)
        ultimately show False using True by (simp add: open_path_def)
      qed
      then show ?thesis using True ne by auto
    next
      case False
      have "lookup_at s p n (home s p (Suc d)) = ?R"
        using Suc.prems(1) before by (intro Suc.IH) simp_all
      then show ?thesis using ne False by (simp add: home_next [OF ok])
    qed
  qed
qed

lemma lt_lookup_Some:
  assumes ok: "slots_ok (lt_slots t)" and p: "real_price p" and l: "lt_lookup p t = Some i"
  shows "i < length (lt_slots t) \<and> fst (lt_slots t ! i) = p"
proof -
  have "\<exists>!i. i < length (lt_slots t) \<and> fst (lt_slots t ! i) = p" if ex: "\<exists>i<length (lt_slots t). fst (lt_slots t ! i) = p"
  proof -
    obtain k where "k < length (lt_slots t)" "fst (lt_slots t ! k) = p" using ex by blast
    then show ?thesis using ok p by (intro ex1I [of _ k]) (auto simp: slots_ok_def slots_inj_def)
  qed
  moreover have eq: "lt_lookup p t = (if \<exists>i<length (lt_slots t). fst (lt_slots t ! i) = p
      then Some (THE i. i < length (lt_slots t) \<and> fst (lt_slots t ! i) = p) else None)"
    using lookup_at_eq [OF ok p, of 0 "length (lt_slots t)"] by (simp add: lt_lookup_def home_0 [OF ok])
  moreover have ex: "\<exists>i<length (lt_slots t). fst (lt_slots t ! i) = p"
    using l eq by (metis option.distinct(1))
  ultimately show ?thesis
    using theI' [of "\<lambda>i. i < length (lt_slots t) \<and> fst (lt_slots t ! i) = p"] l by simp
qed

lemma lt_lookup_None:
  assumes ok: "slots_ok (lt_slots t)" and p: "real_price p"
  shows "lt_lookup p t = None \<longleftrightarrow> slots_map (lt_slots t) p = None"
  using lookup_at_eq [OF ok p, of 0 "length (lt_slots t)"] slots_map_None [of "lt_slots t" p] ok p
  by (auto simp: lt_lookup_def home_0 [OF ok] slots_ok_def)

lemma lt_lookup_map:
  assumes ok: "slots_ok (lt_slots t)" and p: "real_price p" and l: "lt_lookup p t = Some i"
  shows "slots_map (lt_slots t) p = Some (snd (lt_slots t ! i))"
  using lt_lookup_Some [OF ok p l] ok p slots_map_at by (simp add: slots_ok_def)

text \<open>Where \<open>seek\<close> stops.\<close>

lemma seek_spec:
  assumes ok: "slots_ok s" and n: "d + n = length s"
    and before: "\<forall>e<d. fst (s ! home s p e) \<noteq> p \<and> fst (s ! home s p e) \<noteq> kEmpty"
    and tomb: "ft = length s \<or> (\<exists>e<d. ft = home s p e \<and> fst (s ! ft) = kTombstone)"
    and r: "seek s p n (home s p d) ft = (found, i, ft', full)"
  shows "if found then i < length s \<and> fst (s ! i) = p
     else if full then \<forall>j<length s. fst (s ! j) \<noteq> kEmpty \<and> fst (s ! j) \<noteq> p
     else \<exists>e<length s. i = home s p e \<and> open_path s p e \<and> (\<forall>e'<e. fst (s ! home s p e') \<noteq> p)
       \<and> fst (s ! i) = kEmpty \<and> (ft' = length s \<or> (\<exists>e'<e. ft' = home s p e' \<and> fst (s ! ft') = kTombstone))"
  using n before tomb r
proof (induction n arbitrary: d ft)
  case 0
  have "fst (s ! j) \<noteq> kEmpty \<and> fst (s ! j) \<noteq> p" if j: "j < length s" for j
  proof -
    obtain e where "e < length s" "home s p e = j" using home_surj [OF ok j] by blast
    then show ?thesis using 0(1,2) by auto
  qed
  moreover have "found = False" "full = True" using 0(4) by simp_all
  ultimately show ?case by simp
next
  case (Suc n)
  have lt: "home s p d < length s" by (rule home_lt [OF ok])
  let ?ft = "if fst (s ! home s p d) = kTombstone \<and> ft = length s then home s p d else ft"
  have tb: "?ft = length s \<or> (\<exists>e<Suc d. ?ft = home s p e \<and> fst (s ! ?ft) = kTombstone)"
  proof (cases "fst (s ! home s p d) = kTombstone \<and> ft = length s")
    case True
    then show ?thesis by (intro disjI2 exI [of _ d]) simp
  next
    case False
    then show ?thesis using Suc.prems(3) less_SucI by (simp only: if_False) blast
  qed
  show ?case
  proof (cases "fst (s ! home s p d) = p \<or> fst (s ! home s p d) = kEmpty")
    case False
    then have "seek s p n (home s p (Suc d)) ?ft = (found, i, ft', full)"
      using Suc.prems(4) by (simp add: Let_def home_next [OF ok])
    moreover have "\<forall>e<Suc d. fst (s ! home s p e) \<noteq> p \<and> fst (s ! home s p e) \<noteq> kEmpty"
      using Suc.prems(2) False by (simp add: less_Suc_eq)
    moreover have "Suc d + n = length s" using Suc.prems(1) by simp
    ultimately show ?thesis using tb by (intro Suc.IH)
  next
    case True
    show ?thesis
    proof (cases "fst (s ! home s p d) = p")
      case True
      then show ?thesis using Suc.prems(4) lt by auto
    next
      case ne: False
      then have e: "fst (s ! home s p d) = kEmpty" using True by simp
      then have eqs: "found = False" "i = home s p d" "full = False" "ft' = ft"
        using Suc.prems(4) ne by (simp_all add: kEmpty_def kTombstone_def)
      have d: "d < length s" using Suc.prems(1) by simp
      have "open_path s p d" using Suc.prems(2) by (simp add: open_path_def)
      then show ?thesis
        unfolding eqs using d e Suc.prems(2,3) by (simp only: if_False) blast
    qed
  qed
qed

lemma exists_least_lemma_le:
  assumes "P (n :: nat)"
  shows "\<exists>e\<le>n. P e \<and> (\<forall>x<e. \<not> P x)"
  using assms by (intro exI [of _ "LEAST e. P e"]) (auto intro: LeastI Least_le dest: not_less_Least)

text \<open>With an empty slot in the table, the insertion loop ends at the first one on the path.\<close>

lemma first_empty_eq:
  assumes ok: "slots_ok s" and e: "d \<le> e" "fst (s ! home s p e) = kEmpty"
    and ne: "\<forall>x. d \<le> x \<and> x < e \<longrightarrow> fst (s ! home s p x) \<noteq> kEmpty"
  shows "first_empty s (home s p d) = Some (home s p e)"
  using e ne
proof (induction "e - d" arbitrary: d)
  case 0
  then have "d = e" by simp
  then show ?case using 0 by (subst first_empty.simps) simp
next
  case (Suc n)
  then have "fst (s ! home s p d) \<noteq> kEmpty" by simp
  moreover have "first_empty s (home s p (Suc d)) = Some (home s p e)"
    using Suc.hyps(2) Suc.prems by (intro Suc.hyps(1)) simp_all
  ultimately show ?case by (subst first_empty.simps) (simp add: home_next [OF ok])
qed

lemma first_empty_ok:
  assumes ok: "slots_ok s" and ex: "\<exists>j<length s. fst (s ! j) = kEmpty"
  shows "\<exists>e<length s. first_empty s (probe_at (length s) p) = Some (home s p e)
    \<and> fst (s ! home s p e) = kEmpty \<and> open_path s p e"
proof -
  obtain e0 where e0: "e0 < length s" "fst (s ! home s p e0) = kEmpty"
    using ex home_surj [OF ok] by metis
  then obtain e where e: "fst (s ! home s p e) = kEmpty" "e \<le> e0"
    "\<And>x. x < e \<Longrightarrow> fst (s ! home s p x) \<noteq> kEmpty"
    using exists_least_lemma_le [of "\<lambda>e. fst (s ! home s p e) = kEmpty" e0] by blast
  have "first_empty s (home s p 0) = Some (home s p e)"
    using e(1,3) by (intro first_empty_eq [OF ok]) simp_all
  then have "first_empty s (probe_at (length s) p) = Some (home s p e)"
    by (simp only: home_0 [OF ok])
  moreover have "open_path s p e" using e(3) by (simp add: open_path_def)
  moreover have "e < length s" using e(2) e0(1) by simp
  ultimately show ?thesis using e(1) by blast
qed

section \<open>Writing a slot\<close>

lemma home_put [simp]: "home (s[i := x]) p d = home s p d"
  by simp

lemma slots_ok_put:
  assumes ok: "slots_ok s" and d: "d < length s" and path: "open_path s p d"
    and free: "\<not> real_price (fst (s ! home s p d))" and new: "slots_map s p = None" and p: "real_price p"
  shows "slots_ok (s[home s p d := (p, l)])" (is "slots_ok ?s")
proof -
  have lt: "home s p d < length s" by (rule home_lt [OF ok])
  have pn: "fst (s ! i) \<noteq> p" if "i < length s" for i
    using new slots_map_None [of s p] ok p that by (simp add: slots_ok_def)
  have at: "fst (?s ! i) = (if i = home s p d then p else fst (s ! i))" if "i < length s" for i
    using lt that by (simp add: nth_list_update)
  have "slots_inj ?s"
    unfolding slots_inj_def
  proof (intro allI impI)
    fix i j
    assume i: "i < length ?s" and j: "j < length ?s" and eq: "real_price (fst (?s ! i)) \<and> fst (?s ! i) = fst (?s ! j)"
    show "i = j"
      using eq i j pn [of i] pn [of j] ok at [of i] at [of j]
      by (auto simp: slots_ok_def slots_inj_def split: if_splits)
  qed
  moreover have "chains_ok ?s"
    unfolding chains_ok_def
  proof (intro allI impI)
    fix e q
    assume e: "e < length ?s" and q: "real_price q" and at_e: "fst (?s ! walk_at (length ?s) (probe_at (length ?s) q) e) = q"
    have "open_path s q e"
    proof (cases "home s q e = home s p d")
      case True
      then have "q = p" using at_e lt by simp
      then have "e = d" using walk_inj [of "length s" "probe_at (length s) p" e d] True e d by simp
      then show ?thesis using path \<open>q = p\<close> by simp
    next
      case False
      then show ?thesis using ok e q at_e at [OF home_lt [OF ok], of q e] by (simp add: slots_ok_def chains_ok_def)
    qed
    then show "open_path ?s q e"
      using at [OF home_lt [OF ok], of q] p by (auto simp: open_path_def real_price_def)
  qed
  ultimately show ?thesis using ok by (simp add: slots_ok_def)
qed

lemma slots_map_new:
  assumes ok: "slots_ok s" and d: "d < length s" and path: "open_path s p d"
    and free: "\<not> real_price (fst (s ! home s p d))" and new: "slots_map s p = None" and p: "real_price p"
  shows "slots_map (s[home s p d := (p, l)]) = (slots_map s)(p \<mapsto> l)"
  using slots_ok_put [OF assms] ok free p home_lt [OF ok]
  by (intro slots_map_put) (simp_all add: slots_ok_def)

lemma slots_ok_tomb:
  assumes ok: "slots_ok s" and i: "i < length s"
  shows "slots_ok (s[i := (kTombstone, l)])" (is "slots_ok ?s")
proof -
  have at: "fst (?s ! j) = (if j = i then kTombstone else fst (s ! j))" if "j < length s" for j
    using that by (simp add: nth_list_update)
  have kt: "\<not> real_price kTombstone" "kTombstone \<noteq> kEmpty"
    by (simp_all add: real_price_def kTombstone_def kEmpty_def)
  have "slots_inj ?s"
    unfolding slots_inj_def
  proof (intro allI impI)
    fix j k
    assume j: "j < length ?s" and k: "k < length ?s" and eq: "real_price (fst (?s ! j)) \<and> fst (?s ! j) = fst (?s ! k)"
    show "j = k"
      using eq j k ok at [of j] at [of k] kt by (auto simp: slots_ok_def slots_inj_def split: if_splits)
  qed
  moreover have "chains_ok ?s"
    unfolding chains_ok_def
  proof (intro allI impI)
    fix e q
    assume e: "e < length ?s" and q: "real_price q" and at_e: "fst (?s ! walk_at (length ?s) (probe_at (length ?s) q) e) = q"
    have "open_path s q e"
      using ok e q at_e at [OF home_lt [OF ok], of q e] kt
      by (auto simp: slots_ok_def chains_ok_def split: if_splits)
    then show "open_path ?s q e"
      using at [OF home_lt [OF ok], of q] kt by (auto simp: open_path_def)
  qed
  ultimately show ?thesis using ok by (simp add: slots_ok_def)
qed

lemma slots_map_tomb:
  assumes ok: "slots_ok s" and i: "i < length s" and at: "fst (s ! i) = p" and p: "real_price p"
  shows "slots_map (s[i := (kTombstone, l)]) = (slots_map s)(p := None)" (is "slots_map ?s = _")
proof
  fix q
  have ok': "slots_inj ?s" using slots_ok_tomb [OF ok i] by (simp add: slots_ok_def)
  have inj: "slots_inj s" using ok by (simp add: slots_ok_def)
  have kt: "\<not> real_price kTombstone" by (simp add: real_price_def kTombstone_def)
  have in_s: "(q, k) \<in> set ?s \<longleftrightarrow> (q, k) \<in> set s \<and> q \<noteq> p" if "real_price q" for k
  proof
    assume "(q, k) \<in> set ?s"
    then obtain j where j: "j < length s" "?s ! j = (q, k)" by (auto simp: in_set_conv_nth)
    then have ji: "j \<noteq> i" using that kt by auto
    then have "s ! j = (q, k)" using j by simp
    moreover have "q \<noteq> p" using inj j(1) i at p ji \<open>s ! j = (q, k)\<close> by (auto simp: slots_inj_def)
    ultimately show "(q, k) \<in> set s \<and> q \<noteq> p" using j(1) by (metis nth_mem)
  next
    assume "(q, k) \<in> set s \<and> q \<noteq> p"
    then obtain j where j: "j < length s" "s ! j = (q, k)" "q \<noteq> p" by (auto simp: in_set_conv_nth)
    then have "j \<noteq> i" using at by auto
    then have "?s ! j = (q, k)" using j by simp
    then show "(q, k) \<in> set ?s" using j(1) by (metis length_list_update nth_mem)
  qed
  have "slots_map ?s q = Some k \<longleftrightarrow> ((slots_map s)(p := None)) q = Some k" for k
    using in_s [of k] by (auto simp: slots_map_iff [OF inj] slots_map_iff [OF ok'])
  then show "slots_map ?s q = ((slots_map s)(p := None)) q" by (metis not_Some_eq)
qed

lemma slots_ok_level:
  assumes ok: "slots_ok s" and i: "i < length s"
  shows "slots_ok (s[i := (fst (s ! i), l)])" (is "slots_ok ?s")
proof -
  have at: "fst (?s ! j) = fst (s ! j)" if "j < length s" for j
    using that i by (simp add: nth_list_update)
  have "open_path ?s q e = open_path s q e" for q e
    using at [OF home_lt [OF ok], of q] by (simp add: open_path_def)
  then show ?thesis
    using ok at at [OF home_lt [OF ok]] unfolding slots_ok_def slots_inj_def chains_ok_def
    by (metis length_list_update)
qed

lemma slots_map_level:
  assumes ok: "slots_ok s" and i: "i < length s" and at: "fst (s ! i) = p" and p: "real_price p"
  shows "slots_map (s[i := (p, l)]) = (slots_map s)(p \<mapsto> l)"
  using slots_ok_level [OF ok i, of l] ok i at p
  by (intro slots_map_put) (simp_all add: slots_ok_def)

section \<open>Growing\<close>

definition used_slots :: "slot list \<Rightarrow> nat" where
  "used_slots s = length (filter (\<lambda>sl. fst sl \<noteq> kEmpty) s)"

lemma used_put: "i < length s \<Longrightarrow> used_slots (s[i := x]) \<le> Suc (used_slots s)"
proof (induction s arbitrary: i)
  case (Cons y ys)
  then show ?case by (cases i) (auto simp: used_slots_def)
qed simp

lemma used_room: "used_slots s < length s \<Longrightarrow> \<exists>j<length s. fst (s ! j) = kEmpty"
proof (rule ccontr)
  assume "used_slots s < length s" and no: "\<not> (\<exists>j<length s. fst (s ! j) = kEmpty)"
  moreover have "filter (\<lambda>sl. fst sl \<noteq> kEmpty) s = s"
    unfolding filter_id_conv using no by (metis in_set_conv_nth)
  ultimately show False by (simp add: used_slots_def)
qed

lemma fresh_ok: "cap_ok n \<Longrightarrow> slots_ok (fresh_slots n) \<and> used_slots (fresh_slots n) = 0 \<and> slots_map (fresh_slots n) = Map.empty"
proof -
  assume c: "cap_ok n"
  have e: "\<not> real_price kEmpty" by (simp add: real_price_def)
  have "walk_at n h d < n" for h d using cap_okD [OF c] by (intro walk_lt) linarith
  then show ?thesis using c e
    by (auto simp: fresh_slots_def slots_ok_def slots_inj_def chains_ok_def used_slots_def slots_map_def)
qed

lemma rehash_ok:
  assumes ok: "slots_ok ns" and u: "used_slots ns < length ns"
    and new: "real_price (fst sl) \<Longrightarrow> slots_map ns (fst sl) = None"
  shows "\<exists>ns'. rehash sl ns = Some ns' \<and> slots_ok ns' \<and> length ns' = length ns \<and> used_slots ns' \<le> Suc (used_slots ns)
    \<and> slots_map ns' = (if real_price (fst sl) then (slots_map ns)(fst sl \<mapsto> snd sl) else slots_map ns)"
proof (cases "real_price (fst sl)")
  case True
  obtain e where e: "e < length ns" "first_empty ns (probe_at (length ns) (fst sl)) = Some (home ns (fst sl) e)"
    "fst (ns ! home ns (fst sl) e) = kEmpty" "open_path ns (fst sl) e"
    using first_empty_ok [OF ok used_room [OF u], of "fst sl"] by blast
  have free: "\<not> real_price (fst (ns ! home ns (fst sl) e))" using e(3) by (simp add: real_price_def)
  let ?n = "ns[home ns (fst sl) e := sl]"
  have "slots_ok ?n" "slots_map ?n = (slots_map ns)(fst sl \<mapsto> snd sl)"
    using slots_ok_put [OF ok e(1,4) free new [OF True] True, of "snd sl"]
      slots_map_new [OF ok e(1,4) free new [OF True] True, of "snd sl"] by (simp_all only: prod.collapse)
  then show ?thesis
    using True e(2) used_put [OF home_lt [OF ok]] by (simp add: rehash_def)
qed (simp add: rehash_def ok)

lemma rehash_all_ok:
  assumes "slots_ok ns" "used_slots ns + length sls \<le> length ns"
    and "distinct (map fst (filter (\<lambda>sl. real_price (fst sl)) sls))"
    and "\<And>sl. sl \<in> set sls \<Longrightarrow> real_price (fst sl) \<Longrightarrow> slots_map ns (fst sl) = None"
  shows "\<exists>ns'. rehash_all sls ns = Some ns' \<and> slots_ok ns' \<and> length ns' = length ns \<and> used_slots ns' \<le> used_slots ns + length sls
    \<and> slots_map ns' = slots_map ns ++ map_of (filter (\<lambda>sl. real_price (fst sl)) sls)"
  using assms
proof (induction sls arbitrary: ns)
  case (Cons sl sls)
  obtain n1 where n1: "rehash sl ns = Some n1" "slots_ok n1" "length n1 = length ns" "used_slots n1 \<le> Suc (used_slots ns)"
    "slots_map n1 = (if real_price (fst sl) then (slots_map ns)(fst sl \<mapsto> snd sl) else slots_map ns)"
    using rehash_ok [OF Cons.prems(1), of sl] Cons.prems(2,4) by auto
  have dist: "distinct (map fst (filter (\<lambda>sl. real_price (fst sl)) sls))" using Cons.prems(3) by (simp split: if_splits)
  have new: "slots_map n1 (fst x) = None" if "x \<in> set sls" "real_price (fst x)" for x
  proof -
    have "slots_map ns (fst x) = None" using Cons.prems(4) that by simp
    moreover have "fst x \<noteq> fst sl" if "real_price (fst sl)"
    proof -
      have "fst x \<in> fst ` set (filter (\<lambda>sl. real_price (fst sl)) sls)"
        using \<open>x \<in> set sls\<close> \<open>real_price (fst x)\<close> by (intro imageI) simp
      then show ?thesis using Cons.prems(3) that by (metis distinct.simps(2) filter.simps(2) list.simps(9) set_map)
    qed
    ultimately show ?thesis using n1(5) by simp
  qed
  obtain n2 where n2: "rehash_all sls n1 = Some n2" "slots_ok n2" "length n2 = length n1"
    "used_slots n2 \<le> used_slots n1 + length sls" "slots_map n2 = slots_map n1 ++ map_of (filter (\<lambda>sl. real_price (fst sl)) sls)"
    using Cons.IH [OF n1(2) _ dist new] n1(3,4) Cons.prems(2) by auto
  have "slots_map n2 = slots_map ns ++ map_of (filter (\<lambda>sl. real_price (fst sl)) (sl # sls))"
  proof (cases "real_price (fst sl)")
    case True
    then have "fst sl \<notin> dom (map_of (filter (\<lambda>sl. real_price (fst sl)) sls))"
      using Cons.prems(3) by (auto simp: dom_map_of_conv_image_fst)
    then show ?thesis using True n2(5) n1(5) by (auto simp: map_add_def fun_eq_iff split: option.split prod.split)
  qed (simp add: n2(5) n1(5))
  then show ?case using n1 n2 by simp
qed simp

lemma slots_inj_distinct:
  "slots_inj s \<Longrightarrow> distinct (map fst (filter (\<lambda>sl. real_price (fst sl)) s))"
proof (induction s)
  case (Cons x xs)
  have "slots_inj xs" using Cons.prems unfolding slots_inj_def
    by (metis Suc_less_eq length_Cons nat.inject nth_Cons_Suc)
  moreover have "fst y \<noteq> fst x" if rp: "real_price (fst x)" and y: "y \<in> set xs" for y
  proof
    assume eq: "fst y = fst x"
    obtain j where "j < length xs" "xs ! j = y" using y by (auto simp: in_set_conv_nth)
    then have "0 = Suc j" using Cons.prems rp eq unfolding slots_inj_def
      by (metis length_Cons nth_Cons_0 nth_Cons_Suc Suc_less_eq zero_less_Suc)
    then show False by simp
  qed
  ultimately show ?case using Cons.IH by force
qed simp

lemma lt_grow_ok:
  assumes ok: "slots_ok (lt_slots t)" and small: "length (lt_slots t) < 2 ^ 31"
  shows "\<exists>ns. lt_grow t = Some (t\<lparr>lt_slots := ns\<rparr>) \<and> slots_ok ns \<and> length ns = length (lt_slots t) * 2
    \<and> slots_map ns = slots_map (lt_slots t) \<and> (\<exists>j<length ns. fst (ns ! j) = kEmpty)"
proof -
  let ?s = "lt_slots t"
  obtain k where k: "length ?s = 2 ^ k" "1 \<le> k" using ok unfolding slots_ok_def cap_ok_def by blast
  have "k < 31" using small k(1) power_less_imp_less_exp [of 2 k 31] by simp
  then have "cap_ok (length ?s * 2)" using k unfolding cap_ok_def by (intro exI [of _ "Suc k"]) simp
  then have f: "slots_ok (fresh_slots (length ?s * 2))" "used_slots (fresh_slots (length ?s * 2)) = 0"
    "slots_map (fresh_slots (length ?s * 2)) = Map.empty"
    using fresh_ok by blast+
  have len: "length (fresh_slots (length ?s * 2)) = length ?s * 2" by (simp add: fresh_slots_def)
  have inj: "slots_inj ?s" using ok by (simp add: slots_ok_def)
  obtain ns where ns: "rehash_all ?s (fresh_slots (length ?s * 2)) = Some ns" "slots_ok ns"
    "length ns = length ?s * 2" "used_slots ns \<le> length ?s" "slots_map ns = slots_map ?s"
    using rehash_all_ok [OF f(1) _ slots_inj_distinct [OF inj]] f(2,3) len by (auto simp: slots_map_def)
  have "0 < length ?s" by (simp only: k(1)) simp
  then have "used_slots ns < length ns" using ns(3,4) by linarith
  then show ?thesis using ns used_room [of ns] by (intro exI [of _ ns]) (simp add: lt_grow_def)
qed

section \<open>The table as a map\<close>

text \<open>The cached best price is the extremum of the prices present.\<close>

definition extremum :: "bool \<Rightarrow> int set \<Rightarrow> int" where
  "extremum is_bid S = (if S = {} then worst is_bid else if is_bid then Max S else Min S)"

definition lt_map :: "level_table \<Rightarrow> int \<rightharpoonup> mlevel" where
  "lt_map t = slots_map (lt_slots t)"

definition lt_ok :: "level_table \<Rightarrow> bool" where
  "lt_ok t \<longleftrightarrow> slots_ok (lt_slots t) \<and> (\<forall>p\<in>dom (lt_map t). in_i64 p)
     \<and> lt_best t = extremum (lt_is_bid t) (dom (lt_map t))
     \<and> lt_count t = of_nat (card (dom (lt_map t)))"

lemma finite_lt_map [simp, intro]: "finite (dom (lt_map t))"
  by (simp add: lt_map_def slots_map_def finite_dom_map_of)

lemma lt_map_real: "p \<in> dom (lt_map t) \<Longrightarrow> real_price p"
  by (auto simp: lt_map_def slots_map_def dest!: map_of_SomeD)

lemma extremum_insert:
  assumes "finite S" "in_i64 p" "p \<noteq> kEmpty"
  shows "extremum b (insert p S) = (if better b p (extremum b S) then p else extremum b S)"
proof (cases "S = {}")
  case False
  then have "Max (insert p S) = max p (Max S)" "Min (insert p S) = min p (Min S)"
    using assms(1) by simp_all
  then show ?thesis using False by (simp add: extremum_def better_def max_def min_def del: Max_insert Min_insert Max_less_iff Min_gr_iff Max_le_iff Max_ge_iff Max_gr_iff Min_le_iff Min_ge_iff Min_less_iff)
next
  case True
  then show ?thesis using assms(2,3) by (simp add: extremum_def better_def worst_def in_i64_def kEmpty_def)
qed

lemma extremum_remove_other:
  assumes "finite S" "p \<in> S" "p \<noteq> extremum b S"
  shows "extremum b (S - {p}) = extremum b S"
proof -
  have ne: "S \<noteq> {}" using assms(2) by auto
  show ?thesis
  proof (cases b)
    case True
    have m: "Max S \<in> S - {p}" using assms ne True by (simp add: extremum_def)
    have "Max (S - {p}) = Max S" using m assms(1) by (intro Max_eqI) auto
    then show ?thesis using m ne True by (auto simp: extremum_def)
  next
    case False
    have m: "Min S \<in> S - {p}" using assms ne False by (simp add: extremum_def)
    have "Min (S - {p}) = Min S" using m assms(1) by (intro Min_eqI) auto
    then show ?thesis using m ne False by (auto simp: extremum_def)
  qed
qed

lemma rescan_fold:
  assumes "finite S" "\<forall>sl\<in>set sls. real_price (fst sl) \<longrightarrow> in_i64 (fst sl)"
  shows "fold (\<lambda>sl b. if real_price (fst sl) \<and> better is_bid (fst sl) b then fst sl else b) sls (extremum is_bid S)
    = extremum is_bid (S \<union> {p. real_price p \<and> p \<in> fst ` set sls})"
  using assms
proof (induction sls arbitrary: S)
  case (Cons sl sls)
  have step: "(if real_price (fst sl) \<and> better is_bid (fst sl) (extremum is_bid S) then fst sl else extremum is_bid S)
    = extremum is_bid (if real_price (fst sl) then insert (fst sl) S else S)"
    using Cons.prems by (auto simp: extremum_insert real_price_def)
  have "S \<union> {p. real_price p \<and> p \<in> fst ` set (sl # sls)} =
    (if real_price (fst sl) then insert (fst sl) S else S) \<union> {p. real_price p \<and> p \<in> fst ` set sls}"
    by auto
  then show ?case
    using Cons.IH [of "if real_price (fst sl) then insert (fst sl) S else S"] Cons.prems step by simp
qed simp

lemma dom_slots_map: "dom (slots_map s) = {p. real_price p \<and> p \<in> fst ` set s}"
  by (force simp: slots_map_def dom_map_of_conv_image_fst)

lemma rescan_best_eq:
  assumes "\<forall>p\<in>dom (lt_map t). in_i64 p"
  shows "rescan_best t = t\<lparr>lt_best := extremum (lt_is_bid t) (dom (lt_map t))\<rparr>"
  using rescan_fold [of "{}" "lt_slots t" "lt_is_bid t"] assms
  by (simp add: rescan_best_def lt_map_def dom_slots_map extremum_def)

lemma lt_new_ok: "lt_ok (lt_new b) \<and> lt_map (lt_new b) = Map.empty"
proof -
  have "cap_ok kInitCapacity" by (auto simp: cap_ok_def kInitCapacity_def intro!: exI [of _ 10])
  then show ?thesis using fresh_ok [of kInitCapacity]
    by (simp add: lt_ok_def lt_map_def lt_new_def extremum_def)
qed

lemma lt_find_map: "lt_ok t \<Longrightarrow> real_price p \<Longrightarrow> lt_find p t = lt_map t p"
  using lt_lookup_None [of t p] lt_lookup_map [of t p]
  by (cases "lt_lookup p t") (auto simp: lt_ok_def lt_find_def lt_map_def)

lemma lt_erase_ok:
  assumes ok: "lt_ok t" and p: "real_price p"
  shows "lt_ok (lt_erase p t) \<and> lt_map (lt_erase p t) = (lt_map t)(p := None) \<and> lt_is_bid (lt_erase p t) = lt_is_bid t"
proof (cases "lt_lookup p t")
  case None
  then have "lt_map t p = None" using ok p lt_lookup_None [of t p] by (simp add: lt_ok_def lt_map_def)
  then show ?thesis using ok None by (simp add: lt_erase_def fun_upd_idem)
next
  case (Some i)
  have s: "slots_ok (lt_slots t)" and i64: "\<forall>p\<in>dom (lt_map t). in_i64 p" using ok by (simp_all add: lt_ok_def)
  have i: "i < length (lt_slots t)" "fst (lt_slots t ! i) = p" using lt_lookup_Some [OF s p Some] by auto
  define t1 where "t1 = t\<lparr>lt_slots := (lt_slots t)[i := (kTombstone, snd (lt_slots t ! i))], lt_count := lt_count t - 1\<rparr>"
  have m: "lt_map t1 = (lt_map t)(p := None)"
    using slots_map_tomb [OF s i p] by (simp add: t1_def lt_map_def)
  have d: "dom (lt_map t1) = dom (lt_map t) - {p}" using m by auto
  have s1: "slots_ok (lt_slots t1)" using slots_ok_tomb [OF s i(1)] by (simp add: t1_def)
  have pin: "p \<in> dom (lt_map t)" using lt_lookup_map [OF s p Some] by (auto simp: lt_map_def)
  have "card (dom (lt_map t)) = Suc (card (dom (lt_map t1)))" using pin d card.remove by (metis finite_lt_map)
  then have "of_nat (card (dom (lt_map t))) - 1 = (of_nat (card (dom (lt_map t1))) :: u64)" by simp
  then have c: "lt_count t1 = of_nat (card (dom (lt_map t1)))" using ok by (simp add: t1_def lt_ok_def del: of_nat_Suc)
  have e: "lt_erase p t = (if p = lt_best t then rescan_best t1 else t1)"
    using Some by (simp add: lt_erase_def t1_def)
  show ?thesis
  proof (cases "p = lt_best t")
    case True
    have "rescan_best t1 = t1\<lparr>lt_best := extremum (lt_is_bid t1) (dom (lt_map t1))\<rparr>"
      using i64 d by (intro rescan_best_eq) auto
    then show ?thesis using True e m s1 c d i64 by (simp add: lt_ok_def lt_map_def) (simp add: t1_def)
  next
    case False
    have "lt_best t1 = extremum (lt_is_bid t1) (dom (lt_map t1))"
      using ok False extremum_remove_other [OF finite_lt_map pin, of "lt_is_bid t"] d by (simp add: lt_ok_def t1_def)
    then show ?thesis using False e m s1 c d i64 by (simp add: lt_ok_def) (simp add: t1_def)
  qed
qed

text \<open>The step of \<open>lt_ref\<close> that fills a slot.\<close>

lemma lt_fill_ok:
  assumes ok: "lt_ok t" and so: "slots_ok ns" and sm: "slots_map ns = lt_map t"
    and d: "d < length ns" and path: "open_path ns p d" and free: "\<not> real_price (fst (ns ! home ns p d))"
    and new: "lt_map t p = None" and p: "real_price p" "in_i64 p"
    and t': "t' = lift_best p (t\<lparr>lt_slots := ns[home ns p d := (p, new_level)], lt_count := lt_count t + 1\<rparr>)"
  shows "lt_ok t' \<and> lt_map t' = (lt_map t)(p \<mapsto> new_level) \<and> lt_is_bid t' = lt_is_bid t
    \<and> home ns p d < length (lt_slots t') \<and> fst (lt_slots t' ! home ns p d) = p"
proof -
  have lt: "home ns p d < length ns" by (rule home_lt [OF so])
  have new': "slots_map ns p = None" using new sm by simp
  have sl: "lt_slots t' = ns[home ns p d := (p, new_level)]" and bid: "lt_is_bid t' = lt_is_bid t"
    and cnt: "lt_count t' = lt_count t + 1"
    and best: "lt_best t' = (if better (lt_is_bid t) p (lt_best t) then p else lt_best t)"
    by (simp_all add: t' lift_best_def)
  have s': "slots_ok (lt_slots t')"
    unfolding sl by (rule slots_ok_put [OF so d path free new' p(1)])
  have m: "lt_map t' = (lt_map t)(p \<mapsto> new_level)"
    unfolding lt_map_def sl using slots_map_new [OF so d path free new' p(1)] sm by (simp add: lt_map_def)
  have dm: "dom (lt_map t') = insert p (dom (lt_map t))" by (simp add: m)
  have "card (dom (lt_map t')) = Suc (card (dom (lt_map t)))"
    using new by (simp add: dm card_insert_if domIff)
  then have "lt_count t' = of_nat (card (dom (lt_map t')))" using ok by (simp add: cnt lt_ok_def)
  moreover have "lt_best t' = extremum (lt_is_bid t') (dom (lt_map t'))"
    using ok p extremum_insert [OF finite_lt_map p(2), where b = "lt_is_bid t"]
    by (simp add: best bid dm lt_ok_def real_price_def)
  ultimately have "lt_ok t'" using ok s' p(2) by (simp add: lt_ok_def dm)
  then show ?thesis using m bid sl lt by simp
qed

text \<open>A probe that ends at a free slot: the price is not in the table, and the slot it may go to is on its path.\<close>

lemma probe_end_absent:
  assumes s: "slots_ok s" and p: "real_price p" and e: "e < length s" "fst (s ! home s p e) = kEmpty" "\<forall>e'<e. fst (s ! home s p e') \<noteq> p"
  shows "slots_map s p = None"
proof (rule ccontr)
  assume "slots_map s p \<noteq> None"
  then obtain j where j: "j < length s" "fst (s ! j) = p"
    using slots_map_None [OF _ p, of s] s by (auto simp: slots_ok_def)
  obtain d where d: "d < length s" "home s p d = j" using home_surj [OF s j(1)] by blast
  then have "open_path s p d" using s p j(2) by (simp add: slots_ok_def chains_ok_def)
  then have "\<not> e < d" using e(2) by (auto simp: open_path_def)
  moreover have "d \<noteq> e" using d(2) j(2) e(2) p by (auto simp: real_price_def)
  ultimately show False using e(3) d(2) j(2) by (metis nat_neq_iff)
qed

lemma probe_end_free:
  assumes e: "e < length s" "i = home s p e" "open_path s p e" "fst (s ! i) = kEmpty"
    and ft: "ft = length s \<or> (\<exists>e'<e. ft = home s p e' \<and> fst (s ! ft) = kTombstone)"
  shows "\<exists>d<length s. (if ft \<noteq> length s then ft else i) = home s p d \<and> open_path s p d \<and> \<not> real_price (fst (s ! home s p d))"
proof (cases "ft = length s")
  case True
  then show ?thesis using e by (auto simp: real_price_def)
next
  case False
  then obtain e' where e': "e' < e" "ft = home s p e'" "fst (s ! ft) = kTombstone" using ft by blast
  then show ?thesis using e(1,3) False by (intro exI [of _ e']) (auto simp: real_price_def open_path_def)
qed

lemma lt_ref_ok:
  assumes ok: "lt_ok t" and p: "real_price p" "in_i64 p" and small: "length (lt_slots t) < 2 ^ 31"
  shows "\<exists>i t'. lt_ref p t = Some (i, t') \<and> lt_ok t' \<and> i < length (lt_slots t') \<and> fst (lt_slots t' ! i) = p
    \<and> lt_is_bid t' = lt_is_bid t
    \<and> lt_map t' = (if lt_map t p = None then (lt_map t)(p \<mapsto> new_level) else lt_map t)"
proof -
  let ?s = "lt_slots t"
  have s: "slots_ok ?s" using ok by (simp add: lt_ok_def)
  have inj: "slots_inj ?s" using s by (simp add: slots_ok_def)
  obtain found i ft full where r: "seek ?s p (length ?s) (probe_at (length ?s) p) (length ?s) = (found, i, ft, full)"
    by (metis prod_cases4)
  note spec = seek_spec [OF s, of 0 "length ?s" p "length ?s" found i ft full, simplified home_0 [OF s], simplified, OF r]
  consider (found) "found" | (full) "\<not> found" "full" | (room) "\<not> found" "\<not> full" by blast
  then show ?thesis
  proof cases
    case found
    then have i: "i < length ?s" "fst (?s ! i) = p" using spec by simp_all
    have m: "lt_map t p \<noteq> None" using slots_map_at [OF inj i p(1)] by (simp add: lt_map_def)
    then have ins: "insert p (dom (lt_map t)) = dom (lt_map t)" by auto
    have "extremum (lt_is_bid t) (insert p (dom (lt_map t))) = (if better (lt_is_bid t) p (extremum (lt_is_bid t) (dom (lt_map t)))
        then p else extremum (lt_is_bid t) (dom (lt_map t)))"
      using p by (intro extremum_insert) (simp_all add: real_price_def)
    then have "\<not> better (lt_is_bid t) p (lt_best t)"
      using ok unfolding ins by (auto simp: lt_ok_def better_def split: if_splits)
    then have "lift_best p t = t" by (simp add: lift_best_def)
    then show ?thesis using found i ok m r by (auto simp: lt_ref_def)
  next
    case full
    then have no: "lt_map t p = None" using spec slots_map_None [OF inj p(1)] by (simp add: lt_map_def)
    obtain ns where g: "lt_grow t = Some (t\<lparr>lt_slots := ns\<rparr>)" "slots_ok ns" "slots_map ns = lt_map t"
      "\<exists>j<length ns. fst (ns ! j) = kEmpty"
      using lt_grow_ok [OF s small] by (auto simp: lt_map_def)
    obtain e where e: "e < length ns" "first_empty ns (probe_at (length ns) p) = Some (home ns p e)"
      "fst (ns ! home ns p e) = kEmpty" "open_path ns p e"
      using first_empty_ok [OF g(2,4)] by blast
    have free: "\<not> real_price (fst (ns ! home ns p e))" using e(3) by (simp add: real_price_def)
    show ?thesis
      using lt_fill_ok [OF ok g(2,3) e(1,4) free no p refl] full r g(1) e(2) no by (simp add: lt_ref_def)
  next
    case room
    then obtain e where e: "e < length ?s" "i = home ?s p e" "open_path ?s p e" "\<forall>e'<e. fst (?s ! home ?s p e') \<noteq> p"
      "fst (?s ! i) = kEmpty" "ft = length ?s \<or> (\<exists>e'<e. ft = home ?s p e' \<and> fst (?s ! ft) = kTombstone)"
      using spec by auto
    have no: "lt_map t p = None" using probe_end_absent [OF s p(1) e(1) _ e(4)] e(2,5) by (simp add: lt_map_def)
    define ins where "ins = (if ft \<noteq> length ?s then ft else i)"
    obtain d where d: "d < length ?s" "ins = home ?s p d" "open_path ?s p d" "\<not> real_price (fst (?s ! home ?s p d))"
      using probe_end_free [OF e(1,2,3,5,6)] unfolding ins_def by blast
    have "lt_ref p t = Some (ins, lift_best p (t\<lparr>lt_slots := ?s[ins := (p, new_level)], lt_count := lt_count t + 1\<rparr>))"
      using room r by (simp add: lt_ref_def ins_def)
    then show ?thesis
      using lt_fill_ok [OF ok s _ d(1,3,4) no p refl] no d(2) by (simp add: lt_map_def)
  qed
qed

text \<open>A write through the reference changes one level.\<close>

lemma lt_set_ok:
  assumes ok: "lt_ok t" and i: "i < length (lt_slots t)" "fst (lt_slots t ! i) = p" and p: "real_price p"
  shows "lt_ok (lt_set i l t) \<and> lt_map (lt_set i l t) = (lt_map t)(p \<mapsto> l) \<and> lt_is_bid (lt_set i l t) = lt_is_bid t
    \<and> lt_map t p = Some (lt_at i t)"
proof -
  have s: "slots_ok (lt_slots t)" using ok by (simp add: lt_ok_def)
  have at: "lt_map t p = Some (lt_at i t)"
    using slots_map_at [OF _ i p] s by (simp add: lt_map_def lt_at_def slots_ok_def)
  have m: "lt_map (lt_set i l t) = (lt_map t)(p \<mapsto> l)"
    using slots_map_level [OF s i p, of l] i(2) by (simp add: lt_map_def lt_set_def)
  have "dom (lt_map (lt_set i l t)) = dom (lt_map t)" using m at by auto
  moreover have "slots_ok (lt_slots (lt_set i l t))" using slots_ok_level [OF s i(1), of l] by (simp add: lt_set_def)
  ultimately show ?thesis using ok m at by (simp add: lt_ok_def) (simp add: lt_set_def)
qed

lemma lt_empty_iff:
  assumes "lt_ok t" "card (dom (lt_map t)) < 2 ^ 64"
  shows "lt_empty t \<longleftrightarrow> lt_map t = Map.empty"
proof -
  have "unat (of_nat (card (dom (lt_map t))) :: u64) = card (dom (lt_map t))"
    using assms(2) by (intro of_nat_inverse) simp_all
  then have "(of_nat (card (dom (lt_map t))) = (0 :: u64)) \<longleftrightarrow> card (dom (lt_map t)) = 0"
    by (subst unat_zero_iff [symmetric]) (simp only:)
  then show ?thesis using assms(1) by (simp add: lt_ok_def lt_empty_def)
qed

section \<open>Moves\<close>

text \<open>
  Move construction and assignment: the new table and what is left of the old one, a table without
  slots. \<open>same\<close> is self-assignment.
\<close>

definition lt_move :: "level_table \<Rightarrow> level_table \<times> level_table" where
  [code_eval]: "lt_move o' = (o', o'\<lparr>lt_slots := [], lt_count := 0\<rparr>)"

definition lt_move_assign :: "bool \<Rightarrow> level_table \<Rightarrow> level_table \<Rightarrow> level_table \<times> level_table" where
  [code_eval]: "lt_move_assign same t o' = (if same then (t, t) else lt_move o')"

text \<open>The content goes over; a moved-from table is empty and must not be written: it has no slot to find.\<close>

lemma lt_move_map: "lt_move o' = (t, o2) \<Longrightarrow> lt_map t = lt_map o' \<and> lt_map o2 = Map.empty"
  by (auto simp: lt_move_def lt_map_def slots_map_def)

end
