(* ===== verification/Mkt_Book.thy ===== *)
theory Mkt_Book
  imports Core_Memory Price_Table
begin

text \<open>
  The market data order book (\<open>src/market/book/order_book.h\<close>): it rebuilds the resting orders of one
  symbol from a feed, without matching. A level is a doubly linked list of pool slots, the newest
  first; the two sides are price level tables. The record is the C++ object with the shared pool and
  index its references denote. An \<open>OrderSlot*\<close> is the index of its slot.
\<close>

section \<open>State\<close>

record slot_view =
  sv_order_ref :: u64
  sv_side :: order_side
  sv_price :: int
  sv_shares :: u64
  sv_remaining :: u64
  sv_sequence :: u64

record mkt_book =
  mb_pool :: slot_pool_t
  mb_index :: slot_index
  mb_bids :: level_table
  mb_asks :: level_table

definition mkt_new :: "slot_pool_t \<Rightarrow> slot_index \<Rightarrow> mkt_book" where
  [code_eval]: "mkt_new pool ix = \<lparr>mb_pool = pool, mb_index = ix, mb_bids = lt_new True, mb_asks = lt_new False\<rparr>"

text \<open>\<open>(side == OrderSide::BUY) ? bids_ : asks_\<close>.\<close>

definition side_table :: "order_side \<Rightarrow> mkt_book \<Rightarrow> level_table" where
  [code_eval]: "side_table sd b = (if sd = OS_BUY then mb_bids b else mb_asks b)"

definition set_side_table :: "order_side \<Rightarrow> level_table \<Rightarrow> mkt_book \<Rightarrow> mkt_book" where
  [code_eval]: "set_side_table sd t b = (if sd = OS_BUY then b\<lparr>mb_bids := t\<rparr> else b\<lparr>mb_asks := t\<rparr>)"

section \<open>Changing the book\<close>

definition mkt_add :: "u64 \<Rightarrow> order_side \<Rightarrow> int \<Rightarrow> u64 \<Rightarrow> u64 \<Rightarrow> mkt_book \<Rightarrow> (u32 \<times> mkt_book) option" where
  [code_eval]: "mkt_add order_ref sd price shares seqno b = do {
     (s, p0) \<leftarrow> slot_allocate (mb_pool b);
     case s of
       None \<Rightarrow> Some (UINT32_MAX, b\<lparr>mb_pool := p0\<rparr>)
     | Some idx \<Rightarrow> do {
         p1 \<leftarrow> pool_put idx (\<lambda>o'. o'\<lparr>so_order_ref := order_ref, so_side := sd, so_price := price,
           so_shares := shares, so_remaining := shares, so_sequence := seqno,
           prev_idx := UINT32_MAX, next_idx := UINT32_MAX\<rparr>) p0;
         (i, t) \<leftarrow> lt_ref price (side_table sd b);
         let lvl = lt_at i t;
         p2 \<leftarrow> (if ml_head lvl \<noteq> UINT32_MAX then do {
                  p2 \<leftarrow> pool_put (ml_head lvl) (\<lambda>h. h\<lparr>prev_idx := idx\<rparr>) p1;
                  pool_put idx (\<lambda>o'. o'\<lparr>next_idx := ml_head lvl\<rparr>) p2
                }
                else Some p1);
         let lvl1 = lvl\<lparr>ml_head := idx,
           ml_tail := (if ml_tail lvl = UINT32_MAX then idx else ml_tail lvl),
           ml_count := ml_count lvl + 1, ml_total := ml_total lvl + ucast shares\<rparr>;
         ix \<leftarrow> slot_insert order_ref (Some idx) (mb_index b);
         Some (idx, set_side_table sd (lt_set i lvl1 t) (b\<lparr>mb_pool := p2, mb_index := ix\<rparr>))
       }
   }"

definition unlink_and_free :: "u32 \<Rightarrow> mkt_book \<Rightarrow> mkt_book option" where
  [code_eval]: "unlink_and_free idx b = do {
     s \<leftarrow> slot_at (mb_pool b) idx;
     (i, t) \<leftarrow> lt_ref (so_price s) (side_table (so_side s) b);
     let lvl = lt_at i t;
     p1 \<leftarrow> (if prev_idx s \<noteq> UINT32_MAX
            then pool_put (prev_idx s) (\<lambda>o'. o'\<lparr>next_idx := next_idx s\<rparr>) (mb_pool b)
            else Some (mb_pool b));
     let lvl1 = (if prev_idx s \<noteq> UINT32_MAX then lvl else lvl\<lparr>ml_head := next_idx s\<rparr>);
     p2 \<leftarrow> (if next_idx s \<noteq> UINT32_MAX
            then pool_put (next_idx s) (\<lambda>o'. o'\<lparr>prev_idx := prev_idx s\<rparr>) p1
            else Some p1);
     let lvl2 = (if next_idx s \<noteq> UINT32_MAX then lvl1 else lvl1\<lparr>ml_tail := prev_idx s\<rparr>);
     let lvl3 = lvl2\<lparr>ml_count := ml_count lvl2 - 1, ml_total := ml_total lvl2 - ucast (so_shares s)\<rparr>;
     let t1 = lt_set i lvl3 t;
     let t2 = (if ml_count lvl3 = 0 then lt_erase (so_price s) t1 else t1);
     p3 \<leftarrow> slot_deallocate idx p2;
     Some (set_side_table (so_side s) t2 (b\<lparr>mb_pool := p3\<rparr>))
   }"

definition dec_level_qty :: "order_side \<Rightarrow> int \<Rightarrow> u64 \<Rightarrow> mkt_book \<Rightarrow> mkt_book option" where
  [code_eval]: "dec_level_qty sd price shares b = do {
     (i, t) \<leftarrow> lt_ref price (side_table sd b);
     let lvl = lt_at i t;
     let lvl1 = lvl\<lparr>ml_total := ml_total lvl - ucast shares\<rparr>;
     let t1 = lt_set i lvl1 t;
     let t2 = (if ml_total lvl1 = 0 then lt_erase price t1 else t1);
     Some (set_side_table sd t2 b)
   }"

definition mkt_erase_ref :: "u64 \<Rightarrow> mkt_book \<Rightarrow> mkt_book option" where
  [code_eval]: "mkt_erase_ref order_ref b = do {
     ix \<leftarrow> slot_erase order_ref (mb_index b);
     Some (b\<lparr>mb_index := ix\<rparr>)
   }"

definition mkt_remove :: "u64 \<Rightarrow> mkt_book \<Rightarrow> (bool \<times> mkt_book) option" where
  [code_eval]: "mkt_remove order_ref b = do {
     r \<leftarrow> slot_find (mb_index b) order_ref;
     case r of
       None \<Rightarrow> Some (False, b)
     | Some idx \<Rightarrow> do {
         b1 \<leftarrow> unlink_and_free idx b;
         b2 \<leftarrow> mkt_erase_ref order_ref b1;
         Some (True, b2)
       }
   }"

text \<open>The common body of \<open>cancel\<close> and \<open>execute\<close>: the quantity is clamped to what is left.\<close>

definition reduce_slot :: "u64 \<Rightarrow> u32 \<Rightarrow> u64 \<Rightarrow> mkt_book \<Rightarrow> mkt_book option" where
  [code_eval]: "reduce_slot order_ref idx qty b = do {
     s \<leftarrow> slot_at (mb_pool b) idx;
     let q = (if qty > so_remaining s then so_remaining s else qty);
     p1 \<leftarrow> pool_put idx (\<lambda>o'. o'\<lparr>so_remaining := so_remaining o' - q\<rparr>) (mb_pool b);
     b1 \<leftarrow> dec_level_qty (so_side s) (so_price s) q (b\<lparr>mb_pool := p1\<rparr>);
     if so_remaining s - q = 0 then do {
       b2 \<leftarrow> unlink_and_free idx b1;
       mkt_erase_ref order_ref b2
     }
     else Some b1
   }"

definition mkt_cancel :: "u64 \<Rightarrow> u64 \<Rightarrow> mkt_book \<Rightarrow> (bool \<times> mkt_book) option" where
  [code_eval]: "mkt_cancel order_ref cancelled_shares b = do {
     r \<leftarrow> slot_find (mb_index b) order_ref;
     case r of
       None \<Rightarrow> Some (False, b)
     | Some idx \<Rightarrow> do {
         b1 \<leftarrow> reduce_slot order_ref idx cancelled_shares b;
         Some (True, b1)
       }
   }"

definition mkt_execute :: "u64 \<Rightarrow> u64 \<Rightarrow> mkt_book \<Rightarrow> (bool \<times> mkt_book) option" where
  [code_eval]: "mkt_execute order_ref executed_shares b = do {
     r \<leftarrow> slot_find (mb_index b) order_ref;
     case r of
       None \<Rightarrow> Some (False, b)
     | Some idx \<Rightarrow> do {
         b1 \<leftarrow> reduce_slot order_ref idx executed_shares b;
         Some (True, b1)
       }
   }"

definition mkt_replace :: "u64 \<Rightarrow> u64 \<Rightarrow> order_side \<Rightarrow> int \<Rightarrow> u64 \<Rightarrow> u64 \<Rightarrow> mkt_book \<Rightarrow> (bool \<times> mkt_book) option" where
  [code_eval]: "mkt_replace old_ref new_ref sd new_price new_shares new_sequence b = do {
     r \<leftarrow> slot_find (mb_index b) old_ref;
     case r of
       None \<Rightarrow> Some (False, b)
     | Some idx \<Rightarrow> do {
         s \<leftarrow> slot_at (mb_pool b) idx;
         let seqno = (if new_sequence \<noteq> 0 then new_sequence else so_sequence s);
         (_, b1) \<leftarrow> mkt_remove old_ref b;
         (idx', b2) \<leftarrow> mkt_add new_ref sd new_price new_shares seqno b1;
         Some (idx' \<noteq> UINT32_MAX, b2)
       }
   }"

section \<open>Queries\<close>

text \<open>\<open>get\<close>: \<open>None\<close> is the result \<open>false\<close>.\<close>

definition mkt_get :: "u64 \<Rightarrow> mkt_book \<Rightarrow> slot_view option option" where
  [code_eval]: "mkt_get order_ref b = do {
     r \<leftarrow> slot_find (mb_index b) order_ref;
     case r of
       None \<Rightarrow> Some None
     | Some idx \<Rightarrow> do {
         s \<leftarrow> slot_at (mb_pool b) idx;
         Some (Some \<lparr>sv_order_ref = so_order_ref s, sv_side = so_side s, sv_price = so_price s,
           sv_shares = so_shares s, sv_remaining = so_remaining s, sv_sequence = so_sequence s\<rparr>)
       }
   }"

definition side_of :: "u64 \<Rightarrow> mkt_book \<Rightarrow> order_side option" where
  [code_eval]: "side_of order_ref b = do {
     r \<leftarrow> slot_find (mb_index b) order_ref;
     case r of
       None \<Rightarrow> Some OS_NONE
     | Some idx \<Rightarrow> do { s \<leftarrow> slot_at (mb_pool b) idx; Some (so_side s) }
   }"

definition best_bid :: "mkt_book \<Rightarrow> int" where
  [code_eval]: "best_bid b = (if lt_empty (mb_bids b) then -1 else lt_best (mb_bids b))"

definition best_ask :: "mkt_book \<Rightarrow> int" where
  [code_eval]: "best_ask b = (if lt_empty (mb_asks b) then -1 else lt_best (mb_asks b))"

definition bid_volume_at :: "int \<Rightarrow> mkt_book \<Rightarrow> u64" where
  [code_eval]: "bid_volume_at price b = (case lt_find price (mb_bids b) of None \<Rightarrow> 0 | Some l \<Rightarrow> ucast (ml_total l))"

definition ask_volume_at :: "int \<Rightarrow> mkt_book \<Rightarrow> u64" where
  [code_eval]: "ask_volume_at price b = (case lt_find price (mb_asks b) of None \<Rightarrow> 0 | Some l \<Rightarrow> ucast (ml_total l))"

definition best_bid_volume :: "mkt_book \<Rightarrow> u64" where
  [code_eval]: "best_bid_volume b = best_qty (mb_bids b)"

definition best_ask_volume :: "mkt_book \<Rightarrow> u64" where
  [code_eval]: "best_ask_volume b = best_qty (mb_asks b)"

definition bid_levels :: "mkt_book \<Rightarrow> u64" where
  [code_eval]: "bid_levels b = lt_count (mb_bids b)"

definition ask_levels :: "mkt_book \<Rightarrow> u64" where
  [code_eval]: "ask_levels b = lt_count (mb_asks b)"

definition mkt_empty :: "mkt_book \<Rightarrow> bool" where
  [code_eval]: "mkt_empty b \<longleftrightarrow> lt_empty (mb_bids b) \<and> lt_empty (mb_asks b)"

definition pool_usage :: "mkt_book \<Rightarrow> u64" where
  [code_eval]: "pool_usage b = pool_size (mb_pool b)"

end
