(* ===== verification/Mkt_Inv.thy ===== *)
theory Mkt_Inv
  imports Mkt_Book
begin

text \<open>
  The representation invariant of the market book and its preservation by each operation. A ghost
  \<open>g bid p\<close> gives the slots of the level at price \<open>p\<close> of a side, newest first, and \<open>D bid p\<close> what
  the level's volume is short of the quantity resting there: \<open>unlink_and_free\<close> subtracts the original
  quantity of an order, so every share executed or cancelled before is deducted a second time.
\<close>

section \<open>Levels\<close>

text \<open>The casts to 32 bits commute with the arithmetic.\<close>

lemma ucast32_minus: "(ucast (a - b :: u64) :: u32) = ucast a - ucast b"
proof -
  have "take_bit 32 (take_bit 64 (x - y)) = take_bit 32 (take_bit 64 x - take_bit 64 y)" for x y :: int
  proof -
    have "take_bit 32 (take_bit 64 x - take_bit 64 y) = take_bit 32 (take_bit 32 (take_bit 64 x) - take_bit 32 (take_bit 64 y))"
      by (simp only: take_bit_diff)
    then show ?thesis by (simp add: take_bit_diff)
  qed
  then show ?thesis by transfer simp
qed

definition mlevel_ok :: "order_slot list \<Rightarrow> bool \<Rightarrow> int \<Rightarrow> u32 \<Rightarrow> mlevel \<Rightarrow> u32 list \<Rightarrow> bool" where
  "mlevel_ok s bid p d l xs \<longleftrightarrow>
     xs \<noteq> [] \<and> distinct xs \<and> dll (nxt s) (prv s) UINT32_MAX xs UINT32_MAX \<and>
     ml_head l = hd xs \<and> ml_tail l = last xs \<and> ml_count l = of_nat (length xs) \<and>
     ml_total l = (\<Sum>i\<leftarrow>xs. ucast (so_remaining (body s i))) - d \<and>
     (\<forall>i\<in>set xs. unat i < length s \<and> i \<noteq> UINT32_MAX \<and> so_price (body s i) = p \<and> (so_side (body s i) = OS_BUY) = bid)"

lemma mlevel_ok_agree:
  assumes "agree s s' (set xs)"
  shows "mlevel_ok s' bid p d l xs = mlevel_ok s bid p d l xs"
proof -
  have "dll (nxt s') (prv s') UINT32_MAX xs UINT32_MAX = dll (nxt s) (prv s) UINT32_MAX xs UINT32_MAX"
    using assms by (intro dll_cong) (auto simp: agree_def)
  moreover have "(\<Sum>i\<leftarrow>xs. (ucast (so_remaining (body s' i)) :: u32)) = (\<Sum>i\<leftarrow>xs. ucast (so_remaining (body s i)))"
    using assms by (intro arg_cong [of _ _ sum_list] map_cong) (auto simp: agree_def)
  ultimately show ?thesis using assms unfolding mlevel_ok_def agree_def by auto
qed

lemma mlevel_count:
  assumes "mlevel_ok s bid p d l xs" "length s < 2 ^ 32"
  shows "unat (ml_count l) = length xs"
proof -
  have "length xs < 2 ^ 32" using slots_bound [of xs "length s"] assms by (auto simp: mlevel_ok_def)
  then show ?thesis using assms(1) by (simp add: mlevel_ok_def)
qed

lemma mlevel_push:
  assumes l: "mlevel_ok s bid p d l xs" and i: "i \<notin> set xs" "unat i < length s'" "i \<noteq> UINT32_MAX"
    and nx: "nxt s' = (nxt s)(i := hd xs)" and pv: "prv s' = (prv s)(hd xs := i, i := UINT32_MAX)"
    and bd: "body s' = (body s)(i := r)" and len: "length s' = length s"
    and r: "so_price r = p" "(so_side r = OS_BUY) = bid"
  shows "mlevel_ok s' bid p d (l\<lparr>ml_head := i, ml_count := ml_count l + 1,
    ml_total := ml_total l + ucast (so_remaining r)\<rparr>) (i # xs)"
proof -
  have "dll (nxt s') (prv s') UINT32_MAX (i # xs) UINT32_MAX"
    unfolding nx pv using l i by (intro dll_push) (auto simp: mlevel_ok_def)
  moreover have "(\<Sum>j\<leftarrow>xs. (ucast (so_remaining (body s' j)) :: u32)) = (\<Sum>j\<leftarrow>xs. ucast (so_remaining (body s j)))"
    using i bd by (intro arg_cong [of _ _ sum_list] map_cong) auto
  ultimately show ?thesis using l i r len bd by (auto simp: mlevel_ok_def)
qed

lemma mlevel_single:
  assumes "unat i < length s" "i \<noteq> UINT32_MAX" "body s i = r" "nxt s i = UINT32_MAX" "prv s i = UINT32_MAX"
    "so_price r = p" "(so_side r = OS_BUY) = bid"
  shows "mlevel_ok s bid p 0 \<lparr>ml_head = i, ml_tail = i, ml_count = 1, ml_total = ucast (so_remaining r)\<rparr> [i]"
  using assms by (auto simp: mlevel_ok_def)

lemma mlevel_unlink:
  assumes l: "mlevel_ok s bid p d l (as @ x # bs)" and ne: "as @ bs \<noteq> []"
    and nx: "\<And>y. y \<in> set as \<union> set bs \<Longrightarrow> nxt s' y = (if as \<noteq> [] \<and> y = last as then hd (bs @ [UINT32_MAX]) else nxt s y)"
    and pv: "\<And>y. y \<in> set as \<union> set bs \<Longrightarrow> prv s' y = (if bs \<noteq> [] \<and> y = hd bs then last (UINT32_MAX # as) else prv s y)"
    and bd: "\<And>y. y \<in> set as \<union> set bs \<Longrightarrow> body s' y = body s y" and len: "length s' = length s"
  shows "mlevel_ok s' bid p (d + (amt - ucast (so_remaining (body s x))))
    (l\<lparr>ml_head := (if as = [] then hd bs else ml_head l), ml_tail := (if bs = [] then last as else ml_tail l),
       ml_count := ml_count l - 1, ml_total := ml_total l - amt\<rparr>) (as @ bs)"
proof -
  have d: "dll (nxt s) (prv s) UINT32_MAX (as @ x # bs) UINT32_MAX" "distinct (as @ x # bs)"
    using l by (simp_all add: mlevel_ok_def)
  have "dll (nxt s') (prv s') UINT32_MAX (as @ bs) UINT32_MAX"
    by (rule dll_unlink [OF d]) (use nx pv in auto)
  moreover have "(\<Sum>i\<leftarrow>as @ bs. (ucast (so_remaining (body s' i)) :: u32)) = (\<Sum>i\<leftarrow>as @ bs. ucast (so_remaining (body s i)))"
    using bd by (intro arg_cong [of _ _ sum_list] map_cong) auto
  moreover have "(of_nat (length (as @ x # bs)) :: u32) - 1 = of_nat (length (as @ bs))" by simp
  moreover have "ml_total l - amt = (\<Sum>i\<leftarrow>as @ bs. ucast (so_remaining (body s i))) - (d + (amt - ucast (so_remaining (body s x))))"
    using l by (simp add: mlevel_ok_def algebra_simps)
  ultimately show ?thesis using l ne bd len unfolding mlevel_ok_def by auto
qed

lemma mlevel_reduce:
  assumes l: "mlevel_ok s bid p d l xs" and x: "x \<in> set xs"
    and nx: "nxt s' = nxt s" and pv: "prv s' = prv s" and len: "length s' = length s"
    and bd: "body s' = (body s)(x := r)"
    and r: "so_remaining r = so_remaining (body s x) - q" "q \<le> so_remaining (body s x)" "so_price r = p" "(so_side r = OS_BUY) = bid"
  shows "mlevel_ok s' bid p d (l\<lparr>ml_total := ml_total l - ucast q\<rparr>) xs"
proof -
  obtain as bs where xs: "xs = as @ x # bs" using x by (auto simp: in_set_conv_decomp)
  have "x \<notin> set as" "x \<notin> set bs" using l xs by (auto simp: mlevel_ok_def)
  then have "(\<Sum>i\<leftarrow>as. (ucast (so_remaining (body s' i)) :: u32)) = (\<Sum>i\<leftarrow>as. ucast (so_remaining (body s i)))"
    "(\<Sum>i\<leftarrow>bs. (ucast (so_remaining (body s' i)) :: u32)) = (\<Sum>i\<leftarrow>bs. ucast (so_remaining (body s i)))"
    using bd by (intro arg_cong [of _ _ sum_list] map_cong; auto)+
  moreover have "(ucast (so_remaining r) :: u32) = ucast (so_remaining (body s x)) - ucast q"
    by (simp only: r(1) ucast32_minus)
  ultimately have "(\<Sum>i\<leftarrow>xs. (ucast (so_remaining (body s' i)) :: u32)) = (\<Sum>i\<leftarrow>xs. ucast (so_remaining (body s i))) - ucast q"
    using bd by (simp add: xs algebra_simps)
  then show ?thesis using l nx pv len bd r(3,4) by (auto simp: mlevel_ok_def)
qed

section \<open>Table access\<close>

lemma lt_ref_present:
  assumes ok: "lt_ok t" and m: "lt_map t p = Some l"
  shows "\<exists>i. lt_ref p t = Some (i, t) \<and> lt_at i t = l \<and> i < length (lt_slots t) \<and> fst (lt_slots t ! i) = p"
proof -
  let ?s = "lt_slots t"
  have p: "real_price p" "in_i64 p" using lt_map_real [of p t] ok m by (auto simp: lt_ok_def)
  have s: "slots_ok ?s" using ok by (simp add: lt_ok_def)
  have inj: "slots_inj ?s" using s by (simp add: slots_ok_def)
  obtain j where j: "j < length ?s" "fst (?s ! j) = p"
    using slots_map_None [OF inj p(1)] m by (auto simp: lt_map_def)
  obtain found i ft full where r: "seek ?s p (length ?s) (probe_at (length ?s) p) (length ?s) = (found, i, ft, full)"
    by (metis prod_cases4)
  note spec = seek_spec [OF s, of 0 "length ?s" p "length ?s" found i ft full, simplified home_0 [OF s], simplified, OF r]
  have f: found
  proof (rule ccontr)
    assume nf: "\<not> found"
    show False
    proof (cases full)
      case True
      then show False using spec nf j by auto
    next
      case False
      then obtain e where e: "e < length ?s" "i = home ?s p e" "open_path ?s p e" "\<forall>e'<e. fst (?s ! home ?s p e') \<noteq> p"
        "fst (?s ! i) = kEmpty" using spec nf by auto
      obtain d where d: "d < length ?s" "home ?s p d = j" using home_surj [OF s j(1)] by blast
      then have "open_path ?s p d" using s p(1) j(2) by (simp add: slots_ok_def chains_ok_def)
      then have "\<not> e < d" using e(2,5) by (auto simp: open_path_def)
      moreover have "d \<noteq> e" using d(2) j(2) e(2,5) p(1) by (auto simp: real_price_def)
      ultimately show False using e(4) d(2) j(2) by (metis nat_neq_iff)
    qed
  qed
  then have i: "i < length ?s" "fst (?s ! i) = p" using spec by simp_all
  have "insert p (dom (lt_map t)) = dom (lt_map t)" using m by auto
  then have "extremum (lt_is_bid t) (dom (lt_map t)) = (if better (lt_is_bid t) p (extremum (lt_is_bid t) (dom (lt_map t)))
      then p else extremum (lt_is_bid t) (dom (lt_map t)))"
    using p extremum_insert [of "dom (lt_map t)" p "lt_is_bid t"] by (simp add: real_price_def)
  then have "\<not> better (lt_is_bid t) p (lt_best t)"
    using ok by (auto simp: lt_ok_def better_def split: if_splits)
  then have "lift_best p t = t" by (simp add: lift_best_def)
  then have "lt_ref p t = Some (i, t)" using r f by (simp add: lt_ref_def)
  moreover have "lt_at i t = l" using slots_map_at [OF inj i p(1)] m by (simp add: lt_map_def lt_at_def)
  ultimately show ?thesis using i by blast
qed

text \<open>What a handler does with a level: fetch the reference and write through it.\<close>

definition roomy :: "level_table \<Rightarrow> bool" where
  "roomy t \<longleftrightarrow> length (lt_slots t) < 2 ^ 31"

definition level_or_new :: "int \<Rightarrow> level_table \<Rightarrow> mlevel" where
  "level_or_new p t = (case lt_map t p of None \<Rightarrow> new_level | Some l \<Rightarrow> l)"

lemma lt_ref_write:
  assumes ok: "lt_ok t" and p: "real_price p" "in_i64 p" and room: "lt_map t p = None \<Longrightarrow> roomy t"
  shows "\<exists>i t1. lt_ref p t = Some (i, t1) \<and> lt_at i t1 = level_or_new p t \<and> lt_is_bid t1 = lt_is_bid t \<and>
    (lt_map t p \<noteq> None \<longrightarrow> t1 = t) \<and>
    (\<forall>l. lt_ok (lt_set i l t1) \<and> lt_map (lt_set i l t1) = (lt_map t)(p \<mapsto> l) \<and> lt_is_bid (lt_set i l t1) = lt_is_bid t)"
proof (cases "lt_map t p")
  case None
  obtain i t1 where r: "lt_ref p t = Some (i, t1)" "lt_ok t1" "i < length (lt_slots t1)" "fst (lt_slots t1 ! i) = p"
    "lt_is_bid t1 = lt_is_bid t" "lt_map t1 = (lt_map t)(p \<mapsto> new_level)"
    using lt_ref_ok [OF ok p] room None by (auto simp: roomy_def)
  have "lt_at i t1 = new_level" using lt_set_ok [OF r(2-4) p(1)] r(6) by simp
  then show ?thesis using r lt_set_ok [OF r(2-4) p(1)] None by (auto simp: level_or_new_def)
next
  case (Some l)
  obtain i where r: "lt_ref p t = Some (i, t)" "lt_at i t = l" "i < length (lt_slots t)" "fst (lt_slots t ! i) = p"
    using lt_ref_present [OF ok Some] by blast
  then show ?thesis using lt_set_ok [OF ok r(3,4) p(1)] Some by (auto simp: level_or_new_def)
qed

lemma roomy_set [simp]: "roomy (lt_set i l t) = roomy t"
  by (simp add: roomy_def lt_set_def)

lemma roomy_erase [simp]: "roomy (lt_erase p t) = roomy t"
  by (simp add: roomy_def lt_erase_def rescan_best_def Let_def split: option.split)

section \<open>Sides\<close>

definition mside_ok :: "order_slot list \<Rightarrow> bool \<Rightarrow> level_table \<Rightarrow> (int \<Rightarrow> u32 list) \<Rightarrow> (int \<Rightarrow> u32) \<Rightarrow> bool" where
  "mside_ok s bid t g D \<longleftrightarrow> lt_ok t \<and> lt_is_bid t = bid \<and>
     (\<forall>p. case lt_map t p of None \<Rightarrow> g p = [] \<and> D p = 0 | Some l \<Rightarrow> mlevel_ok s bid p (D p) l (g p))"

definition mslots :: "(int \<Rightarrow> u32 list) \<Rightarrow> u32 set" where
  "mslots g = (\<Union>p. set (g p))"

lemma mslots_upd: "mslots (g(p := xs)) = mslots (g(p := [])) \<union> set xs"
  by (auto simp: mslots_def split: if_splits)

lemma mslots_del: "mslots (g(p := [])) \<subseteq> mslots g"
  by (auto simp: mslots_def split: if_splits)

lemma mside_level:
  assumes "mside_ok s bid t g D" "g p \<noteq> []"
  obtains l where "lt_map t p = Some l" "mlevel_ok s bid p (D p) l (g p)"
  using assms that by (auto simp: mside_ok_def split: option.splits dest!: spec [of _ p])

lemma mside_none:
  assumes "mside_ok s bid t g D" "g p = []"
  shows "lt_map t p = None" "D p = 0"
  using assms by (auto simp: mside_ok_def mlevel_ok_def split: option.splits dest!: spec [of _ p])

lemma mside_slot:
  assumes "mside_ok s bid t g D" "i \<in> set (g p)"
  shows "so_price (body s i) = p" "(so_side (body s i) = OS_BUY) = bid" "unat i < length s" "i \<noteq> UINT32_MAX"
proof -
  have "g p \<noteq> []" using assms(2) by auto
  then obtain l where "mlevel_ok s bid p (D p) l (g p)" using mside_level [OF assms(1)] by blast
  then show "so_price (body s i) = p" "(so_side (body s i) = OS_BUY) = bid" "unat i < length s" "i \<noteq> UINT32_MAX"
    using assms(2) by (auto simp: mlevel_ok_def)
qed

lemma mside_agree:
  assumes "mside_ok s bid t g D" "agree s s' (mslots g)"
  shows "mside_ok s' bid t g D"
proof -
  have "mlevel_ok s' bid p d l (g p) = mlevel_ok s bid p d l (g p)" for p d l
    by (rule mlevel_ok_agree) (rule agree_mono [OF assms(2)], auto simp: mslots_def)
  then show ?thesis using assms(1) by (simp add: mside_ok_def cong: option.case_cong)
qed

lemma mside_put:
  assumes ok: "mside_ok s bid t g D" and agr: "agree s s' (mslots (g(p := [])))"
    and t': "lt_ok t'" "lt_is_bid t' = bid" "lt_map t' = (lt_map t)(p \<mapsto> l)" and lev: "mlevel_ok s' bid p d l xs"
  shows "mside_ok s' bid t' (g(p := xs)) (D(p := d))"
  unfolding mside_ok_def
proof (intro conjI allI t')
  fix q
  have "mlevel_ok s' bid q e k (g q) = mlevel_ok s bid q e k (g q)" if "q \<noteq> p" for e k
    by (rule mlevel_ok_agree) (rule agree_mono [OF agr], use that in \<open>auto simp: mslots_def\<close>)
  then show "case lt_map t' q of None \<Rightarrow> (g(p := xs)) q = [] \<and> (D(p := d)) q = 0
      | Some l \<Rightarrow> mlevel_ok s' bid q ((D(p := d)) q) l ((g(p := xs)) q)"
    using ok lev by (cases "q = p") (auto simp: t'(3) mside_ok_def split: option.splits dest: spec [of _ q])
qed

lemma mside_del:
  assumes ok: "mside_ok s bid t g D" and agr: "agree s s' (mslots (g(p := [])))"
    and t': "lt_ok t'" "lt_is_bid t' = bid" "lt_map t' = (lt_map t)(p := None)"
  shows "mside_ok s' bid t' (g(p := [])) (D(p := 0))"
  unfolding mside_ok_def
proof (intro conjI allI t')
  fix q
  have "mlevel_ok s' bid q e k (g q) = mlevel_ok s bid q e k (g q)" if "q \<noteq> p" for e k
    by (rule mlevel_ok_agree) (rule agree_mono [OF agr], use that in \<open>auto simp: mslots_def\<close>)
  then show "case lt_map t' q of None \<Rightarrow> (g(p := [])) q = [] \<and> (D(p := 0)) q = 0
      | Some l \<Rightarrow> mlevel_ok s' bid q ((D(p := 0)) q) l ((g(p := [])) q)"
    using ok by (cases "q = p") (auto simp: t'(3) mside_ok_def split: option.splits dest: spec [of _ q])
qed

section \<open>The book\<close>

type_synonym mghost = "bool \<Rightarrow> int \<Rightarrow> u32 list"
type_synonym drift = "bool \<Rightarrow> int \<Rightarrow> u32"

definition mlive :: "mghost \<Rightarrow> u32 set" where
  "mlive g = mslots (g True) \<union> mslots (g False)"

abbreviation mslot_array :: "mkt_book \<Rightarrow> order_slot list" where
  "mslot_array b \<equiv> storage (mb_pool b)"

definition mkt_ok :: "mkt_book \<Rightarrow> mghost \<Rightarrow> drift \<Rightarrow> u32 list \<Rightarrow> u32 set \<Rightarrow> bool" where
  "mkt_ok b g D F Oth \<longleftrightarrow> pool_ok (mb_pool b) F \<and>
     mside_ok (mslot_array b) True (mb_bids b) (g True) (D True) \<and>
     mside_ok (mslot_array b) False (mb_asks b) (g False) (D False) \<and>
     mlive g \<inter> Oth = {} \<and> (mlive g \<union> Oth) \<inter> set F = {} \<and> (\<forall>i\<in>Oth. unat i < length (mslot_array b)) \<and>
     order_map.indexes (mb_index b) (mlive g \<union> Oth) (\<lambda>i. so_order_ref (body (mslot_array b) i))"

text \<open>A side as a flag: \<open>NONE\<close> is filed with the asks.\<close>

abbreviation is_buy :: "order_side \<Rightarrow> bool" where
  "is_buy sd \<equiv> sd = OS_BUY"

lemma mkt_side:
  "mkt_ok b g D F Oth \<Longrightarrow> mside_ok (mslot_array b) (is_buy sd) (side_table sd b) (g (is_buy sd)) (D (is_buy sd))"
  by (cases "sd = OS_BUY") (auto simp: mkt_ok_def side_table_def)

lemma mlive_sides: "mlive g = mslots (g bid) \<union> mslots (g (\<not> bid))"
  by (cases bid) (auto simp: mlive_def)

lemma mkt_slot:
  assumes "mkt_ok b g D F Oth" "i \<in> set (g bid p)"
  shows "so_price (body (mslot_array b) i) = p" "is_buy (so_side (body (mslot_array b) i)) = bid"
    "unat i < length (mslot_array b)" "i \<noteq> UINT32_MAX" "i \<in> mlive g" "i \<notin> set F" "i \<notin> Oth"
proof -
  have s: "mside_ok (mslot_array b) bid (side_table (if bid then OS_BUY else OS_SELL) b) (g bid) (D bid)"
    using mkt_side [OF assms(1), of "if bid then OS_BUY else OS_SELL"] by (cases bid) auto
  show "so_price (body (mslot_array b) i) = p" "is_buy (so_side (body (mslot_array b) i)) = bid"
    "unat i < length (mslot_array b)" "i \<noteq> UINT32_MAX" using mside_slot [OF s assms(2)] by auto
  show l: "i \<in> mlive g" using assms(2) by (cases bid) (auto simp: mlive_def mslots_def)
  show "i \<notin> set F" "i \<notin> Oth" using l assms(1) by (auto simp: mkt_ok_def)
qed

lemma mkt_live:
  assumes "mkt_ok b g D F Oth" "i \<in> mlive g"
  shows "i \<in> set (g (is_buy (so_side (body (mslot_array b) i))) (so_price (body (mslot_array b) i)))"
proof -
  obtain bid p where "i \<in> set (g bid p)" using assms(2) by (auto simp: mlive_def mslots_def)
  with mkt_slot(1,2) [OF assms(1) this] show ?thesis by simp
qed

lemma mkt_disjoint:
  assumes "mkt_ok b g D F Oth"
  shows "mslots (g bid) \<inter> mslots (g (\<not> bid)) = {}"
proof -
  have False if "j \<in> set (g bid p)" "j \<in> set (g (\<not> bid) q)" for j p q
    using mkt_slot(2) [OF assms that(1)] mkt_slot(2) [OF assms that(2)] by simp
  then show ?thesis by (auto simp: mslots_def)
qed

lemma mkt_price_disjoint:
  assumes "mkt_ok b g D F Oth" "i \<in> set (g bid p)"
  shows "i \<notin> mslots ((g bid)(p := []))"
  using mkt_slot(1) [OF assms(1), of i bid] mkt_slot(1) [OF assms] by (auto simp: mslots_def split: if_splits)

lemma mkt_find:
  assumes "mkt_ok b g D F Oth" "i \<in> mlive g \<union> Oth"
  shows "slot_find (mb_index b) (so_order_ref (body (mslot_array b) i)) = Some (Some i)"
  unfolding slot_find_def
  by (rule order_map.indexes_look [where key = "\<lambda>i. so_order_ref (body (mslot_array b) i)"])
    (use assms in \<open>auto simp: mkt_ok_def\<close>)

lemma mkt_find_absent:
  assumes "mkt_ok b g D F Oth" "k \<notin> (\<lambda>i. so_order_ref (body (mslot_array b) i)) ` (mlive g \<union> Oth)"
  shows "slot_find (mb_index b) k = Some None"
  unfolding slot_find_def
  by (rule order_map.indexes_absent [OF _ assms(2)]) (use assms in \<open>auto simp: mkt_ok_def\<close>)

lemma mkt_inj:
  assumes "mkt_ok b g D F Oth" "i \<in> mlive g \<union> Oth" "j \<in> mlive g \<union> Oth"
    "so_order_ref (body (mslot_array b) i) = so_order_ref (body (mslot_array b) j)"
  shows "i = j"
  by (rule order_map.indexes_inj [where key = "\<lambda>i. so_order_ref (body (mslot_array b) i)"])
    (use assms in \<open>auto simp: mkt_ok_def\<close>)

lemma set_side_table_fields [simp]:
  "mb_pool (set_side_table sd t b) = mb_pool b" "mb_index (set_side_table sd t b) = mb_index b"
  "side_table sd (set_side_table sd t b) = t"
  by (simp_all add: set_side_table_def side_table_def)

text \<open>One bundle for the changed side, so that an operation only argues about its level.\<close>

lemma mkt_ok_upd:
  assumes ok: "mkt_ok b g D F Oth"
    and side: "mside_ok (mslot_array b') (is_buy sd) t (g' (is_buy sd)) (D' (is_buy sd))"
      "mslots (g' (is_buy sd)) \<union> mslots (g (is_buy sd)) \<subseteq> X"
    and tabs: "mb_bids b' = (if is_buy sd then t else mb_bids b)" "mb_asks b' = (if is_buy sd then mb_asks b else t)"
    and other: "g' (\<not> is_buy sd) = g (\<not> is_buy sd)" "D' (\<not> is_buy sd) = D (\<not> is_buy sd)"
      "agree (mslot_array b) (mslot_array b') (mlive g \<union> Oth - X)" "X \<inter> mslots (g (\<not> is_buy sd)) = {}" "X \<inter> Oth = {}"
    and pool: "pool_ok (mb_pool b') F'" "(mlive g' \<union> Oth) \<inter> set F' = {}"
    and idx: "order_map.indexes (mb_index b') (mlive g' \<union> Oth) (\<lambda>i. so_order_ref (body (mslot_array b') i))"
  shows "mkt_ok b' g' D' F' Oth \<and> agree (mslot_array b) (mslot_array b') Oth"
proof
  show a: "agree (mslot_array b) (mslot_array b') Oth"
    using other(3,5) by (rule_tac agree_mono) auto
  have ag: "agree (mslot_array b) (mslot_array b') (mslots (g (\<not> is_buy sd)))"
    by (rule agree_mono [OF other(3)]) (use other(4) mlive_sides [of g "is_buy sd"] in auto)
  have l: "length (mslot_array b') = length (mslot_array b)" using a by (simp add: agree_def)
  have "mlive g' \<inter> Oth = {}"
    using mlive_sides [of g "is_buy sd"] mlive_sides [of g' "is_buy sd"] side(2) other(1,5) ok by (auto simp: mkt_ok_def)
  then show "mkt_ok b' g' D' F' Oth"
    using side(1) tabs other(1,2) pool idx l ok mside_agree [OF _ ag]
    by (cases "sd = OS_BUY") (auto simp: mkt_ok_def)
qed

section \<open>Adding an order\<close>

definition level_ids :: "mghost \<Rightarrow> bool \<Rightarrow> int \<Rightarrow> u32 list \<Rightarrow> mghost" where
  "level_ids g bid p xs = g(bid := (g bid)(p := xs))"

definition set_drift :: "drift \<Rightarrow> bool \<Rightarrow> int \<Rightarrow> u32 \<Rightarrow> drift" where
  "set_drift D bid p d = D(bid := (D bid)(p := d))"

lemma level_ids_same [simp]: "level_ids g bid p xs bid = (g bid)(p := xs)" "level_ids g bid p xs (\<not> bid) = g (\<not> bid)"
  "set_drift D bid p d bid = (D bid)(p := d)" "set_drift D bid p d (\<not> bid) = D (\<not> bid)"
  by (simp_all add: level_ids_def set_drift_def)

lemma mlive_upd: "mlive (level_ids g bid p xs) = mslots ((g bid)(p := [])) \<union> set xs \<union> mslots (g (\<not> bid))"
  using mlive_sides [of "level_ids g bid p xs" bid] mslots_upd [of "g bid" p xs] by simp

lemma mlive_split: "mlive g = mslots ((g bid)(p := [])) \<union> set (g bid p) \<union> mslots (g (\<not> bid))"
  using mlive_upd [of g bid p "g bid p"] by (simp add: level_ids_def)

lemma mkt_add_full:
  assumes "mkt_ok b g D [] Oth"
  shows "mkt_add r sd p q sq b = Some (UINT32_MAX, b)"
proof -
  have "slot_allocate (mb_pool b) = Some (None, mb_pool b)"
    using assms market_pool.alloc_empty by (simp add: mkt_ok_def)
  then show ?thesis by (simp add: mkt_add_def)
qed

text \<open>The slot array after the writes of \<open>add\<close>.\<close>

definition filed :: "u64 \<Rightarrow> order_side \<Rightarrow> int \<Rightarrow> u64 \<Rightarrow> u64 \<Rightarrow> order_slot \<Rightarrow> order_slot" where
  "filed r sd p q sq o' = o'\<lparr>so_order_ref := r, so_side := sd, so_price := p, so_shares := q, so_remaining := q,
     so_sequence := sq, prev_idx := UINT32_MAX, next_idx := UINT32_MAX\<rparr>"

definition push_pool :: "u32 \<Rightarrow> (order_slot \<Rightarrow> order_slot) \<Rightarrow> u32 list \<Rightarrow> slot_pool_t \<Rightarrow> slot_pool_t" where
  "push_pool idx f xs pa = (let p1 = put_slot idx f pa in
     if xs = [] then p1 else put_slot idx (\<lambda>o'. o'\<lparr>next_idx := hd xs\<rparr>) (put_slot (hd xs) (\<lambda>h. h\<lparr>prev_idx := idx\<rparr>) p1))"

lemma push_pool_ok:
  assumes pa: "pool_ok pa F" and idx: "unat idx < length (storage pa)" "idx \<notin> set F" "idx \<notin> set xs"
    and xs: "\<forall>i\<in>set xs. unat i < length (storage pa)"
    and f: "f = filed r sd p q sq"
  shows "pool_ok (push_pool idx f xs pa) F" "length (storage (push_pool idx f xs pa)) = length (storage pa)"
    "nxt (storage (push_pool idx f xs pa)) = (nxt (storage pa))(idx := hd (xs @ [UINT32_MAX]))"
    "prv (storage (push_pool idx f xs pa)) = (if xs = [] then prv (storage pa) else (prv (storage pa))(hd xs := idx))(idx := UINT32_MAX)"
    "body (storage (push_pool idx f xs pa)) = (body (storage pa))(idx := strip (f (storage pa ! unat idx)))"
proof -
  let ?p1 = "put_slot idx f pa"
  have p1: "pool_ok ?p1 F" using pa idx by (intro put_slot_ok) auto
  note v1 = put_slot_views [OF idx(1), of f] put_slot_body [OF idx(1), of f]
  have fl: "next_idx (f o') = UINT32_MAX" "prev_idx (f o') = UINT32_MAX" for o' by (simp_all add: f filed_def)
  have "pool_ok (push_pool idx f xs pa) F \<and> length (storage (push_pool idx f xs pa)) = length (storage pa) \<and>
    nxt (storage (push_pool idx f xs pa)) = (nxt (storage pa))(idx := hd (xs @ [UINT32_MAX])) \<and>
    prv (storage (push_pool idx f xs pa)) = (if xs = [] then prv (storage pa) else (prv (storage pa))(hd xs := idx))(idx := UINT32_MAX) \<and>
    body (storage (push_pool idx f xs pa)) = (body (storage pa))(idx := strip (f (storage pa ! unat idx)))"
  proof (cases xs)
    case Nil
    then show ?thesis using p1 v1 fl by (simp add: push_pool_def)
  next
    case (Cons h hs)
    let ?p2 = "put_slot h (\<lambda>h. h\<lparr>prev_idx := idx\<rparr>) ?p1"
    let ?p3 = "put_slot idx (\<lambda>o'. o'\<lparr>next_idx := h\<rparr>) ?p2"
    have eq: "push_pool idx f xs pa = ?p3" using Cons by (simp add: push_pool_def)
    have h: "unat h < length (storage ?p1)" "h \<noteq> idx" using xs idx(3) Cons by auto
    have i2: "unat idx < length (storage ?p2)" using idx by simp
    note v2 = put_slot_views [OF h(1), of "\<lambda>h. h\<lparr>prev_idx := idx\<rparr>"] put_slot_body [OF h(1), of "\<lambda>h. h\<lparr>prev_idx := idx\<rparr>"]
    note v3 = put_slot_views [OF i2, of "\<lambda>o'. o'\<lparr>next_idx := h\<rparr>"] put_slot_body [OF i2, of "\<lambda>o'. o'\<lparr>next_idx := h\<rparr>"]
    have n1: "storage ?p1 ! unat h = storage pa ! unat h" using h idx by simp
    have n2: "storage ?p2 ! unat idx = f (storage pa ! unat idx)" using h idx by simp
    have p2: "pool_ok ?p2 F" by (rule put_slot_ok [OF p1 h(1)]) simp
    have p3: "pool_ok ?p3 F" by (rule put_slot_ok [OF p2 i2]) simp
    have "nxt (storage ?p3) = (nxt (storage pa))(idx := hd (xs @ [UINT32_MAX]))"
      unfolding v3 v2 v1 n1 n2 using Cons h fl by (auto simp: fun_eq_iff nxt_def)
    moreover have "prv (storage ?p3) = (if xs = [] then prv (storage pa) else (prv (storage pa))(hd xs := idx))(idx := UINT32_MAX)"
      unfolding v3 v2 v1 n1 n2 using Cons h fl by (auto simp: fun_eq_iff prv_def)
    moreover have "body (storage ?p3) = (body (storage pa))(idx := strip (f (storage pa ! unat idx)))"
      unfolding v3 v2 v1 n1 n2 using Cons h by (auto simp: fun_eq_iff body_def)
    ultimately show ?thesis unfolding eq using p3 by simp
  qed
  then show "pool_ok (push_pool idx f xs pa) F" "length (storage (push_pool idx f xs pa)) = length (storage pa)"
    "nxt (storage (push_pool idx f xs pa)) = (nxt (storage pa))(idx := hd (xs @ [UINT32_MAX]))"
    "prv (storage (push_pool idx f xs pa)) = (if xs = [] then prv (storage pa) else (prv (storage pa))(hd xs := idx))(idx := UINT32_MAX)"
    "body (storage (push_pool idx f xs pa)) = (body (storage pa))(idx := strip (f (storage pa ! unat idx)))"
    by blast+
qed

text \<open>The level with the new order at its head; an empty level is a new one.\<close>

lemma level_push:
  assumes side: "mside_ok S bid t h d" and i: "unat idx < length S" "idx \<noteq> UINT32_MAX" "idx \<notin> set (h p)"
    and vw: "length S' = length S" "nxt S' = (nxt S)(idx := hd (h p @ [UINT32_MAX]))"
      "prv S' = (if h p = [] then prv S else (prv S)(hd (h p) := idx))(idx := UINT32_MAX)" "body S' = (body S)(idx := rr)"
    and rr: "so_price rr = p" "is_buy (so_side rr) = bid"
  defines "l \<equiv> level_or_new p t"
  shows "mlevel_ok S' bid p (d p) (l\<lparr>ml_head := idx, ml_tail := (if ml_tail l = UINT32_MAX then idx else ml_tail l),
      ml_count := ml_count l + 1, ml_total := ml_total l + ucast (so_remaining rr)\<rparr>) (idx # h p)"
    and "ml_head l \<noteq> UINT32_MAX \<longleftrightarrow> h p \<noteq> []" "h p \<noteq> [] \<Longrightarrow> ml_head l = hd (h p)"
proof -
  have ld: "if h p = [] then l = new_level else mlevel_ok S bid p (d p) l (h p)"
  proof (cases "h p = []")
    case True
    then show ?thesis using mside_none(1) [OF side] by (simp add: l_def level_or_new_def)
  next
    case False
    then obtain l' where "lt_map t p = Some l'" "mlevel_ok S bid p (d p) l' (h p)" using mside_level [OF side, of p] by auto
    then show ?thesis using False by (simp add: l_def level_or_new_def)
  qed
  show "mlevel_ok S' bid p (d p) (l\<lparr>ml_head := idx, ml_tail := (if ml_tail l = UINT32_MAX then idx else ml_tail l),
      ml_count := ml_count l + 1, ml_total := ml_total l + ucast (so_remaining rr)\<rparr>) (idx # h p)"
  proof (cases "h p = []")
    case True
    have "mlevel_ok S' bid p 0 \<lparr>ml_head = idx, ml_tail = idx, ml_count = 1, ml_total = ucast (so_remaining rr)\<rparr> [idx]"
      using vw i rr True by (intro mlevel_single) auto
    then show ?thesis using True ld mside_none(2) [OF side, of p] by (simp add: new_level_def)
  next
    case False
    then have m: "mlevel_ok S bid p (d p) l (h p)" using ld by simp
    then have tl: "ml_tail l \<noteq> UINT32_MAX" using False by (auto simp: mlevel_ok_def)
    have hd: "hd (h p @ [UINT32_MAX]) = hd (h p)" using False by (cases "h p") auto
    show ?thesis using mlevel_push [OF m i(3), of S' rr] vw i rr False tl hd by simp
  qed
  show "ml_head l \<noteq> UINT32_MAX \<longleftrightarrow> h p \<noteq> []" "h p \<noteq> [] \<Longrightarrow> ml_head l = hd (h p)"
    using ld by (auto simp: mlevel_ok_def new_level_def split: if_splits)
qed

text \<open>The book after a slot \<open>idx\<close> has joined one level.\<close>

lemma mkt_ok_file:
  assumes ok: "mkt_ok b g D (idx # F) Oth" and p2: "pool_ok p2 F" "body (storage p2) = (body (mslot_array b))(idx := rr)"
    and agr: "agree (mslot_array b) (storage p2) (mlive g \<union> Oth - set (g (is_buy sd) p))"
    and s': "mside_ok (storage p2) (is_buy sd) t' ((g (is_buy sd))(p := idx # g (is_buy sd) p)) (D (is_buy sd))"
    and ix: "order_map.indexes ix (insert idx (mlive g \<union> Oth)) ((\<lambda>i. so_order_ref (body (mslot_array b) i))(idx := so_order_ref rr))"
  shows "mkt_ok (set_side_table sd t' (b\<lparr>mb_pool := p2, mb_index := ix\<rparr>)) (level_ids g (is_buy sd) p (idx # g (is_buy sd) p)) D F Oth"
proof -
  let ?bid = "is_buy sd"
  let ?g = "level_ids g ?bid p (idx # g ?bid p)" and ?b = "set_side_table sd t' (b\<lparr>mb_pool := p2, mb_index := ix\<rparr>)"
  have idx: "idx \<notin> set F" "idx \<notin> mlive g \<union> Oth"
    using ok pool_ok_distinct [of "mb_pool b" "idx # F"] by (auto simp: mkt_ok_def)
  have lv': "mlive ?g = insert idx (mlive g)"
    using mlive_upd [of g ?bid p "idx # g ?bid p"] mlive_split [of g ?bid p] by auto
  have ids: "(\<lambda>i. so_order_ref (body (mslot_array ?b) i)) = (\<lambda>i. so_order_ref (body (mslot_array b) i))(idx := so_order_ref rr)"
    by (auto simp: p2)
  have "mkt_ok ?b ?g D F Oth \<and> agree (mslot_array b) (mslot_array ?b) Oth"
  proof (rule mkt_ok_upd [OF ok, where sd = sd and X = "insert idx (mslots (g ?bid))" and t = t'])
    show "mside_ok (mslot_array ?b) ?bid t' (?g ?bid) (D ?bid)" using s' by simp
    show "mslots (?g ?bid) \<union> mslots (g ?bid) \<subseteq> insert idx (mslots (g ?bid))"
      unfolding level_ids_same by (auto simp: mslots_def split: if_splits)
    show "mb_bids ?b = (if ?bid then t' else mb_bids b)" "mb_asks ?b = (if ?bid then mb_asks b else t')"
      by (simp_all add: set_side_table_def)
    show "?g (\<not> ?bid) = g (\<not> ?bid)" "D (\<not> ?bid) = D (\<not> ?bid)" by simp_all
    have "mlive g \<union> Oth - insert idx (mslots (g ?bid)) \<subseteq> mlive g \<union> Oth - set (g ?bid p)" by (auto simp: mslots_def)
    then show "agree (mslot_array b) (mslot_array ?b) (mlive g \<union> Oth - insert idx (mslots (g ?bid)))"
      using agree_mono [OF agr] by simp
    show "insert idx (mslots (g ?bid)) \<inter> mslots (g (\<not> ?bid)) = {}"
      using mkt_disjoint [OF ok, of ?bid] idx(2) mlive_sides [of g ?bid] by auto
    show "insert idx (mslots (g ?bid)) \<inter> Oth = {}" using idx(2) mlive_sides [of g ?bid] ok by (auto simp: mkt_ok_def)
    show "pool_ok (mb_pool ?b) F" using p2(1) by simp
    show "(mlive ?g \<union> Oth) \<inter> set F = {}" using lv' idx(1) ok by (auto simp: mkt_ok_def)
    show "order_map.indexes (mb_index ?b) (mlive ?g \<union> Oth) (\<lambda>i. so_order_ref (body (mslot_array ?b) i))"
      unfolding lv' ids using ix by simp
  qed
  then show ?thesis ..
qed

lemma mkt_add_ok:
  assumes ok: "mkt_ok b g D (idx # F) Oth" and new: "slot_find (mb_index b) r = Some None"
    and p: "real_price p" "in_i64 p" and room: "roomy (side_table sd b)" "om_room (mb_index b) r"
  shows "\<exists>b'. mkt_add r sd p q sq b = Some (idx, b') \<and>
    mkt_ok b' (level_ids g (is_buy sd) p (idx # g (is_buy sd) p)) D F Oth \<and>
    agree (mslot_array b) (mslot_array b') (mlive g \<union> Oth - set (g (is_buy sd) p)) \<and>
    (\<forall>i\<in>mlive g \<union> Oth. body (mslot_array b') i = body (mslot_array b) i) \<and>
    so_order_ref (body (mslot_array b') idx) = r \<and> so_side (body (mslot_array b') idx) = sd \<and>
    so_price (body (mslot_array b') idx) = p \<and> so_shares (body (mslot_array b') idx) = q \<and>
    so_remaining (body (mslot_array b') idx) = q \<and> so_sequence (body (mslot_array b') idx) = sq"
proof -
  define bid where "bid = is_buy sd"
  define t where "t = side_table sd b"
  define xs where "xs = g bid p"
  define S where "S = mslot_array b"
  note defs = bid_def t_def xs_def S_def
  have side: "mside_ok S bid t (g bid) (D bid)" using mkt_side [OF ok, of sd] by (simp add: defs)
  have po: "pool_ok (mb_pool b) (idx # F)" using ok by (simp add: mkt_ok_def)
  obtain pa where pa: "slot_allocate (mb_pool b) = Some (Some idx, pa)" "pool_ok pa F" "storage pa = S"
    using pool_allocate_take [OF po] by (auto simp: slot_allocate_def S_def)
  have idx: "unat idx < length S" "idx \<notin> set F" "idx \<notin> mlive g \<union> Oth" "idx \<noteq> UINT32_MAX"
    using pool_ok_bound [OF po, of idx] pool_ok_distinct [OF po] ok po slot_not_null [of idx "length S"]
    by (auto simp: S_def mkt_ok_def pool_ok_def)
  have xsl: "set xs \<subseteq> mlive g" using mkt_slot(5) [OF ok] by (auto simp: defs)
  then have ixs: "idx \<notin> set xs" using idx by auto
  have xsb: "\<forall>i\<in>set xs. unat i < length (storage pa)" using mkt_slot(3) [OF ok] pa(3) by (auto simp: defs)
  let ?f = "filed r sd p q sq"
  define p2 where "p2 = push_pool idx ?f xs pa"
  define rr where "rr = strip (?f (S ! unat idx))"
  note pp = push_pool_ok [OF pa(2) _ idx(2) ixs xsb refl, of r sd p q sq, folded p2_def, unfolded pa(3), OF idx(1), folded rr_def]
  have rr: "so_order_ref rr = r" "so_side rr = sd" "so_price rr = p" "so_shares rr = q" "so_remaining rr = q" "so_sequence rr = sq"
    by (simp_all add: rr_def filed_def)
  define l where "l = level_or_new p t"
  define l1 where "l1 = l\<lparr>ml_head := idx, ml_tail := (if ml_tail l = UINT32_MAX then idx else ml_tail l),
    ml_count := ml_count l + 1, ml_total := ml_total l + ucast q\<rparr>"
  note push = level_push [OF side idx(1,4) ixs [unfolded xs_def], of "storage p2" rr, folded xs_def l_def,
      OF pp(2-5), unfolded rr, OF refl bid_def [symmetric], folded l1_def]
  obtain k t1 where k: "lt_ref p t = Some (k, t1)" "lt_at k t1 = l"
    "\<And>l. lt_ok (lt_set k l t1)" "\<And>l. lt_map (lt_set k l t1) = (lt_map t)(p \<mapsto> l)" "\<And>l. lt_is_bid (lt_set k l t1) = lt_is_bid t"
    using lt_ref_write [OF _ p, of t] side room(1) by (auto simp: mside_ok_def l_def t_def)
  have fresh: "r \<notin> (\<lambda>i. so_order_ref (body S i)) ` (mlive g \<union> Oth)"
    using mkt_find [OF ok] new by (auto simp: S_def)
  obtain ix where ix: "slot_insert r (Some idx) (mb_index b) = Some ix"
    "order_map.indexes ix (insert idx (mlive g \<union> Oth)) ((\<lambda>i. so_order_ref (body S i))(idx := r))"
    using slot_insert_indexes [OF _ fresh idx(3) room(2)] ok by (auto simp: mkt_ok_def S_def)
  define b' where "b' = set_side_table sd (lt_set k l1 t1) (b\<lparr>mb_pool := p2, mb_index := ix\<rparr>)"
  have al: "pool_put idx (\<lambda>o'. o'\<lparr>so_order_ref := r, so_side := sd, so_price := p, so_shares := q, so_remaining := q,
      so_sequence := sq, prev_idx := UINT32_MAX, next_idx := UINT32_MAX\<rparr>) pa = Some (put_slot idx ?f pa)"
    using idx(1) pa(3) by (simp add: pool_put_slot filed_def [abs_def])
  have run: "mkt_add r sd p q sq b = Some (idx, b')"
  proof (cases "xs = []")
    case True
    then have "ml_head l = UINT32_MAX" "p2 = put_slot idx ?f pa" using push(2) by (simp_all add: p2_def push_pool_def)
    then show ?thesis using pa(1) k(1,2) ix(1) al unfolding mkt_add_def b'_def l1_def t_def by (simp add: Let_def)
  next
    case False
    then have h: "ml_head l = hd xs" "ml_head l \<noteq> UINT32_MAX" using push(2,3) by auto
    have "pool_put (hd xs) (\<lambda>h. h\<lparr>prev_idx := idx\<rparr>) (put_slot idx ?f pa) = Some (put_slot (hd xs) (\<lambda>h. h\<lparr>prev_idx := idx\<rparr>) (put_slot idx ?f pa))"
      "pool_put idx (\<lambda>o'. o'\<lparr>next_idx := hd xs\<rparr>) (put_slot (hd xs) (\<lambda>h. h\<lparr>prev_idx := idx\<rparr>) (put_slot idx ?f pa)) = Some p2"
      using False xsb idx(1) pa(3) by (simp_all add: pool_put_slot p2_def push_pool_def Let_def)
    then show ?thesis using pa(1) k(1,2) ix(1) al h unfolding mkt_add_def b'_def l1_def t_def by (simp add: Let_def)
  qed
  have agr: "agree S (storage p2) (mlive g \<union> Oth - set xs)"
    using pp idx(3) unfolding agree_def by auto
  have s': "mside_ok (storage p2) bid (lt_set k l1 t1) ((g bid)(p := idx # xs)) (D bid)"
  proof -
    have "mslots ((g bid)(p := [])) \<subseteq> mlive g \<union> Oth - set xs"
      using mlive_split [of g bid p] mkt_price_disjoint [OF ok, of _ bid p] by (auto simp: xs_def)
    from mside_put [OF side agree_mono [OF agr this] k(3) _ k(4) push(1)] show ?thesis
      using k(5) side by (simp add: mside_ok_def)
  qed
  have "mkt_ok b' (level_ids g bid p (idx # xs)) D F Oth"
    unfolding b'_def bid_def xs_def
    by (rule mkt_ok_file [where rr = rr, OF ok pp(1)]) (use pp(5) agr s' ix(2) rr(1) in \<open>simp_all add: defs\<close>)
  then show ?thesis
    using run agr pp(5) rr idx(3) by (auto simp: b'_def bid_def xs_def S_def [symmetric])
qed

end
