(* ===== verification/Mkt_Ops.thy ===== *)
theory Mkt_Ops
  imports Mkt_Inv
begin

text \<open>
  The effect of unlinking and of reducing an order on the invariant of the market book. Unlinking
  adds to the drift of the level what the order had lost before it left; reducing an order keeps the
  drift as long as the level's volume does not become zero.
\<close>

section \<open>Unlinking\<close>

definition mroomier :: "mkt_book \<Rightarrow> mkt_book \<Rightarrow> bool" where
  "mroomier b b' \<longleftrightarrow> (\<forall>k. om_room (mb_index b) k \<longrightarrow> om_room (mb_index b') k) \<and>
     (roomy (mb_bids b) \<longrightarrow> roomy (mb_bids b')) \<and> (roomy (mb_asks b) \<longrightarrow> roomy (mb_asks b'))"

lemma mroomier_trans: "mroomier a b \<Longrightarrow> mroomier b c \<Longrightarrow> mroomier a c"
  by (auto simp: mroomier_def)

lemma mroomier_side: "mroomier b b' \<Longrightarrow> roomy (side_table sd b) \<Longrightarrow> roomy (side_table sd b')"
  by (auto simp: mroomier_def side_table_def)

lemma mkt_level:
  assumes "mkt_ok b g D F Oth" "i \<in> set (g bid p)" "is_buy sd = bid"
  obtains l where "lt_map (side_table sd b) p = Some l" "mlevel_ok (mslot_array b) bid p (D bid p) l (g bid p)"
  using mside_level [of "mslot_array b" bid "side_table sd b" "g bid" "D bid" p] mkt_side [OF assms(1), of sd] assms(2,3)
  by force

text \<open>The level without the order: relinked with less volume, erased when it was the last.\<close>

definition cut_mlevel :: "u32 list \<Rightarrow> u32 list \<Rightarrow> u32 \<Rightarrow> mlevel \<Rightarrow> mlevel" where
  "cut_mlevel as bs q l = l\<lparr>ml_head := (if as = [] then hd (bs @ [UINT32_MAX]) else ml_head l),
     ml_tail := (if bs = [] then last (UINT32_MAX # as) else ml_tail l), ml_count := ml_count l - 1, ml_total := ml_total l - q\<rparr>"

lemma cut_mlevel_count:
  assumes "mlevel_ok s bid p d l (as @ x # bs)" "length s < 2 ^ 32"
  shows "ml_count (cut_mlevel as bs q l) = 0 \<longleftrightarrow> as @ bs = []"
proof -
  have "unat (ml_count l) = Suc (length (as @ bs))" using mlevel_count [OF assms] by simp
  then have "unat (ml_count l) = unat (1 :: u32) \<longleftrightarrow> as @ bs = []" by simp
  then show ?thesis unfolding unat_inj by (simp add: cut_mlevel_def)
qed

text \<open>What the drift of a level becomes when an order leaves that had lost a part.\<close>

definition drop_drift :: "order_slot \<Rightarrow> u32 list \<Rightarrow> u32 \<Rightarrow> u32" where
  "drop_drift r xs d = (if xs = [] then 0 else d + (ucast (so_shares r) - ucast (so_remaining r)))"

lemma mside_cut:
  assumes side: "mside_ok s bid t h d" and l: "mlevel_ok s bid p (d p) l (as @ x # bs)"
    and vw: "length s' = length s" "body s' = body s"
      "nxt s' = (if as = [] then nxt s else (nxt s)(last as := hd (bs @ [UINT32_MAX])))"
      "prv s' = (if bs = [] then prv s else (prv s)(hd bs := last (UINT32_MAX # as)))"
    and dis: "mslots (h(p := [])) \<inter> set (as @ x # bs) = {}"
    and t': "lt_ok t'" "lt_is_bid t' = bid"
      "lt_map t' = (if as @ bs = [] then (lt_map t)(p := None)
         else (lt_map t)(p \<mapsto> cut_mlevel as bs (ucast (so_shares (body s x))) l))"
  shows "mside_ok s' bid t' (h(p := as @ bs)) (d(p := drop_drift (body s x) (as @ bs) (d p)))"
proof -
  let ?q = "ucast (so_shares (body s x)) :: u32"
  have agr: "agree s s' X" if "X \<inter> set (as @ bs) = {}" for X
    unfolding agree_def vw using that by (auto dest: last_in_set hd_in_set)
  show ?thesis
  proof (cases "as @ bs = []")
    case True
    have "mside_ok s' bid t' (h(p := [])) (d(p := 0))" using t' True by (intro mside_del [OF side agr]) auto
    then show ?thesis using True by (simp add: drop_drift_def)
  next
    case False
    have dx: "distinct (as @ x # bs)" using l by (simp add: mlevel_ok_def)
    have "mlevel_ok s' bid p (d p + (?q - ucast (so_remaining (body s x))))
        (l\<lparr>ml_head := (if as = [] then hd bs else ml_head l), ml_tail := (if bs = [] then last as else ml_tail l),
           ml_count := ml_count l - 1, ml_total := ml_total l - ?q\<rparr>) (as @ bs)"
      using l False by (rule mlevel_unlink) (use dx in \<open>auto simp: vw\<close>)
    moreover have "l\<lparr>ml_head := (if as = [] then hd bs else ml_head l), ml_tail := (if bs = [] then last as else ml_tail l),
           ml_count := ml_count l - 1, ml_total := ml_total l - ?q\<rparr> = cut_mlevel as bs ?q l"
      using False by (cases bs) (auto simp: cut_mlevel_def)
    ultimately have lev: "mlevel_ok s' bid p (drop_drift (body s x) (as @ bs) (d p)) (cut_mlevel as bs ?q l) (as @ bs)"
      by (simp only: drop_drift_def False if_False)
    show ?thesis using dis t' False by (intro mside_put [OF side agr _ _ _ lev]) auto
  qed
qed

text \<open>The book after the slot has left its level, the pool and the index.\<close>

lemma mkt_ok_drop:
  assumes ok: "mkt_ok b g D F Oth" and ab: "g (is_buy sd) p = as @ x # bs" and xd: "distinct (as @ x # bs)"
    and pl: "pool_ok pl (x # F)" "body (storage pl) = body (mslot_array b)"
    and agr: "\<And>X. X \<inter> set (as @ bs) = {} \<Longrightarrow> agree (mslot_array b) (storage pl) X"
    and s': "mside_ok (storage pl) (is_buy sd) t' ((g (is_buy sd))(p := as @ bs)) ((D (is_buy sd))(p := d))"
    and ix: "order_map.indexes ix (mlive g \<union> Oth - {x}) (\<lambda>j. so_order_ref (body (mslot_array b) j))"
  defines "b' \<equiv> (set_side_table sd t' (b\<lparr>mb_pool := pl\<rparr>))\<lparr>mb_index := ix\<rparr>"
  shows "mkt_ok b' (level_ids g (is_buy sd) p (as @ bs)) (set_drift D (is_buy sd) p d) (x # F) Oth"
    and "mlive (level_ids g (is_buy sd) p (as @ bs)) = mlive g - {x}"
proof -
  let ?bid = "is_buy sd"
  let ?g = "level_ids g ?bid p (as @ bs)" and ?D = "set_drift D ?bid p d"
  have pdis: "mslots ((g ?bid)(p := [])) \<inter> set (as @ x # bs) = {}"
    using mkt_price_disjoint [OF ok, of _ ?bid p] ab by auto
  have inb: "set (as @ x # bs) \<subseteq> mslots (g ?bid)" unfolding ab [symmetric] by (auto simp: mslots_def)
  then have odis: "mslots (g (\<not> ?bid)) \<inter> set (as @ x # bs) = {}" using mkt_disjoint [OF ok, of ?bid] by blast
  show lv': "mlive ?g = mlive g - {x}"
    using mlive_upd [of g ?bid p "as @ bs"] mlive_split [of g ?bid p] ab pdis odis xd by auto
  have xO: "x \<notin> Oth" using inb mlive_sides [of g ?bid] ok by (auto simp: mkt_ok_def)
  have "mkt_ok b' ?g ?D (x # F) Oth \<and> agree (mslot_array b) (mslot_array b') Oth"
  proof (rule mkt_ok_upd [OF ok, where sd = sd and X = "mslots (g ?bid)" and t = t'])
    show "mside_ok (mslot_array b') ?bid t' (?g ?bid) (?D ?bid)" using s' by (simp add: b'_def)
    show "mslots (?g ?bid) \<union> mslots (g ?bid) \<subseteq> mslots (g ?bid)"
      unfolding level_ids_same using inb mslots_del [of "g ?bid" p] mslots_upd [of "g ?bid" p "as @ bs"] by auto
    show "mb_bids b' = (if ?bid then t' else mb_bids b)" "mb_asks b' = (if ?bid then mb_asks b else t')"
      by (auto simp: b'_def set_side_table_def)
    show "?g (\<not> ?bid) = g (\<not> ?bid)" "?D (\<not> ?bid) = D (\<not> ?bid)" by simp_all
    have "agree (mslot_array b) (storage pl) (mlive g \<union> Oth - mslots (g ?bid))" using inb by (intro agr) auto
    then show "agree (mslot_array b) (mslot_array b') (mlive g \<union> Oth - mslots (g ?bid))" by (simp add: b'_def)
    show "mslots (g ?bid) \<inter> mslots (g (\<not> ?bid)) = {}" by (rule mkt_disjoint [OF ok])
    show "mslots (g ?bid) \<inter> Oth = {}" using mlive_sides [of g ?bid] ok by (auto simp: mkt_ok_def)
    show "pool_ok (mb_pool b') (x # F)" using pl(1) by (simp add: b'_def)
    show "(mlive ?g \<union> Oth) \<inter> set (x # F) = {}" using lv' ok xO by (auto simp: mkt_ok_def)
    have "mlive ?g \<union> Oth = mlive g \<union> Oth - {x}" using lv' xO by auto
    then show "order_map.indexes (mb_index b') (mlive ?g \<union> Oth) (\<lambda>i. so_order_ref (body (mslot_array b') i))"
      using ix pl(2) by (simp add: b'_def)
  qed
  then show "mkt_ok b' ?g ?D (x # F) Oth" ..
qed

lemma mkt_drop_ok:
  assumes ok: "mkt_ok b g D F Oth" and x: "x \<in> set (g bid p)" and ab: "g bid p = as @ x # bs"
  defines "r \<equiv> body (mslot_array b) x"
  shows "\<exists>b1 b2. unlink_and_free x b = Some b1 \<and> mkt_erase_ref (so_order_ref r) b1 = Some b2 \<and>
    mkt_ok b2 (level_ids g bid p (as @ bs))
      (set_drift D bid p (if as @ bs = [] then 0 else D bid p + (ucast (so_shares r) - ucast (so_remaining r)))) (x # F) Oth \<and>
    agree (mslot_array b) (mslot_array b2) (mlive g \<union> Oth - set (as @ x # bs)) \<and>
    body (mslot_array b2) = body (mslot_array b) \<and> mroomier b b2 \<and>
    mlive (level_ids g bid p (as @ bs)) = mlive g - {x}"
proof -
  define S where "S = mslot_array b"
  define sd where "sd = so_side r"
  define t where "t = side_table sd b"
  note sl = mkt_slot [OF ok x, folded S_def r_def]
  have rx: "r = body S x" by (simp add: r_def S_def)
  have bid: "is_buy sd = bid" and pr: "so_price r = p" using sl(1,2) by (simp_all add: sd_def rx)
  have side: "mside_ok S bid t (g bid) (D bid)" using mkt_side [OF ok, of sd] bid by (simp add: S_def t_def)
  have pk: "pool_ok (mb_pool b) F" using ok by (simp add: mkt_ok_def)
  have len: "length S < 2 ^ 32" using pk by (simp add: pool_ok_def S_def)
  obtain l where ml: "lt_map t p = Some l" and l: "mlevel_ok S bid p (D bid p) l (as @ x # bs)"
    using mkt_level [OF ok x bid] ab by (auto simp: S_def t_def)
  have d: "dll (nxt S) (prv S) UINT32_MAX (as @ x # bs) UINT32_MAX" "distinct (as @ x # bs)"
    using l by (simp_all add: mlevel_ok_def)
  have nb: "\<forall>y\<in>set (as @ x # bs). unat y < length S \<and> y \<noteq> UINT32_MAX \<and> y \<notin> set F"
    using mkt_slot [OF ok, of _ bid p] unfolding ab S_def by blast
  note uw = unlink_writes [OF pk d [unfolded S_def] nb [unfolded S_def], folded S_def]
  have nx: "next_idx (S ! unat x) = hd (bs @ [UINT32_MAX])" and pv: "prev_idx (S ! unat x) = last (UINT32_MAX # as)"
    using uw(1) by auto
  obtain q1 q2 q3 where p1: "(if prev_idx (S ! unat x) \<noteq> UINT32_MAX
      then pool_put (prev_idx (S ! unat x)) (\<lambda>s. s\<lparr>next_idx := next_idx (S ! unat x)\<rparr>) (mb_pool b) else Some (mb_pool b)) = Some q1"
    and p2: "(if next_idx (S ! unat x) \<noteq> UINT32_MAX
      then pool_put (next_idx (S ! unat x)) (\<lambda>s. s\<lparr>prev_idx := prev_idx (S ! unat x)\<rparr>) q1 else Some q1) = Some q2"
    and q3: "pool_deallocate x q2 = Some q3" "pool_ok q3 (x # F)"
    and vw: "length (storage q3) = length S" "body (storage q3) = body S"
      "nxt (storage q3) = (if as = [] then nxt S else (nxt S)(last as := hd (bs @ [UINT32_MAX])))"
      "prv (storage q3) = (if bs = [] then prv S else (prv S)(hd bs := last (UINT32_MAX # as)))"
    using uw(2) by blast
  have agr: "agree S (storage q3) X" if "X \<inter> set (as @ bs) = {}" for X
    unfolding agree_def vw using that by (auto dest: last_in_set hd_in_set)
  obtain k where k: "lt_ref p t = Some (k, t)" "lt_at k t = l" "k < length (lt_slots t)" "fst (lt_slots t ! k) = p"
    using lt_ref_present [OF _ ml] side by (auto simp: mside_ok_def)
  have tok: "lt_ok t" "lt_is_bid t = bid" using side by (simp_all add: mside_ok_def)
  have rp: "real_price p" using lt_map_real [of p t] ml by auto
  have pin: "last (UINT32_MAX # as) = UINT32_MAX \<longleftrightarrow> as = []" "hd (bs @ [UINT32_MAX]) = UINT32_MAX \<longleftrightarrow> bs = []"
    using nb by (auto dest: last_in_set, cases bs, auto)
  define l' where "l' = cut_mlevel as bs (ucast (so_shares r)) l"
  define t1 where "t1 = lt_set k l' t"
  define t2 where "t2 = (if ml_count l' = 0 then lt_erase p t1 else t1)"
  note st = lt_set_ok [OF tok(1) k(3,4) rp, of l', folded t1_def]
  have t2: "lt_ok t2" "lt_is_bid t2 = bid"
    "lt_map t2 = (if as @ bs = [] then (lt_map t)(p := None) else (lt_map t)(p \<mapsto> l'))"
    using st lt_erase_ok [of t1 p] rp tok(2) cut_mlevel_count [OF l len] by (auto simp: t2_def l'_def)
  define b1 where "b1 = set_side_table sd t2 (b\<lparr>mb_pool := q3\<rparr>)"
  have run: "unlink_and_free x b = Some b1"
  proof -
    have at: "slot_at (mb_pool b) x = Some (S ! unat x)" using sl(3) by (simp add: slot_at_def S_def)
    have f: "so_price (S ! unat x) = p" "so_side (S ! unat x) = sd" "so_shares (S ! unat x) = so_shares r"
      using pr by (simp_all add: slot_field rx sd_def)
    have h: "(if next_idx (S ! unat x) \<noteq> UINT32_MAX
          then (if prev_idx (S ! unat x) \<noteq> UINT32_MAX then l else l\<lparr>ml_head := next_idx (S ! unat x)\<rparr>)
          else (if prev_idx (S ! unat x) \<noteq> UINT32_MAX then l else l\<lparr>ml_head := next_idx (S ! unat x)\<rparr>)\<lparr>ml_tail := prev_idx (S ! unat x)\<rparr>)
        = l\<lparr>ml_head := (if as = [] then hd (bs @ [UINT32_MAX]) else ml_head l),
            ml_tail := (if bs = [] then last (UINT32_MAX # as) else ml_tail l)\<rparr>"
      unfolding nx pv using pin by (cases l) auto
    show ?thesis
      unfolding unlink_and_free_def
      by (simp only: at bind.simps prod.case Let_def f k(1,2) t_def [symmetric] p1 p2 h slot_deallocate_def q3(1))
        (simp add: b1_def t2_def t1_def l'_def cut_mlevel_def)
  qed
  obtain ix where ix: "slot_erase (so_order_ref r) (mb_index b) = Some ix"
    and ixs: "order_map.indexes ix (mlive g \<union> Oth - {x}) (\<lambda>j. so_order_ref (body S j))"
    and ixr: "\<forall>k. om_room (mb_index b) k \<longrightarrow> om_room ix k"
    using slot_erase_indexes [of "mb_index b" "mlive g \<union> Oth" "\<lambda>j. so_order_ref (body S j)" x] ok sl(5)
    by (auto simp: mkt_ok_def S_def rx)
  define b2 where "b2 = b1\<lparr>mb_index := ix\<rparr>"
  have run2: "mkt_erase_ref (so_order_ref r) b1 = Some b2"
    using ix by (simp add: mkt_erase_ref_def b2_def b1_def)
  have pdis: "mslots ((g bid)(p := [])) \<inter> set (as @ x # bs) = {}"
    using mkt_price_disjoint [OF ok, of _ bid p] ab by auto
  note s' = mside_cut [OF side l vw pdis t2(1,2), folded rx, folded l'_def, OF t2(3)]
  note new = mkt_ok_drop [OF ok, of sd p as x bs q3 t2 "drop_drift r (as @ bs) (D bid p)" ix, folded S_def b1_def, folded b2_def,
      unfolded bid, OF ab d(2) q3(2) vw(2) agr s' ixs]
  have "agree (mslot_array b) (mslot_array b2) (mlive g \<union> Oth - set (as @ x # bs))"
  proof -
    have "agree S (storage q3) (mlive g \<union> Oth - set (as @ x # bs))" by (intro agr) auto
    then show ?thesis by (simp add: b2_def b1_def S_def)
  qed
  moreover have "mroomier b b2"
    using ixr by (auto simp: mroomier_def b2_def b1_def set_side_table_def t2_def t1_def t_def side_table_def)
  moreover have "body (mslot_array b2) = body (mslot_array b)" using vw(2) by (simp add: b2_def b1_def S_def)
  ultimately show ?thesis using run run2 new unfolding drop_drift_def by blast
qed

section \<open>Reducing\<close>

definition less_remaining :: "u64 \<Rightarrow> order_slot \<Rightarrow> order_slot" where
  "less_remaining q o' = o'\<lparr>so_remaining := so_remaining o' - q\<rparr>"

lemma strip_less [simp]: "strip (less_remaining q r) = less_remaining q (strip r)"
  by (simp add: strip_def less_remaining_def)

lemma less_fields [simp]:
  "so_order_ref (less_remaining q r) = so_order_ref r" "so_side (less_remaining q r) = so_side r"
  "so_price (less_remaining q r) = so_price r" "so_shares (less_remaining q r) = so_shares r"
  "so_remaining (less_remaining q r) = so_remaining r - q" "so_sequence (less_remaining q r) = so_sequence r"
  "prev_idx (less_remaining q r) = prev_idx r" "next_idx (less_remaining q r) = next_idx r"
  "pool_next_free (less_remaining q r) = pool_next_free r"
  by (simp_all add: less_remaining_def)

text \<open>\<open>dec_level_qty\<close> on a level of the book, in both of its branches.\<close>

lemma dec_level_run:
  assumes t: "lt_ok (side_table sd b)" and m: "lt_map (side_table sd b) p = Some l"
  shows "\<exists>t'. dec_level_qty sd p q b = Some (set_side_table sd t' b) \<and> lt_ok t' \<and>
    lt_is_bid t' = lt_is_bid (side_table sd b) \<and> (roomy (side_table sd b) \<longrightarrow> roomy t') \<and>
    lt_map t' = (if ml_total l = ucast q then (lt_map (side_table sd b))(p := None)
                 else (lt_map (side_table sd b))(p \<mapsto> l\<lparr>ml_total := ml_total l - ucast q\<rparr>))"
proof -
  let ?t = "side_table sd b"
  obtain k where k: "lt_ref p ?t = Some (k, ?t)" "lt_at k ?t = l" "k < length (lt_slots ?t)" "fst (lt_slots ?t ! k) = p"
    using lt_ref_present [OF t m] by blast
  have rp: "real_price p" using lt_map_real [of p ?t] m by auto
  define l' where "l' = l\<lparr>ml_total := ml_total l - ucast q\<rparr>"
  note st = lt_set_ok [OF t k(3,4) rp, of l']
  define t' where "t' = (if ml_total l' = 0 then lt_erase p (lt_set k l' ?t) else lt_set k l' ?t)"
  have z: "ml_total l' = 0 \<longleftrightarrow> ml_total l = ucast q" by (simp add: l'_def)
  have "dec_level_qty sd p q b = Some (set_side_table sd t' b)"
    unfolding t'_def l'_def using k(1,2) by (simp add: dec_level_qty_def Let_def)
  moreover have "lt_ok t' \<and> lt_is_bid t' = lt_is_bid ?t \<and> (roomy ?t \<longrightarrow> roomy t') \<and>
    lt_map t' = (if ml_total l = ucast q then (lt_map ?t)(p := None) else (lt_map ?t)(p \<mapsto> l'))"
    using st lt_erase_ok [OF _ rp, of "lt_set k l' ?t"] by (auto simp: t'_def z)
  ultimately show ?thesis unfolding l'_def by blast
qed

lemma mkt_dec_ok:
  assumes ok: "mkt_ok b g D F Oth" and x: "x \<in> set (g bid p)" and sd: "is_buy sd = bid"
    and m: "lt_map (side_table sd b) p = Some l" and q: "q \<le> so_remaining (body (mslot_array b) x)"
    and nz: "ml_total l \<noteq> ucast q"
  shows "\<exists>b1. dec_level_qty sd p q (b\<lparr>mb_pool := put_slot x (less_remaining q) (mb_pool b)\<rparr>) = Some b1 \<and>
    mkt_ok b1 g D F Oth \<and> agree (mslot_array b) (mslot_array b1) (mlive g \<union> Oth - {x}) \<and>
    body (mslot_array b1) = (body (mslot_array b))(x := less_remaining q (body (mslot_array b) x)) \<and>
    mb_index b1 = mb_index b \<and> mroomier b b1 \<and>
    lt_map (side_table sd b1) p = Some (l\<lparr>ml_total := ml_total l - ucast q\<rparr>)"
proof -
  define S where "S = mslot_array b"
  define t where "t = side_table sd b"
  define pl where "pl = put_slot x (less_remaining q) (mb_pool b)"
  note sl = mkt_slot [OF ok x, folded S_def]
  have side: "mside_ok S bid t (g bid) (D bid)" using mkt_side [OF ok, of sd] sd by (simp add: S_def t_def)
  have tok: "lt_ok t" "lt_is_bid t = bid" using side by (simp_all add: mside_ok_def)
  have l: "mlevel_ok S bid p (D bid p) l (g bid p)"
    using mkt_level [OF ok x sd] m by (auto simp: S_def)
  have xl: "unat x < length S" using sl(3) .
  have v: "nxt (storage pl) = nxt S" "prv (storage pl) = prv S" "length (storage pl) = length S"
    "body (storage pl) = (body S)(x := less_remaining q (body S x))"
    using xl by (auto simp: pl_def S_def put_slot_views put_slot_body nxt_def prv_def body_def fun_eq_iff)
  have pk: "pool_ok pl F" using ok sl by (auto simp: pl_def S_def mkt_ok_def intro!: put_slot_ok)
  define b0 where "b0 = b\<lparr>mb_pool := pl\<rparr>"
  have st0: "side_table sd b0 = t" by (simp add: b0_def t_def side_table_def)
  define l' where "l' = l\<lparr>ml_total := ml_total l - ucast q\<rparr>"
  obtain t' where t': "dec_level_qty sd p q b0 = Some (set_side_table sd t' b0)" "lt_ok t'" "lt_is_bid t' = bid"
    "roomy t \<longrightarrow> roomy t'" "lt_map t' = (lt_map t)(p \<mapsto> l')"
    using dec_level_run [of sd b0 p l q] tok m nz st0 by (auto simp: t_def l'_def)
  define b1 where "b1 = set_side_table sd t' b0"
  have pool1: "mb_pool b1 = pl" "mb_index b1 = mb_index b" by (simp_all add: b1_def b0_def)
  have agr: "agree S (storage pl) X" if "x \<notin> X" for X using v that by (auto simp: agree_def)
  have xp: "x \<notin> mslots ((g bid)(p := []))" by (rule mkt_price_disjoint [OF ok x])
  have lev: "mlevel_ok (storage pl) bid p (D bid p) l' (g bid p)"
    unfolding l'_def by (rule mlevel_reduce [OF l x v(1-4)]) (use q sl(1,2) in \<open>simp_all add: S_def\<close>)
  have s': "mside_ok (storage pl) bid t' (g bid) (D bid)"
    using mside_put [OF side agr [OF xp] t'(2,3,5) lev] by simp
  have "mkt_ok b1 g D F Oth \<and> agree (mslot_array b) (mslot_array b1) Oth"
  proof (rule mkt_ok_upd [OF ok, where sd = sd and X = "mslots (g bid)" and t = t'], unfold sd)
    show "mside_ok (mslot_array b1) bid t' (g bid) (D bid)" using s' pool1 by simp
    show "mslots (g bid) \<union> mslots (g bid) \<subseteq> mslots (g bid)" by simp
    show "mb_bids b1 = (if bid then t' else mb_bids b)" "mb_asks b1 = (if bid then mb_asks b else t')"
      using sd by (auto simp: b1_def b0_def set_side_table_def)
    show "g (\<not> bid) = g (\<not> bid)" "D (\<not> bid) = D (\<not> bid)" by simp_all
    show "agree (mslot_array b) (mslot_array b1) (mlive g \<union> Oth - mslots (g bid))"
      unfolding pool1 S_def [symmetric] by (rule agr) (use x in \<open>auto simp: mslots_def\<close>)
    show "mslots (g bid) \<inter> mslots (g (\<not> bid)) = {}" by (rule mkt_disjoint [OF ok])
    show "mslots (g bid) \<inter> Oth = {}" using mlive_sides [of g bid] ok by (auto simp: mkt_ok_def)
    show "pool_ok (mb_pool b1) F" using pk pool1 by simp
    show "(mlive g \<union> Oth) \<inter> set F = {}" using ok by (simp add: mkt_ok_def)
    have "order_map.indexes (mb_index b) (mlive g \<union> Oth) (\<lambda>i. so_order_ref (body (storage pl) i)) =
        order_map.indexes (mb_index b) (mlive g \<union> Oth) (\<lambda>i. so_order_ref (body S i))"
      by (rule order_map.indexes_cong) (simp add: v(4))
    then show "order_map.indexes (mb_index b1) (mlive g \<union> Oth) (\<lambda>i. so_order_ref (body (mslot_array b1) i))"
      using ok pool1 by (simp add: mkt_ok_def S_def)
  qed
  moreover have "mroomier b b1"
    using t'(4) by (auto simp: mroomier_def b1_def b0_def set_side_table_def t_def side_table_def)
  moreover have "agree (mslot_array b) (mslot_array b1) (mlive g \<union> Oth - {x})"
    using agr unfolding pool1 S_def by simp
  moreover have "lt_map (side_table sd b1) p = Some l'" using t'(5) by (simp add: b1_def)
  ultimately show ?thesis using t'(1) v(4) pool1 unfolding b1_def b0_def pl_def S_def l'_def by auto
qed

lemma reduce_step:
  fixes qty :: u64
  assumes ok: "mkt_ok b g D F Oth" and x: "x \<in> set (g bid p)"
  defines "s \<equiv> body (mslot_array b) x"
  defines "c \<equiv> min qty (so_remaining s)"
  shows "reduce_slot k x qty b = do {
    b1 \<leftarrow> dec_level_qty (so_side s) p c (b\<lparr>mb_pool := put_slot x (less_remaining c) (mb_pool b)\<rparr>);
    if so_remaining s = c then do { b2 \<leftarrow> unlink_and_free x b1; mkt_erase_ref k b2 } else Some b1 }"
proof -
  have xl: "unat x < length (mslot_array b)" and pr: "so_price s = p" using mkt_slot [OF ok x] by (simp_all add: s_def)
  have f: "so_side (mslot_array b ! unat x) = so_side s" "so_price (mslot_array b ! unat x) = p"
    "so_remaining (mslot_array b ! unat x) = so_remaining s" using pr by (simp_all add: slot_field s_def)
  have c: "(if qty > so_remaining s then so_remaining s else qty) = c" by (auto simp: c_def min_def intro: antisym)
  have z: "so_remaining s - c = 0 \<longleftrightarrow> so_remaining s = c" by simp
  show ?thesis
    unfolding reduce_slot_def using xl
    by (simp only: slot_at_def pool_at_in bind.simps Let_def f c pool_put_slot z less_remaining_def [abs_def])
qed

end
