(* ===== verification/Mkt_Spec.thy ===== *)
theory Mkt_Spec
  imports Mkt_Ops
begin

text \<open>
  The market book as an abstract machine: the resting orders by reference and, per side and price,
  the volume the book reports. Every operation of the code refines the operation of the machine, as
  long as a reduction does not bring the volume of a level to zero; the reported volume is the resting
  volume less what departed orders had lost before they left.
\<close>

section \<open>The abstract book\<close>

type_synonym aorders = "u64 \<rightharpoonup> slot_view"
type_synonym avolume = "bool \<Rightarrow> int \<Rightarrow> u32"

definition view_of :: "order_slot \<Rightarrow> slot_view" where
  "view_of s = \<lparr>sv_order_ref = so_order_ref s, sv_side = so_side s, sv_price = so_price s,
     sv_shares = so_shares s, sv_remaining = so_remaining s, sv_sequence = so_sequence s\<rparr>"

definition at_level :: "aorders \<Rightarrow> bool \<Rightarrow> int \<Rightarrow> u64 set" where
  "at_level A bid p = {r. \<exists>v. A r = Some v \<and> is_buy (sv_side v) = bid \<and> sv_price v = p}"

definition add_volume :: "bool \<Rightarrow> int \<Rightarrow> u32 \<Rightarrow> avolume \<Rightarrow> avolume" where
  "add_volume bid p q V = set_drift V bid p (V bid p + q)"

definition spec_add :: "slot_view \<Rightarrow> aorders \<times> avolume \<Rightarrow> aorders \<times> avolume" where
  "spec_add v = (\<lambda>(A, V). (A(sv_order_ref v \<mapsto> v), add_volume (is_buy (sv_side v)) (sv_price v) (ucast (sv_shares v)) V))"

definition spec_less :: "slot_view \<Rightarrow> u64 \<Rightarrow> aorders \<times> avolume \<Rightarrow> aorders \<times> avolume" where
  "spec_less v c = (\<lambda>(A, V). (A(sv_order_ref v \<mapsto> v\<lparr>sv_remaining := sv_remaining v - c\<rparr>),
     add_volume (is_buy (sv_side v)) (sv_price v) (- ucast c) V))"

text \<open>An order leaves: its original quantity is subtracted, and an empty level is forgotten.\<close>

definition spec_drop :: "slot_view \<Rightarrow> aorders \<times> avolume \<Rightarrow> aorders \<times> avolume" where
  "spec_drop v = (\<lambda>(A, V). let A' = A(sv_order_ref v := None); bid = is_buy (sv_side v); p = sv_price v in
     (A', set_drift V bid p (if at_level A' bid p = {} then 0 else V bid p - ucast (sv_shares v))))"

definition spec_reduce :: "slot_view \<Rightarrow> u64 \<Rightarrow> aorders \<times> avolume \<Rightarrow> aorders \<times> avolume" where
  "spec_reduce v q s = (let c = min q (sv_remaining v); s' = spec_less v c s in
     if sv_remaining v = c then spec_drop v s' else s')"

definition mkt_rel :: "mkt_book \<Rightarrow> aorders \<Rightarrow> avolume \<Rightarrow> bool" where
  "mkt_rel b A V \<longleftrightarrow> (\<exists>g D F. mkt_ok b g D F {} \<and>
     (\<forall>r v. A r = Some v \<longleftrightarrow> (\<exists>i\<in>mlive g. view_of (body (mslot_array b) i) = v \<and> sv_order_ref v = r)) \<and>
     (\<forall>bid p. V bid p = (\<Sum>i\<leftarrow>g bid p. ucast (so_remaining (body (mslot_array b) i))) - D bid p))"

lemma view_of_fields [simp]:
  "sv_order_ref (view_of s) = so_order_ref s" "sv_side (view_of s) = so_side s" "sv_price (view_of s) = so_price s"
  "sv_shares (view_of s) = so_shares s" "sv_remaining (view_of s) = so_remaining s" "sv_sequence (view_of s) = so_sequence s"
  by (simp_all add: view_of_def)

lemma view_of_less [simp]: "view_of (less_remaining c s) = (view_of s)\<lparr>sv_remaining := so_remaining s - c\<rparr>"
  by (simp add: view_of_def less_remaining_def)

definition rel_by :: "mkt_book \<Rightarrow> aorders \<Rightarrow> avolume \<Rightarrow> mghost \<Rightarrow> drift \<Rightarrow> u32 list \<Rightarrow> bool" where
  "rel_by b A V g D F \<longleftrightarrow> mkt_ok b g D F {} \<and>
     (\<forall>r v. A r = Some v \<longleftrightarrow> (\<exists>i\<in>mlive g. view_of (body (mslot_array b) i) = v \<and> sv_order_ref v = r)) \<and>
     (\<forall>bid p. V bid p = (\<Sum>i\<leftarrow>g bid p. ucast (so_remaining (body (mslot_array b) i))) - D bid p)"

lemma mkt_rel_by: "mkt_rel b A V \<longleftrightarrow> (\<exists>g D F. rel_by b A V g D F)"
  by (simp add: mkt_rel_def rel_by_def)

lemma rel_order:
  assumes "rel_by b A V g D F" "A r = Some v"
  obtains i where "i \<in> set (g (is_buy (sv_side v)) (sv_price v))" "view_of (body (mslot_array b) i) = v"
    "sv_order_ref v = r" "i \<in> mlive g" "slot_find (mb_index b) r = Some (Some i)"
proof -
  have ok: "mkt_ok b g D F {}" using assms(1) by (simp add: rel_by_def)
  obtain i where i: "i \<in> mlive g" "view_of (body (mslot_array b) i) = v" "sv_order_ref v = r"
    using assms by (auto simp: rel_by_def)
  have "slot_find (mb_index b) r = Some (Some i)" using mkt_find [OF ok, of i] i by auto
  moreover have "i \<in> set (g (is_buy (sv_side v)) (sv_price v))" using mkt_live [OF ok i(1)] i(2) by auto
  ultimately show ?thesis using that i by blast
qed

lemma rel_absent:
  assumes "rel_by b A V g D F" "A r = None"
  shows "slot_find (mb_index b) r = Some None"
proof (rule mkt_find_absent [of b g D F "{}"])
  show "mkt_ok b g D F {}" using assms(1) by (simp add: rel_by_def)
  show "r \<notin> (\<lambda>i. so_order_ref (body (mslot_array b) i)) ` (mlive g \<union> {})"
  proof
    assume "r \<in> (\<lambda>i. so_order_ref (body (mslot_array b) i)) ` (mlive g \<union> {})"
    then obtain i where "i \<in> mlive g" "so_order_ref (body (mslot_array b) i) = r" by auto
    then have "A r = Some (view_of (body (mslot_array b) i))" using assms(1) by (auto simp: rel_by_def)
    then show False using assms(2) by simp
  qed
qed

lemma rel_level_empty:
  assumes "rel_by b A V g D F"
  shows "at_level A bid p = {} \<longleftrightarrow> g bid p = []"
proof
  assume e: "at_level A bid p = {}"
  have "False" if i: "i \<in> set (g bid p)" for i
  proof -
    have ok: "mkt_ok b g D F {}" using assms by (simp add: rel_by_def)
    note sl = mkt_slot [OF ok i]
    have "A (so_order_ref (body (mslot_array b) i)) = Some (view_of (body (mslot_array b) i))"
      using assms sl(5) by (auto simp: rel_by_def)
    then have "so_order_ref (body (mslot_array b) i) \<in> at_level A bid p"
      using sl(1,2) by (simp add: at_level_def)
    then show False using e by simp
  qed
  then show "g bid p = []" by (cases "g bid p") auto
next
  assume "g bid p = []"
  then show "at_level A bid p = {}" using rel_order [OF assms] by (fastforce simp: at_level_def)
qed

lemma rel_level:
  assumes r: "rel_by b A V g D F" and ne: "g bid p \<noteq> []" and sd: "is_buy sd = bid"
  obtains l where "lt_map (side_table sd b) p = Some l" "ml_total l = V bid p"
    "mlevel_ok (mslot_array b) bid p (D bid p) l (g bid p)"
proof -
  have ok: "mkt_ok b g D F {}" using r by (simp add: rel_by_def)
  obtain i where "i \<in> set (g bid p)" using ne by (cases "g bid p") auto
  then obtain l where l: "lt_map (side_table sd b) p = Some l" "mlevel_ok (mslot_array b) bid p (D bid p) l (g bid p)"
    using mkt_level [OF ok _ sd] by blast
  then have "ml_total l = V bid p" using r by (simp add: rel_by_def mlevel_ok_def)
  then show ?thesis using that l by blast
qed

text \<open>The table of a side holds exactly the prices with orders.\<close>

lemma rel_table:
  assumes r: "rel_by b A V g D F" and sd: "is_buy sd = bid"
  shows "lt_map (side_table sd b) p = None \<longleftrightarrow> at_level A bid p = {}"
    "lt_map (side_table sd b) p = Some l \<Longrightarrow> ml_total l = V bid p"
proof -
  have ok: "mkt_ok b g D F {}" using r by (simp add: rel_by_def)
  have side: "mside_ok (mslot_array b) bid (side_table sd b) (g bid) (D bid)" using mkt_side [OF ok, of sd] sd by simp
  show e: "lt_map (side_table sd b) p = None \<longleftrightarrow> at_level A bid p = {}"
    unfolding rel_level_empty [OF r] using mside_none(1) [OF side] rel_level [OF r _ sd] by (metis option.distinct(1))
  show "ml_total l = V bid p" if "lt_map (side_table sd b) p = Some l"
  proof -
    have "g bid p \<noteq> []" using that e rel_level_empty [OF r, of bid p] by auto
    then show ?thesis using rel_level [OF r _ sd] that by (metis option.inject)
  qed
qed

section \<open>Simulation of the operations\<close>

lemma rel_add:
  assumes r: "rel_by b A V g D (idx # F)" and new: "A rf = None" and p: "real_price p" "in_i64 p"
    and room: "roomy (side_table sd b)" "om_room (mb_index b) rf"
    and v: "v = \<lparr>sv_order_ref = rf, sv_side = sd, sv_price = p, sv_shares = q, sv_remaining = q, sv_sequence = sq\<rparr>"
  shows "\<exists>b' g'. mkt_add rf sd p q sq b = Some (idx, b') \<and> idx \<noteq> UINT32_MAX \<and>
    (case spec_add v (A, V) of (A', V') \<Rightarrow> rel_by b' A' V' g' D F)"
proof -
  define S where "S = mslot_array b"
  have ok: "mkt_ok b g D (idx # F) {}" using r by (simp add: rel_by_def)
  have ix: "unat idx < length S" "idx \<notin> mlive g" "idx \<noteq> UINT32_MAX"
    using ok slot_not_null [of idx "length S"] by (auto simp: mkt_ok_def pool_ok_def S_def)
  define g' where "g' = level_ids g (is_buy sd) p (idx # g (is_buy sd) p)"
  obtain b' where b': "mkt_add rf sd p q sq b = Some (idx, b')" "mkt_ok b' g' D F {}"
    "\<forall>i\<in>mlive g. body (mslot_array b') i = body S i"
    "view_of (body (mslot_array b') idx) = v"
    using mkt_add_ok [OF ok rel_absent [OF r new] p room, of q sq] unfolding g'_def S_def view_of_def v by auto
  have lv: "mlive g' = insert idx (mlive g)"
    using mlive_upd [of g "is_buy sd" p "idx # g (is_buy sd) p"] mlive_split [of g "is_buy sd" p] by (auto simp: g'_def)
  have A: "(A(rf \<mapsto> v)) k = Some w \<longleftrightarrow> (\<exists>i\<in>mlive g'. view_of (body (mslot_array b') i) = w \<and> sv_order_ref w = k)" for k w
  proof (cases "k = rf")
    case True
    have "\<not> (\<exists>i\<in>mlive g. view_of (body S i) = w \<and> sv_order_ref w = rf)" using r new unfolding rel_by_def S_def by (metis option.distinct(1))
    then show ?thesis using True b'(3,4) lv by (auto simp: v)
  next
    case False
    then show ?thesis using r b'(3,4) lv unfolding rel_by_def S_def by (auto simp: v)
  qed
  have vol: "(\<Sum>i\<leftarrow>g bid k. (ucast (so_remaining (body (mslot_array b') i)) :: u32)) = (\<Sum>i\<leftarrow>g bid k. ucast (so_remaining (body S i)))" for bid k
    using b'(3) mkt_slot(5) [OF ok] by (intro arg_cong [of _ _ sum_list] map_cong) auto
  have rem: "so_remaining (body (mslot_array b') idx) = q" using b'(4) by (simp add: v view_of_def)
  have V: "add_volume (is_buy sd) p (ucast q) V bid k = (\<Sum>i\<leftarrow>g' bid k. ucast (so_remaining (body (mslot_array b') i))) - D bid k" for bid k
    using r vol rem by (auto simp: add_volume_def set_drift_def g'_def level_ids_def rel_by_def S_def algebra_simps)
  have "rel_by b' (A(rf \<mapsto> v)) (add_volume (is_buy sd) p (ucast q) V) g' D F"
    unfolding rel_by_def using b'(2) A V by blast
  then show ?thesis using b'(1) ix(3) by (auto simp: spec_add_def v)
qed

lemma rel_drop:
  assumes r: "rel_by b A V g D F" and a: "A rf = Some v" and i: "slot_find (mb_index b) rf = Some (Some i)"
  shows "\<exists>b1 b2 g' D'. unlink_and_free i b = Some b1 \<and> mkt_erase_ref rf b1 = Some b2 \<and> mroomier b b2 \<and>
    (case spec_drop v (A, V) of (A', V') \<Rightarrow> rel_by b2 A' V' g' D' (i # F))"
proof -
  define S where "S = mslot_array b"
  define bid p where "bid = is_buy (sv_side v)" and "p = sv_price v"
  have ok: "mkt_ok b g D F {}" using r by (simp add: rel_by_def)
  have il: "i \<in> set (g bid p)" and iv: "view_of (body S i) = v" and rf: "sv_order_ref v = rf" and live: "i \<in> mlive g"
    using rel_order [OF r a] i by (auto simp: bid_def p_def S_def)
  obtain as bs where ab: "g bid p = as @ i # bs" using il by (auto simp: in_set_conv_decomp)
  have f: "so_order_ref (body S i) = rf" "so_shares (body S i) = sv_shares v" "so_remaining (body S i) = sv_remaining v"
    using iv rf by auto
  define g' where "g' = level_ids g bid p (as @ bs)"
  define D' where "D' = set_drift D bid p (if as @ bs = [] then 0 else D bid p + (ucast (sv_shares v) - ucast (sv_remaining v)))"
  obtain b1 b2 where b: "unlink_and_free i b = Some b1" "mkt_erase_ref rf b1 = Some b2" "mkt_ok b2 g' D' (i # F) {}"
    "body (mslot_array b2) = body S" "mroomier b b2"
    "mlive g' = mlive g - {i}"
    using mkt_drop_ok [OF ok il ab] unfolding S_def [symmetric] f g'_def D'_def by blast
  have A: "(A(rf := None)) k = Some w \<longleftrightarrow> (\<exists>j\<in>mlive g'. view_of (body (mslot_array b2) j) = w \<and> sv_order_ref w = k)" for k w
  proof (cases "k = rf")
    case True
    have "j = i" if "j \<in> mlive g" "so_order_ref (body S j) = rf" for j
      using mkt_inj [OF ok, of j i] that live f(1) by (simp add: S_def)
    then show ?thesis using True b(4,6) by auto
  next
    case False
    then show ?thesis using r b(4,6) f(1) unfolding rel_by_def S_def by auto
  qed
  have lev: "at_level (A(rf := None)) bid p = {} \<longleftrightarrow> as @ bs = []"
  proof -
    have "rel_by b2 (A(rf := None)) (\<lambda>bid p. (\<Sum>i\<leftarrow>g' bid p. ucast (so_remaining (body (mslot_array b2) i))) - D' bid p) g' D' (i # F)"
      unfolding rel_by_def using b(3) A by blast
    from rel_level_empty [OF this, of bid p] show ?thesis by (simp add: g'_def)
  qed
  define V' where "V' = set_drift V bid p (if as @ bs = [] then 0 else V bid p - ucast (sv_shares v))"
  have V: "V' d k = (\<Sum>j\<leftarrow>g' d k. ucast (so_remaining (body (mslot_array b2) j))) - D' d k" for d k
    using r ab f(3) unfolding V'_def D'_def g'_def b(4) rel_by_def S_def
    by (auto simp: set_drift_def level_ids_def algebra_simps)
  have "spec_drop v (A, V) = (A(rf := None), V')"
    using lev by (simp add: spec_drop_def rf V'_def bid_def p_def Let_def)
  moreover have "rel_by b2 (A(rf := None)) V' g' D' (i # F)" unfolding rel_by_def using b(3) A V by blast
  ultimately show ?thesis using b(1,2,5) by auto
qed

text \<open>A slot rewritten to an order under the same number, as seen from the orders and from the volumes.\<close>

lemma rel_rewrite_orders:
  assumes r: "rel_by b A V g D F" and live: "i \<in> mlive g" and rf: "so_order_ref (body (mslot_array b) i) = rf"
    and b1: "body (mslot_array b1) = (body (mslot_array b))(i := s)" and s: "so_order_ref s = rf"
  shows "(A(rf \<mapsto> view_of s)) k = Some w \<longleftrightarrow> (\<exists>j\<in>mlive g. view_of (body (mslot_array b1) j) = w \<and> sv_order_ref w = k)"
proof -
  have ok: "mkt_ok b g D F {}" using r by (simp add: rel_by_def)
  show ?thesis
  proof (cases "k = rf")
    case True
    have "(\<exists>j\<in>mlive g. view_of (body (mslot_array b1) j) = w \<and> sv_order_ref w = rf) \<longleftrightarrow> view_of s = w"
    proof
      assume "\<exists>j\<in>mlive g. view_of (body (mslot_array b1) j) = w \<and> sv_order_ref w = rf"
      then obtain j where j: "j \<in> mlive g" "view_of (body (mslot_array b1) j) = w" "sv_order_ref w = rf" by blast
      have "so_order_ref (body (mslot_array b1) j) = rf" using j(3) unfolding j(2) [symmetric] by simp
      then have "so_order_ref (body (mslot_array b) j) = so_order_ref (body (mslot_array b) i)"
        using rf by (cases "j = i") (simp_all add: b1)
      then have "j = i" using mkt_inj [OF ok, of j i] j(1) live by blast
      then show "view_of s = w" using j(2) b1 by simp
    next
      assume "view_of s = w"
      then show "\<exists>j\<in>mlive g. view_of (body (mslot_array b1) j) = w \<and> sv_order_ref w = rf"
        using live s by (intro bexI [of _ i]) (auto simp: b1)
    qed
    then show ?thesis using True by simp
  next
    case False
    have "view_of (body (mslot_array b1) j) = w \<and> sv_order_ref w = k \<longleftrightarrow> view_of (body (mslot_array b) j) = w \<and> sv_order_ref w = k" for j
      using False rf s by (cases "j = i") (auto simp: b1)
    then show ?thesis using r False unfolding rel_by_def by simp
  qed
qed

lemma rel_rewrite_volume:
  assumes r: "rel_by b A V g D F" and il: "i \<in> set (g bid p)" and sd: "is_buy sd = bid"
    and b1: "mkt_ok b1 g D F {}" "body (mslot_array b1) = (body (mslot_array b))(i := s)"
    and l: "lt_map (side_table sd b1) p = Some l" "ml_total l = V bid p + x"
  shows "add_volume bid p x V d k = (\<Sum>j\<leftarrow>g d k. ucast (so_remaining (body (mslot_array b1) j))) - D d k"
proof (cases "d = bid \<and> k = p")
  case True
  have "mside_ok (mslot_array b1) bid (side_table sd b1) (g bid) (D bid)"
    using mkt_side [OF b1(1), of sd] sd by simp
  then have "mlevel_ok (mslot_array b1) bid p (D bid p) l (g bid p)"
    using l(1) by (auto simp: mside_ok_def split: option.splits dest: spec [of _ p])
  then show ?thesis using True l(2) by (simp add: mlevel_ok_def add_volume_def set_drift_def)
next
  case False
  have ok: "mkt_ok b g D F {}" using r by (simp add: rel_by_def)
  have "i \<notin> set (g d k)"
    using mkt_slot(1,2) [OF ok, of i d k] mkt_slot(1,2) [OF ok il] False by auto
  then have "(\<Sum>j\<leftarrow>g d k. (ucast (so_remaining (body (mslot_array b1) j)) :: u32)) =
      (\<Sum>j\<leftarrow>g d k. ucast (so_remaining (body (mslot_array b) j)))"
    using b1(2) by (intro arg_cong [of _ _ sum_list] map_cong) auto
  then show ?thesis using False r by (auto simp: add_volume_def set_drift_def rel_by_def)
qed

lemma rel_less:
  assumes r: "rel_by b A V g D F" and a: "A rf = Some v" and i: "slot_find (mb_index b) rf = Some (Some i)"
    and c: "c \<le> sv_remaining v" and nz: "V (is_buy (sv_side v)) (sv_price v) \<noteq> ucast c"
  shows "\<exists>b1. dec_level_qty (sv_side v) (sv_price v) c (b\<lparr>mb_pool := put_slot i (less_remaining c) (mb_pool b)\<rparr>) = Some b1 \<and>
    mb_index b1 = mb_index b \<and> mroomier b b1 \<and> (case spec_less v c (A, V) of (A', V') \<Rightarrow> rel_by b1 A' V' g D F)"
proof -
  define S where "S = mslot_array b"
  define bid p where "bid = is_buy (sv_side v)" and "p = sv_price v"
  have ok: "mkt_ok b g D F {}" using r by (simp add: rel_by_def)
  have il: "i \<in> set (g bid p)" and iv: "view_of (body S i) = v" and rf: "sv_order_ref v = rf" and live: "i \<in> mlive g"
    using rel_order [OF r a] i by (auto simp: bid_def p_def S_def)
  have "g bid p \<noteq> []" using il by auto
  then obtain l where l: "lt_map (side_table (sv_side v) b) p = Some l" "ml_total l = V bid p"
    using rel_level [OF r _ bid_def [symmetric]] by metis
  have q': "c \<le> so_remaining (body (mslot_array b) i)" using c iv by (auto simp: S_def)
  have nz': "ml_total l \<noteq> ucast c" using nz l(2) by (simp add: bid_def p_def)
  obtain b1 where b1: "dec_level_qty (sv_side v) p c (b\<lparr>mb_pool := put_slot i (less_remaining c) (mb_pool b)\<rparr>) = Some b1"
    "mkt_ok b1 g D F {}" "body (mslot_array b1) = (body S)(i := less_remaining c (body S i))"
    "mb_index b1 = mb_index b" "mroomier b b1" "lt_map (side_table (sv_side v) b1) p = Some (l\<lparr>ml_total := ml_total l - ucast c\<rparr>)"
    using mkt_dec_ok [OF ok il bid_def [symmetric] l(1) q' nz', folded S_def] by blast
  define v' where "v' = v\<lparr>sv_remaining := sv_remaining v - c\<rparr>"
  have vi: "view_of (less_remaining c (body S i)) = v'" "so_order_ref (body S i) = rf" "so_order_ref (less_remaining c (body S i)) = rf"
    using iv rf by (auto simp: v'_def)
  note A = rel_rewrite_orders [OF r live vi(2) [unfolded S_def] b1(3) [unfolded S_def] vi(3) [unfolded S_def], folded S_def, unfolded vi(1)]
  have tot: "ml_total (l\<lparr>ml_total := ml_total l - ucast c\<rparr>) = V bid p + (- ucast c)" using l(2) by simp
  note W = rel_rewrite_volume [OF r il bid_def [symmetric] b1(2) b1(3) [unfolded S_def] b1(6) tot]
  have "rel_by b1 (A(rf \<mapsto> v')) (add_volume bid p (- ucast c) V) g D F"
    unfolding rel_by_def using b1(2) A W by blast
  then show ?thesis using b1(1,4,5) by (auto simp: spec_less_def rf v'_def bid_def p_def)
qed

end
