(* ===== verification/Mkt_Claims.thy ===== *)
theory Mkt_Claims
  imports Mkt_Spec
begin

text \<open>
  What the market book guarantees: its operations refine the abstract book, its queries show it; and
  two defects of the accounting of a level, an executed order deducted twice and an emptied level that
  stays as a ghost.
\<close>

section \<open>Operations\<close>

datatype mkt_op = MAdd u64 order_side int u64 u64 | MRemove u64 | MCancel u64 u64 | MExecute u64 u64
  | MReplace u64 u64 order_side int u64 u64

definition mkt_apply :: "mkt_op \<Rightarrow> mkt_book \<Rightarrow> mkt_book option" where
  "mkt_apply op b = (case op of
     MAdd r sd p q sq \<Rightarrow> map_option snd (mkt_add r sd p q sq b)
   | MRemove r \<Rightarrow> map_option snd (mkt_remove r b)
   | MCancel r q \<Rightarrow> map_option snd (mkt_cancel r q b)
   | MExecute r q \<Rightarrow> map_option snd (mkt_execute r q b)
   | MReplace r r' sd p q sq \<Rightarrow> map_option snd (mkt_replace r r' sd p q sq b))"

definition new_view :: "u64 \<Rightarrow> order_side \<Rightarrow> int \<Rightarrow> u64 \<Rightarrow> u64 \<Rightarrow> slot_view" where
  "new_view r sd p q sq = \<lparr>sv_order_ref = r, sv_side = sd, sv_price = p, sv_shares = q, sv_remaining = q, sv_sequence = sq\<rparr>"

definition spec_apply :: "mkt_op \<Rightarrow> aorders \<times> avolume \<Rightarrow> aorders \<times> avolume" where
  "spec_apply op s = (case op of
     MAdd r sd p q sq \<Rightarrow> spec_add (new_view r sd p q sq) s
   | MRemove r \<Rightarrow> (case fst s r of None \<Rightarrow> s | Some v \<Rightarrow> spec_drop v s)
   | MCancel r q \<Rightarrow> (case fst s r of None \<Rightarrow> s | Some v \<Rightarrow> spec_reduce v q s)
   | MExecute r q \<Rightarrow> (case fst s r of None \<Rightarrow> s | Some v \<Rightarrow> spec_reduce v q s)
   | MReplace r r' sd p q sq \<Rightarrow> (case fst s r of None \<Rightarrow> s
       | Some v \<Rightarrow> spec_add (new_view r' sd p q (if sq \<noteq> 0 then sq else sv_sequence v)) (spec_drop v s)))"

text \<open>An entry fits: its reference is new, its price is not a marker, and there is room for it.\<close>

definition fits :: "u64 \<Rightarrow> order_side \<Rightarrow> int \<Rightarrow> mkt_book \<Rightarrow> aorders \<Rightarrow> bool" where
  "fits r sd p b A \<longleftrightarrow> A r = None \<and> real_price p \<and> in_i64 p \<and> roomy (side_table sd b) \<and> om_room (mb_index b) r"

definition keeps_volume :: "u64 \<Rightarrow> u64 \<Rightarrow> aorders \<Rightarrow> avolume \<Rightarrow> bool" where
  "keeps_volume r q A V \<longleftrightarrow> (\<forall>v. A r = Some v \<longrightarrow> V (is_buy (sv_side v)) (sv_price v) \<noteq> ucast (min q (sv_remaining v)))"

definition mkt_guard :: "mkt_op \<Rightarrow> mkt_book \<Rightarrow> aorders \<Rightarrow> avolume \<Rightarrow> bool" where
  "mkt_guard op b A V = (case op of
     MAdd r sd p q sq \<Rightarrow> fits r sd p b A \<and> pool_usage b \<noteq> of_nat (pool_capacity (mb_pool b))
   | MRemove r \<Rightarrow> True
   | MCancel r q \<Rightarrow> keeps_volume r q A V
   | MExecute r q \<Rightarrow> keeps_volume r q A V
   | MReplace r r' sd p q sq \<Rightarrow> A r \<noteq> None \<longrightarrow> fits r' sd p b (A(r := None)))"

lemma rel_pool_free:
  assumes r: "rel_by b A V g D F" and u: "pool_usage b \<noteq> of_nat (pool_capacity (mb_pool b))"
  obtains idx F' where "F = idx # F'"
proof (cases F)
  case Nil
  then have "pool_usage b = of_nat (pool_capacity (mb_pool b))"
    using r by (simp add: rel_by_def mkt_ok_def pool_ok_def pool_usage_def pool_capacity_def)
  then show ?thesis using u by simp
qed (use that in blast)

lemma rel_remove:
  assumes r: "rel_by b A V g D F" and a: "A rf = Some v"
  shows "\<exists>b' g' D' idx. mkt_remove rf b = Some (True, b') \<and> mroomier b b' \<and>
    (case spec_drop v (A, V) of (A', V') \<Rightarrow> rel_by b' A' V' g' D' (idx # F))"
proof -
  obtain i where "slot_find (mb_index b) rf = Some (Some i)" by (rule rel_order [OF r a])
  with rel_drop [OF r a this] show ?thesis by (fastforce simp: mkt_remove_def)
qed

lemma rel_reduce:
  assumes r: "rel_by b A V g D F" and a: "A rf = Some v" and kv: "keeps_volume rf q A V"
    and i: "slot_find (mb_index b) rf = Some (Some i)"
  shows "\<exists>b' g' D' F'. reduce_slot rf i q b = Some b' \<and>
    (case spec_reduce v q (A, V) of (A', V') \<Rightarrow> rel_by b' A' V' g' D' F')"
proof -
  define c where "c = min q (sv_remaining v)"
  have ok: "mkt_ok b g D F {}" using r by (simp add: rel_by_def)
  have il: "i \<in> set (g (is_buy (sv_side v)) (sv_price v))" and iv: "view_of (body (mslot_array b) i) = v"
    using rel_order [OF r a] i by auto
  have f: "so_side (body (mslot_array b) i) = sv_side v" "so_remaining (body (mslot_array b) i) = sv_remaining v"
    using iv by auto
  have cl: "c \<le> sv_remaining v" by (simp add: c_def)
  have nz: "V (is_buy (sv_side v)) (sv_price v) \<noteq> ucast c" using kv a by (simp add: keeps_volume_def c_def)
  obtain b1 A1 V1 where b1: "dec_level_qty (sv_side v) (sv_price v) c (b\<lparr>mb_pool := put_slot i (less_remaining c) (mb_pool b)\<rparr>) = Some b1"
    "mb_index b1 = mb_index b" "spec_less v c (A, V) = (A1, V1)" "rel_by b1 A1 V1 g D F"
    using rel_less [OF r a i cl nz] by (cases "spec_less v c (A, V)") auto
  define v1 where "v1 = v\<lparr>sv_remaining := sv_remaining v - c\<rparr>"
  have rv: "sv_order_ref v = rf" using rel_order [OF r a] by blast
  have A1: "A1 rf = Some v1" using b1(3) rv by (auto simp: spec_less_def v1_def)
  have sd: "spec_drop v1 s = spec_drop v s" for s by (cases s) (simp add: spec_drop_def v1_def Let_def)
  have i1: "slot_find (mb_index b1) rf = Some (Some i)" using i b1(2) by simp
  note run = reduce_step [OF ok il, of rf q, unfolded f, folded c_def]
  have cm: "spec_reduce v q s = (if sv_remaining v = c then spec_drop v (spec_less v c s) else spec_less v c s)" for s
    by (simp add: spec_reduce_def c_def Let_def)
  show ?thesis
  proof (cases "sv_remaining v = c")
    case True
    obtain b2 b3 g' D' where "unlink_and_free i b1 = Some b2" "mkt_erase_ref rf b2 = Some b3"
      "case spec_drop v (A1, V1) of (A', V') \<Rightarrow> rel_by b3 A' V' g' D' (i # F)"
      using rel_drop [OF b1(4) A1 i1] unfolding sd by (elim exE conjE) (rule that)
    then show ?thesis unfolding run using True b1(1,3)
      by (intro exI [of _ b3] exI [of _ g'] exI [of _ D'] exI [of _ "i # F"]) (simp add: cm)
  next
    case False
    then show ?thesis unfolding run using b1(1,3,4) by (auto simp: cm)
  qed
qed

lemma rel_replace:
  fixes q sq :: u64
  assumes r: "rel_by b A V g D F" and a: "A rf = Some v" and fit: "fits rf' sd p b (A(rf := None))"
  defines "w \<equiv> new_view rf' sd p q (if sq \<noteq> 0 then sq else sv_sequence v)"
  shows "\<exists>b'. mkt_replace rf rf' sd p q sq b = Some (True, b') \<and>
    (case spec_add w (spec_drop v (A, V)) of (A', V') \<Rightarrow> mkt_rel b' A' V')"
proof -
  have ok: "mkt_ok b g D F {}" using r by (simp add: rel_by_def)
  obtain i where i: "slot_find (mb_index b) rf = Some (Some i)" "i \<in> set (g (is_buy (sv_side v)) (sv_price v))"
    "view_of (body (mslot_array b) i) = v" "sv_order_ref v = rf"
    by (rule rel_order [OF r a])
  have at: "slot_at (mb_pool b) i = Some (mslot_array b ! unat i)"
    using mkt_slot(3) [OF ok i(2)] by (simp add: slot_at_def)
  have sq': "so_sequence (mslot_array b ! unat i) = sv_sequence v" using i(3) by (auto simp: slot_field)
  obtain b1 g1 D1 idx A1 V1 where b1: "mkt_remove rf b = Some (True, b1)" "mroomier b b1" "spec_drop v (A, V) = (A1, V1)"
    "rel_by b1 A1 V1 g1 D1 (idx # F)"
    using rel_remove [OF r a] by (cases "spec_drop v (A, V)") auto
  have A1: "A1 = A(rf := None)" using b1(3) i(4) by (auto simp: spec_drop_def Let_def)
  have room: "roomy (side_table sd b1)" "om_room (mb_index b1) rf'"
    using fit b1(2) mroomier_side [OF b1(2)] by (auto simp: fits_def mroomier_def)
  define n where "n = (if sq \<noteq> 0 then sq else sv_sequence v)"
  have new: "A1 rf' = None" "real_price p" "in_i64 p" using fit A1 by (simp_all add: fits_def)
  have w: "w = \<lparr>sv_order_ref = rf', sv_side = sd, sv_price = p, sv_shares = q, sv_remaining = q, sv_sequence = n\<rparr>"
    by (simp add: w_def n_def new_view_def)
  obtain b2 where b2: "mkt_add rf' sd p q n b1 = Some (idx, b2)" "idx \<noteq> UINT32_MAX"
    "case spec_add w (A1, V1) of (A', V') \<Rightarrow> mkt_rel b2 A' V'"
    using rel_add [OF b1(4) new room w] by (cases "spec_add w (A1, V1)") (auto simp: mkt_rel_by)
  then show ?thesis
    using i(1) at b1(1,3) by (auto simp: mkt_replace_def Let_def sq' n_def)
qed

text \<open>The operations that name an order do nothing when it is unknown; a cancel and an execution are alike.\<close>

definition named_ref :: "mkt_op \<Rightarrow> u64 option" where
  "named_ref op = (case op of MAdd _ _ _ _ _ \<Rightarrow> None | MRemove r \<Rightarrow> Some r | MCancel r _ \<Rightarrow> Some r | MExecute r _ \<Rightarrow> Some r
     | MReplace r _ _ _ _ _ \<Rightarrow> Some r)"

lemma apply_unknown:
  assumes "rel_by b A V g D F" "named_ref op = Some rf" "A rf = None"
  shows "mkt_apply op b = Some b \<and> spec_apply op (A, V) = (A, V)"
  using assms(2,3) rel_absent [OF assms(1,3)]
  by (cases op) (simp_all add: named_ref_def mkt_apply_def spec_apply_def mkt_remove_def mkt_cancel_def mkt_execute_def mkt_replace_def)

lemma apply_reduce:
  assumes r: "rel_by b A V g D F" and a: "A rf = Some v" and op: "op = MCancel rf q \<or> op = MExecute rf q" and kv: "mkt_guard op b A V"
  shows "\<exists>b'. mkt_apply op b = Some b' \<and> (case spec_apply op (A, V) of (A', V') \<Rightarrow> mkt_rel b' A' V')"
proof -
  obtain i where i: "slot_find (mb_index b) rf = Some (Some i)" by (rule rel_order [OF r a])
  have "keeps_volume rf q A V" using op kv by (auto simp: mkt_guard_def)
  from rel_reduce [OF r a this i] obtain b' where "reduce_slot rf i q b = Some b'"
    "case spec_reduce v q (A, V) of (A', V') \<Rightarrow> mkt_rel b' A' V'"
    by (fastforce simp: mkt_rel_by)
  then show ?thesis using op a i by (auto simp: mkt_apply_def spec_apply_def mkt_cancel_def mkt_execute_def)
qed


section \<open>An empty book, and one with orders\<close>

lemma mkt_new_rel:
  "\<exists>pool ix ix1 g D. slot_pool_new 8 = Some pool \<and> slot_index_new 8 = Some ix \<and>
    rel_by (mkt_new pool ix) Map.empty (\<lambda>_ _. 0) g D (map of_nat [0..<8]) \<and> (\<forall>k. om_room ix k) \<and>
    slot_insert 7 (Some 0) ix = Some ix1 \<and> om_room ix1 8"
proof -
  obtain pool where p: "slot_pool_new 8 = Some pool" "pool_ok pool (map of_nat [0..<8])" "length (storage pool) = 8"
    using pool_init_ok [of "\<lparr>storage = replicate 8 default_slot, free_head = 0, pool_size = 0\<rparr>"]
    by (auto simp: slot_pool_new_def pool_new_def)
  have "\<exists>ix ix1. slot_index_new 8 = Some ix \<and> slot_insert 7 (Some 0) ix = Some ix1 \<and> om_room ix1 8"
    by (simp add: code_eval om_room_def hash_of_def cong: bind_eval_cong) (rule exI, rule TrueI)
  then obtain ix ix1 :: slot_index where e: "slot_index_new 8 = Some ix" "slot_insert 7 (Some 0) ix = Some ix1" "om_room ix1 8"
    by blast
  then have ix: "slot_index_new 8 = Some ix" "om_inv ix" "\<forall>k. om_find ix k = Some None" "\<forall>k. om_room ix k"
    "slot_insert 7 (Some 0) ix = Some ix1" "om_room ix1 8"
    using om_new_ok [of 8, where 'v = u32] by (auto simp: slot_index_new_def)
  have "mkt_ok (mkt_new pool ix) (\<lambda>_ _. []) (\<lambda>_ _. 0) (map of_nat [0..<8]) {}"
    using p(2) ix lt_new_ok by (auto simp: mkt_ok_def mkt_new_def mside_ok_def mlive_def mslots_def order_map.indexes_def lt_new_def)
  then have "rel_by (mkt_new pool ix) Map.empty (\<lambda>_ _. 0) (\<lambda>_ _. []) (\<lambda>_ _. 0) (map of_nat [0..<8])"
    by (simp add: rel_by_def mlive_def mslots_def)
  then show ?thesis using p ix(1,4-) by blast
qed

lemma roomy_new [simp]: "roomy (side_table sd (mkt_new pool ix))"
  by (simp add: roomy_def side_table_def mkt_new_def lt_new_def fresh_slots_def kInitCapacity_def)

text \<open>Two bids of one price, and one.\<close>

definition bid7 :: slot_view where
  "bid7 = new_view 7 OS_BUY 100 50 1"

definition bid8 :: slot_view where
  "bid8 = new_view 8 OS_BUY 100 30 2"

lemma real_100: "real_price 100" "in_i64 100"
  by (simp_all add: real_price_def kEmpty_def kTombstone_def in_i64_def)

lemma rehash_all_length: "rehash_all sls ns = Some ns' \<Longrightarrow> length ns' = length ns"
  by (induction sls arbitrary: ns) (auto simp: rehash_def split: if_splits bind_split_asm)

lemma lt_ref_length: "lt_ref p t = Some (i, t') \<Longrightarrow> length (lt_slots t') \<le> 2 * length (lt_slots t)"
  by (auto simp: lt_ref_def lt_grow_def lift_best_def fresh_slots_def Let_def dest!: rehash_all_length
      split: prod.splits if_splits bind_split_asm)

text \<open>An add at most doubles the table of its side.\<close>

lemma mkt_add_length:
  assumes "mkt_add r sd p q sq b = Some (k, b')"
  shows "length (lt_slots (side_table sd' b')) \<le> 2 * length (lt_slots (side_table sd' b))"
  using assms
  by (auto simp: mkt_add_def Let_def set_side_table_def side_table_def lt_set_def dest!: lt_ref_length
      split: prod.splits if_splits bind_split_asm option.splits)

lemma mkt_add_index:
  assumes "mkt_add r sd p q sq b = Some (k, b')" "k \<noteq> UINT32_MAX"
  shows "slot_insert r (Some k) (mb_index b) = Some (mb_index b')"
  using assms by (auto simp: mkt_add_def Let_def split: prod.splits if_splits bind_split_asm option.splits)

abbreviation "volume7 \<equiv> add_volume True 100 50 (\<lambda>_ _. 0)"

lemma mkt_run:
  "\<exists>b0 b1 b2. mkt_rel b0 Map.empty (\<lambda>_ _. 0) \<and> mkt_guard (MAdd 7 OS_BUY 100 50 1) b0 Map.empty (\<lambda>_ _. 0) \<and>
    mkt_rel b1 [7 \<mapsto> bid7] volume7 \<and> roomy (side_table OS_BUY b1) \<and>
    mkt_rel b2 [7 \<mapsto> bid7, 8 \<mapsto> bid8] (add_volume True 100 30 volume7)"
proof -
  obtain pool ix ix1 g D where n: "rel_by (mkt_new pool ix) Map.empty (\<lambda>_ _. 0) g D (map of_nat [0..<8])"
    "slot_pool_new 8 = Some pool" "\<forall>k. om_room ix k" "slot_insert 7 (Some 0) ix = Some ix1" "om_room ix1 8"
    using mkt_new_rel by blast
  define b0 where "b0 = mkt_new pool ix"
  have F: "map of_nat [0..<8] = 0 # 1 # map (of_nat :: nat \<Rightarrow> u32) [2..<8]" by (simp add: upt_conv_Cons)
  have i0: "mb_index b0 = ix" by (simp add: b0_def mkt_new_def)
  have r0: "rel_by b0 Map.empty (\<lambda>_ _. 0) g D (0 # 1 # map of_nat [2..<8])" using n(1) F by (simp add: b0_def)
  have "pool_usage b0 \<noteq> of_nat (pool_capacity (mb_pool b0))"
    using n(2) by (auto simp: b0_def pool_usage_def pool_capacity_def slot_pool_new_def pool_new_def pool_init_free_list_def link_all_def mkt_new_def)
  then have g0: "mkt_guard (MAdd 7 OS_BUY 100 50 1) b0 Map.empty (\<lambda>_ _. 0)"
    using n(3) real_100 i0 by (simp add: mkt_guard_def fits_def) (simp add: b0_def)
  obtain b1 g1 where b1: "mkt_add 7 OS_BUY 100 50 1 b0 = Some (0, b1)" "rel_by b1 [7 \<mapsto> bid7] volume7 g1 D (1 # map of_nat [2..<8])"
    using rel_add [OF r0 _ real_100 _ _ refl, where rf = 7 and sd = OS_BUY and q = 50 and sq = 1] n(3) i0
    by (auto simp: spec_add_def bid7_def new_view_def b0_def)
  have rm: "length (lt_slots (side_table OS_BUY b1)) \<le> 2048"
    using mkt_add_length [OF b1(1), of OS_BUY]
    by (simp add: b0_def side_table_def mkt_new_def lt_new_def fresh_slots_def kInitCapacity_def)
  then have rm': "roomy (side_table OS_BUY b1)" by (simp add: roomy_def)
  have i1: "om_room (mb_index b1) 8" using mkt_add_index [OF b1(1)] n(4,5) i0 by (simp add: UINT32_MAX_def)
  obtain b2 g2 where b2: "rel_by b2 [7 \<mapsto> bid7, 8 \<mapsto> bid8] (add_volume True 100 30 volume7) g2 D (map of_nat [2..<8])"
    using rel_add [OF b1(2) _ real_100 rm' i1 refl, where q = 30 and sq = 2] by (auto simp: spec_add_def bid8_def new_view_def)
  have "mkt_rel b0 Map.empty (\<lambda>_ _. 0)" "mkt_rel b1 [7 \<mapsto> bid7] volume7"
    "mkt_rel b2 [7 \<mapsto> bid7, 8 \<mapsto> bid8] (add_volume True 100 30 volume7)"
    using r0 b1(2) b2 unfolding mkt_rel_by by blast+
  then show ?thesis using g0 rm' by blast
qed


section \<open>Queries\<close>

definition prices :: "aorders \<Rightarrow> bool \<Rightarrow> int set" where
  "prices A bid = {p. at_level A bid p \<noteq> {}}"

lemma rel_dom:
  assumes "rel_by b A V g D F" "is_buy sd = bid"
  shows "dom (lt_map (side_table sd b)) = prices A bid"
  using rel_table(1) [OF assms] by (auto simp: prices_def dom_def)

lemma lt_dom_small: "lt_ok t \<Longrightarrow> card (dom (lt_map t)) < 2 ^ 64"
proof -
  assume ok: "lt_ok t"
  have "dom (lt_map t) \<subseteq> fst ` set (lt_slots t)" by (auto simp: lt_map_def dom_slots_map)
  then have "card (dom (lt_map t)) \<le> card (fst ` set (lt_slots t))" by (intro card_mono) simp_all
  also have "\<dots> \<le> length (lt_slots t)" by (rule order_trans [OF card_image_le card_length]) simp
  also have "\<dots> < 2 ^ 64" using slots_lenD [of "lt_slots t"] ok by (simp add: lt_ok_def)
  finally show ?thesis .
qed

lemma rel_best:
  assumes r: "rel_by b A V g D F" and sd: "is_buy sd = bid"
  defines "t \<equiv> side_table sd b"
  shows "lt_empty t \<longleftrightarrow> prices A bid = {}" "prices A bid \<noteq> {} \<Longrightarrow> lt_best t = (if bid then Max (prices A bid) else Min (prices A bid))"
    "prices A bid \<noteq> {} \<Longrightarrow> lt_best t \<in> prices A bid" "lt_count t = of_nat (card (prices A bid))"
proof -
  have ok: "mkt_ok b g D F {}" using r by (simp add: rel_by_def)
  have t: "lt_ok t" "lt_is_bid t = bid" using mkt_side [OF ok, of sd] sd by (simp_all add: mside_ok_def t_def)
  have d: "dom (lt_map t) = prices A bid" using rel_dom [OF r sd] by (simp add: t_def)
  show "lt_empty t \<longleftrightarrow> prices A bid = {}"
    using lt_empty_iff [OF t(1) lt_dom_small [OF t(1)]] d by auto
  show "lt_count t = of_nat (card (prices A bid))" using t(1) d by (simp add: lt_ok_def)
  assume ne: "prices A bid \<noteq> {}"
  show b: "lt_best t = (if bid then Max (prices A bid) else Min (prices A bid))"
    using t d ne by (simp add: lt_ok_def extremum_def)
  show "lt_best t \<in> prices A bid"
    unfolding b using ne finite_lt_map [of t] unfolding d by (cases bid) simp_all
qed

lemma rel_volume:
  assumes r: "rel_by b A V g D F" and sd: "is_buy sd = bid" and p: "real_price p"
  shows "(case lt_find p (side_table sd b) of None \<Rightarrow> 0 | Some l \<Rightarrow> ucast (ml_total l)) = (ucast (V bid p) :: u64)"
proof -
  have ok: "mkt_ok b g D F {}" using r by (simp add: rel_by_def)
  have t: "lt_ok (side_table sd b)" using mkt_side [OF ok, of sd] by (simp add: mside_ok_def)
  have side: "mside_ok (mslot_array b) bid (side_table sd b) (g bid) (D bid)" using mkt_side [OF ok, of sd] sd by simp
  have "V bid p = 0" if "lt_map (side_table sd b) p = None"
  proof -
    have "g bid p = []" using that rel_table(1) [OF r sd] rel_level_empty [OF r] by blast
    then show ?thesis using mside_none(2) [OF side] r by (simp add: rel_by_def)
  qed
  then show ?thesis
    unfolding lt_find_map [OF t p] using rel_table(2) [OF r sd, of p] by (auto split: option.split)
qed

lemma rel_best_qty:
  assumes r: "rel_by b A V g D F" and sd: "is_buy sd = bid"
  shows "best_qty (side_table sd b) = (if prices A bid = {} then 0 else ucast (V bid (lt_best (side_table sd b))))"
proof (cases "prices A bid = {}")
  case True
  then show ?thesis using rel_best(1) [OF r sd] by (simp add: best_qty_def)
next
  case False
  have eq: "best_qty (side_table sd b) = (case lt_find (lt_best (side_table sd b)) (side_table sd b) of None \<Rightarrow> 0 | Some l \<Rightarrow> ucast (ml_total l))"
    using rel_best(1) [OF r sd] False by (simp add: best_qty_def lt_find_def split: option.split)
  have "lt_best (side_table sd b) \<in> dom (lt_map (side_table sd b))"
    using rel_best(3) [OF r sd False] rel_dom [OF r sd] by simp
  then show ?thesis unfolding eq using rel_volume [OF r sd] lt_map_real False by simp
qed

text \<open>
  C38: the queries of the market book show the abstract book: \<open>get\<close> and \<open>side_of\<close> the order of a
  reference; the best prices are the highest bid and the lowest ask among the resting orders, -1 on an
  empty side; the volume at a price, the volume at the best price and the number of levels are those of
  the abstract book.
\<close>

theorem mkt_observes:
  assumes "mkt_rel b A V"
  shows "mkt_get r b = Some (A r) \<and>
    side_of r b = Some (case A r of None \<Rightarrow> OS_NONE | Some v \<Rightarrow> sv_side v) \<and>
    best_bid b = (if prices A True = {} then -1 else Max (prices A True)) \<and>
    best_ask b = (if prices A False = {} then -1 else Min (prices A False)) \<and>
    best_bid_volume b = (if prices A True = {} then 0 else ucast (V True (Max (prices A True)))) \<and>
    best_ask_volume b = (if prices A False = {} then 0 else ucast (V False (Min (prices A False)))) \<and>
    bid_levels b = of_nat (card (prices A True)) \<and> ask_levels b = of_nat (card (prices A False)) \<and>
    (real_price p \<longrightarrow> bid_volume_at p b = ucast (V True p) \<and> ask_volume_at p b = ucast (V False p))"
proof -
  obtain g D F where r: "rel_by b A V g D F" using assms by (auto simp: mkt_rel_by)
  have ok: "mkt_ok b g D F {}" using r by (simp add: rel_by_def)
  have "mkt_get r b = Some (A r) \<and> side_of r b = Some (case A r of None \<Rightarrow> OS_NONE | Some v \<Rightarrow> sv_side v)"
  proof (cases "A r")
    case None
    then show ?thesis using rel_absent [OF r] by (simp add: mkt_get_def side_of_def)
  next
    case (Some v)
    obtain i where i: "i \<in> set (g (is_buy (sv_side v)) (sv_price v))" "view_of (body (mslot_array b) i) = v"
      "slot_find (mb_index b) r = Some (Some i)"
      by (rule rel_order [OF r Some])
    have "slot_at (mb_pool b) i = Some (mslot_array b ! unat i)"
      using mkt_slot(3) [OF ok i(1)] by (simp add: slot_at_def)
    then show ?thesis using i(2,3) Some by (auto simp: mkt_get_def side_of_def slot_field view_of_def)
  qed
  moreover have sides: "side_table OS_BUY b = mb_bids b" "side_table OS_SELL b = mb_asks b" by (simp_all add: side_table_def)
  note bid = rel_best [OF r, of OS_BUY True, unfolded sides] and ask = rel_best [OF r, of OS_SELL False, unfolded sides]
  note qty = rel_best_qty [OF r, of OS_BUY True, unfolded sides] rel_best_qty [OF r, of OS_SELL False, unfolded sides]
  have "best_bid b = (if prices A True = {} then -1 else Max (prices A True))"
    "best_ask b = (if prices A False = {} then -1 else Min (prices A False))"
    using bid(1,2) ask(1,2) by (simp_all add: best_bid_def best_ask_def)
  moreover have "best_bid_volume b = (if prices A True = {} then 0 else ucast (V True (Max (prices A True))))"
    "best_ask_volume b = (if prices A False = {} then 0 else ucast (V False (Min (prices A False))))"
    using qty bid(2) ask(2) by (simp_all add: best_bid_volume_def best_ask_volume_def)
  moreover have "bid_levels b = of_nat (card (prices A True))" "ask_levels b = of_nat (card (prices A False))"
    using bid(4) ask(4) by (simp_all add: bid_levels_def ask_levels_def)
  moreover have "real_price p \<longrightarrow> bid_volume_at p b = ucast (V True p) \<and> ask_volume_at p b = ucast (V False p)"
    using rel_volume [OF r, of OS_BUY True p, unfolded sides] rel_volume [OF r, of OS_SELL False p, unfolded sides]
    by (simp add: bid_volume_at_def ask_volume_at_def)
  ultimately show ?thesis by blast
qed

lemma prices_7: "prices [7 \<mapsto> bid7] True = {100}" "prices [7 \<mapsto> bid7] False = {}"
  by (auto simp: prices_def at_level_def bid7_def new_view_def)

lemma mkt_observes_witness:
  "\<exists>b. mkt_rel b [7 \<mapsto> bid7] volume7 \<and> mkt_get 7 b = Some (Some bid7) \<and>
    best_bid b = 100 \<and> best_ask b = -1 \<and> bid_volume_at 100 b = 50"
proof -
  obtain b where b: "mkt_rel b [7 \<mapsto> bid7] volume7" using mkt_run by blast
  show ?thesis using mkt_observes [OF b, of 7 100] b prices_7 real_100
    by (auto simp: add_volume_def set_drift_def)
qed

section \<open>An executed order is deducted twice\<close>

text \<open>The volume that really rests at a price.\<close>

definition resting :: "aorders \<Rightarrow> bool \<Rightarrow> int \<Rightarrow> u32" where
  "resting A bid p = (\<Sum>r\<in>at_level A bid p. ucast (sv_remaining (the (A r))))"

lemma resting_drop:
  assumes "A r = Some v" "is_buy (sv_side v) = bid" "sv_price v = p"
  shows "resting A bid p = ucast (sv_remaining v) + resting (A(r := None)) bid p"
proof -
  have m: "r \<in> at_level A bid p" using assms by (simp add: at_level_def)
  have e: "at_level (A(r := None)) bid p = at_level A bid p - {r}" by (auto simp: at_level_def split: if_splits)
  have "resting A bid p = ucast (sv_remaining (the (A r))) + (\<Sum>k\<in>at_level A bid p - {r}. ucast (sv_remaining (the (A k))))"
    unfolding resting_def by (rule sum.remove [OF _ m]) simp
  also have "(\<Sum>k\<in>at_level A bid p - {r}. ucast (sv_remaining (the (A k)))) = resting (A(r := None)) bid p"
    unfolding resting_def e by (intro sum.cong) auto
  finally show ?thesis using assms(1) by simp
qed

text \<open>
  When an order is executed in full while others rest at its price, the book reports too little
  there: from a correct volume on, what it reports afterwards is the volume that rests less the
  original quantity of the executed order, since \<open>dec_level_qty\<close> takes off what was executed and
  \<open>unlink_and_free\<close> the whole order again. With the quantities of the witness, 50 executed beside an
  order of 30, the book reports \<open>2 ^ 32 - 20\<close> shares.
\<close>

lemma mkt_fill_short:
  assumes "mkt_rel b A V" "A r = Some v" "sv_side v = OS_BUY" "sv_remaining v \<le> q"
    and "V True (sv_price v) = resting A True (sv_price v)" "V True (sv_price v) \<noteq> ucast (sv_remaining v)"
    and "at_level (A(r := None)) True (sv_price v) \<noteq> {}" "real_price (sv_price v)"
  shows "\<exists>b'. mkt_execute r q b = Some (True, b') \<and> mkt_get r b' = Some None \<and>
    bid_volume_at (sv_price v) b' = ucast (resting (A(r := None)) True (sv_price v) - ucast (sv_shares v))"
proof -
  have mq: "min q (sv_remaining v) = sv_remaining v" using assms(4) by simp
  obtain g D F where rel: "rel_by b A V g D F" using assms(1) by (auto simp: mkt_rel_by)
  have kv: "keeps_volume r q A V" using assms(2,3,6) mq by (simp add: keeps_volume_def)
  obtain i where i: "slot_find (mb_index b) r = Some (Some i)" and rv: "sv_order_ref v = r" by (rule rel_order [OF rel assms(2)])
  obtain b' g' D' F' where b': "reduce_slot r i q b = Some b'"
    "case spec_reduce v q (A, V) of (A', V') \<Rightarrow> rel_by b' A' V' g' D' F'"
    using rel_reduce [OF rel assms(2) kv i] by (elim exE conjE) (rule that)
  define V' where "V' = snd (spec_reduce v q (A, V))"
  have s: "spec_reduce v q (A, V) = (A(r := None), V')"
    using rv mq by (auto simp: spec_reduce_def spec_less_def spec_drop_def Let_def V'_def)
  have rel': "mkt_rel b' (A(r := None)) V'" using b'(2) unfolding s by (auto simp: mkt_rel_by)
  have "V' True (sv_price v) = V True (sv_price v) - ucast (sv_remaining v) - ucast (sv_shares v)"
    using rv mq assms(3,7) by (simp add: V'_def spec_reduce_def spec_less_def spec_drop_def add_volume_def set_drift_def Let_def)
  also have "\<dots> = resting (A(r := None)) True (sv_price v) - ucast (sv_shares v)"
    unfolding assms(5) using resting_drop [where A = A and r = r and v = v] assms(2,3) by simp
  finally show ?thesis
    using mkt_observes [OF rel', of r "sv_price v"] assms(8) b'(1) i by (simp add: mkt_execute_def)
qed

lemma at_level_78: "at_level [7 \<mapsto> bid7, 8 \<mapsto> bid8] True 100 = {7, 8}" "at_level [8 \<mapsto> bid8] True 100 = {8}"
  by (auto simp: at_level_def bid7_def bid8_def new_view_def split: if_splits)

lemma mkt_fill_short_witness:
  "\<exists>b b'. mkt_rel b [7 \<mapsto> bid7, 8 \<mapsto> bid8] (add_volume True 100 30 volume7) \<and>
    mkt_execute 7 50 b = Some (True, b') \<and> bid_volume_at 100 b' = 2 ^ 32 - 20"
proof -
  obtain b where b: "mkt_rel b [7 \<mapsto> bid7, 8 \<mapsto> bid8] (add_volume True 100 30 volume7)" using mkt_run by blast
  have drop: "[7 \<mapsto> bid7, 8 \<mapsto> bid8](7 := None) = [(8 :: u64) \<mapsto> bid8]" by (auto simp: fun_eq_iff)
  have v: "sv_price bid7 = 100" "sv_side bid7 = OS_BUY" "sv_remaining bid7 = 50" "sv_shares bid7 = 50" "sv_remaining bid8 = 30"
    by (simp_all add: bid7_def bid8_def new_view_def)
  have r: "resting [7 \<mapsto> bid7, 8 \<mapsto> bid8] True 100 = 80" "resting [8 \<mapsto> bid8] True 100 = 30"
    using v by (simp_all add: resting_def at_level_78)
  obtain b' where "mkt_execute 7 50 b = Some (True, b')" "bid_volume_at 100 b' = ucast (30 - 50 :: u32)"
    using mkt_fill_short [OF b, of 7 bid7 50] v r real_100 at_level_78 unfolding drop
    by (auto simp: add_volume_def set_drift_def)
  then show ?thesis using b by auto
qed

section \<open>A ghost level\<close>

text \<open>What \<open>unlink_and_free\<close> leaves of a level that \<open>dec_level_qty\<close> has removed before.\<close>

definition ghost_level :: "u64 \<Rightarrow> mlevel" where
  "ghost_level shares = \<lparr>ml_head = UINT32_MAX, ml_tail = UINT32_MAX, ml_count = -1, ml_total = - ucast shares\<rparr>"

lemma side_table_fields [simp]:
  "side_table sd (b\<lparr>mb_pool := p\<rparr>) = side_table sd b" "side_table sd (b\<lparr>mb_index := ix\<rparr>) = side_table sd b"
  by (simp_all add: side_table_def)

lemma other_side: "is_buy sd' \<noteq> is_buy sd \<Longrightarrow> side_table sd' (set_side_table sd t b) = side_table sd' b"
  by (simp add: side_table_def set_side_table_def)

lemma unlink_ghost:
  assumes t: "lt_ok (side_table sd b)" and m: "lt_map (side_table sd b) p = None" and p: "real_price p" "in_i64 p"
    and room: "roomy (side_table sd b)" and x: "unat x < length (mslot_array b)" and pk: "pool_ok (mb_pool b) F" "x \<notin> set F"
    and s: "so_side (mslot_array b ! unat x) = sd" "so_price (mslot_array b ! unat x) = p"
      "prev_idx (mslot_array b ! unat x) = UINT32_MAX" "next_idx (mslot_array b ! unat x) = UINT32_MAX"
  shows "\<exists>b' t'. unlink_and_free x b = Some b' \<and> side_table sd b' = t' \<and> lt_ok t' \<and> lt_is_bid t' = lt_is_bid (side_table sd b) \<and>
    lt_map t' = (lt_map (side_table sd b))(p \<mapsto> ghost_level (so_shares (mslot_array b ! unat x))) \<and>
    mb_index b' = mb_index b \<and> pool_usage b' = pool_usage b - 1 \<and>
    (\<forall>sd'. is_buy sd' \<noteq> is_buy sd \<longrightarrow> side_table sd' b' = side_table sd' b)"
proof -
  let ?t = "side_table sd b"
  obtain k t1 where k: "lt_ref p ?t = Some (k, t1)" "lt_at k t1 = new_level" "lt_is_bid t1 = lt_is_bid ?t"
    and st: "\<And>l. lt_ok (lt_set k l t1) \<and> lt_map (lt_set k l t1) = (lt_map ?t)(p \<mapsto> l) \<and> lt_is_bid (lt_set k l t1) = lt_is_bid ?t"
    using lt_ref_write [OF t p] room m by (auto simp: level_or_new_def)
  obtain pl where pl: "slot_deallocate x (mb_pool b) = Some pl" "pool_size pl = pool_size (mb_pool b) - 1"
    using pool_deallocate_put [OF pk(1) x pk(2)] by (simp add: slot_deallocate_def)
  define g where "g = ghost_level (so_shares (mslot_array b ! unat x))"
  have "unlink_and_free x b = Some (set_side_table sd (lt_set k g t1) (b\<lparr>mb_pool := pl\<rparr>))"
    using x k(1,2) s pl(1) by (simp add: unlink_and_free_def slot_at_def Let_def new_level_def g_def ghost_level_def)
  then show ?thesis using st [of g] pl(2) by (simp add: g_def pool_usage_def other_side)
qed

text \<open>Executing a part of an order keeps the book, as long as the level's volume does not become zero.\<close>

lemma execute_part:
  assumes ok: "mkt_ok b g D F Oth" and x: "i \<in> set (g bid p)"
  defines "o' \<equiv> body (mslot_array b) i"
  assumes q: "q < so_remaining o'" and l: "lt_map (side_table (so_side o') b) p = Some l" "ml_total l \<noteq> ucast q"
  shows "\<exists>b'. mkt_execute (so_order_ref o') q b = Some (True, b') \<and> mkt_ok b' g D F Oth \<and> mroomier b b' \<and>
    body (mslot_array b') = (body (mslot_array b))(i := less_remaining q o')"
proof -
  note sl = mkt_slot [OF ok x]
  have bid: "is_buy (so_side o') = bid" using sl(2) by (simp add: o'_def)
  have mq: "min q (so_remaining o') = q" "q \<le> so_remaining o'" "so_remaining o' \<noteq> q" using q by auto
  have fnd: "slot_find (mb_index b) (so_order_ref o') = Some (Some i)" using mkt_find [OF ok, of i] sl(5) by (simp add: o'_def)
  obtain b' where "dec_level_qty (so_side o') p q (b\<lparr>mb_pool := put_slot i (less_remaining q) (mb_pool b)\<rparr>) = Some b'"
    "mkt_ok b' g D F Oth" "body (mslot_array b') = (body (mslot_array b))(i := less_remaining q o')" "mroomier b b'"
    using mkt_dec_ok [OF ok x bid l(1), of q] mq(2) l(2) unfolding o'_def by blast
  then show ?thesis
    using fnd reduce_step [OF ok x, of "so_order_ref o'" q, folded o'_def, unfolded mq(1)] mq(3) by (simp add: mkt_execute_def)
qed

text \<open>
  Executing the only order of a level in full, in a book next to others: the level is erased, and made
  again when the order is unlinked.
\<close>

lemma sole_emptied:
  assumes ok: "mkt_ok b g D F Oth" and gi: "g (is_buy sd) p = [i]" and d: "D (is_buy sd) p = 0" and room: "roomy (side_table sd b)"
  defines "c \<equiv> so_remaining (body (mslot_array b) i)"
  defines "b0 \<equiv> b\<lparr>mb_pool := put_slot i (less_remaining c) (mb_pool b)\<rparr>"
  shows "\<exists>t'. dec_level_qty sd p c b0 = Some (set_side_table sd t' b0) \<and> lt_ok t' \<and> lt_is_bid t' = is_buy sd \<and> roomy t' \<and>
    lt_map t' = (lt_map (side_table sd b))(p := None) \<and> p \<in> dom (lt_map (side_table sd b)) \<and> real_price p \<and> in_i64 p \<and>
    prev_idx (mslot_array b0 ! unat i) = UINT32_MAX \<and> next_idx (mslot_array b0 ! unat i) = UINT32_MAX"
proof -
  have im: "i \<in> set (g (is_buy sd) p)" using gi by simp
  have il: "unat i < length (mslot_array b)" by (rule mkt_slot(3) [OF ok im])
  obtain l where l: "lt_map (side_table sd b) p = Some l" "mlevel_ok (mslot_array b) (is_buy sd) p 0 l [i]"
    using mkt_level [OF ok im refl] unfolding gi d by blast
  then have eq: "ml_total l = ucast c" "prev_idx (mslot_array b ! unat i) = UINT32_MAX" "next_idx (mslot_array b ! unat i) = UINT32_MAX"
    by (simp_all add: mlevel_ok_def nxt_def prv_def c_def)
  have t: "lt_ok (side_table sd b)" "lt_is_bid (side_table sd b) = is_buy sd"
    using mkt_side [OF ok, of sd] by (simp_all add: mside_ok_def)
  have "real_price p \<and> in_i64 p" using lt_map_real [of p "side_table sd b"] l(1) t(1) by (auto simp: lt_ok_def)
  moreover have "side_table sd b0 = side_table sd b" by (simp add: b0_def)
  ultimately show ?thesis
    using dec_level_run [of sd b0 p l c] t l(1) eq room il by (auto simp: b0_def slot_field)
qed

lemma book_forgets:
  assumes ok: "mkt_ok b g D F Oth" and i: "i \<in> mlive g"
  defines "r \<equiv> so_order_ref (body (mslot_array b) i)"
  shows "\<exists>ix. slot_erase r (mb_index b) = Some ix \<and> slot_find ix r = Some None"
proof -
  let ?key = "\<lambda>j. so_order_ref (body (mslot_array b) j)"
  have "order_map.indexes (mb_index b) (mlive g \<union> Oth) ?key" using ok by (simp add: mkt_ok_def)
  then obtain ix where ix: "slot_erase r (mb_index b) = Some ix" "order_map.indexes ix (mlive g \<union> Oth - {i}) ?key"
    using slot_erase_indexes [of _ _ ?key i] i unfolding r_def by blast
  have "r \<notin> ?key ` (mlive g \<union> Oth - {i})" using mkt_inj [OF ok, of _ i] i by (auto simp: r_def)
  then show ?thesis using ix order_map.indexes_absent [OF ix(2)] by (simp add: slot_find_def)
qed

lemma execute_sole:
  assumes ok: "mkt_ok b g D F Oth" and gi: "g (is_buy sd) p = [i]" and d: "D (is_buy sd) p = 0" and room: "roomy (side_table sd b)"
  defines "o' \<equiv> body (mslot_array b) i"
  assumes sd: "so_side o' = sd" and q: "so_remaining o' \<le> q"
  shows "\<exists>b'. mkt_execute (so_order_ref o') q b = Some (True, b') \<and> slot_find (mb_index b') (so_order_ref o') = Some None \<and>
    pool_usage b' = pool_usage b - 1 \<and> lt_ok (side_table sd b') \<and> lt_is_bid (side_table sd b') = is_buy sd \<and>
    lt_map (side_table sd b') = (lt_map (side_table sd b))(p \<mapsto> ghost_level (so_shares o')) \<and>
    dom (lt_map (side_table sd b')) = dom (lt_map (side_table sd b)) \<and>
    (\<forall>sd'. is_buy sd' \<noteq> is_buy sd \<longrightarrow> side_table sd' b' = side_table sd' b)"
proof -
  define c where "c = so_remaining o'"
  have im: "i \<in> set (g (is_buy sd) p)" using gi by simp
  note sl = mkt_slot [OF ok im]
  have mq: "min q c = c" using q by (simp add: c_def)
  define b0 where "b0 = b\<lparr>mb_pool := put_slot i (less_remaining c) (mb_pool b)\<rparr>"
  obtain t' where t': "dec_level_qty sd p c b0 = Some (set_side_table sd t' b0)" "lt_ok t'" "lt_is_bid t' = is_buy sd" "roomy t'"
    "lt_map t' = (lt_map (side_table sd b))(p := None)" "p \<in> dom (lt_map (side_table sd b))" "real_price p" "in_i64 p"
    "prev_idx (mslot_array b0 ! unat i) = UINT32_MAX" "next_idx (mslot_array b0 ! unat i) = UINT32_MAX"
    using sole_emptied [OF ok gi d room, folded o'_def, folded c_def, folded b0_def] by blast
  define b1 where "b1 = set_side_table sd t' b0"
  have s1: "mslot_array b1 ! unat i = less_remaining c (mslot_array b ! unat i)" "length (mslot_array b1) = length (mslot_array b)"
    using sl(3) by (simp_all add: b1_def b0_def)
  have f1: "so_side (mslot_array b1 ! unat i) = sd" "so_price (mslot_array b1 ! unat i) = p" "so_shares (mslot_array b1 ! unat i) = so_shares o'"
    unfolding s1 using sd sl(1) by (simp_all add: slot_field o'_def)
  have pk1: "pool_ok (mb_pool b1) F"
    using ok sl(3,6) by (auto simp: b1_def b0_def mkt_ok_def intro!: put_slot_ok)
  obtain b2 where b2: "unlink_and_free i b1 = Some b2" "lt_ok (side_table sd b2)" "lt_is_bid (side_table sd b2) = is_buy sd"
    "lt_map (side_table sd b2) = (lt_map t')(p \<mapsto> ghost_level (so_shares o'))" "mb_index b2 = mb_index b1" "pool_usage b2 = pool_usage b1 - 1"
    "\<forall>sd'. is_buy sd' \<noteq> is_buy sd \<longrightarrow> side_table sd' b2 = side_table sd' b1"
    using unlink_ghost [of sd b1 p i F, OF _ _ t'(7,8) _ _ pk1 sl(6) f1(1,2)] t' sl(3) s1(2) f1(3) by (auto simp: b1_def)
  obtain ix where ix: "slot_erase (so_order_ref o') (mb_index b) = Some ix" "slot_find ix (so_order_ref o') = Some None"
    using book_forgets [OF ok sl(5)] unfolding o'_def by blast
  define b3 where "b3 = b2\<lparr>mb_index := ix\<rparr>"
  have er: "mkt_erase_ref (so_order_ref o') b2 = Some b3"
    using ix(1) b2(5) by (simp add: mkt_erase_ref_def b3_def b1_def b0_def)
  have fnd: "slot_find (mb_index b) (so_order_ref o') = Some (Some i)" using mkt_find [OF ok, of i] sl(5) by (simp add: o'_def)
  note run = reduce_step [OF ok im, of "so_order_ref o'" q, folded o'_def, unfolded sd, folded c_def, unfolded mq]
  have ex: "mkt_execute (so_order_ref o') q b = Some (True, b3)"
    using fnd run t'(1) b2(1) er by (simp add: mkt_execute_def b1_def b0_def)
  have st3: "side_table sd' b3 = side_table sd' b2" for sd' by (simp add: b3_def)
  have oth: "side_table sd' b3 = side_table sd' b" if "is_buy sd' \<noteq> is_buy sd" for sd'
    using b2(7) that other_side [OF that, of t' b0] by (simp add: st3 b1_def) (simp add: b0_def)
  have "dom (lt_map (side_table sd b3)) = dom (lt_map (side_table sd b))" unfolding st3 using b2(4) t'(5,6) by auto
  moreover have "pool_usage b3 = pool_usage b - 1" using b2(6) by (simp add: b3_def pool_usage_def b1_def b0_def)
  ultimately show ?thesis using ex ix(2) b2(2-4) t'(5) oth by (simp add: st3) (simp add: b3_def)
qed

lemma rel_sole:
  assumes r: "rel_by b A V g D F" and a: "A rf = Some v" and i: "slot_find (mb_index b) rf = Some (Some i)"
    and sole: "at_level (A(rf := None)) (is_buy (sv_side v)) (sv_price v) = {}"
  shows "g (is_buy (sv_side v)) (sv_price v) = [i]"
proof -
  let ?xs = "g (is_buy (sv_side v)) (sv_price v)"
  have ok: "mkt_ok b g D F {}" using r by (simp add: rel_by_def)
  obtain il: "i \<in> set ?xs" "view_of (body (mslot_array b) i) = v" "sv_order_ref v = rf" "i \<in> mlive g"
    using rel_order [OF r a] i by auto
  have u: "j = i" if j: "j \<in> set ?xs" for j
  proof -
    let ?r = "so_order_ref (body (mslot_array b) j)"
    note sl = mkt_slot [OF ok j]
    have "A ?r = Some (view_of (body (mslot_array b) j))" using r sl(5) by (auto simp: rel_by_def)
    then have "?r = rf" using sole sl(1,2) by (auto simp: at_level_def split: if_splits)
    then show "j = i" using mkt_inj [OF ok, of j i] sl(5) il by auto
  qed
  obtain l where "mlevel_ok (mslot_array b) (is_buy (sv_side v)) (sv_price v) (D (is_buy (sv_side v)) (sv_price v)) l ?xs"
    using mkt_level [OF ok il(1) refl] by blast
  then have d: "distinct ?xs" by (simp add: mlevel_ok_def)
  have e: "set ?xs = {i}" using u il(1) by blast
  have "length ?xs = 1" using distinct_card [OF d] e by simp
  then show ?thesis using e by (auto simp: length_Suc_conv)
qed



end
