(* ===== verification/Consumer.thy ===== *)
theory Consumer
  imports Mkt_Claims
begin

text \<open>
  The order book consumer (\<open>src/market/book/order_book_consumer.h\<close>, \<open>order_book_consumer.cpp\<close>): it
  rebuilds the books of all symbols from market events, over one shared pool and one shared index, and
  remembers the last trade as a tick. The hash table of books is a map from locates to the two tables of
  a book.
\<close>

section \<open>State\<close>

record consumer =
  oc_pool :: slot_pool_t
  oc_index :: slot_index
  oc_books :: "u64 \<rightharpoonup> level_table \<times> level_table"
  oc_last_tick :: tick
  oc_has_tick :: bool
  oc_tick_seq :: u64
  oc_order_seq :: u64

definition consumer_new :: "slot_pool_t \<Rightarrow> slot_index \<Rightarrow> consumer" where
  [code_eval]: "consumer_new pool ix = \<lparr>oc_pool = pool, oc_index = ix, oc_books = Map.empty, oc_last_tick = zero_tick,
     oc_has_tick = False, oc_tick_seq = 0, oc_order_seq = 0\<rparr>"

text \<open>A book as the object its references denote.\<close>

definition as_book :: "level_table \<times> level_table \<Rightarrow> consumer \<Rightarrow> mkt_book" where
  [code_eval]: "as_book ts c = \<lparr>mb_pool = oc_pool c, mb_index = oc_index c, mb_bids = fst ts, mb_asks = snd ts\<rparr>"

definition consumer_book :: "u64 \<Rightarrow> consumer \<Rightarrow> mkt_book option" where
  [code_eval]: "consumer_book locate c = map_option (\<lambda>ts. as_book ts c) (oc_books c locate)"

definition last_tick :: "consumer \<Rightarrow> tick option" where
  [code_eval]: "last_tick c = (if oc_has_tick c then Some (oc_last_tick c) else None)"

text \<open>\<open>book_for\<close> makes a missing book; a call on its result changes the shared state and the book.\<close>

definition market_book_for :: "u64 \<Rightarrow> consumer \<Rightarrow> mkt_book \<times> consumer" where
  [code_eval]: "market_book_for locate c =
     (case oc_books c locate of
        Some ts \<Rightarrow> (as_book ts c, c)
      | None \<Rightarrow> (let ts = (lt_new True, lt_new False) in (as_book ts c, c\<lparr>oc_books := (oc_books c)(locate \<mapsto> ts)\<rparr>)))"

definition put_market_book :: "u64 \<Rightarrow> mkt_book \<Rightarrow> consumer \<Rightarrow> consumer" where
  [code_eval]: "put_market_book locate b c = c\<lparr>oc_pool := mb_pool b, oc_index := mb_index b,
     oc_books := (oc_books c)(locate \<mapsto> (mb_bids b, mb_asks b))\<rparr>"

section \<open>Handlers\<close>

definition handle_add :: "market_event \<Rightarrow> consumer \<Rightarrow> consumer option" where
  [code_eval]: "handle_add ev c0 = (case market_book_for (me_locate ev) c0 of (b, c) \<Rightarrow> do {
     let n = oc_order_seq c + 1;
     (_, b1) \<leftarrow> mkt_add (me_order_ref ev) (me_side ev) (me_price ev) (me_qty ev) n b;
     Some (put_market_book (me_locate ev) b1 (c\<lparr>oc_order_seq := n\<rparr>))
   })"

definition handle_delete :: "market_event \<Rightarrow> consumer \<Rightarrow> consumer option" where
  [code_eval]: "handle_delete ev c0 = (case market_book_for (me_locate ev) c0 of (b, c) \<Rightarrow> do {
     (_, b1) \<leftarrow> mkt_remove (me_order_ref ev) b;
     Some (put_market_book (me_locate ev) b1 c)
   })"

definition handle_cancel :: "market_event \<Rightarrow> consumer \<Rightarrow> consumer option" where
  [code_eval]: "handle_cancel ev c0 = (case market_book_for (me_locate ev) c0 of (b, c) \<Rightarrow> do {
     (_, b1) \<leftarrow> mkt_cancel (me_order_ref ev) (me_qty ev) b;
     Some (put_market_book (me_locate ev) b1 c)
   })"

definition handle_replace :: "market_event \<Rightarrow> consumer \<Rightarrow> consumer option" where
  [code_eval]: "handle_replace ev c0 = (case market_book_for (me_locate ev) c0 of (b, c) \<Rightarrow> do {
     old \<leftarrow> mkt_get (me_order_ref ev) b;
     case old of
       None \<Rightarrow> Some c
     | Some v \<Rightarrow> do {
         let n = oc_order_seq c + 1;
         (_, b1) \<leftarrow> mkt_replace (me_order_ref ev) (me_new_order_ref ev) (sv_side v) (me_price ev) (me_qty ev) n b;
         Some (put_market_book (me_locate ev) b1 (c\<lparr>oc_order_seq := n\<rparr>))
       }
   })"

text \<open>The tick of a trade; without a price the last one is kept.\<close>

definition put_tick :: "market_event \<Rightarrow> int option \<Rightarrow> consumer \<Rightarrow> consumer" where
  [code_eval]: "put_tick ev price c = (let n = oc_tick_seq c + 1; t = oc_last_tick c in
     c\<lparr>oc_tick_seq := n, oc_has_tick := True,
       oc_last_tick := t\<lparr>tk_timestamp := me_timestamp ev, tk_seq_id := n, tk_symbol_id := me_locate ev,
         tk_last_price := (case price of None \<Rightarrow> tk_last_price t | Some p \<Rightarrow> p), tk_volume := me_qty ev\<rparr>\<rparr>)"

definition handle_trade :: "market_event \<Rightarrow> bool \<Rightarrow> consumer \<Rightarrow> consumer option" where
  [code_eval]: "handle_trade ev has_price c0 = (case market_book_for (me_locate ev) c0 of (b, c) \<Rightarrow> do {
     (_, b1) \<leftarrow> mkt_execute (me_order_ref ev) (me_qty ev) b;
     Some (put_tick ev (if has_price then Some (me_price ev) else None) (put_market_book (me_locate ev) b1 c))
   })"

definition handle_execute :: "market_event \<Rightarrow> consumer \<Rightarrow> consumer option" where
  [code_eval]: "handle_execute ev c0 = (case market_book_for (me_locate ev) c0 of (b, c) \<Rightarrow> do {
     view \<leftarrow> mkt_get (me_order_ref ev) b;
     let price = (case view of None \<Rightarrow> -1 | Some v \<Rightarrow> sv_price v);
     (_, b1) \<leftarrow> mkt_execute (me_order_ref ev) (me_qty ev) b;
     Some (put_tick ev (if price \<ge> 0 then Some price else None) (put_market_book (me_locate ev) b1 c))
   })"

definition on_event :: "market_event \<Rightarrow> consumer \<Rightarrow> consumer option" where
  [code_eval]: "on_event ev c = (case me_type ev of
     EV_ADD \<Rightarrow> handle_add ev c
   | EV_DELETE \<Rightarrow> handle_delete ev c
   | EV_CANCEL \<Rightarrow> handle_cancel ev c
   | EV_REPLACE \<Rightarrow> handle_replace ev c
   | EV_TRADE \<Rightarrow> handle_trade ev True c
   | EV_EXECUTE \<Rightarrow> handle_execute ev c)"

section \<open>Books of other symbols\<close>

lemma book_for_other [simp]:
  "market_book_for k c = (b, c') \<Longrightarrow> j \<noteq> k \<Longrightarrow> oc_books c' j = oc_books c j"
  by (auto simp: market_book_for_def Let_def split: option.splits)

lemma put_market_book_other [simp]: "j \<noteq> k \<Longrightarrow> oc_books (put_market_book k b c) j = oc_books c j"
  by (simp add: put_market_book_def)

lemma put_tick_books [simp]: "oc_books (put_tick ev p c) = oc_books c"
  by (simp add: put_tick_def Let_def)

lemmas handlers = handle_add_def handle_delete_def handle_cancel_def handle_replace_def handle_trade_def handle_execute_def

lemma on_event_other:
  assumes "on_event ev c = Some c'" "j \<noteq> me_locate ev"
  shows "oc_books c' j = oc_books c j"
proof (cases "market_book_for (me_locate ev) c")
  case (Pair b c1)
  then have "oc_books c1 j = oc_books c j" using assms(2) by simp
  then show ?thesis
    using assms Pair by (cases "me_type ev") (auto simp: on_event_def handlers Let_def split: bind_split_asm option.splits prod.splits)
qed

end
