(* ===== verification/Mkt_Alive.thy ===== *)
theory Mkt_Alive
  imports Consumer
begin

text \<open>
  The market view never gets stuck: after any feed, also one whose executions leave ghost levels and
  whose events name the wrong symbol, every handler returns. The invariant is weaker than the book's
  own (\<open>mkt_ok\<close>): no list of a level need be well formed, but every link is null or inside the pool.
\<close>

section \<open>Tables\<close>

text \<open>A link that can be followed, and a bound on the slots a table has used up after \<open>k\<close> accesses.\<close>

definition link_ok :: "nat \<Rightarrow> u32 \<Rightarrow> bool" where
  "link_ok n i \<longleftrightarrow> i = UINT32_MAX \<or> unat i < n"

lemma link_null [simp]: "link_ok n UINT32_MAX"
  by (simp add: link_ok_def)

definition filled :: "nat \<Rightarrow> level_table \<Rightarrow> bool" where
  "filled k t \<longleftrightarrow> used_slots (lt_slots t) \<le> k \<and> length (lt_slots t) \<le> max 1024 (2 * k)"

lemma filled_mono: "filled k t \<Longrightarrow> k \<le> k' \<Longrightarrow> filled k' t"
  by (auto simp: filled_def)

lemma filled_roomy: "filled k t \<Longrightarrow> k < 2 ^ 30 \<Longrightarrow> roomy t"
  by (auto simp: filled_def roomy_def)

lemma used_put_any: "used_slots (s[i := x]) \<le> Suc (used_slots s)"
  using used_put [of i s x] by (cases "i < length s") (simp_all add: list_update_beyond not_less)

lemma used_put_same: "fst (s ! i) \<noteq> kEmpty \<Longrightarrow> used_slots (s[i := x]) \<le> used_slots s"
proof (induction s arbitrary: i)
  case (Cons y ys)
  then show ?case by (cases i) (auto simp: used_slots_def)
qed simp

lemma used_put_level: "used_slots (s[i := (fst (s ! i), l)]) = used_slots s"
proof (induction s arbitrary: i)
  case (Cons y ys)
  then show ?case by (cases i) (auto simp: used_slots_def)
qed simp

lemma rehash_all_used:
  "rehash_all sls ns = Some ns' \<Longrightarrow> used_slots ns' \<le> used_slots ns + length sls"
proof (induction sls arbitrary: ns)
  case (Cons sl sls)
  then obtain n1 where n1: "rehash sl ns = Some n1" "rehash_all sls n1 = Some ns'" by (auto split: bind_split_asm)
  have "used_slots n1 \<le> Suc (used_slots ns)"
    using n1(1) by (auto simp: rehash_def used_put_any split: if_splits bind_split_asm)
  then show ?case using Cons.IH [OF n1(2)] by simp
qed simp

lemma used_full: "\<forall>j<length s. fst (s ! j) \<noteq> kEmpty \<Longrightarrow> used_slots s = length s"
  using used_room [of s] length_filter_le [of "\<lambda>sl. fst sl \<noteq> kEmpty" s] unfolding used_slots_def
  by (meson le_neq_implies_less)

lemma filled_ref:
  assumes ok: "lt_ok t" and f: "filled k t" and r: "lt_ref p t = Some (i, t1)"
  shows "filled (Suc k) t1"
proof -
  let ?s = "lt_slots t"
  have s: "slots_ok ?s" using ok by (simp add: lt_ok_def)
  obtain found j ft full where sk: "seek ?s p (length ?s) (probe_at (length ?s) p) (length ?s) = (found, j, ft, full)"
    by (metis prod_cases4)
  note spec = seek_spec [OF s, of 0 "length ?s" p "length ?s" found j ft full, simplified home_0 [OF s], simplified, OF sk]
  have lb: "lt_slots (lift_best p t') = lt_slots t'" for t' by (simp add: lift_best_def)
  consider (found) "found" | (full) "\<not> found" "full" | (room) "\<not> found" "\<not> full" by blast
  then show ?thesis
  proof cases
    case found
    then show ?thesis using r sk f by (auto simp: lt_ref_def filled_def lb)
  next
    case full
    then have u: "used_slots ?s = length ?s" using spec used_full by simp
    obtain ns where ns: "rehash_all ?s (fresh_slots (length ?s * 2)) = Some ns"
      and t1: "lt_slots t1 = ns[i := (p, new_level)]"
      using r sk full by (auto simp: lt_ref_def lt_grow_def lb Let_def split: bind_split_asm)
    have "used_slots (fresh_slots n) = 0" for n by (simp add: used_slots_def fresh_slots_def)
    then have "used_slots ns \<le> length ?s" using rehash_all_used [OF ns] by simp
    moreover have "length ns = length ?s * 2" using rehash_all_length [OF ns] by (simp add: fresh_slots_def)
    ultimately show ?thesis
      using f u used_put_any [of ns i "(p, new_level)"] by (auto simp: filled_def t1)
  next
    case room
    then have "lt_slots t1 = ?s[i := (p, new_level)]"
      using r sk by (auto simp: lt_ref_def lb Let_def split: bind_split_asm)
    then show ?thesis
      using f used_put_any [of ?s i "(p, new_level)"] by (auto simp: filled_def)
  qed
qed

lemma filled_set [simp]: "filled k (lt_set i l t) = filled k t"
  by (simp add: filled_def lt_set_def used_put_level)

lemma filled_erase:
  assumes "lt_ok t" "real_price p" "filled k t"
  shows "filled k (lt_erase p t)"
proof (cases "lt_lookup p t")
  case (Some i)
  have "fst (lt_slots t ! i) = p" using lt_lookup_Some [OF _ assms(2) Some] assms(1) by (simp add: lt_ok_def)
  then have "used_slots ((lt_slots t)[i := (kTombstone, snd (lt_slots t ! i))]) \<le> used_slots (lt_slots t)"
    using assms(2) by (intro used_put_same) (simp add: real_price_def)
  then show ?thesis using Some assms(3) by (auto simp: lt_erase_def filled_def rescan_best_def Let_def)
qed (simp add: lt_erase_def assms(3))

text \<open>A table all of whose level heads can be followed.\<close>

definition calm_table :: "nat \<Rightarrow> nat \<Rightarrow> level_table \<Rightarrow> bool" where
  "calm_table n k t \<longleftrightarrow> lt_ok t \<and> filled k t \<and> (\<forall>p l. lt_map t p = Some l \<longrightarrow> link_ok n (ml_head l))"

lemma calm_table_mono: "calm_table n k t \<Longrightarrow> k \<le> k' \<Longrightarrow> calm_table n k' t"
  using filled_mono by (auto simp: calm_table_def)

lemma calm_new: "calm_table n k (lt_new bid)"
proof -
  have "used_slots (lt_slots (lt_new bid)) = 0" "length (lt_slots (lt_new bid)) = 1024"
    by (simp_all add: used_slots_def lt_new_def fresh_slots_def kInitCapacity_def)
  then show ?thesis using lt_new_ok [of bid] by (simp add: calm_table_def filled_def)
qed

lemma calm_ref:
  assumes t: "calm_table n k t" and p: "real_price p" "in_i64 p" and k: "k < 2 ^ 30"
  shows "\<exists>i t1. lt_ref p t = Some (i, t1) \<and> link_ok n (ml_head (lt_at i t1)) \<and>
    (\<forall>l. link_ok n (ml_head l) \<longrightarrow> calm_table n (Suc k) (lt_set i l t1) \<and> calm_table n (Suc k) (lt_erase p (lt_set i l t1)))"
proof -
  have ok: "lt_ok t" "filled k t" using t by (simp_all add: calm_table_def)
  obtain i t1 where r: "lt_ref p t = Some (i, t1)" "lt_at i t1 = level_or_new p t"
    "\<And>l. lt_ok (lt_set i l t1) \<and> lt_map (lt_set i l t1) = (lt_map t)(p \<mapsto> l)"
    using lt_ref_write [OF ok(1) p] filled_roomy [OF ok(2) k] by blast
  have "link_ok n (ml_head (level_or_new p t))"
    using t by (auto simp: level_or_new_def calm_table_def new_level_def split: option.split)
  moreover have set: "calm_table n (Suc k) (lt_set i l t1)" if "link_ok n (ml_head l)" for l
    using t r(3) [of l] that filled_ref [OF ok r(1)] by (auto simp: calm_table_def)
  moreover have "calm_table n (Suc k) (lt_erase p (lt_set i l t1))" if "link_ok n (ml_head l)" for l
    using set [OF that] lt_erase_ok [OF _ p(1), of "lt_set i l t1"] filled_erase [OF _ p(1), of "lt_set i l t1"]
    by (auto simp: calm_table_def split: if_splits)
  ultimately show ?thesis using r(1,2) by auto
qed

section \<open>The pool\<close>

definition calm_slot :: "nat \<Rightarrow> order_slot \<Rightarrow> bool" where
  "calm_slot n s \<longleftrightarrow> link_ok n (prev_idx s) \<and> link_ok n (next_idx s) \<and> real_price (so_price s) \<and> in_i64 (so_price s)"

definition calm_pool :: "slot_pool_t \<Rightarrow> u32 list \<Rightarrow> bool" where
  "calm_pool p F \<longleftrightarrow> pool_ok p F \<and> (\<forall>s\<in>set (storage p). calm_slot (length (storage p)) s)"

lemma calm_nth: "calm_pool p F \<Longrightarrow> unat i < length (storage p) \<Longrightarrow> calm_slot (length (storage p)) (storage p ! unat i)"
  by (simp add: calm_pool_def)

lemma calm_put:
  assumes p: "calm_pool p F" and i: "unat i < length (storage p)"
    and f: "\<And>s. calm_slot (length (storage p)) s \<Longrightarrow> calm_slot (length (storage p)) (f s)"
      "\<And>s. pool_next_free (f s) = pool_next_free s"
  shows "\<exists>p'. pool_put i f p = Some p' \<and> calm_pool p' F \<and> length (storage p') = length (storage p)"
proof -
  have "calm_slot (length (storage p)) s" if "s \<in> set (storage (put_slot i f p))" for s
    using that p f(1) [OF calm_nth [OF p i]] set_update_subset_insert [of "storage p" "unat i" "f (storage p ! unat i)"]
    by (auto simp: put_slot_def calm_pool_def)
  then have "calm_pool (put_slot i f p) F"
    using p i f(2) by (auto simp: calm_pool_def intro!: put_slot_ok)
  then show ?thesis using pool_put_slot [OF i] by auto
qed

lemma calm_follow:
  assumes p: "calm_pool p F" and l: "link_ok (length (storage p)) i"
    and f: "\<And>s. calm_slot (length (storage p)) s \<Longrightarrow> calm_slot (length (storage p)) (f s)"
      "\<And>s. pool_next_free (f s) = pool_next_free s"
  shows "\<exists>p'. (if i \<noteq> UINT32_MAX then pool_put i f p else Some p) = Some p' \<and> calm_pool p' F \<and>
    length (storage p') = length (storage p)"
proof (cases "i = UINT32_MAX")
  case False
  then have i: "unat i < length (storage p)" using l by (simp add: link_ok_def)
  show ?thesis using calm_put [OF p i f] False by simp
qed (simp add: p)

lemma calm_alloc:
  "calm_pool p [] \<Longrightarrow> slot_allocate p = Some (None, p)"
  "calm_pool p (i # F) \<Longrightarrow> \<exists>p'. slot_allocate p = Some (Some i, p') \<and> calm_pool p' F \<and> storage p' = storage p"
  using pool_allocate_empty [of p] pool_allocate_take [of p i F] by (auto simp: calm_pool_def slot_allocate_def)

lemma calm_free:
  assumes p: "calm_pool p F" and i: "unat i < length (storage p)" "i \<notin> set F"
  shows "\<exists>p'. slot_deallocate i p = Some p' \<and> calm_pool p' (i # F) \<and> length (storage p') = length (storage p)"
proof -
  let ?s = "(storage p ! unat i)\<lparr>pool_next_free := head_idx_of (free_head p)\<rparr>"
  have ok: "pool_ok p F" using p by (simp add: calm_pool_def)
  have "calm_slot (length (storage p)) ?s" using calm_nth [OF p i(1)] by (simp add: calm_slot_def)
  then have "\<forall>s\<in>set ((storage p)[unat i := ?s]). calm_slot (length (storage p)) s"
    using p set_update_subset_insert [of "storage p" "unat i" ?s] by (auto simp: calm_pool_def)
  then show ?thesis
    using pool_deallocate_put [OF ok i] by (simp add: slot_deallocate_def calm_pool_def)
qed

section \<open>Books\<close>

text \<open>
  \<open>F\<close> are the free slots, \<open>L\<close> the slots the index knows, under the references \<open>key\<close>: they are in
  use. Orders the index has dropped are in neither.
\<close>

definition calm_tables :: "nat \<Rightarrow> nat \<Rightarrow> mkt_book \<Rightarrow> bool" where
  "calm_tables n k b \<longleftrightarrow> calm_table n k (mb_bids b) \<and> calm_table n k (mb_asks b)"

definition calm_store :: "slot_pool_t \<Rightarrow> slot_index \<Rightarrow> u32 list \<Rightarrow> u32 set \<Rightarrow> (u32 \<Rightarrow> u64) \<Rightarrow> bool" where
  "calm_store p ix F L key \<longleftrightarrow> calm_pool p F \<and> order_map.indexes ix L key \<and> L \<inter> set F = {} \<and>
     (\<forall>i\<in>L. unat i < length (storage p))"

lemma calm_side: "calm_tables n k b \<Longrightarrow> calm_table n k (side_table sd b)"
  by (simp add: calm_tables_def side_table_def)

lemma calm_set_side:
  assumes "calm_tables n k b" "calm_table n (Suc k) t"
  shows "calm_tables n (Suc k) (set_side_table sd t b)"
  using assms calm_table_mono [of n k _ "Suc k"] by (auto simp: calm_tables_def set_side_table_def)

lemma calm_tables_cong [simp]:
  "calm_tables n k (b\<lparr>mb_pool := p\<rparr>) = calm_tables n k b" "calm_tables n k (b\<lparr>mb_index := ix\<rparr>) = calm_tables n k b"
  by (simp_all add: calm_tables_def)

lemma calm_dec:
  assumes t: "calm_tables n k b" and p: "real_price p" "in_i64 p" and k: "k < 2 ^ 30"
  shows "\<exists>b'. dec_level_qty sd p q b = Some b' \<and> mb_pool b' = mb_pool b \<and> mb_index b' = mb_index b \<and> calm_tables n (Suc k) b'"
proof -
  obtain i t1 where r: "lt_ref p (side_table sd b) = Some (i, t1)" "link_ok n (ml_head (lt_at i t1))"
    "\<And>l. link_ok n (ml_head l) \<Longrightarrow> calm_table n (Suc k) (lt_set i l t1) \<and> calm_table n (Suc k) (lt_erase p (lt_set i l t1))"
    using calm_ref [OF calm_side [OF t] p k] by blast
  define l where "l = (lt_at i t1)\<lparr>ml_total := ml_total (lt_at i t1) - ucast q\<rparr>"
  define t' where "t' = (if ml_total l = 0 then lt_erase p (lt_set i l t1) else lt_set i l t1)"
  have "calm_table n (Suc k) t'" using r(2,3) by (simp add: t'_def l_def)
  moreover have "dec_level_qty sd p q b = Some (set_side_table sd t' b)"
    using r(1) by (simp add: dec_level_qty_def t'_def l_def Let_def)
  ultimately show ?thesis using calm_set_side [OF t] by (simp add: set_side_table_def)
qed

lemma calm_unlink:
  assumes p: "calm_pool (mb_pool b) F" and t: "calm_tables (length (mslot_array b)) k b"
    and i: "unat i < length (mslot_array b)" "i \<notin> set F" and k: "k < 2 ^ 30"
  shows "\<exists>b'. unlink_and_free i b = Some b' \<and> mb_index b' = mb_index b \<and> calm_pool (mb_pool b') (i # F) \<and>
    length (mslot_array b') = length (mslot_array b) \<and> calm_tables (length (mslot_array b)) (Suc k) b'"
proof -
  let ?n = "length (mslot_array b)"
  define s where "s = mslot_array b ! unat i"
  have s: "slot_at (mb_pool b) i = Some s" "calm_slot ?n s"
    using i(1) calm_nth [OF p i(1)] by (simp_all add: slot_at_def pool_at_def s_def)
  have pr: "real_price (so_price s)" "in_i64 (so_price s)" using s(2) by (simp_all add: calm_slot_def)
  obtain j t1 where r: "lt_ref (so_price s) (side_table (so_side s) b) = Some (j, t1)" "link_ok ?n (ml_head (lt_at j t1))"
    "\<And>l. link_ok ?n (ml_head l) \<Longrightarrow> calm_table ?n (Suc k) (lt_set j l t1) \<and> calm_table ?n (Suc k) (lt_erase (so_price s) (lt_set j l t1))"
    using calm_ref [OF calm_side [OF t] pr k] by blast
  obtain p1 where p1: "(if prev_idx s \<noteq> UINT32_MAX then pool_put (prev_idx s) (\<lambda>o'. o'\<lparr>next_idx := next_idx s\<rparr>) (mb_pool b)
      else Some (mb_pool b)) = Some p1" "calm_pool p1 F" "length (storage p1) = ?n"
    using calm_follow [OF p, of "prev_idx s" "\<lambda>o'. o'\<lparr>next_idx := next_idx s\<rparr>"] s(2) by (auto simp: calm_slot_def)
  obtain p2 where p2: "(if next_idx s \<noteq> UINT32_MAX then pool_put (next_idx s) (\<lambda>o'. o'\<lparr>prev_idx := prev_idx s\<rparr>) p1
      else Some p1) = Some p2" "calm_pool p2 F" "length (storage p2) = ?n"
    using calm_follow [OF p1(2), of "next_idx s" "\<lambda>o'. o'\<lparr>prev_idx := prev_idx s\<rparr>"] s(2) p1(3) by (auto simp: calm_slot_def)
  obtain p3 where p3: "slot_deallocate i p2 = Some p3" "calm_pool p3 (i # F)" "length (storage p3) = ?n"
    using calm_free [OF p2(2)] p2(3) i by auto
  define l1 where "l1 = (if prev_idx s \<noteq> UINT32_MAX then lt_at j t1 else (lt_at j t1)\<lparr>ml_head := next_idx s\<rparr>)"
  define l2 where "l2 = (if next_idx s \<noteq> UINT32_MAX then l1 else l1\<lparr>ml_tail := prev_idx s\<rparr>)"
  define l3 where "l3 = l2\<lparr>ml_count := ml_count l2 - 1, ml_total := ml_total l2 - ucast (so_shares s)\<rparr>"
  define t' where "t' = (if ml_count l3 = 0 then lt_erase (so_price s) (lt_set j l3 t1) else lt_set j l3 t1)"
  have "link_ok ?n (ml_head l3)" using r(2) s(2) by (simp add: l3_def l2_def l1_def calm_slot_def)
  then have "calm_table ?n (Suc k) t'" using r(3) by (simp add: t'_def)
  moreover have "unlink_and_free i b = Some (set_side_table (so_side s) t' (b\<lparr>mb_pool := p3\<rparr>))"
    using s(1) r(1) p1(1) p2(1) p3(1)
    by (simp add: unlink_and_free_def Let_def t'_def l3_def l2_def l1_def del: if_not_P)
  ultimately show ?thesis
    using p3 calm_set_side [of ?n k "b\<lparr>mb_pool := p3\<rparr>" t' "so_side s"] t by (simp add: set_side_table_def)
qed

section \<open>The operations return\<close>

definition calm_by :: "nat \<Rightarrow> mkt_book \<Rightarrow> u32 list \<Rightarrow> u32 set \<Rightarrow> (u32 \<Rightarrow> u64) \<Rightarrow> bool" where
  "calm_by k b F L key \<longleftrightarrow> calm_store (mb_pool b) (mb_index b) F L key \<and> calm_tables (length (mslot_array b)) k b"

lemma calm_by_mono: "calm_by k b F L key \<Longrightarrow> k \<le> k' \<Longrightarrow> calm_by k' b F L key"
  using calm_table_mono by (auto simp: calm_by_def calm_tables_def)

lemma calm_find:
  assumes "calm_by k b F L key"
  shows "(\<exists>i\<in>L. key i = r \<and> slot_find (mb_index b) r = Some (Some i)) \<or> r \<notin> key ` L \<and> slot_find (mb_index b) r = Some None"
  using assms order_map.indexes_absent [of "mb_index b" L key r] order_map.indexes_look [of "mb_index b" L key]
  by (cases "r \<in> key ` L") (auto simp: calm_by_def calm_store_def slot_find_def)

lemma calm_drop:
  assumes c: "calm_by k b F L key" and i: "i \<in> L" and k: "k < 2 ^ 30"
  shows "\<exists>b1 b2. unlink_and_free i b = Some b1 \<and> mkt_erase_ref (key i) b1 = Some b2 \<and>
    calm_by (Suc k) b2 (i # F) (L - {i}) key \<and> length (mslot_array b2) = length (mslot_array b)"
proof -
  have d: "calm_pool (mb_pool b) F" "order_map.indexes (mb_index b) L key" "L \<inter> set F = {}"
    "\<forall>i\<in>L. unat i < length (mslot_array b)" "calm_tables (length (mslot_array b)) k b"
    using c by (simp_all add: calm_by_def calm_store_def)
  obtain b1 where b1: "unlink_and_free i b = Some b1" "mb_index b1 = mb_index b" "calm_pool (mb_pool b1) (i # F)"
    "length (mslot_array b1) = length (mslot_array b)" "calm_tables (length (mslot_array b)) (Suc k) b1"
    using calm_unlink [OF d(1,5) _ _ k, of i] d(3,4) i by blast
  obtain ix where ix: "slot_erase (key i) (mb_index b) = Some ix" "order_map.indexes ix (L - {i}) key"
    using slot_erase_indexes [OF d(2) i] by blast
  have "calm_by (Suc k) (b1\<lparr>mb_index := ix\<rparr>) (i # F) (L - {i}) key"
    using b1 ix(2) d(3,4) by (auto simp: calm_by_def calm_store_def)
  then show ?thesis using b1 ix(1) by (simp add: mkt_erase_ref_def)
qed

lemma calm_remove:
  assumes c: "calm_by k b F L key" and k: "k < 2 ^ 30"
  shows "\<exists>r b' F' L'. mkt_remove rf b = Some (r, b') \<and> calm_by (Suc k) b' F' L' key \<and>
    length (mslot_array b') = length (mslot_array b) \<and> key ` L' = key ` L - {rf}"
  using calm_find [OF c, of rf]
proof (elim disjE bexE conjE)
  fix i
  assume i: "i \<in> L" "key i = rf" "slot_find (mb_index b) rf = Some (Some i)"
  obtain b1 b2 where d: "unlink_and_free i b = Some b1" "mkt_erase_ref rf b1 = Some b2"
    "calm_by (Suc k) b2 (i # F) (L - {i}) key" "length (mslot_array b2) = length (mslot_array b)"
    using calm_drop [OF c i(1) k] i(2) by auto
  have "inj_on key L" using c order_map.indexes_inj by (auto simp: calm_by_def calm_store_def inj_on_def)
  then have "key ` (L - {i}) = key ` L - {rf}" using i(1,2) by (simp add: inj_on_image_set_diff)
  then show ?thesis using d i(3) by (simp add: mkt_remove_def) blast
next
  assume "rf \<notin> key ` L" "slot_find (mb_index b) rf = Some None"
  then show ?thesis using calm_by_mono [OF c, of "Suc k"] by (simp add: mkt_remove_def) blast
qed

lemma calm_reduce:
  assumes c: "calm_by k b F L key" and i: "i \<in> L" and k: "Suc k < 2 ^ 30"
  shows "\<exists>b' F' L'. reduce_slot (key i) i q b = Some b' \<and> calm_by (Suc (Suc k)) b' F' L' key \<and>
    length (mslot_array b') = length (mslot_array b)"
proof -
  let ?n = "length (mslot_array b)"
  have d: "calm_pool (mb_pool b) F" "order_map.indexes (mb_index b) L key" "L \<inter> set F = {}"
    "unat i < ?n" "\<forall>i\<in>L. unat i < ?n" "calm_tables ?n k b"
    using c i by (auto simp: calm_by_def calm_store_def)
  define s where "s = mslot_array b ! unat i"
  define q' where "q' = (if q > so_remaining s then so_remaining s else q)"
  have s: "slot_at (mb_pool b) i = Some s" "real_price (so_price s)" "in_i64 (so_price s)"
    using d(4) calm_nth [OF d(1,4)] by (simp_all add: slot_at_def pool_at_def s_def calm_slot_def)
  obtain p1 where p1: "pool_put i (\<lambda>o'. o'\<lparr>so_remaining := so_remaining o' - q'\<rparr>) (mb_pool b) = Some p1"
    "calm_pool p1 F" "length (storage p1) = ?n"
    using calm_put [OF d(1,4), of "\<lambda>o'. o'\<lparr>so_remaining := so_remaining o' - q'\<rparr>"] by (auto simp: calm_slot_def)
  obtain b1 where b1: "dec_level_qty (so_side s) (so_price s) q' (b\<lparr>mb_pool := p1\<rparr>) = Some b1" "mb_pool b1 = p1"
    "mb_index b1 = mb_index b" "calm_tables ?n (Suc k) b1"
    using calm_dec [of ?n k "b\<lparr>mb_pool := p1\<rparr>" "so_price s" "so_side s" q'] d(6) s k by auto
  have c1: "calm_by (Suc k) b1 F L key"
    using b1 p1 d by (auto simp: calm_by_def calm_store_def)
  have run: "reduce_slot (key i) i q b = (if so_remaining s - q' = 0 then unlink_and_free i b1 \<bind> mkt_erase_ref (key i) else Some b1)"
    using s(1) p1(1) b1(1) unfolding reduce_slot_def q'_def Let_def by (simp del: right_minus_eq)
  show ?thesis
  proof (cases "so_remaining s - q' = 0")
    case True
    obtain b2 b3 where "unlink_and_free i b1 = Some b2" "mkt_erase_ref (key i) b2 = Some b3"
      "calm_by (Suc (Suc k)) b3 (i # F) (L - {i}) key" "length (mslot_array b3) = length (mslot_array b1)"
      using calm_drop [OF c1 i k] by blast
    moreover from this(1,2) have "reduce_slot (key i) i q b = Some b3"
      using run True by simp
    ultimately show ?thesis using p1(3) b1(2) by metis
  next
    case False
    then have "reduce_slot (key i) i q b = Some b1"
      using run by simp
    then show ?thesis using calm_by_mono [OF c1, of "Suc (Suc k)"] p1(3) b1(2) by (metis le_add2 plus_1_eq_Suc)
  qed
qed

lemma calm_add:
  assumes c: "calm_by k b F L key" and p: "real_price pr" "in_i64 pr" and k: "k < 2 ^ 30" and fresh: "rf \<notin> key ` L"
  shows "\<exists>r b' F' L' key'. mkt_add rf sd pr q sq b = Some (r, b') \<and> calm_by (Suc k) b' F' L' key' \<and>
    length (mslot_array b') = length (mslot_array b)"
proof -
  let ?n = "length (mslot_array b)"
  have d: "calm_pool (mb_pool b) F" "order_map.indexes (mb_index b) L key" "L \<inter> set F = {}"
    "\<forall>i\<in>L. unat i < ?n" "calm_tables ?n k b"
    using c by (simp_all add: calm_by_def calm_store_def)
  show ?thesis
  proof (cases F)
    case Nil
    then have "mkt_add rf sd pr q sq b = Some (UINT32_MAX, b)"
      using calm_alloc(1) d(1) by (simp add: mkt_add_def)
    then show ?thesis using calm_by_mono [OF c, of "Suc k"] by auto
  next
    case (Cons i G)
    have po: "pool_ok (mb_pool b) (i # G)" using d(1) Cons by (simp add: calm_pool_def)
    have i: "unat i < ?n" "i \<notin> L" "i \<notin> set G"
      using pool_ok_bound [OF po] pool_ok_distinct [OF po] d(3) Cons by auto
    obtain p0 where p0: "slot_allocate (mb_pool b) = Some (Some i, p0)" "calm_pool p0 G" "storage p0 = mslot_array b"
      using calm_alloc(2) d(1) Cons by blast
    let ?f = "\<lambda>o'. o'\<lparr>so_order_ref := rf, so_side := sd, so_price := pr, so_shares := q, so_remaining := q,
      so_sequence := sq, prev_idx := UINT32_MAX, next_idx := UINT32_MAX\<rparr>"
    obtain p1 where p1: "pool_put i ?f p0 = Some p1" "calm_pool p1 G" "length (storage p1) = ?n"
      using calm_put [OF p0(2), of i ?f] p0(3) i(1) p by (auto simp: calm_slot_def)
    obtain j t1 where r: "lt_ref pr (side_table sd b) = Some (j, t1)" "link_ok ?n (ml_head (lt_at j t1))"
      "\<And>l. link_ok ?n (ml_head l) \<Longrightarrow> calm_table ?n (Suc k) (lt_set j l t1)"
      using calm_ref [OF calm_side [OF d(5)] p k] by blast
    let ?h = "ml_head (lt_at j t1)"
    obtain p2 where p2: "(if ?h \<noteq> UINT32_MAX then do {
        p2 \<leftarrow> pool_put ?h (\<lambda>h. h\<lparr>prev_idx := i\<rparr>) p1; pool_put i (\<lambda>o'. o'\<lparr>next_idx := ?h\<rparr>) p2 } else Some p1) = Some p2"
      "calm_pool p2 G" "length (storage p2) = ?n"
    proof (cases "?h = UINT32_MAX")
      case False
      have hl: "unat ?h < length (storage p1)" using r(2) False p1(3) by (simp add: link_ok_def)
      obtain pa where pa: "pool_put ?h (\<lambda>h. h\<lparr>prev_idx := i\<rparr>) p1 = Some pa" "calm_pool pa G" "length (storage pa) = ?n"
        using calm_put [OF p1(2) hl, of "\<lambda>h. h\<lparr>prev_idx := i\<rparr>"] p1(3) i(1) by (auto simp: calm_slot_def link_ok_def)
      obtain pb where "pool_put i (\<lambda>o'. o'\<lparr>next_idx := ?h\<rparr>) pa = Some pb" "calm_pool pb G" "length (storage pb) = ?n"
        using calm_put [OF pa(2), of i "\<lambda>o'. o'\<lparr>next_idx := ?h\<rparr>"] pa(3) i(1) r(2) by (auto simp: calm_slot_def)
      then show ?thesis using that pa(1) False by simp
    qed (use that p1 in simp)
    obtain u ix where ix: "om_insert rf (Some i) (mb_index b) = Some (u, ix)"
      "order_map.indexes ix (if u then insert i L else L) (key(i := rf))"
      using lossy_map.indexes_ins_any [OF d(2) fresh i(2)] by blast
    define l1 where "l1 = (lt_at j t1)\<lparr>ml_head := i, ml_tail := (if ml_tail (lt_at j t1) = UINT32_MAX then i else ml_tail (lt_at j t1)),
      ml_count := ml_count (lt_at j t1) + 1, ml_total := ml_total (lt_at j t1) + ucast q\<rparr>"
    define b' where "b' = set_side_table sd (lt_set j l1 t1) (b\<lparr>mb_pool := p2, mb_index := ix\<rparr>)"
    have "slot_insert rf (Some i) (mb_index b) = Some ix" using ix(1) by (simp add: slot_insert_def)
    then have "mkt_add rf sd pr q sq b = Some (i, b')"
      using p0(1) p1(1) r(1) p2(1) by (simp add: mkt_add_def Let_def b'_def l1_def)
    moreover have "calm_table ?n (Suc k) (lt_set j l1 t1)" using r(3) i(1) by (simp add: l1_def link_ok_def)
    then have "calm_tables ?n (Suc k) b'"
      using calm_set_side [of ?n k "b\<lparr>mb_pool := p2, mb_index := ix\<rparr>"] d(5) by (simp add: b'_def calm_tables_def)
    then have "calm_by (Suc k) b' G (if u then insert i L else L) (key(i := rf))"
      using p2(2,3) ix(2) d(3,4) i Cons by (auto simp: b'_def calm_by_def calm_store_def set_side_table_def)
    moreover have "length (mslot_array b') = ?n" using p2(3) by (simp add: b'_def set_side_table_def)
    ultimately show ?thesis by blast
  qed
qed

lemma calm_replace:
  assumes c: "calm_by k b F L key" and p: "real_price pr" "in_i64 pr" and k: "Suc k < 2 ^ 30"
    and fresh: "new_rf = rf \<or> new_rf \<notin> key ` L"
  shows "\<exists>r b' F' L' key'. mkt_replace rf new_rf sd pr q sq b = Some (r, b') \<and> calm_by (Suc (Suc k)) b' F' L' key' \<and>
    length (mslot_array b') = length (mslot_array b)"
  using calm_find [OF c, of rf]
proof (elim disjE bexE conjE)
  fix i
  assume i: "i \<in> L" "key i = rf" "slot_find (mb_index b) rf = Some (Some i)"
  have "unat i < length (mslot_array b)" using c i(1) by (simp add: calm_by_def calm_store_def)
  then obtain s where s: "slot_at (mb_pool b) i = Some s" by (simp add: slot_at_def pool_at_def)
  obtain r1 b1 F1 L1 where b1: "mkt_remove rf b = Some (r1, b1)" "calm_by (Suc k) b1 F1 L1 key"
    "length (mslot_array b1) = length (mslot_array b)" "key ` L1 = key ` L - {rf}"
    using calm_remove [OF c, of rf] k by auto
  obtain r2 b2 F2 L2 key2 where b2: "mkt_add new_rf sd pr q (if sq \<noteq> 0 then sq else so_sequence s) b1 = Some (r2, b2)"
    "calm_by (Suc (Suc k)) b2 F2 L2 key2" "length (mslot_array b2) = length (mslot_array b1)"
    using calm_add [OF b1(2) p k, of new_rf sd q "if sq \<noteq> 0 then sq else so_sequence s"] fresh b1(4) by auto
  have "mkt_replace rf new_rf sd pr q sq b = Some (r2 \<noteq> UINT32_MAX, b2)"
    using i(3) s b1(1) b2(1) by (simp add: mkt_replace_def Let_def)
  then show ?thesis using b2 b1(3) by auto
next
  assume "slot_find (mb_index b) rf = Some None"
  then show ?thesis using calm_by_mono [OF c, of "Suc (Suc k)"] by (simp add: mkt_replace_def) blast
qed

lemma calm_execute:
  assumes c: "calm_by k b F L key" and k: "Suc k < 2 ^ 30"
  shows "\<exists>r b' F' L'. mkt_execute rf q b = Some (r, b') \<and> calm_by (Suc (Suc k)) b' F' L' key \<and>
    length (mslot_array b') = length (mslot_array b)"
    and "mkt_cancel rf q b = mkt_execute rf q b"
proof -
  show "\<exists>r b' F' L'. mkt_execute rf q b = Some (r, b') \<and> calm_by (Suc (Suc k)) b' F' L' key \<and>
    length (mslot_array b') = length (mslot_array b)"
    using calm_find [OF c, of rf]
  proof (elim disjE bexE conjE)
    fix i
    assume i: "i \<in> L" "key i = rf" "slot_find (mb_index b) rf = Some (Some i)"
    obtain b' F' L' where r: "reduce_slot rf i q b = Some b'" "calm_by (Suc (Suc k)) b' F' L' key"
      "length (mslot_array b') = length (mslot_array b)"
      using calm_reduce [OF c i(1) k, of q] i(2) by blast
    then have "mkt_execute rf q b = Some (True, b')" using i(3) by (simp add: mkt_execute_def)
    then show ?thesis using r by blast
  next
    assume "slot_find (mb_index b) rf = Some None"
    then show ?thesis using calm_by_mono [OF c, of "Suc (Suc k)"] by (simp add: mkt_execute_def) blast
  qed
  show "mkt_cancel rf q b = mkt_execute rf q b" by (simp add: mkt_cancel_def mkt_execute_def)
qed

lemma calm_get:
  assumes c: "calm_by k b F L key"
  shows "\<exists>v. mkt_get rf b = Some v \<and> (case v of None \<Rightarrow> slot_find (mb_index b) rf = Some None | Some s \<Rightarrow> rf \<in> key ` L)"
  using calm_find [OF c, of rf]
proof (elim disjE bexE conjE)
  fix i
  assume i: "i \<in> L" "key i = rf" "slot_find (mb_index b) rf = Some (Some i)"
  then show ?thesis using c by (auto simp: mkt_get_def slot_at_def pool_at_def calm_by_def calm_store_def)
qed (simp add: mkt_get_def)

section \<open>The market view\<close>

definition calm :: "nat \<Rightarrow> consumer \<Rightarrow> bool" where
  "calm k c \<longleftrightarrow> (\<exists>F L key. calm_store (oc_pool c) (oc_index c) F L key) \<and>
     (\<forall>l ts. oc_books c l = Some ts \<longrightarrow> calm_tables (length (storage (oc_pool c))) k (as_book ts c))"

lemma calm_aux [simp]:
  "calm k (c\<lparr>oc_order_seq := n\<rparr>) = calm k c" "calm k (put_tick ev p c) = calm k c"
  by (simp_all add: calm_def as_book_def calm_tables_def put_tick_def Let_def)

lemma calm_mono: "calm k c \<Longrightarrow> k \<le> k' \<Longrightarrow> calm k' c"
  using calm_table_mono unfolding calm_def calm_tables_def by blast

text \<open>A handler fetches a book, works on it, and writes it back.\<close>

lemma calm_book_for:
  assumes c: "calm k c" and b: "market_book_for l c = (b, c1)"
  shows "\<exists>F L key. calm_by k b F L key \<and> mb_index b = oc_index c \<and> calm k c1"
    and "\<And>k' b' F' L' key'. k \<le> k' \<Longrightarrow> calm_by k' b' F' L' key' \<Longrightarrow> length (mslot_array b') = length (mslot_array b) \<Longrightarrow>
      calm k' (put_market_book l b' c1)"
proof -
  obtain F L key where s: "calm_store (oc_pool c) (oc_index c) F L key" using c by (auto simp: calm_def)
  obtain ts where ts: "b = as_book ts c" "c1 = c\<lparr>oc_books := (oc_books c)(l \<mapsto> ts)\<rparr>"
    "calm_tables (length (storage (oc_pool c))) k (as_book ts c)"
  proof (cases "oc_books c l")
    case None
    then show ?thesis
      using that [of "(lt_new True, lt_new False)"] b by (simp add: market_book_for_def calm_tables_def as_book_def calm_new)
  next
    case (Some ts)
    have "c1 = c\<lparr>oc_books := (oc_books c)(l \<mapsto> ts)\<rparr>" using b Some by (simp add: market_book_for_def fun_upd_idem)
    moreover have "b = as_book ts c" using b Some by (auto simp: market_book_for_def)
    moreover have "calm_tables (length (storage (oc_pool c))) k (as_book ts c)"
      using c Some unfolding calm_def by blast
    ultimately show ?thesis using that by blast
  qed
  have "calm_by k b F L key" using s ts(1,3) by (simp add: calm_by_def as_book_def)
  moreover have "calm k c1" using c ts(2,3) by (auto simp: calm_def as_book_def calm_tables_def)
  ultimately show "\<exists>F L key. calm_by k b F L key \<and> mb_index b = oc_index c \<and> calm k c1"
    using ts(1) by (auto simp: as_book_def)
  fix k' b' F' L' key'
  assume k: "k \<le> k'" and b': "calm_by k' b' F' L' key'" "length (mslot_array b') = length (mslot_array b)"
  have n: "length (mslot_array b) = length (storage (oc_pool c))" using ts(1) by (simp add: as_book_def)
  show "calm k' (put_market_book l b' c1)"
    using calm_mono [OF c k] b' n ts(2) by (auto simp: calm_def calm_by_def put_market_book_def as_book_def calm_tables_def)
qed

text \<open>
  Events a feed may contain: prices that are not the two markers of the table, and new orders under
  references that are not in use.
\<close>

definition feed_event :: "market_event \<Rightarrow> consumer \<Rightarrow> bool" where
  [code_eval]: "feed_event ev c \<longleftrightarrow> real_price (me_price ev) \<and> in_i64 (me_price ev) \<and>
     (case me_type ev of
        EV_ADD \<Rightarrow> slot_find (oc_index c) (me_order_ref ev) = Some None
      | EV_REPLACE \<Rightarrow> me_new_order_ref ev = me_order_ref ev \<or> slot_find (oc_index c) (me_new_order_ref ev) = Some None
      | _ \<Rightarrow> True)"

lemma calm_unused: "calm_by k b F L key \<Longrightarrow> slot_find (mb_index b) rf = Some None \<Longrightarrow> rf \<notin> key ` L"
  using calm_find [of k b F L key rf] order_map.indexes_look [of "mb_index b" L key]
  by (auto simp: calm_by_def calm_store_def slot_find_def)

lemma on_event_calm:
  assumes c: "calm k c" and ev: "feed_event ev c" and k: "Suc k < 2 ^ 30"
  shows "\<exists>c'. on_event ev c = Some c' \<and> calm (Suc (Suc k)) c'"
proof -
  obtain b c1 where b: "market_book_for (me_locate ev) c = (b, c1)" by (cases "market_book_for (me_locate ev) c")
  obtain F L key where cb: "calm_by k b F L key" "mb_index b = oc_index c" "calm k c1" using calm_book_for(1) [OF c b] by blast
  have put: "calm (Suc (Suc k)) (put_market_book (me_locate ev) b' c1)"
    if "calm_by k' b' F' L' key'" "k' \<in> {Suc k, Suc (Suc k)}" "length (mslot_array b') = length (mslot_array b)" for b' k' F' L' key'
    using calm_book_for(2) [OF c b, of "Suc (Suc k)" b' F' L' key'] calm_by_mono [OF that(1), of "Suc (Suc k)"] that(2,3) by auto
  have seq: "put_market_book l b' (c1\<lparr>oc_order_seq := n\<rparr>) = (put_market_book l b' c1)\<lparr>oc_order_seq := n\<rparr>" for l b' n
    by (simp add: put_market_book_def)
  have pr: "real_price (me_price ev)" "in_i64 (me_price ev)" using ev by (simp_all add: feed_event_def)
  obtain r b' F' L' where ex: "mkt_execute (me_order_ref ev) (me_qty ev) b = Some (r, b')" "calm_by (Suc (Suc k)) b' F' L' key"
    "length (mslot_array b') = length (mslot_array b)"
    using calm_execute(1) [OF cb(1) k] by blast
  note put_ex = put [OF ex(2) _ ex(3), simplified]
  obtain v where v: "mkt_get (me_order_ref ev) b = Some v" using calm_get [OF cb(1)] by blast
  show ?thesis
  proof (cases "me_type ev")
    case EV_ADD
    then have "me_order_ref ev \<notin> key ` L" using ev cb(2) calm_unused [OF cb(1)] by (simp add: feed_event_def)
    then obtain r b' F' L' key' where "mkt_add (me_order_ref ev) (me_side ev) (me_price ev) (me_qty ev) (oc_order_seq c1 + 1) b = Some (r, b')"
      "calm_by (Suc k) b' F' L' key'" "length (mslot_array b') = length (mslot_array b)"
      using calm_add [OF cb(1) pr, of "me_order_ref ev" "me_side ev" "me_qty ev" "oc_order_seq c1 + 1"] k by auto
    then show ?thesis using EV_ADD b put [of "Suc k" b' F' L' key'] by (simp add: on_event_def handle_add_def Let_def seq)
  next
    case EV_DELETE
    obtain r b' F' L' where "mkt_remove (me_order_ref ev) b = Some (r, b')" "calm_by (Suc k) b' F' L' key"
      "length (mslot_array b') = length (mslot_array b)"
      using calm_remove [OF cb(1), of "me_order_ref ev"] k by auto
    then show ?thesis using EV_DELETE b put [of "Suc k" b' F' L' key] by (simp add: on_event_def handle_delete_def)
  next
    case EV_CANCEL
    then show ?thesis using b put_ex ex(1) calm_execute(2) [OF cb(1) k] by (simp add: on_event_def handle_cancel_def)
  next
    case EV_REPLACE
    show ?thesis
    proof (cases v)
      case None
      then show ?thesis using EV_REPLACE b v calm_mono [OF cb(3), of "Suc (Suc k)"] by (simp add: on_event_def handle_replace_def)
    next
      case (Some s)
      have "me_new_order_ref ev = me_order_ref ev \<or> me_new_order_ref ev \<notin> key ` L"
        using ev EV_REPLACE cb(2) calm_unused [OF cb(1)] by (auto simp: feed_event_def)
      then obtain r b' F' L' key' where "mkt_replace (me_order_ref ev) (me_new_order_ref ev) (sv_side s) (me_price ev) (me_qty ev)
          (oc_order_seq c1 + 1) b = Some (r, b')"
        "calm_by (Suc (Suc k)) b' F' L' key'" "length (mslot_array b') = length (mslot_array b)"
        using calm_replace [OF cb(1) pr k, of "me_new_order_ref ev" "me_order_ref ev"] by blast
      then show ?thesis using EV_REPLACE b put [of "Suc (Suc k)" b' F' L' key'] v Some by (simp add: on_event_def handle_replace_def Let_def seq)
    qed
  next
    case EV_TRADE
    then show ?thesis using b put_ex ex(1) by (simp add: on_event_def handle_trade_def)
  next
    case EV_EXECUTE
    then show ?thesis using b put_ex ex(1) v by (simp add: on_event_def handle_execute_def Let_def)
  qed
qed

section \<open>Reachable views\<close>

text \<open>\<open>feed_reach k c\<close>: the view \<open>c\<close> after \<open>k\<close> events, from a new pool and a new index.\<close>

inductive feed_reach :: "nat \<Rightarrow> consumer \<Rightarrow> bool" where
  feed_start: "slot_pool_new n = Some pool \<Longrightarrow> slot_index_new n = Some ix \<Longrightarrow> 2 \<le> n \<Longrightarrow> n \<le> 2 ^ 31 \<Longrightarrow>
    feed_reach 0 (consumer_new pool ix)"
| feed_step: "feed_reach k c \<Longrightarrow> feed_event ev c \<Longrightarrow> on_event ev c = Some c' \<Longrightarrow> feed_reach (Suc k) c'"

lemma pool_new_calm:
  assumes "slot_pool_new n = Some pool" "2 \<le> n" "n \<le> 2 ^ 31"
  shows "calm_pool pool (map of_nat [0..<n])"
proof -
  obtain p where p: "slot_pool_new n = Some p" "pool_ok p (map of_nat [0..<n])" "storage p = link_all (replicate n default_slot)"
    using pool_init_ok [of "\<lparr>storage = replicate n default_slot, free_head = 0, pool_size = 0\<rparr>"] assms(2,3)
    by (auto simp: slot_pool_new_def pool_new_def pool_init_free_list_def)
  have "calm_slot k (default_slot\<lparr>pool_next_free := j\<rparr>)" for k j
    by (simp add: calm_slot_def default_slot_def real_price_def kEmpty_def kTombstone_def in_i64_def)
  then have "\<forall>s \<in> set (link_all (replicate n default_slot)). calm_slot k s" for k
    by (auto simp: link_all_def set_zip)
  then show ?thesis using p assms(1) by (simp add: calm_pool_def)
qed

lemma feed_calm: "feed_reach k c \<Longrightarrow> k < 2 ^ 28 \<Longrightarrow> calm (2 * k) c"
proof (induction rule: feed_reach.induct)
  case (feed_start n pool ix)
  have p: "calm_pool pool (map of_nat [0..<n])" using pool_new_calm feed_start by blast
  have "om_inv ix" "\<forall>k. om_find ix k = Some None"
    using om_new_ok [of n, where 'v = u32] feed_start by (auto simp: slot_index_new_def)
  then have "calm_store pool ix (map of_nat [0..<n]) {} (\<lambda>_. 0)"
    using p by (auto simp: calm_store_def order_map.indexes_def)
  then show ?case by (auto simp: calm_def consumer_new_def)
next
  case (feed_step k c ev c')
  then show ?case using on_event_calm [of "2 * k" c ev] by auto
qed


definition demo_market_event :: "event_type \<Rightarrow> market_event" where
  [code_eval]: "demo_market_event ty = \<lparr>me_type = ty, me_seq_id = 1, me_locate = 3, me_timestamp = 0, me_side = OS_BUY,
     me_price = 100, me_qty = 50, me_order_ref = 7, me_new_order_ref = 8\<rparr>"


end
