(* ===== verification/View_Books.thy ===== *)
theory View_Books
  imports Mkt_Alive "HOL-Library.Multiset"
begin

text \<open>
  All books of the market view together. They share one pool and one index, so the invariant of a
  book (\<open>mkt_ok\<close>) holds for each of them next to the slots of the others. While orders only come and
  go as a whole, no level drifts and the view is exact; this theory gives what such events do to the
  content of the books, and what the queries then return.
\<close>

section \<open>The invariant\<close>

type_synonym vghost = "u64 \<Rightarrow> mghost"

definition no_drift :: drift where
  "no_drift = (\<lambda>_ _. 0)"

definition rest_of :: "vghost \<Rightarrow> u64 \<Rightarrow> u32 set" where
  "rest_of G l = (\<Union>k\<in>- {l}. mlive (G k))"

text \<open>The tables of a symbol; one without a book counts as one with an empty book.\<close>

definition tables :: "consumer \<Rightarrow> u64 \<Rightarrow> level_table \<times> level_table" where
  "tables c l = (case oc_books c l of None \<Rightarrow> (lt_new True, lt_new False) | Some ts \<Rightarrow> ts)"

abbreviation vbook :: "consumer \<Rightarrow> u64 \<Rightarrow> mkt_book" where
  "vbook c l \<equiv> as_book (tables c l) c"

abbreviation vslots :: "consumer \<Rightarrow> order_slot list" where
  "vslots c \<equiv> storage (oc_pool c)"

definition view_ok :: "consumer \<Rightarrow> vghost \<Rightarrow> u32 list \<Rightarrow> bool" where
  "view_ok c G F \<longleftrightarrow> (\<forall>l. mkt_ok (vbook c l) (G l) no_drift F (rest_of G l) \<and>
     (\<forall>i\<in>mlive (G l). so_shares (body (vslots c) i) = so_remaining (body (vslots c) i)))"

lemma as_book_fields [simp]:
  "mb_pool (as_book ts c) = oc_pool c" "mb_index (as_book ts c) = oc_index c"
  "mb_bids (as_book ts c) = fst ts" "mb_asks (as_book ts c) = snd ts"
  by (simp_all add: as_book_def)

lemma as_book_cong: "oc_pool c' = oc_pool c \<Longrightarrow> oc_index c' = oc_index c \<Longrightarrow> as_book ts c' = as_book ts c"
  by (simp add: as_book_def)

lemma rest_of_split: "k \<noteq> l \<Longrightarrow> rest_of G k = mlive (G l) \<union> (\<Union>j\<in>- {k, l}. mlive (G j))"
  unfolding rest_of_def by auto

lemma rest_of_upd [simp]: "rest_of (G(l := g)) l = rest_of G l"
  by (simp add: rest_of_def)

lemma mlive_rest: "k \<noteq> l \<Longrightarrow> mlive (G k) \<subseteq> rest_of G l"
  by (auto simp: rest_of_def)

lemma put_market_book_fields [simp]:
  "oc_pool (put_market_book l b c) = mb_pool b" "oc_index (put_market_book l b c) = mb_index b"
  by (simp_all add: put_market_book_def)

text \<open>A handler's work on one book leaves the others as they are.\<close>

lemma view_ok_put:
  assumes ok: "view_ok c G F" and b': "mkt_ok b' g' no_drift F' (rest_of G l)"
    and agr: "agree (vslots c) (mslot_array b') (rest_of G l)"
    and full: "\<forall>i\<in>mlive g'. so_shares (body (mslot_array b') i) = so_remaining (body (mslot_array b') i)"
  shows "view_ok (put_market_book l b' c) (G(l := g')) F'"
  unfolding view_ok_def
proof
  fix k
  let ?c = "put_market_book l b' c"
  have f: "oc_pool ?c = mb_pool b'" "oc_index ?c = mb_index b'"
    "tables ?c k = (if k = l then (mb_bids b', mb_asks b') else tables c k)"
    by (simp_all add: put_market_book_def tables_def)
  show "mkt_ok (vbook ?c k) ((G(l := g')) k) no_drift F' (rest_of (G(l := g')) k) \<and>
     (\<forall>i\<in>mlive ((G(l := g')) k). so_shares (body (vslots ?c) i) = so_remaining (body (vslots ?c) i))"
  proof (cases "k = l")
    case True
    have "vbook ?c l = b'" using f True by (cases b') (simp add: as_book_def)
    then show ?thesis using b' full f(1) True by simp
  next
    case False
    note k = ok [unfolded view_ok_def, THEN spec, of k, THEN conjunct1]
    let ?R = "\<Union>j\<in>- {k, l}. mlive (G j)"
    have r: "rest_of (G(l := g')) k = mlive g' \<union> ?R" using rest_of_split [of k l "G(l := g')"] False by (simp add: fun_upd_def)
    have rl: "rest_of G l = mlive (G k) \<union> ?R" using rest_of_split [of l k G] False by (auto simp: insert_commute)
    have u: "mlive (G k) \<union> rest_of (G(l := g')) k = mlive g' \<union> rest_of G l" unfolding r rl by auto
    have ag: "agree (vslots c) (mslot_array b') (mslots (G k bid))" for bid
      using mlive_sides [of "G k" bid] rl by (intro agree_mono [OF agr]) auto
    have sides: "mside_ok (mslot_array b') True (fst (tables c k)) (G k True) (no_drift True)"
      "mside_ok (mslot_array b') False (snd (tables c k)) (G k False) (no_drift False)"
      using k mside_agree [OF _ ag] by (simp_all add: mkt_ok_def)
    have "mlive (G k) \<inter> mlive g' = {}"
      using b' rl unfolding mkt_ok_def by blast
    moreover have "mlive (G k) \<inter> ?R = {}"
      using k unfolding mkt_ok_def rest_of_split [OF False] by blast
    ultimately have dis: "mlive (G k) \<inter> rest_of (G(l := g')) k = {}" unfolding r by blast
    have "unat i < length (mslot_array b')" if "i \<in> mlive g' \<union> rest_of G l" for i
      using that mkt_slot(3) [OF b' mkt_live [OF b']] b' unfolding mkt_ok_def by blast
    then have bound: "\<forall>i\<in>rest_of (G(l := g')) k. unat i < length (mslot_array b')" unfolding u [symmetric] by blast
    have "mkt_ok (vbook ?c k) (G k) no_drift F' (rest_of (G(l := g')) k)"
      using b' sides dis bound False unfolding mkt_ok_def u f as_book_fields by simp
    moreover have "\<forall>i\<in>mlive (G k). so_shares (body (vslots ?c) i) = so_remaining (body (vslots ?c) i)"
      using ok agr rl by (auto simp: view_ok_def f agree_def)
    ultimately show ?thesis using False by simp
  qed
qed

lemma market_book_for_tables:
  assumes "market_book_for l c = (b, c1)"
  shows "b = vbook c l" "put_market_book l b' c1 = put_market_book l b' c" "oc_order_seq c1 = oc_order_seq c"
proof -
  have "b = vbook c l \<and> put_market_book l b' c1 = put_market_book l b' c \<and> oc_order_seq c1 = oc_order_seq c"
  proof (cases "oc_books c l")
    case None
    then have "b = vbook c l" "c1 = c\<lparr>oc_books := (oc_books c)(l \<mapsto> (lt_new True, lt_new False))\<rparr>"
      using assms by (simp_all add: market_book_for_def tables_def Let_def)
    then show ?thesis by (simp add: put_market_book_def)
  next
    case (Some ts)
    then show ?thesis using assms by (auto simp: market_book_for_def tables_def)
  qed
  then show "b = vbook c l" "put_market_book l b' c1 = put_market_book l b' c" "oc_order_seq c1 = oc_order_seq c" by blast+
qed

lemma put_market_book_seq: "put_market_book l b (c\<lparr>oc_order_seq := n\<rparr>) = (put_market_book l b c)\<lparr>oc_order_seq := n\<rparr>"
  by (simp add: put_market_book_def)

lemma view_ok_seq [simp]: "view_ok (c\<lparr>oc_order_seq := n\<rparr>) G F = view_ok c G F"
  by (simp add: view_ok_def tables_def as_book_def)

section \<open>Orders that come and go\<close>

text \<open>The orders at a price, as pairs of reference and quantity.\<close>

definition at_price :: "consumer \<Rightarrow> vghost \<Rightarrow> u64 \<Rightarrow> bool \<Rightarrow> int \<Rightarrow> (u64 \<times> u64) multiset" where
  "at_price c G l bid p = image_mset (\<lambda>i. (so_order_ref (body (vslots c) i), so_remaining (body (vslots c) i))) (mset (G l bid p))"

lemma at_price_cong:
  assumes "\<And>i. i \<in> mlive (G l) \<Longrightarrow> body (vslots c') i = body (vslots c) i" "G' l = G l"
  shows "at_price c' G' l bid p = at_price c G l bid p"
proof -
  have "i \<in> mlive (G l)" if "i \<in> set (G l bid p)" for i
    using that mlive_sides [of "G l" bid] by (auto simp: mslots_def)
  then show ?thesis using assms(1) unfolding at_price_def assms(2) by (intro image_mset_cong) simp
qed

lemma view_ok_book: "view_ok c G F \<Longrightarrow> mkt_ok (vbook c l) (G l) no_drift F (rest_of G l)"
  by (simp add: view_ok_def)

lemma view_roomy:
  assumes "calm k c" "k < 2 ^ 30"
  shows "roomy (side_table sd (vbook c l))"
proof -
  have "calm_tables (length (vslots c)) k (vbook c l)"
    using assms(1) calm_new by (auto simp: calm_def tables_def calm_tables_def split: option.split)
  then show ?thesis using calm_side filled_roomy [OF _ assms(2)] unfolding calm_table_def by blast
qed

lemma at_price_seq [simp]: "at_price (c\<lparr>oc_order_seq := n\<rparr>) = at_price c"
  by (intro ext) (simp add: at_price_def)

lemma put_market_book_twice [simp]: "put_market_book l b2 (put_market_book l b1 c) = put_market_book l b2 c"
  by (simp add: put_market_book_def)

lemma vbook_put [simp]: "vbook (put_market_book l b c) l = b"
  by (cases b) (simp add: as_book_def tables_def put_market_book_def)

lemma view_put:
  assumes ok: "view_ok c G (idx # F)" and c: "calm k c" "k < 2 ^ 30" and spare: "om_spare (Suc n) (oc_index c)"
    and new: "slot_find (oc_index c) r = Some None" and p: "real_price p" "in_i64 p"
  shows "\<exists>b' G'. mkt_add r sd p q sq (vbook c l) = Some (idx, b') \<and> view_ok (put_market_book l b' c) G' F \<and> om_spare n (mb_index b') \<and>
    (\<forall>j bid x. at_price (put_market_book l b' c) G' j bid x = (if j = l \<and> bid = is_buy sd \<and> x = p
      then add_mset (r, q) (at_price c G j bid x) else at_price c G j bid x))"
proof -
  let ?bid = "is_buy sd"
  note bok = view_ok_book [OF ok, of l]
  have room: "om_room (oc_index c) r" for r using om_spare_room [OF spare] .
  let ?g = "level_ids (G l) ?bid p (idx # G l ?bid p)"
  obtain b' where b': "mkt_add r sd p q sq (vbook c l) = Some (idx, b')" "mkt_ok b' ?g no_drift F (rest_of G l)"
    "agree (vslots c) (mslot_array b') (mlive (G l) \<union> rest_of G l - set (G l ?bid p))"
    "\<forall>i\<in>mlive (G l) \<union> rest_of G l. body (mslot_array b') i = body (vslots c) i"
    "so_order_ref (body (mslot_array b') idx) = r" "so_shares (body (mslot_array b') idx) = q"
    "so_remaining (body (mslot_array b') idx) = q"
    using mkt_add_ok [OF bok _ p view_roomy [OF c], of r sd q sq] new room by auto
  let ?c' = "put_market_book l b' c"
  have lv: "mlive ?g = insert idx (mlive (G l))"
    using mlive_upd [of "G l" ?bid p "idx # G l ?bid p"] mlive_split [of "G l" ?bid p] by auto
  have v': "view_ok ?c' (G(l := ?g)) F"
  proof (rule view_ok_put [OF ok b'(2)])
    show "agree (vslots c) (mslot_array b') (rest_of G l)"
      by (rule agree_mono [OF b'(3)]) (use mkt_slot(7) [OF bok] in blast)
    show "\<forall>i\<in>mlive ?g. so_shares (body (mslot_array b') i) = so_remaining (body (mslot_array b') i)"
      using b'(4,6,7) ok unfolding lv view_ok_def by auto
  qed
  have "idx \<noteq> UINT32_MAX" using mkt_slot(4) [OF b'(2), of idx ?bid p] by simp
  then have "om_spare n (mb_index b')"
    using mkt_add_index [OF b'(1)] om_insert_spare [OF spare _ option.simps(3), of r idx] new by (auto simp: slot_insert_def slot_find_def)
  moreover have "at_price ?c' (G(l := ?g)) j bid x = (if j = l \<and> bid = ?bid \<and> x = p
      then add_mset (r, q) (at_price c G j bid x) else at_price c G j bid x)" for j bid x
  proof -
    have "body (mslot_array b') i = body (vslots c) i" if "i \<in> set (G j sd' x')" for i j sd' x'
    proof -
      have "i \<in> mlive (G j)" using that mlive_sides [of "G j" sd'] by (auto simp: mslots_def)
      then show ?thesis using b'(4) mlive_rest [of j l G] by (cases "j = l") auto
    qed
    then have "at_price ?c' G j bid x = at_price c G j bid x"
      unfolding at_price_def by (intro image_mset_cong) simp
    then show ?thesis using b'(5,7) by (auto simp: at_price_def level_ids_def)
  qed
  ultimately show ?thesis using b'(1) v' by blast
qed

text \<open>Deleting an order that rests in the named book takes exactly it; one that rests nowhere changes nothing.\<close>

lemma unlink_index: "unlink_and_free x b = Some b1 \<Longrightarrow> mb_index b1 = mb_index b"
  by (auto simp: unlink_and_free_def Let_def split: bind_split_asm prod.splits)

lemma level_distinct:
  assumes "mkt_ok b g D F Oth"
  shows "distinct (g bid p)"
proof (cases "g bid p = []")
  case False
  then have "hd (g bid p) \<in> set (g bid p)" by simp
  moreover have "is_buy (if bid then OS_BUY else OS_SELL) = bid" by simp
  ultimately obtain l where "mlevel_ok (mslot_array b) bid p (D bid p) l (g bid p)" using mkt_level [OF assms] by metis
  then show ?thesis by (simp add: mlevel_ok_def)
qed simp

lemma view_find:
  assumes "view_ok c G F" "i \<in> mlive (G l)"
  shows "slot_find (oc_index c) (so_order_ref (body (vslots c) i)) = Some (Some i)"
  using mkt_find [OF view_ok_book [OF assms(1), of l], of i] assms(2) by simp

lemma view_absent:
  assumes ok: "view_ok c G F" and no: "\<forall>l bid p. r \<notin> fst ` set_mset (at_price c G l bid p)"
  shows "slot_find (oc_index c) r = Some None"
proof -
  have "r \<noteq> so_order_ref (body (vslots c) i)" if i: "i \<in> mlive (G l)" for i l
  proof -
    obtain bid p where "i \<in> set (G l bid p)" using i by (auto simp: mlive_def mslots_def)
    then show ?thesis using no [rule_format, of l bid p] by (auto simp: at_price_def image_iff)
  qed
  then have "r \<notin> (\<lambda>i. so_order_ref (body (mslot_array (vbook c l)) i)) ` (mlive (G l) \<union> rest_of G l)" for l
    by (auto simp: rest_of_def)
  from mkt_find_absent [OF view_ok_book [OF ok] this] show ?thesis by simp
qed

lemma at_price_drop:
  assumes ok: "view_ok c G F" and ab: "G l bid p = as @ i # bs" and r: "so_order_ref (body (vslots c) i) = rf"
  shows "image_mset (\<lambda>i. (so_order_ref (body (vslots c) i), so_remaining (body (vslots c) i))) (mset (level_ids (G l) bid p (as @ bs) sd q)) =
    filter_mset (\<lambda>x. fst x \<noteq> rf) (at_price c G l sd q)"
proof -
  let ?g = "level_ids (G l) bid p (as @ bs)" and ?f = "\<lambda>i. (so_order_ref (body (vslots c) i), so_remaining (body (vslots c) i))"
  note bok = view_ok_book [OF ok, of l]
  have i: "i \<in> set (G l bid p)" by (simp add: ab)
  have fnd: "slot_find (oc_index c) rf = Some (Some i)" using view_find [OF ok mkt_slot(5) [OF bok i]] r by simp
  have "so_order_ref (body (vslots c) j) = rf \<longleftrightarrow> j = i" if "j \<in> set (G l sd q)" for j
    using view_find [OF ok mkt_slot(5) [OF bok that]] fnd r by (metis option.inject)
  then have "filter_mset (\<lambda>x. fst x \<noteq> rf) (at_price c G l sd q) = image_mset ?f (filter_mset (\<lambda>j. j \<noteq> i) (mset (G l sd q)))"
    unfolding at_price_def filter_mset_image_mset by (intro arg_cong [of _ _ "image_mset _"] filter_mset_cong) simp_all
  also have "filter_mset (\<lambda>j. j \<noteq> i) (mset (G l sd q)) = mset (?g sd q)"
  proof (cases "sd = bid \<and> q = p")
    case True
    have "i \<notin> set as" "i \<notin> set bs" using level_distinct [OF bok, of bid p] ab by auto
    then have "filter (\<lambda>j. j \<noteq> i) (G l sd q) = ?g sd q"
      using True ab by (simp add: level_ids_def filter_neq_id)
    then show ?thesis by (metis mset_filter)
  next
    case False
    then have "i \<notin> set (G l sd q)"
      using mkt_slot(1,2) [OF bok i] mkt_slot(1,2) [OF bok, of i sd q] by auto
    moreover have "?g sd q = G l sd q" using False by (auto simp: level_ids_def)
    ultimately show ?thesis by (auto simp: filter_mset_eq_conv)
  qed
  finally show ?thesis by (rule sym)
qed

lemma view_drop:
  assumes ok: "view_ok c G F" and spare: "om_spare n (oc_index c)"
    and i: "i \<in> set (G l bid p)" and r: "so_order_ref (body (vslots c) i) = rf"
  shows "\<exists>b' G'. mkt_remove rf (vbook c l) = Some (True, b') \<and> view_ok (put_market_book l b' c) G' (i # F) \<and> om_spare n (mb_index b') \<and>
    (\<forall>j sd q. at_price (put_market_book l b' c) G' j sd q = (if j = l
      then filter_mset (\<lambda>x. fst x \<noteq> rf) (at_price c G j sd q) else at_price c G j sd q))"
proof -
  note bok = view_ok_book [OF ok, of l]
  obtain as bs where ab: "G l bid p = as @ i # bs" using i by (auto simp: in_set_conv_decomp)
  have live: "i \<in> mlive (G l)" by (rule mkt_slot(5) [OF bok i])
  have full: "so_shares (body (vslots c) i) = so_remaining (body (vslots c) i)" using ok live by (simp add: view_ok_def)
  let ?g = "level_ids (G l) bid p (as @ bs)"
  have dr: "set_drift no_drift bid p (if as @ bs = [] then 0 else no_drift bid p +
      (ucast (so_shares (body (vslots c) i)) - ucast (so_remaining (body (vslots c) i)))) = no_drift"
    using full by (simp add: set_drift_def no_drift_def fun_eq_iff)
  obtain b1 b2 where d: "unlink_and_free i (vbook c l) = Some b1" "mkt_erase_ref rf b1 = Some b2"
    "mkt_ok b2 ?g no_drift (i # F) (rest_of G l)"
    "agree (vslots c) (mslot_array b2) (mlive (G l) \<union> rest_of G l - set (as @ i # bs))"
    "body (mslot_array b2) = body (vslots c)" "mlive ?g = mlive (G l) - {i}"
    using mkt_drop_ok [OF bok i ab] unfolding as_book_fields dr r by blast
  have fnd: "slot_find (oc_index c) rf = Some (Some i)" using view_find [OF ok live] r by simp
  let ?c' = "put_market_book l b2 c"
  have "view_ok ?c' (G(l := ?g)) (i # F)"
  proof (rule view_ok_put [OF ok d(3)])
    show "agree (vslots c) (mslot_array b2) (rest_of G l)"
      by (rule agree_mono [OF d(4)]) (use mkt_slot(7) [OF bok, of _ bid p] ab in auto)
    show "\<forall>j\<in>mlive ?g. so_shares (body (mslot_array b2) j) = so_remaining (body (mslot_array b2) j)"
      using ok unfolding d(5,6) view_ok_def by blast
  qed
  moreover have "slot_erase rf (oc_index c) = Some (mb_index b2)"
    using d(2) unlink_index [OF d(1)] by (auto simp: mkt_erase_ref_def split: bind_split_asm)
  then have "om_spare n (mb_index b2)" using om_erase_spare [OF spare] by (simp add: slot_erase_def)
  moreover have "at_price ?c' (G(l := ?g)) j sd q = (if j = l
      then filter_mset (\<lambda>x. fst x \<noteq> rf) (at_price c G j sd q) else at_price c G j sd q)" for j sd q
    using at_price_drop [OF ok ab r, of sd q] by (simp add: at_price_def d(5))
  moreover have "mkt_remove rf (vbook c l) = Some (True, b2)" using d(1,2) fnd by (simp add: mkt_remove_def)
  ultimately show ?thesis by blast
qed

text \<open>The handlers.\<close>

lemma view_add:
  assumes ok: "view_ok c G (idx # F)" and c: "calm k c" "k < 2 ^ 30" and spare: "om_spare (Suc n) (oc_index c)"
    and new: "slot_find (oc_index c) (me_order_ref ev) = Some None" and p: "real_price (me_price ev)" "in_i64 (me_price ev)"
    and ty: "me_type ev = EV_ADD"
  shows "\<exists>c' G'. on_event ev c = Some c' \<and> view_ok c' G' F \<and> om_spare n (oc_index c') \<and>
    (\<forall>l bid p. at_price c' G' l bid p = (if l = me_locate ev \<and> bid = is_buy (me_side ev) \<and> p = me_price ev
      then add_mset (me_order_ref ev, me_qty ev) (at_price c G l bid p) else at_price c G l bid p))"
proof -
  let ?l = "me_locate ev"
  obtain b c1 where b: "market_book_for ?l c = (b, c1)" by fastforce
  note bt = market_book_for_tables [OF b]
  obtain b' G' where b': "mkt_add (me_order_ref ev) (me_side ev) (me_price ev) (me_qty ev) (oc_order_seq c + 1) b = Some (idx, b')"
    "view_ok (put_market_book ?l b' c) G' F" "om_spare n (mb_index b')"
    "\<forall>l bid p. at_price (put_market_book ?l b' c) G' l bid p = (if l = ?l \<and> bid = is_buy (me_side ev) \<and> p = me_price ev
      then add_mset (me_order_ref ev, me_qty ev) (at_price c G l bid p) else at_price c G l bid p)"
    using view_put [OF ok c spare new p] unfolding bt(1) by blast
  have "on_event ev c = Some ((put_market_book ?l b' c)\<lparr>oc_order_seq := oc_order_seq c + 1\<rparr>)"
    using ty b b'(1) bt(2,3) by (simp add: on_event_def handle_add_def Let_def put_market_book_seq)
  then show ?thesis using b'(2-4) by (intro exI [of _ "(put_market_book ?l b' c)\<lparr>oc_order_seq := oc_order_seq c + 1\<rparr>"] exI [of _ G']) simp
qed

lemma view_remove:
  assumes ok: "view_ok c G F" and spare: "om_spare n (oc_index c)" and ty: "me_type ev = EV_DELETE"
    and i: "i \<in> set (G (me_locate ev) bid p)" and r: "so_order_ref (body (vslots c) i) = me_order_ref ev"
  shows "\<exists>c' G'. on_event ev c = Some c' \<and> view_ok c' G' (i # F) \<and> om_spare n (oc_index c') \<and>
    (\<forall>l bid p. at_price c' G' l bid p = (if l = me_locate ev
      then filter_mset (\<lambda>x. fst x \<noteq> me_order_ref ev) (at_price c G l bid p) else at_price c G l bid p))"
proof -
  let ?l = "me_locate ev"
  obtain b c1 where b: "market_book_for ?l c = (b, c1)" by fastforce
  note bt = market_book_for_tables [OF b]
  obtain b' G' where b': "mkt_remove (me_order_ref ev) b = Some (True, b')" "view_ok (put_market_book ?l b' c) G' (i # F)" "om_spare n (mb_index b')"
    "\<forall>l bid p. at_price (put_market_book ?l b' c) G' l bid p = (if l = ?l
      then filter_mset (\<lambda>x. fst x \<noteq> me_order_ref ev) (at_price c G l bid p) else at_price c G l bid p)"
    using view_drop [OF ok spare i r] unfolding bt(1) by blast
  have "on_event ev c = Some (put_market_book ?l b' c)"
    using ty b b'(1) bt(2) by (simp add: on_event_def handle_delete_def)
  then show ?thesis using b'(2-4) by (intro exI [of _ "put_market_book ?l b' c"] exI [of _ G']) simp
qed

lemma view_remove_none:
  assumes ok: "view_ok c G F" and ty: "me_type ev = EV_DELETE" and r: "slot_find (oc_index c) (me_order_ref ev) = Some None"
  shows "\<exists>c'. on_event ev c = Some c' \<and> view_ok c' G F \<and> oc_index c' = oc_index c \<and> at_price c' G = at_price c G"
proof -
  let ?l = "me_locate ev"
  obtain b c1 where b: "market_book_for ?l c = (b, c1)" by fastforce
  note bt = market_book_for_tables [OF b]
  let ?c' = "put_market_book ?l (vbook c ?l) c"
  have "on_event ev c = Some ?c'"
    using ty b bt r by (simp add: on_event_def handle_delete_def mkt_remove_def)
  moreover have "view_ok ?c' (G(?l := G ?l)) F"
    using view_ok_put [OF ok view_ok_book [OF ok, of ?l]] ok by (simp add: view_ok_def agree_def)
  ultimately show ?thesis by (auto simp: put_market_book_def at_price_def fun_eq_iff)
qed

lemma view_get:
  assumes ok: "view_ok c G F" and x: "(r, q) \<in># at_price c G l bid p"
  shows "\<exists>v. mkt_get r (vbook c k) = Some (Some v) \<and> sv_order_ref v = r \<and> is_buy (sv_side v) = bid \<and> sv_price v = p \<and> sv_remaining v = q"
proof -
  obtain i where i: "i \<in> set (G l bid p)" "so_order_ref (body (vslots c) i) = r" "so_remaining (body (vslots c) i) = q"
    using x by (auto simp: at_price_def)
  note sl = mkt_slot [OF view_ok_book [OF ok, of l] i(1)]
  have "slot_at (oc_pool c) i = Some (vslots c ! unat i)" using sl(3) by (simp add: slot_at_def)
  moreover have "slot_find (oc_index c) r = Some (Some i)" using view_find [OF ok sl(5)] i(2) by simp
  ultimately show ?thesis using i(2,3) sl(1,2) by (auto simp: mkt_get_def slot_field)
qed

text \<open>A replacement takes the old order out and puts the new one in; each uses up a little of the index.\<close>

lemma view_replace:
  assumes ok: "view_ok c G F" and c: "calm k c" "k + 2 < 2 ^ 30" and spare: "om_spare (Suc n) (oc_index c)"
    and ty: "me_type ev = EV_REPLACE" and i: "i \<in> set (G (me_locate ev) bid p)" "so_order_ref (body (vslots c) i) = me_order_ref ev"
    and new: "\<forall>l bid p. me_new_order_ref ev \<notin> fst ` set_mset (at_price c G l bid p)"
    and p: "real_price (me_price ev)" "in_i64 (me_price ev)"
  shows "\<exists>c' G'. on_event ev c = Some c' \<and> view_ok c' G' F \<and> om_spare n (oc_index c') \<and>
    (\<forall>l sd q. at_price c' G' l sd q = (let M = (if l = me_locate ev
        then filter_mset (\<lambda>x. fst x \<noteq> me_order_ref ev) (at_price c G l sd q) else at_price c G l sd q) in
      if l = me_locate ev \<and> sd = bid \<and> q = me_price ev then add_mset (me_new_order_ref ev, me_qty ev) M else M))"
proof -
  let ?l = "me_locate ev" and ?r = "me_order_ref ev" and ?s = "me_new_order_ref ev"
  obtain b c0 where b: "market_book_for ?l c = (b, c0)" by fastforce
  note bt = market_book_for_tables [OF b]
  have "(?r, so_remaining (body (vslots c) i)) \<in># at_price c G ?l bid p" using i by (force simp: at_price_def)
  then obtain v where v: "mkt_get ?r (vbook c ?l) = Some (Some v)" "is_buy (sv_side v) = bid" using view_get [OF ok] by blast
  obtain b1 G1 where b1: "mkt_remove ?r (vbook c ?l) = Some (True, b1)" "view_ok (put_market_book ?l b1 c) G1 (i # F)" "om_spare (Suc n) (mb_index b1)"
    "\<forall>l sd q. at_price (put_market_book ?l b1 c) G1 l sd q = (if l = ?l
      then filter_mset (\<lambda>x. fst x \<noteq> ?r) (at_price c G l sd q) else at_price c G l sd q)"
    using view_drop [OF ok spare i] by blast
  let ?c1 = "put_market_book ?l b1 c"
  have "on_event (ev\<lparr>me_type := EV_DELETE\<rparr>) c = Some ?c1" using b b1(1) bt by (simp add: on_event_def handle_delete_def)
  moreover have "feed_event (ev\<lparr>me_type := EV_DELETE\<rparr>) c" using p by (simp add: feed_event_def)
  ultimately have calm1: "calm (Suc (Suc k)) ?c1" using on_event_calm [OF c(1)] c(2) by fastforce
  have "\<forall>l bid p. ?s \<notin> fst ` set_mset (at_price ?c1 G1 l bid p)"
  proof (intro allI)
    fix l bid p
    show "?s \<notin> fst ` set_mset (at_price ?c1 G1 l bid p)"
      using new b1(4) [rule_format, of l bid p] by auto
  qed
  then have new1: "slot_find (oc_index ?c1) ?s = Some None" by (rule view_absent [OF b1(2)])
  define seqno where "seqno = (if oc_order_seq c + 1 \<noteq> 0 then oc_order_seq c + 1 else so_sequence (vslots c ! unat i))"
  obtain b2 G2 where b2: "mkt_add ?s (sv_side v) (me_price ev) (me_qty ev) seqno b1 = Some (i, b2)" "view_ok (put_market_book ?l b2 c) G2 F"
    "om_spare n (mb_index b2)"
    "\<forall>j bid x. at_price (put_market_book ?l b2 c) G2 j bid x = (if j = ?l \<and> bid = is_buy (sv_side v) \<and> x = me_price ev
      then add_mset (?s, me_qty ev) (at_price ?c1 G1 j bid x) else at_price ?c1 G1 j bid x)"
    using view_put [OF b1(2) calm1 _ _ new1 p, of n "sv_side v" "me_qty ev" seqno ?l] b1(3) c(2) by auto
  have fnd: "slot_find (oc_index c) ?r = Some (Some i)" 
    using view_find [OF ok mkt_slot(5) [OF view_ok_book [OF ok] i(1)]] i(2) by simp
  have at: "slot_at (oc_pool c) i = Some (vslots c ! unat i)"
    using mkt_slot(3) [OF view_ok_book [OF ok] i(1)] by (simp add: slot_at_def)
  let ?c2 = "(put_market_book ?l b2 c)\<lparr>oc_order_seq := oc_order_seq c + 1\<rparr>"
  have "mkt_replace ?r ?s (sv_side v) (me_price ev) (me_qty ev) (oc_order_seq c + 1) (vbook c ?l) = Some (i \<noteq> UINT32_MAX, b2)"
    using fnd at b1(1) b2(1) by (simp add: mkt_replace_def Let_def seqno_def)
  then have "on_event ev c = Some ?c2"
    using ty b bt v(1) by (simp add: on_event_def handle_replace_def Let_def put_market_book_seq)
  then show ?thesis using b2(2-4) b1(4) v(2) by (intro exI [of _ ?c2] exI [of _ G2]) (simp add: Let_def)
qed

text \<open>One of an order that rests nowhere changes nothing.\<close>

lemma view_replace_none:
  assumes ok: "view_ok c G F" and ty: "me_type ev = EV_REPLACE" and r: "slot_find (oc_index c) (me_order_ref ev) = Some None"
  shows "\<exists>c'. on_event ev c = Some c' \<and> view_ok c' G F \<and> oc_index c' = oc_index c \<and> at_price c' G = at_price c G"
proof -
  let ?l = "me_locate ev"
  obtain b c1 where b: "market_book_for ?l c = (b, c1)" by fastforce
  note bt = market_book_for_tables [OF b]
  have c1: "tables c1 = tables c" "oc_pool c1 = oc_pool c" "oc_index c1 = oc_index c"
    using b by (cases "oc_books c ?l"; force simp: market_book_for_def tables_def Let_def)+
  have "on_event ev c = Some c1"
    using ty b bt(1) r by (simp add: on_event_def handle_replace_def mkt_get_def)
  moreover have "vbook c1 l = vbook c l" for l unfolding c1(1) by (rule as_book_cong [OF c1(2,3)])
  then have "view_ok c1 G F" using ok by (simp add: view_ok_def c1(2))
  moreover have "at_price c1 G = at_price c G" by (intro ext) (simp add: c1(2) at_price_def)
  ultimately show ?thesis using c1(3) by blast
qed

section \<open>Queries\<close>

text \<open>The volume at a price and the prices in use, of a side given as its content \<open>C\<close>.\<close>

definition volume :: "(u64 \<times> u64) multiset \<Rightarrow> u32" where
  "volume M = (\<Sum>x\<in>#M. ucast (snd x))"

lemma view_level:
  assumes ok: "view_ok c G F" and sd: "is_buy sd = bid"
  shows "lt_map (side_table sd (vbook c l)) p = None \<longleftrightarrow> at_price c G l bid p = {#}"
    "lt_map (side_table sd (vbook c l)) p = Some lev \<Longrightarrow> ml_total lev = volume (at_price c G l bid p)"
proof -
  let ?t = "side_table sd (vbook c l)"
  have side: "mside_ok (vslots c) bid ?t (G l bid) (no_drift bid)"
    using mkt_side [OF view_ok_book [OF ok, of l], of sd] sd by simp
  have e: "at_price c G l bid p = {#} \<longleftrightarrow> G l bid p = []" by (simp add: at_price_def)
  show "lt_map ?t p = None \<longleftrightarrow> at_price c G l bid p = {#}"
    unfolding e using mside_none(1) [OF side] mside_level [OF side] by (metis option.distinct(1))
  assume m: "lt_map ?t p = Some lev"
  then have "mlevel_ok (vslots c) bid p 0 lev (G l bid p)"
    using side by (auto simp: mside_ok_def no_drift_def split: option.splits dest: spec [of _ p])
  then show "ml_total lev = volume (at_price c G l bid p)"
    by (simp add: mlevel_ok_def volume_def at_price_def image_mset.compositionality comp_def flip: sum_mset_sum_list mset_map)
qed

definition prices_of :: "(int \<Rightarrow> (u64 \<times> u64) multiset) \<Rightarrow> int set" where
  "prices_of C = {p. C p \<noteq> {#}}"

lemma view_best:
  fixes l
  assumes ok: "view_ok c G F" and sd: "is_buy sd = bid"
  defines "t \<equiv> side_table sd (vbook c l)" and "P \<equiv> prices_of (at_price c G l bid)"
  shows "lt_empty t \<longleftrightarrow> P = {}" "P \<noteq> {} \<Longrightarrow> lt_best t = (if bid then Max P else Min P)"
    "best_qty t = (if P = {} then 0 else ucast (volume (at_price c G l bid (if bid then Max P else Min P))))"
proof -
  have t: "lt_ok t" "lt_is_bid t = bid" using mkt_side [OF view_ok_book [OF ok, of l], of sd] sd by (simp_all add: mside_ok_def t_def)
  have d: "dom (lt_map t) = P" unfolding dom_def t_def P_def prices_of_def by (simp add: view_level(1) [OF ok sd])
  show e: "lt_empty t \<longleftrightarrow> P = {}" using lt_empty_iff [OF t(1) lt_dom_small [OF t(1)]] d by auto
  show b: "lt_best t = (if bid then Max P else Min P)" if "P \<noteq> {}" using t d that by (simp add: lt_ok_def extremum_def)
  show "best_qty t = (if P = {} then 0 else ucast (volume (at_price c G l bid (if bid then Max P else Min P))))"
  proof (cases "P = {}")
    case False
    have "finite P" using finite_lt_map [of t] d by simp
    then have "lt_best t \<in> P" using b False Max_in Min_in by (cases bid) auto
    then obtain lev where l: "lt_map t (lt_best t) = Some lev" "real_price (lt_best t)" using d lt_map_real by blast
    then have "best_qty t = ucast (ml_total lev)"
      using e False lt_find_map [OF t(1) l(2)] by (auto simp: best_qty_def lt_find_def split: option.splits)
    then show ?thesis using view_level(2) [OF ok sd, of l] l(1) b False by (simp add: t_def)
  qed (use e in \<open>simp add: best_qty_def\<close>)
qed

end
