(* ===== verification/Oms.thy ===== *)
theory Oms
  imports Core_Types "HOL-Library.AList"
begin

text \<open>
  The order manager (\<open>src/oms/order_manager.h\<close>, \<open>src/oms/order.h\<close>): the life cycle of the
  strategies' own orders. A hash table is an association list with distinct keys, a hash set a
  set; the static counter of \<open>now()\<close> is a field of the state.
\<close>

section \<open>State\<close>

datatype oms_status = PENDING | SUBMITTED | PARTIAL_FILL | PENDING_CANCEL
  | ST_FILLED | ST_CANCELLED | ST_REJECTED | NOT_FOUND

record oms_entry =
  e_order :: core_order
  e_status :: oms_status
  e_exchange_ref :: u64
  e_filled :: u64
  e_remaining :: u64
  e_avg_fill_price :: int
  e_submit_time :: u64
  e_update_time :: u64

record order_manager =
  oms_orders :: "(u64 \<times> oms_entry) list"
  sym_orders :: "u64 \<Rightarrow> u64 set"
  strat_orders :: "u64 \<Rightarrow> u64 set"
  oms_next_id :: u64
  oms_clock :: u64

definition oms_empty :: order_manager where
  [code_eval]: "oms_empty = \<lparr>oms_orders = [], sym_orders = (\<lambda>_. {}), strat_orders = (\<lambda>_. {}),
     oms_next_id = 1, oms_clock = 0\<rparr>"

section \<open>Operations\<close>

definition set_next_id :: "u64 \<Rightarrow> order_manager \<Rightarrow> order_manager" where
  [code_eval]: "set_next_id base m = m\<lparr>oms_next_id := base\<rparr>"

definition oms_find :: "order_manager \<Rightarrow> u64 \<Rightarrow> oms_entry option" where
  [code_eval]: "oms_find m oid = map_of (oms_orders m) oid"

definition oms_put :: "u64 \<Rightarrow> oms_entry \<Rightarrow> order_manager \<Rightarrow> order_manager" where
  [code_eval]: "oms_put oid e m = m\<lparr>oms_orders := AList.update oid e (oms_orders m)\<rparr>"

text \<open>A write to the entry stamped with \<open>now()\<close>, and the removal from the two live indexes.\<close>

definition oms_write :: "u64 \<Rightarrow> oms_entry \<Rightarrow> order_manager \<Rightarrow> order_manager" where
  [code_eval]: "oms_write oid e m =
     oms_put oid (e\<lparr>e_update_time := oms_clock m + 1\<rparr>) (m\<lparr>oms_clock := oms_clock m + 1\<rparr>)"

definition oms_retire :: "u64 \<Rightarrow> core_order \<Rightarrow> order_manager \<Rightarrow> order_manager" where
  [code_eval]: "oms_retire oid ord m = m\<lparr>
     sym_orders := (sym_orders m)(co_symbol_id ord := sym_orders m (co_symbol_id ord) - {oid}),
     strat_orders := (strat_orders m)(co_strategy_id ord := strat_orders m (co_strategy_id ord) - {oid})\<rparr>"

text \<open>\<open>new_order\<close> writes the number it assigns back into the caller's order.\<close>

definition new_order :: "core_order \<Rightarrow> order_manager \<Rightarrow> u64 \<times> core_order \<times> order_manager" where
  [code_eval]: "new_order ord0 m =
     (let oid = oms_next_id m;
          ord = ord0\<lparr>co_order_id := oid\<rparr>;
          e = \<lparr>e_order = ord, e_status = PENDING, e_exchange_ref = 0, e_filled = 0,
               e_remaining = co_quantity ord, e_avg_fill_price = 0,
               e_submit_time = co_timestamp ord, e_update_time = co_timestamp ord\<rparr>;
          m1 = oms_put oid e (m\<lparr>oms_next_id := oms_next_id m + 1\<rparr>) in
      (oid, ord, m1\<lparr>
        sym_orders := (sym_orders m1)(co_symbol_id ord := insert oid (sym_orders m1 (co_symbol_id ord))),
        strat_orders := (strat_orders m1)(co_strategy_id ord := insert oid (strat_orders m1 (co_strategy_id ord)))\<rparr>))"

definition on_accept :: "u64 \<Rightarrow> u64 \<Rightarrow> order_manager \<Rightarrow> order_manager" where
  [code_eval]: "on_accept oid ref m =
     (case oms_find m oid of
        None \<Rightarrow> m
      | Some e \<Rightarrow> if e_status e = PENDING then oms_write oid (e\<lparr>e_status := SUBMITTED, e_exchange_ref := ref\<rparr>) m else m)"

definition oms_on_fill :: "u64 \<Rightarrow> u64 \<Rightarrow> int \<Rightarrow> order_manager \<Rightarrow> order_manager" where
  [code_eval]: "oms_on_fill oid filled_qty fill_price m =
     (case oms_find m oid of
        None \<Rightarrow> m
      | Some e \<Rightarrow>
          if e_status e \<noteq> SUBMITTED \<and> e_status e \<noteq> PARTIAL_FILL then m
          else
            let quantity = co_quantity (e_order e);
                new_filled0 = e_filled e + filled_qty;
                (fq, new_filled) = (if new_filled0 > quantity then (quantity - e_filled e, quantity)
                                    else (filled_qty, new_filled0));
                total_cost = add64 (mul64 (e_avg_fill_price e) (sint (e_filled e))) (mul64 fill_price (sint fq));
                e' = e\<lparr>e_filled := new_filled, e_remaining := quantity - new_filled,
                       e_avg_fill_price := (if new_filled \<noteq> 0 then div64 total_cost (sint new_filled) else 0)\<rparr> in
            if new_filled \<ge> quantity
            then oms_retire oid (e_order e) (oms_write oid (e'\<lparr>e_status := ST_FILLED\<rparr>) m)
            else oms_write oid (e'\<lparr>e_status := PARTIAL_FILL\<rparr>) m)"

definition request_cancel :: "u64 \<Rightarrow> order_manager \<Rightarrow> bool \<times> order_manager" where
  [code_eval]: "request_cancel oid m =
     (case oms_find m oid of
        None \<Rightarrow> (False, m)
      | Some e \<Rightarrow>
          if e_status e \<noteq> SUBMITTED \<and> e_status e \<noteq> PARTIAL_FILL then (False, m)
          else (True, oms_write oid (e\<lparr>e_status := PENDING_CANCEL\<rparr>) m))"

definition on_cancel :: "u64 \<Rightarrow> order_manager \<Rightarrow> bool \<times> order_manager" where
  [code_eval]: "on_cancel oid m =
     (case oms_find m oid of
        None \<Rightarrow> (False, m)
      | Some e \<Rightarrow>
          if e_status e \<noteq> PENDING_CANCEL then (False, m)
          else (True, oms_retire oid (e_order e) (oms_write oid (e\<lparr>e_status := ST_CANCELLED\<rparr>) m)))"

definition on_reject :: "u64 \<Rightarrow> order_manager \<Rightarrow> order_manager" where
  [code_eval]: "on_reject oid m =
     (case oms_find m oid of
        None \<Rightarrow> m
      | Some e \<Rightarrow>
          if e_status e \<noteq> PENDING then m
          else oms_retire oid (e_order e) (oms_write oid (e\<lparr>e_status := ST_REJECTED\<rparr>) m))"

section \<open>Queries\<close>

definition oms_status_of :: "order_manager \<Rightarrow> u64 \<Rightarrow> oms_status" where
  [code_eval]: "oms_status_of m oid = (case oms_find m oid of None \<Rightarrow> NOT_FOUND | Some e \<Rightarrow> e_status e)"

definition oms_order :: "order_manager \<Rightarrow> u64 \<Rightarrow> core_order ptr" where
  [code_eval]: "oms_order m oid = map_option e_order (oms_find m oid)"

definition open_orders :: "order_manager \<Rightarrow> u64 \<Rightarrow> u64 set" where
  [code_eval]: "open_orders m symbol_id = sym_orders m symbol_id"

definition open_orders_by_strategy :: "order_manager \<Rightarrow> u64 \<Rightarrow> u64 set" where
  [code_eval]: "open_orders_by_strategy m strategy_id = strat_orders m strategy_id"

definition oms_iterate :: "(u64 \<Rightarrow> oms_entry \<Rightarrow> 's \<Rightarrow> 's) \<Rightarrow> order_manager \<Rightarrow> 's \<Rightarrow> 's" where
  [code_eval]: "oms_iterate fn m s = fold (\<lambda>(i, e). fn i e) (oms_orders m) s"

definition order_count :: "order_manager \<Rightarrow> nat" where
  [code_eval]: "order_count m = length (oms_orders m)"

definition count_by_status :: "order_manager \<Rightarrow> oms_status \<Rightarrow> nat" where
  [code_eval]: "count_by_status m st = length (filter (\<lambda>p. e_status (snd p) = st) (oms_orders m))"

section \<open>Invariant\<close>

fun oms_live :: "oms_status \<Rightarrow> bool" where
  "oms_live PENDING = True"
| "oms_live SUBMITTED = True"
| "oms_live PARTIAL_FILL = True"
| "oms_live PENDING_CANCEL = True"
| "oms_live _ = False"

definition fill_state :: "oms_status \<Rightarrow> u64 \<Rightarrow> u64 \<Rightarrow> bool" where
  "fill_state st filled quantity \<longleftrightarrow>
     (case st of
        PARTIAL_FILL \<Rightarrow> filled < quantity
      | PENDING_CANCEL \<Rightarrow> filled = 0 \<or> filled < quantity
      | ST_CANCELLED \<Rightarrow> filled = 0 \<or> filled < quantity
      | ST_FILLED \<Rightarrow> filled = quantity
      | NOT_FOUND \<Rightarrow> False
      | _ \<Rightarrow> filled = 0)"

definition entry_ok :: "u64 \<Rightarrow> oms_entry \<Rightarrow> bool" where
  "entry_ok oid e \<longleftrightarrow> co_order_id (e_order e) = oid \<and> e_filled e \<le> co_quantity (e_order e) \<and>
     e_remaining e = co_quantity (e_order e) - e_filled e \<and>
     (e_filled e = 0 \<longrightarrow> e_avg_fill_price e = 0) \<and>
     fill_state (e_status e) (e_filled e) (co_quantity (e_order e))"

definition oms_ok :: "order_manager \<Rightarrow> bool" where
  "oms_ok m \<longleftrightarrow> distinct (map fst (oms_orders m)) \<and>
     (\<forall>oid e. oms_find m oid = Some e \<longrightarrow> entry_ok oid e \<and> oid < oms_next_id m) \<and>
     (\<forall>oid s. oid \<in> sym_orders m s \<longleftrightarrow> (\<exists>e. oms_find m oid = Some e \<and> co_symbol_id (e_order e) = s \<and> oms_live (e_status e))) \<and>
     (\<forall>oid s. oid \<in> strat_orders m s \<longleftrightarrow> (\<exists>e. oms_find m oid = Some e \<and> co_strategy_id (e_order e) = s \<and> oms_live (e_status e)))"

lemma oms_find_put [simp]: "oms_find (oms_put oid e m) q = (if q = oid then Some e else oms_find m q)"
  by (simp add: oms_find_def oms_put_def update_conv')

lemma oms_find_write [simp]:
  "oms_find (oms_write oid e m) q =
     (if q = oid then Some (e\<lparr>e_update_time := oms_clock m + 1\<rparr>) else oms_find m q)"
  by (simp add: oms_write_def) (simp add: oms_find_def)

lemma oms_find_retire [simp]: "oms_find (oms_retire oid ord m) q = oms_find m q"
  by (simp add: oms_find_def oms_retire_def)

lemma oms_write_simps [simp]:
  "sym_orders (oms_write oid e m) = sym_orders m"
  "strat_orders (oms_write oid e m) = strat_orders m"
  "oms_next_id (oms_write oid e m) = oms_next_id m"
  by (simp_all add: oms_write_def oms_put_def)

lemma oms_retire_simps [simp]:
  "sym_orders (oms_retire oid ord m) s = (if s = co_symbol_id ord then sym_orders m s - {oid} else sym_orders m s)"
  "strat_orders (oms_retire oid ord m) s = (if s = co_strategy_id ord then strat_orders m s - {oid} else strat_orders m s)"
  "oms_next_id (oms_retire oid ord m) = oms_next_id m"
  "oms_orders (oms_retire oid ord m) = oms_orders m"
  by (simp_all add: oms_retire_def)

lemma entry_ok_time [simp]: "entry_ok oid (e\<lparr>e_update_time := t\<rparr>) = entry_ok oid e"
  by (simp add: entry_ok_def)

lemma distinct_write: "distinct (map fst (oms_orders m)) \<Longrightarrow> distinct (map fst (oms_orders (oms_write oid e m)))"
  by (simp add: oms_write_def oms_put_def distinct_update)

text \<open>A status change of an existing entry: it stays in the indexes, or it is retired.\<close>

lemma oms_ok_write:
  assumes ok: "oms_ok m" and f: "oms_find m oid = Some e" and o: "e_order e' = e_order e"
    and e: "entry_ok oid e'" and l: "oms_live (e_status e)" "oms_live (e_status e')"
  shows "oms_ok (oms_write oid e' m)"
  using ok f o e l distinct_write [of m oid e'] by (auto simp: oms_ok_def)

lemma oms_ok_retire:
  assumes ok: "oms_ok m" and f: "oms_find m oid = Some e" and o: "e_order e' = e_order e"
    and e: "entry_ok oid e'" and l: "\<not> oms_live (e_status e')"
  shows "oms_ok (oms_retire oid (e_order e) (oms_write oid e' m))"
  using ok f o e l distinct_write [of m oid e'] by (auto simp: oms_ok_def)

lemma oms_okD: "oms_ok m \<Longrightarrow> oms_find m oid = Some e \<Longrightarrow> entry_ok oid e"
  by (simp add: oms_ok_def)

section \<open>Every operation keeps the invariant\<close>

lemma oms_ok_empty: "oms_ok oms_empty"
  by (simp add: oms_ok_def oms_empty_def oms_find_def)

lemma new_order_ok:
  assumes ok: "oms_ok m" and n: "oms_next_id m \<noteq> - 1"
  shows "oms_ok (snd (snd (new_order ord m)))"
proof -
  let ?i = "oms_next_id m"
  have lt: "?i < ?i + 1" by (rule word_less_Suc [OF n])
  have fresh: "oms_find m ?i = None"
    using ok by (cases "oms_find m ?i") (auto simp: oms_ok_def)
  have "\<And>oid. oid < ?i \<Longrightarrow> oid < ?i + 1" by (rule less_trans [OF _ lt])
  moreover have "\<And>oid e. oms_find m oid = Some e \<Longrightarrow> oid < ?i" using ok by (simp add: oms_ok_def)
  moreover have "distinct (map fst (AList.update ?i e (oms_orders m)))" for e
    using ok by (simp add: oms_ok_def distinct_update)
  ultimately show ?thesis
    using ok fresh lt by (auto simp: oms_ok_def new_order_def Let_def oms_put_def oms_find_def update_conv'
        entry_ok_def fill_state_def split: if_splits)
qed

lemma on_accept_ok: "oms_ok m \<Longrightarrow> oms_ok (on_accept oid ref m)"
  unfolding on_accept_def
  by (auto split: option.split intro!: oms_ok_write) (auto simp: entry_ok_def fill_state_def dest!: oms_okD)

lemma request_cancel_ok: "oms_ok m \<Longrightarrow> oms_ok (snd (request_cancel oid m))"
  unfolding request_cancel_def
  by (auto split: option.split intro!: oms_ok_write) (auto simp: entry_ok_def fill_state_def dest!: oms_okD)

lemma on_cancel_ok: "oms_ok m \<Longrightarrow> oms_ok (snd (on_cancel oid m))"
  unfolding on_cancel_def
  by (auto split: option.split intro!: oms_ok_retire) (auto simp: entry_ok_def fill_state_def dest!: oms_okD)

lemma on_reject_ok: "oms_ok m \<Longrightarrow> oms_ok (on_reject oid m)"
  unfolding on_reject_def
  by (auto split: option.split intro!: oms_ok_retire) (auto simp: entry_ok_def fill_state_def dest!: oms_okD)

text \<open>The entry a fill writes, and the quantity it books.\<close>

definition booked :: "oms_entry \<Rightarrow> u64 \<Rightarrow> u64" where
  "booked e q = (if e_filled e + q > co_quantity (e_order e) then co_quantity (e_order e) - e_filled e else q)"

definition fill_entry :: "oms_entry \<Rightarrow> u64 \<Rightarrow> int \<Rightarrow> oms_entry" where
  "fill_entry e q p =
     (let n = e_filled e + booked e q in
      e\<lparr>e_filled := n, e_remaining := co_quantity (e_order e) - n,
        e_avg_fill_price := (if n \<noteq> 0 then div64 (add64 (mul64 (e_avg_fill_price e) (sint (e_filled e)))
          (mul64 p (sint (booked e q)))) (sint n) else 0),
        e_status := (if co_quantity (e_order e) \<le> n then ST_FILLED else PARTIAL_FILL)\<rparr>)"

lemma fill_entry_order [simp]: "e_order (fill_entry e q p) = e_order e"
  by (simp add: fill_entry_def Let_def)

lemma oms_on_fill_eq:
  assumes "oms_find m oid = Some e" "e_status e = SUBMITTED \<or> e_status e = PARTIAL_FILL"
  shows "oms_on_fill oid q p m =
    (let e' = fill_entry e q p; m' = oms_write oid e' m in
     if e_status e' = ST_FILLED then oms_retire oid (e_order e) m' else m')"
  using assms by (auto simp: oms_on_fill_def fill_entry_def booked_def Let_def)

lemma oms_on_fill_skip:
  assumes "\<And>e. oms_find m oid = Some e \<Longrightarrow> e_status e \<noteq> SUBMITTED \<and> e_status e \<noteq> PARTIAL_FILL"
  shows "oms_on_fill oid q p m = m"
  using assms by (auto simp: oms_on_fill_def split: option.split)

lemma booked_le:
  assumes "e_filled e \<le> co_quantity (e_order e)"
  shows "e_filled e + booked e q \<le> co_quantity (e_order e)"
  by (auto simp: booked_def not_less)

lemma entry_ok_fill:
  assumes "entry_ok oid e"
  shows "entry_ok oid (fill_entry e q p)"
  using assms booked_le [of e q]
  by (auto simp: entry_ok_def fill_entry_def Let_def fill_state_def not_le)

lemma oms_on_fill_ok:
  assumes "oms_ok m"
  shows "oms_ok (oms_on_fill oid q p m)"
proof (cases "\<exists>e. oms_find m oid = Some e \<and> (e_status e = SUBMITTED \<or> e_status e = PARTIAL_FILL)")
  case True
  then obtain e where f: "oms_find m oid = Some e" and s: "e_status e = SUBMITTED \<or> e_status e = PARTIAL_FILL"
    by blast
  have e: "entry_ok oid (fill_entry e q p)" by (rule entry_ok_fill [OF oms_okD [OF assms f]])
  have l: "oms_live (e_status e)" using s by auto
  show ?thesis
  proof (cases "e_status (fill_entry e q p) = ST_FILLED")
    case True
    then show ?thesis
      using oms_ok_retire [OF assms f fill_entry_order e] by (simp add: oms_on_fill_eq [OF f s] Let_def)
  next
    case False
    then have "oms_live (e_status (fill_entry e q p))"
      by (auto simp: fill_entry_def Let_def split: if_splits)
    then show ?thesis
      using False oms_ok_write [OF assms f fill_entry_order e l] by (simp add: oms_on_fill_eq [OF f s] Let_def)
  qed
next
  case False
  then show ?thesis using assms oms_on_fill_skip [of m oid q p] by auto
qed

section \<open>Runs\<close>

text \<open>
  One call of the public interface. A new order needs a number that is left: at \<open>2 ^ 64 - 1\<close> the
  counter would wrap around.
\<close>

inductive oms_step :: "order_manager \<Rightarrow> order_manager \<Rightarrow> bool" where
  step_new: "oms_next_id m \<noteq> - 1 \<Longrightarrow> new_order ord m = (oid, ord', m') \<Longrightarrow> oms_step m m'"
| step_accept: "oms_step m (on_accept oid ref m)"
| step_fill: "oms_step m (oms_on_fill oid q p m)"
| step_request: "request_cancel oid m = (ok, m') \<Longrightarrow> oms_step m m'"
| step_cancel: "on_cancel oid m = (ok, m') \<Longrightarrow> oms_step m m'"
| step_reject: "oms_step m (on_reject oid m)"

text \<open>The state machine of the class comment.\<close>

inductive oms_edge :: "oms_status \<Rightarrow> oms_status \<Rightarrow> bool" where
  "oms_edge PENDING SUBMITTED"
| "oms_edge PENDING ST_REJECTED"
| "oms_edge SUBMITTED PARTIAL_FILL"
| "oms_edge SUBMITTED ST_FILLED"
| "oms_edge SUBMITTED PENDING_CANCEL"
| "oms_edge PARTIAL_FILL PARTIAL_FILL"
| "oms_edge PARTIAL_FILL ST_FILLED"
| "oms_edge PARTIAL_FILL PENDING_CANCEL"
| "oms_edge PENDING_CANCEL ST_CANCELLED"

inductive_cases oms_edgeE: "oms_edge s t"

lemma oms_edge_live: "oms_edge s t \<Longrightarrow> oms_live s"
  by (induction rule: oms_edge.induct) auto

lemma oms_step_ok: "oms_step m m' \<Longrightarrow> oms_ok m \<Longrightarrow> oms_ok m'"
proof (induction rule: oms_step.induct)
  case (step_new m ord oid ord' m')
  then show ?case using new_order_ok [of m ord] by simp
next
  case (step_request oid m ok m')
  then show ?case using request_cancel_ok [of m oid] by simp
next
  case (step_cancel oid m ok m')
  then show ?case using on_cancel_ok [of m oid] by simp
qed (auto intro: on_accept_ok oms_on_fill_ok on_reject_ok)

definition entry_next :: "oms_entry \<Rightarrow> oms_entry \<Rightarrow> bool" where
  "entry_next e e' \<longleftrightarrow> e_order e' = e_order e \<and> (e' = e \<or> oms_edge (e_status e) (e_status e'))"

lemma fill_edge:
  assumes "e_status e = SUBMITTED \<or> e_status e = PARTIAL_FILL"
  shows "oms_edge (e_status e) (e_status (fill_entry e q p))"
  using assms by (elim disjE) (simp_all add: fill_entry_def Let_def oms_edge.intros)

lemma oms_step_entry:
  assumes "oms_step m m'" "oms_ok m" "oms_find m oid = Some e"
  shows "\<exists>e'. oms_find m' oid = Some e' \<and> entry_next e e'"
  using assms
proof (induction rule: oms_step.induct)
  case (step_new m ord i ord' m')
  then have "oid \<noteq> oms_next_id m" by (auto simp: oms_ok_def)
  then show ?case
    using step_new by (auto simp: new_order_def Let_def oms_put_def oms_find_def update_conv' entry_next_def)
next
  case (step_accept m i ref)
  then show ?case by (auto simp: on_accept_def entry_next_def oms_edge.simps split: option.split)
next
  case (step_fill m i q p)
  show ?case
  proof (cases "i = oid \<and> (e_status e = SUBMITTED \<or> e_status e = PARTIAL_FILL)")
    case True
    then have "oms_edge (e_status e) (e_status (fill_entry e q p))" by (rule fill_edge [OF conjunct2])
    then show ?thesis
      using step_fill True by (auto simp: oms_on_fill_eq Let_def entry_next_def)
  next
    case False
    have "oms_find (oms_on_fill i q p m) oid = oms_find m oid"
    proof (cases "\<exists>d. oms_find m i = Some d \<and> (e_status d = SUBMITTED \<or> e_status d = PARTIAL_FILL)")
      case True
      then have "oid \<noteq> i" using False step_fill by auto
      then show ?thesis using True by (auto simp: oms_on_fill_eq Let_def)
    next
      case none: False
      have "oms_on_fill i q p m = m" by (rule oms_on_fill_skip) (use none in auto)
      then show ?thesis by simp
    qed
    then show ?thesis using step_fill by (simp add: entry_next_def)
  qed
next
  case (step_request i m ok m')
  then show ?case
    by (auto simp: request_cancel_def entry_next_def oms_edge.simps split: option.splits if_splits)
next
  case (step_cancel i m ok m')
  then show ?case
    by (auto simp: on_cancel_def entry_next_def oms_edge.simps split: option.splits if_splits)
next
  case (step_reject m i)
  then show ?case by (auto simp: on_reject_def entry_next_def oms_edge.simps split: option.split)
qed

lemma oms_steps_ok: "oms_step\<^sup>*\<^sup>* m m' \<Longrightarrow> oms_ok m \<Longrightarrow> oms_ok m'"
  by (induction rule: rtranclp_induct) (auto intro: oms_step_ok)

lemma oms_ok_start: "oms_ok (set_next_id base oms_empty)"
  by (simp add: oms_ok_def set_next_id_def oms_empty_def oms_find_def)

lemma oms_steps_entry:
  assumes "oms_step\<^sup>*\<^sup>* m m'" "oms_ok m" "oms_find m oid = Some e"
  shows "\<exists>e'. oms_find m' oid = Some e' \<and> e_order e' = e_order e \<and>
    oms_edge\<^sup>*\<^sup>* (e_status e) (e_status e') \<and> (\<not> oms_live (e_status e) \<longrightarrow> e' = e)"
  using assms(1)
proof (induction rule: rtranclp_induct)
  case (step y z)
  then obtain e1 where e1: "oms_find y oid = Some e1" "e_order e1 = e_order e"
      "oms_edge\<^sup>*\<^sup>* (e_status e) (e_status e1)" "\<not> oms_live (e_status e) \<longrightarrow> e1 = e" by blast
  have "oms_ok y" by (rule oms_steps_ok [OF step.hyps(1) assms(2)])
  then obtain e2 where e2: "oms_find z oid = Some e2" "entry_next e1 e2"
    using oms_step_entry [OF step.hyps(2)] e1(1) by blast
  then show ?case
    using e1 oms_edge_live by (auto simp: entry_next_def intro: rtranclp.rtrancl_into_rtrancl)
qed (use assms in auto)

section \<open>Properties\<close>

definition buy100 :: core_order where
  [code_eval]: "buy100 = zero_order\<lparr>co_strategy_id := 1, co_symbol_id := 7, co_price := 50, co_quantity := 100\<rparr>"

definition oms_run :: "order_manager" where
  [code_eval]: "oms_run = oms_on_fill 10 40 50 (on_accept 10 3 (snd (snd (new_order buy100 (set_next_id 10 oms_empty)))))"

lemma oms_run_steps: "oms_step\<^sup>*\<^sup>* (set_next_id 10 oms_empty) oms_run"
proof -
  let ?m1 = "snd (snd (new_order buy100 (set_next_id 10 oms_empty)))"
  have "oms_step (set_next_id 10 oms_empty) ?m1"
    by (rule step_new [of _ buy100 "fst (new_order buy100 (set_next_id 10 oms_empty))"
          "fst (snd (new_order buy100 (set_next_id 10 oms_empty)))"])
      (simp_all add: set_next_id_def oms_empty_def)
  moreover have "oms_step ?m1 (on_accept 10 3 ?m1)" by (rule step_accept)
  moreover have "oms_step (on_accept 10 3 ?m1) oms_run" unfolding oms_run_def by (rule step_fill)
  ultimately show ?thesis
    by (blast intro: rtranclp.rtrancl_into_rtrancl)
qed

definition oms_entry40 :: oms_entry where
  [code_eval]: "oms_entry40 = \<lparr>e_order = buy100\<lparr>co_order_id := 10\<rparr>, e_status = PARTIAL_FILL, e_exchange_ref = 3,
     e_filled = 40, e_remaining = 60, e_avg_fill_price = 50, e_submit_time = 0, e_update_time = 2\<rparr>"

lemma oms_run_entry: "oms_find oms_run 10 = Some oms_entry40"
  by (simp add: code_eval i64_def)

text \<open>
  C24: Whatever calls are made, the filled and the remaining quantity of an order add up to its
  quantity, and the indexes by symbol and by strategy hold exactly the orders that are still live.
\<close>

theorem oms_consistent:
  assumes "oms_step\<^sup>*\<^sup>* (set_next_id base oms_empty) m" "oms_find m oid = Some e"
  shows "co_order_id (e_order e) = oid \<and>
    unat (e_filled e) + unat (e_remaining e) = unat (co_quantity (e_order e)) \<and>
    (\<forall>s. oid \<in> open_orders m s \<longleftrightarrow> oms_live (e_status e) \<and> s = co_symbol_id (e_order e)) \<and>
    (\<forall>s. oid \<in> open_orders_by_strategy m s \<longleftrightarrow> oms_live (e_status e) \<and> s = co_strategy_id (e_order e))"
proof -
  have ok: "oms_ok m" by (rule oms_steps_ok [OF assms(1) oms_ok_start])
  then have "entry_ok oid e" using assms(2) by (rule oms_okD)
  then have "unat (e_filled e) + unat (e_remaining e) = unat (co_quantity (e_order e))"
    by (simp add: entry_ok_def unat_sub word_le_nat_alt)
  then show ?thesis
    using ok assms(2) \<open>entry_ok oid e\<close>
    by (auto simp: oms_ok_def open_orders_def open_orders_by_strategy_def entry_ok_def)
qed

lemma oms_consistent_witness:
  "unat (e_filled oms_entry40) + unat (e_remaining oms_entry40) = 100 \<and> 10 \<in> open_orders oms_run 7"
  using oms_consistent [OF oms_run_steps oms_run_entry] by (simp add: code_eval)

text \<open>
  C23: Every order follows the documented state machine, and a terminal order never changes again:
  between any two points of a run its status moves along the transitions of \<open>oms_edge\<close>, its
  identity stays, and once filled, cancelled or rejected its whole record is frozen.
\<close>

theorem oms_lifecycle:
  assumes "oms_step\<^sup>*\<^sup>* (set_next_id base oms_empty) m" "oms_step\<^sup>*\<^sup>* m m'" "oms_find m oid = Some e"
  shows "\<exists>e'. oms_find m' oid = Some e' \<and> e_order e' = e_order e \<and>
    oms_edge\<^sup>*\<^sup>* (e_status e) (e_status e') \<and>
    (e_status e \<in> {ST_FILLED, ST_CANCELLED, ST_REJECTED} \<longrightarrow> e' = e)"
proof -
  have "oms_ok m" by (rule oms_steps_ok [OF assms(1) oms_ok_start])
  then show ?thesis using oms_steps_entry [OF assms(2) _ assms(3)] by auto
qed

lemma oms_lifecycle_witness:
  "\<exists>e'. oms_find (snd (request_cancel 10 oms_run)) 10 = Some e' \<and> oms_edge\<^sup>*\<^sup>* PARTIAL_FILL (e_status e')"
proof -
  have "oms_step\<^sup>*\<^sup>* oms_run (snd (request_cancel 10 oms_run))"
    by (rule r_into_rtranclp) (rule step_request [of _ _ "fst (request_cancel 10 oms_run)"], simp)
  then show ?thesis
    using oms_lifecycle [OF oms_run_steps _ oms_run_entry] by (auto simp: oms_entry40_def)
qed

lemma unat_booked:
  assumes "e_filled e \<le> co_quantity (e_order e)" "unat (e_filled e) + unat q < 2 ^ 64"
  shows "unat (booked e q) = min (unat q) (unat (co_quantity (e_order e)) - unat (e_filled e))"
proof -
  have "unat (e_filled e + q) = unat (e_filled e) + unat q"
    using assms(2) by (simp add: unat_word_ariths)
  moreover have "unat (co_quantity (e_order e) - e_filled e) = unat (co_quantity (e_order e)) - unat (e_filled e)"
    by (rule unat_sub [OF assms(1)])
  ultimately show ?thesis
    using assms(1) by (auto simp: booked_def word_less_nat_alt word_le_nat_alt)
qed

text \<open>The new average over the integers.\<close>

lemma fill_average:
  fixes p lo hi :: int
  assumes e: "entry_ok oid e" and n: "unat (e_filled e) + unat q < 2 ^ 64" "0 < unat (e_filled e) + unat (booked e q)"
    and pr: "0 < lo" "lo \<le> p" "p \<le> hi" "e_filled e \<noteq> 0 \<Longrightarrow> lo \<le> e_avg_fill_price e \<and> e_avg_fill_price e \<le> hi"
    and big: "hi * int (unat (co_quantity (e_order e))) < 2 ^ 63"
  defines "a \<equiv> int (unat (e_filled e))" and "b \<equiv> int (unat (booked e q))"
  shows "e_avg_fill_price (fill_entry e q p) = (e_avg_fill_price e * a + p * b) div (a + b) \<and>
    lo \<le> (e_avg_fill_price e * a + p * b) div (a + b) \<and> (e_avg_fill_price e * a + p * b) div (a + b) \<le> hi \<and>
    unat (e_filled (fill_entry e q p)) = unat (e_filled e) + unat (booked e q)"
proof -
  let ?Q = "int (unat (co_quantity (e_order e)))" and ?x = "e_avg_fill_price e"
  have le: "e_filled e \<le> co_quantity (e_order e)" and z: "e_filled e = 0 \<Longrightarrow> ?x = 0"
    using e by (simp_all add: entry_ok_def)
  have "unat (e_filled e) + unat (booked e q) \<le> unat (co_quantity (e_order e))"
    using unat_booked [OF le n(1)] le by (simp add: word_le_nat_alt)
  then have "a + b \<le> ?Q" unfolding a_def b_def by linarith
  then have hQ: "hi * (a + b) < 2 ^ 63"
    using mult_left_mono [OF \<open>a + b \<le> ?Q\<close>, of hi] pr big by (intro le_less_trans [OF _ big]) simp
  have w: "wavg64 ?x (e_filled e) p (booked e q) = (?x * a + p * b) div (a + b) \<and>
      lo \<le> wavg64 ?x (e_filled e) p (booked e q) \<and> wavg64 ?x (e_filled e) p (booked e q) \<le> hi \<and>
      unat (e_filled e + booked e q) = unat (e_filled e) + unat (booked e q)"
    unfolding a_def b_def by (rule wavg64_mean [OF z pr(4) pr(1-3) n(2) hQ [unfolded a_def b_def]])
  then have "e_filled e + booked e q \<noteq> 0" using n(2) by (metis unat_0 less_irrefl)
  then show ?thesis using w by (simp add: fill_entry_def Let_def wavg64_def)
qed

text \<open>
  C25: A fill books at most what is left and keeps the average between the prices paid: while no
  product leaves the range of \<open>int64_t\<close>, the new average is the rounded weighted mean of the old
  average and the fill price, and the status says whether the order is complete.
\<close>

theorem oms_fill_books:
  assumes "oms_step\<^sup>*\<^sup>* (set_next_id base oms_empty) m" "oms_find m oid = Some e"
    and "e_status e = SUBMITTED \<or> e_status e = PARTIAL_FILL"
    and "0 < unat q" "0 < unat (co_quantity (e_order e))" "unat (e_filled e) + unat q < 2 ^ 64"
    and "0 < lo" "lo \<le> p" "p \<le> hi" "e_filled e \<noteq> 0 \<longrightarrow> lo \<le> e_avg_fill_price e \<and> e_avg_fill_price e \<le> hi"
    and "hi * int (unat (co_quantity (e_order e))) < 2 ^ 63"
  shows "\<exists>e'. oms_find (oms_on_fill oid q p m) oid = Some e' \<and>
    unat (e_filled e') = min (unat (e_filled e) + unat q) (unat (co_quantity (e_order e))) \<and>
    e_avg_fill_price e' = (e_avg_fill_price e * int (unat (e_filled e)) +
      p * (int (unat (e_filled e')) - int (unat (e_filled e)))) div int (unat (e_filled e')) \<and>
    lo \<le> e_avg_fill_price e' \<and> e_avg_fill_price e' \<le> hi \<and>
    e_status e' = (if e_filled e' = co_quantity (e_order e) then ST_FILLED else PARTIAL_FILL)"
proof -
  have e: "entry_ok oid e" by (rule oms_okD [OF oms_steps_ok [OF assms(1) oms_ok_start] assms(2)])
  then have le: "e_filled e \<le> co_quantity (e_order e)" by (simp add: entry_ok_def)
  have bk: "unat (booked e q) = min (unat q) (unat (co_quantity (e_order e)) - unat (e_filled e))"
    by (rule unat_booked [OF le assms(6)])
  have nz: "0 < unat (e_filled e) + unat (booked e q)"
    using bk assms(4,5) by (cases "unat (e_filled e) = 0") auto
  have uf: "unat (e_filled (fill_entry e q p)) = unat (e_filled e) + unat (booked e q)"
    and av: "e_avg_fill_price (fill_entry e q p) = (e_avg_fill_price e * int (unat (e_filled e)) +
      p * int (unat (booked e q))) div (int (unat (e_filled e)) + int (unat (booked e q)))"
    and bnd: "lo \<le> e_avg_fill_price (fill_entry e q p)" "e_avg_fill_price (fill_entry e q p) \<le> hi"
    using fill_average [OF e assms(6) nz assms(7,8,9) _ assms(11)] assms(10) by auto
  have st: "e_status (fill_entry e q p) = (if e_filled (fill_entry e q p) = co_quantity (e_order e) then ST_FILLED else PARTIAL_FILL)"
    using booked_le [OF le, of q] by (auto simp: fill_entry_def Let_def)
  have mn: "unat (e_filled e) + unat (booked e q) = min (unat (e_filled e) + unat q) (unat (co_quantity (e_order e)))"
    using bk le by (auto simp: word_le_nat_alt)
  have df: "int (min (unat (e_filled e) + unat q) (unat (co_quantity (e_order e)))) =
      int (unat (e_filled e)) + int (unat (booked e q))"
    using mn by linarith
  show ?thesis
    using uf av bnd st mn df
    by (intro exI [of _ "(fill_entry e q p)\<lparr>e_update_time := oms_clock m + 1\<rparr>"])
      (simp add: oms_on_fill_eq [OF assms(2,3)] Let_def)
qed

lemma oms_fill_books_witness:
  "\<exists>e'. oms_find (oms_on_fill 10 80 53 oms_run) 10 = Some e' \<and> unat (e_filled e') = 100 \<and>
     e_avg_fill_price e' = 51 \<and> e_status e' = ST_FILLED"
proof -
  have "\<exists>e'. oms_find (oms_on_fill 10 80 53 oms_run) 10 = Some e' \<and>
    unat (e_filled e') = min (unat (e_filled oms_entry40) + unat (80 :: u64)) (unat (co_quantity (e_order oms_entry40))) \<and>
    e_avg_fill_price e' = (e_avg_fill_price oms_entry40 * int (unat (e_filled oms_entry40)) +
      53 * (int (unat (e_filled e')) - int (unat (e_filled oms_entry40)))) div int (unat (e_filled e')) \<and>
    50 \<le> e_avg_fill_price e' \<and> e_avg_fill_price e' \<le> 53 \<and>
    e_status e' = (if e_filled e' = co_quantity (e_order oms_entry40) then ST_FILLED else PARTIAL_FILL)"
    by (rule oms_fill_books [OF oms_run_steps oms_run_entry]) (simp_all add: code_eval)
  then show ?thesis
    by (elim exE conjE) (rule exI, intro conjI, assumption, simp_all add: code_eval word_unat_eq_iff)
qed

end
