(* ===== verification/Risk.thy ===== *)
theory Risk
  imports Core_Types
begin

text \<open>
  The risk manager (\<open>src/risk/risk_manager.h\<close>): the gate before an order is sent, positions and
  average cost per instrument, and the marked-to-market equity with its drawdown. The arrays
  indexed by the 16-bit locate are functions; \<open>locate_idx\<close> keeps every index below their length.
\<close>

section \<open>State and operations\<close>

definition rk_max_locate :: nat where
  [code_eval]: "rk_max_locate = 65536"

record risk_manager =
  max_position :: u64
  max_daily_loss :: int
  initial_equity :: int
  max_drawdown_pause :: int
  max_drawdown_flatten :: int
  rk_qty :: "nat \<Rightarrow> u64"
  rk_avg_cost :: "nat \<Rightarrow> int"
  rk_mark_price :: "nat \<Rightarrow> int"
  realized_pnl :: int
  equity_peak :: int

definition risk_new :: risk_manager where
  [code_eval]: "risk_new = \<lparr>max_position = 100000, max_daily_loss = 1000000 * 100, initial_equity = 0,
     max_drawdown_pause = 0, max_drawdown_flatten = 0, rk_qty = (\<lambda>_. 0), rk_avg_cost = (\<lambda>_. 0),
     rk_mark_price = (\<lambda>_. 0), realized_pnl = 0, equity_peak = 0\<rparr>"

definition locate_idx :: "u64 \<Rightarrow> nat" where
  [code_eval]: "locate_idx symbol_id = (if unat symbol_id < rk_max_locate then unat symbol_id else 0)"

definition equity :: "risk_manager \<Rightarrow> int" where
  "equity r = fold (\<lambda>l eq.
     let q = sint (rk_qty r l); mk = rk_mark_price r l in
     if q > 0 \<and> mk > 0 then add64 eq (mul64 q (sub64 mk (rk_avg_cost r l))) else eq)
     [0..<rk_max_locate] (add64 (initial_equity r) (realized_pnl r))"

definition update_equity :: "risk_manager \<Rightarrow> risk_manager" where
  "update_equity r = (let eq = equity r in if eq > equity_peak r then r\<lparr>equity_peak := eq\<rparr> else r)"

definition drawdown :: "risk_manager \<Rightarrow> int" where
  "drawdown r = sub64 (equity_peak r) (equity r)"

definition drawdown_paused :: "risk_manager \<Rightarrow> bool" where
  "drawdown_paused r \<longleftrightarrow> drawdown r > max_drawdown_pause r"

definition drawdown_flatten :: "risk_manager \<Rightarrow> bool" where
  "drawdown_flatten r \<longleftrightarrow> drawdown r > max_drawdown_flatten r"

definition daily_loss_breached :: "risk_manager \<Rightarrow> bool" where
  "daily_loss_breached r \<longleftrightarrow> realized_pnl r \<le> sub64 0 (max_daily_loss r)"

definition position :: "risk_manager \<Rightarrow> u64 \<Rightarrow> u64" where
  [code_eval]: "position r symbol_id = rk_qty r (locate_idx symbol_id)"

definition avg_cost :: "risk_manager \<Rightarrow> u64 \<Rightarrow> int" where
  [code_eval]: "avg_cost r symbol_id = rk_avg_cost r (locate_idx symbol_id)"

definition check_order :: "core_order \<Rightarrow> risk_manager \<Rightarrow> bool" where
  "check_order ord r =
     (if co_quantity ord = 0 then False
      else if realized_pnl r \<le> sub64 0 (max_daily_loss r) then False
      else if drawdown_paused r then False
      else
        let cur = rk_qty r (locate_idx (co_symbol_id ord)) in
        case co_side ord of
          OS_BUY \<Rightarrow> cur + co_quantity ord \<le> max_position r
        | OS_SELL \<Rightarrow> co_quantity ord \<le> cur
        | OS_NONE \<Rightarrow> False)"

definition risk_on_fill :: "core_order \<Rightarrow> u64 \<Rightarrow> risk_manager \<Rightarrow> risk_manager" where
  "risk_on_fill ord filled_qty r =
     (let loc = locate_idx (co_symbol_id ord);
          old_qty = rk_qty r loc;
          old_avg = rk_avg_cost r loc in
      update_equity (case co_side ord of
        OS_BUY \<Rightarrow>
          let total = add64 (mul64 old_avg (sint old_qty)) (mul64 (co_price ord) (sint filled_qty));
              new_qty = old_qty + filled_qty in
          r\<lparr>rk_qty := (rk_qty r)(loc := new_qty),
            rk_avg_cost := (rk_avg_cost r)(loc := (if new_qty \<noteq> 0 then div64 total (sint new_qty) else 0))\<rparr>
      | OS_SELL \<Rightarrow>
          let qty = (if filled_qty < old_qty then filled_qty else old_qty);
              new_qty = old_qty - qty in
          r\<lparr>realized_pnl := add64 (realized_pnl r) (mul64 (sub64 (co_price ord) old_avg) (sint qty)),
            rk_qty := (rk_qty r)(loc := new_qty),
            rk_avg_cost := (if new_qty = 0 then (rk_avg_cost r)(loc := 0) else rk_avg_cost r)\<rparr>
      | OS_NONE \<Rightarrow> r))"

definition risk_on_fill_all :: "core_order \<Rightarrow> risk_manager \<Rightarrow> risk_manager" where
  "risk_on_fill_all ord r = risk_on_fill ord (co_quantity ord) r"

definition mark_price_at :: "u64 \<Rightarrow> int \<Rightarrow> risk_manager \<Rightarrow> risk_manager" where
  "mark_price_at symbol_id pr r =
     update_equity (r\<lparr>rk_mark_price := (rk_mark_price r)(locate_idx symbol_id := pr)\<rparr>)"

definition set_initial_equity :: "int \<Rightarrow> risk_manager \<Rightarrow> risk_manager" where
  [code_eval]: "set_initial_equity eq r = r\<lparr>initial_equity := eq, equity_peak := eq\<rparr>"

definition risk_configure :: "u64 \<Rightarrow> int \<Rightarrow> int \<Rightarrow> int \<Rightarrow> int \<Rightarrow> risk_manager \<Rightarrow> risk_manager" where
  [code_eval]: "risk_configure max_pos max_loss eq dd_pause dd_flatten r =
     (set_initial_equity eq (r\<lparr>max_position := max_pos, max_daily_loss := max_loss\<rparr>))
       \<lparr>max_drawdown_pause := dd_pause, max_drawdown_flatten := dd_flatten\<rparr>"

section \<open>Equity as a sum\<close>

text \<open>The open profit of one instrument, and the equity over the integers.\<close>

definition open_profit :: "risk_manager \<Rightarrow> nat \<Rightarrow> int" where
  "open_profit r l =
     (if sint (rk_qty r l) > 0 \<and> rk_mark_price r l > 0
      then sint (rk_qty r l) * (rk_mark_price r l - rk_avg_cost r l) else 0)"

lemma equity_fold:
  "fold (\<lambda>l eq. let q = sint (rk_qty r l); mk = rk_mark_price r l in
      if q > 0 \<and> mk > 0 then add64 eq (mul64 q (sub64 mk (rk_avg_cost r l))) else eq) ls (i64 x) =
    i64 (x + sum_list (map (open_profit r) ls))"
proof (induction ls arbitrary: x)
  case (Cons l ls)
  have "(let q = sint (rk_qty r l); mk = rk_mark_price r l in
      if q > 0 \<and> mk > 0 then add64 (i64 x) (mul64 q (sub64 mk (rk_avg_cost r l))) else i64 x) =
    i64 (x + open_profit r l)"
    by (simp add: Let_def open_profit_def)
  then show ?case using Cons.IH [of "x + open_profit r l"] by (simp add: add.assoc)
qed simp

lemma equity_sum:
  "equity r = i64 (initial_equity r + realized_pnl r + sum (open_profit r) {0..<rk_max_locate})"
proof -
  have a: "add64 (initial_equity r) (realized_pnl r) = i64 (initial_equity r + realized_pnl r)"
    by (simp add: add64_def)
  show ?thesis
    unfolding equity_def a equity_fold by (simp add: interv_sum_list_conv_sum_set_nat atLeast0LessThan)
qed

lemma equity_single:
  assumes "\<And>l. l \<noteq> k \<Longrightarrow> rk_qty r l = 0" "k < rk_max_locate"
  shows "equity r = i64 (initial_equity r + realized_pnl r + open_profit r k)"
proof -
  have "sum (open_profit r) {0..<rk_max_locate} = open_profit r k + sum (open_profit r) ({0..<rk_max_locate} - {k})"
    using assms(2) by (intro sum.remove) auto
  also have "sum (open_profit r) ({0..<rk_max_locate} - {k}) = 0"
    using assms(1) by (intro sum.neutral) (auto simp: open_profit_def)
  finally show ?thesis by (simp add: equity_sum)
qed

section \<open>The high-water mark\<close>

lemma equity_peak_irrelevant [simp]: "equity (r\<lparr>equity_peak := x\<rparr>) = equity r"
proof -
  have "open_profit (r\<lparr>equity_peak := x\<rparr>) = open_profit r" by (simp add: open_profit_def fun_eq_iff)
  then show ?thesis by (simp add: equity_sum)
qed

lemma equity_update [simp]: "equity (update_equity r) = equity r"
  by (simp add: update_equity_def Let_def)

lemma peak_update [simp]: "equity_peak (update_equity r) = max (equity_peak r) (equity r)"
  by (simp add: update_equity_def Let_def)

datatype risk_op = RFill core_order u64 | RMark u64 int

fun risk_apply :: "risk_op \<Rightarrow> risk_manager \<Rightarrow> risk_manager" where
  "risk_apply (RFill ord q) r = risk_on_fill ord q r"
| "risk_apply (RMark symbol pr) r = mark_price_at symbol pr r"

lemma risk_apply_peak: "equity_peak (risk_apply x r) = max (equity_peak r) (equity (risk_apply x r))"
  by (cases x) (simp_all add: risk_on_fill_def mark_price_at_def Let_def split: order_side.split)

text \<open>The states a run passes through, after each call.\<close>

fun risk_trail :: "risk_op list \<Rightarrow> risk_manager \<Rightarrow> risk_manager list" where
  "risk_trail [] r = []"
| "risk_trail (x # xs) r = risk_apply x r # risk_trail xs (risk_apply x r)"

text \<open>
  The equity peak is a high-water mark: after any sequence of fills and marks it is the maximum
  of the peak at the start and of every equity on the way, so the drawdown is never negative.
\<close>

lemma risk_peak:
  "equity_peak (fold risk_apply xs r) = Max (insert (equity_peak r) (equity ` set (risk_trail xs r)))"
proof (induction xs arbitrary: r)
  case (Cons x xs)
  have "Max (insert (max (equity_peak r) e) A) = Max (insert (equity_peak r) (insert e A))"
    if "finite A" for e :: int and A using that by (cases "A = {}") (simp_all add: max.assoc)
  then show ?case using Cons.IH [of "risk_apply x r"] by (simp add: risk_apply_peak [of x r])
qed simp

section \<open>Fills\<close>

lemma update_equity_fields [simp]:
  "rk_qty (update_equity r) = rk_qty r" "rk_avg_cost (update_equity r) = rk_avg_cost r"
  "rk_mark_price (update_equity r) = rk_mark_price r" "realized_pnl (update_equity r) = realized_pnl r"
  "max_position (update_equity r) = max_position r" "initial_equity (update_equity r) = initial_equity r"
  "max_drawdown_pause (update_equity r) = max_drawdown_pause r"
  by (simp_all add: update_equity_def Let_def)

text \<open>The fills of one order, each at its own price, as the execution engine reports them.\<close>

fun order_fills :: "core_order \<Rightarrow> (int \<times> u64) list \<Rightarrow> risk_manager \<Rightarrow> risk_manager" where
  "order_fills ord [] r = r"
| "order_fills ord ((p, q) # fs) r = order_fills ord fs (risk_on_fill (ord\<lparr>co_price := p\<rparr>) q r)"

definition filled_total :: "(int \<times> u64) list \<Rightarrow> nat" where
  "filled_total fs = sum_list (map (\<lambda>f. unat (snd f)) fs)"

lemma filled_total_simps [simp]:
  "filled_total [] = 0" "filled_total ((p, q) # fs) = unat q + filled_total fs"
  by (simp_all add: filled_total_def)

lemma order_fills_other:
  "l \<noteq> locate_idx (co_symbol_id ord) \<Longrightarrow> rk_qty (order_fills ord fs r) l = rk_qty r l"
  by (induction fs arbitrary: r) (auto simp: risk_on_fill_def Let_def split: order_side.split)

lemma order_fills_buy:
  assumes "co_side ord = OS_BUY" "unat (rk_qty r (locate_idx (co_symbol_id ord))) + filled_total fs < 2 ^ 64"
  shows "unat (rk_qty (order_fills ord fs r) (locate_idx (co_symbol_id ord))) =
    unat (rk_qty r (locate_idx (co_symbol_id ord))) + filled_total fs"
  using assms
proof (induction fs arbitrary: r)
  case (Cons f fs)
  obtain p q where f: "f = (p, q)" by (cases f)
  have "unat (rk_qty r (locate_idx (co_symbol_id ord)) + q) = unat (rk_qty r (locate_idx (co_symbol_id ord))) + unat q"
    by (rule unat_plus64) (use Cons.prems f in simp)
  then show ?case using Cons f by (simp add: risk_on_fill_def Let_def)
qed simp

lemma order_fills_sell:
  assumes "co_side ord = OS_SELL" "filled_total fs \<le> unat (rk_qty r (locate_idx (co_symbol_id ord)))"
  shows "unat (rk_qty (order_fills ord fs r) (locate_idx (co_symbol_id ord))) =
    unat (rk_qty r (locate_idx (co_symbol_id ord))) - filled_total fs"
  using assms
proof (induction fs arbitrary: r)
  case (Cons f fs)
  obtain p q where f: "f = (p, q)" by (cases f)
  let ?c = "rk_qty r (locate_idx (co_symbol_id ord))"
  have "q \<le> ?c" using Cons.prems f by (simp add: word_le_nat_alt)
  then have "?c - (if q < ?c then q else ?c) = ?c - q" "unat (?c - q) = unat ?c - unat q"
    by (auto simp: unat_sub)
  then show ?case using Cons f by (simp add: risk_on_fill_def Let_def)
qed simp

definition held :: "u64 \<Rightarrow> int \<Rightarrow> risk_manager" where
  "held q c = (risk_configure 1000 100000 50000 0 0 risk_new)\<lparr>rk_qty := (\<lambda>_. 0)(7 := q), rk_avg_cost := (\<lambda>_. 0)(7 := c)\<rparr>"

lemma held_equity:
  "equity (held q c) = 50000"
  "equity (held q c\<lparr>rk_mark_price := (\<lambda>_. 0)(7 := p)\<rparr>) = i64 (50000 + (if 0 < sint q \<and> 0 < p then sint q * (p - c) else 0))"
  by (subst equity_single [where k = 7]; simp add: held_def risk_configure_def set_initial_equity_def risk_new_def
      rk_max_locate_def open_profit_def)+

definition sell40 :: core_order where
  [code_eval]: "sell40 = zero_order\<lparr>co_symbol_id := 7, co_side := OS_SELL, co_quantity := 40\<rparr>"

text \<open>
  C26: The gate keeps positions within the limit and never short: if an order passes and its fills
  add up to at most its quantity, then the position afterwards is within \<open>max_position\<close> for a buy,
  and what is left of the holding for a sell; no other instrument's position changes.
\<close>

theorem risk_gate:
  assumes "check_order ord r" "filled_total fs \<le> unat (co_quantity ord)"
    and "unat (position r (co_symbol_id ord)) + unat (co_quantity ord) < 2 ^ 64"
  shows "(co_side ord = OS_BUY \<and>
      unat (position (order_fills ord fs r) (co_symbol_id ord)) = unat (position r (co_symbol_id ord)) + filled_total fs \<and>
      position (order_fills ord fs r) (co_symbol_id ord) \<le> max_position r
    \<or> co_side ord = OS_SELL \<and> filled_total fs \<le> unat (position r (co_symbol_id ord)) \<and>
      unat (position (order_fills ord fs r) (co_symbol_id ord)) = unat (position r (co_symbol_id ord)) - filled_total fs)
    \<and> (\<forall>l. l \<noteq> locate_idx (co_symbol_id ord) \<longrightarrow> rk_qty (order_fills ord fs r) l = rk_qty r l)"
proof (cases "co_side ord")
  case OS_BUY
  have "unat (position r (co_symbol_id ord) + co_quantity ord) = unat (position r (co_symbol_id ord)) + unat (co_quantity ord)"
    by (rule unat_plus64 [OF assms(3)])
  then have "unat (position r (co_symbol_id ord)) + unat (co_quantity ord) \<le> unat (max_position r)"
    using assms(1) OS_BUY by (simp add: check_order_def position_def word_le_nat_alt split: if_splits)
  then show ?thesis
    using OS_BUY assms(2,3) order_fills_buy [of ord r fs] order_fills_other [of _ ord fs r]
    by (simp add: position_def word_le_nat_alt)
next
  case OS_SELL
  have "unat (co_quantity ord) \<le> unat (position r (co_symbol_id ord))"
    using assms(1) OS_SELL by (simp add: check_order_def position_def word_le_nat_alt split: if_splits)
  then show ?thesis
    using OS_SELL assms(2) order_fills_sell [of ord fs r] order_fills_other [of _ ord fs r]
    by (simp add: position_def)
qed (use assms(1) in \<open>simp add: check_order_def split: if_splits\<close>)

lemma risk_gate_witness:
  "unat (position (order_fills sell40 [(55, 10), (54, 20)] (held 100 50)) 7) = 70"
proof -
  have "check_order sell40 (held 100 50)"
    by (simp add: check_order_def drawdown_paused_def drawdown_def held_equity sub64_def)
      (simp add: code_eval held_def i64_def)
  then show ?thesis
    using risk_gate [of sell40 "held 100 50" "[(55, 10), (54, 20)]"]
    by (simp add: code_eval held_def)
qed

text \<open>
  Profit of a round trip: from a flat position, buying a quantity and selling it again realizes
  exactly the price difference times the quantity and leaves the position flat with no cost basis.
\<close>

theorem risk_round_trip:
  assumes "position r (co_symbol_id ord) = 0" "co_side ord = OS_BUY" "co_side ord' = OS_SELL"
    and "co_symbol_id ord' = co_symbol_id ord" "0 < co_price ord" "0 < unat q"
    and "co_price ord * int (unat q) < 2 ^ 63"
    and "in_i64 (co_price ord' - co_price ord)" "in_i64 ((co_price ord' - co_price ord) * int (unat q))"
    and "in_i64 (realized_pnl r + (co_price ord' - co_price ord) * int (unat q))"
  shows "realized_pnl (risk_on_fill ord' q (risk_on_fill ord q r)) =
      realized_pnl r + (co_price ord' - co_price ord) * int (unat q) \<and>
    position (risk_on_fill ord' q (risk_on_fill ord q r)) (co_symbol_id ord) = 0 \<and>
    avg_cost (risk_on_fill ord' q (risk_on_fill ord q r)) (co_symbol_id ord) = 0"
proof -
  let ?l = "locate_idx (co_symbol_id ord)" and ?p = "co_price ord" and ?r1 = "risk_on_fill ord q r"
  have z: "rk_qty r ?l = 0" using assms(1) by (simp add: position_def)
  have "1 * int (unat q) \<le> ?p * int (unat q)" using assms(5) by (intro mult_right_mono) auto
  then have "int (unat q) < 2 ^ 63" using assms(7) by (simp only: mult_1 le_less_trans)
  then have sq: "sint q = int (unat q)" by (intro sint_small) (simp del: of_nat_unat)
  have nz: "q \<noteq> 0" using assms(6) by auto
  have "mul64 (rk_avg_cost r ?l) 0 = 0" by (simp add: mul64_def i64_def)
  moreover have "mul64 ?p (int (unat q)) = ?p * int (unat q)"
    unfolding mul64_def using assms(5,7) by (intro i64_nonneg) auto
  moreover have "add64 0 (?p * int (unat q)) = ?p * int (unat q)"
    unfolding add64_def using assms(5,7) by (simp only: add_0) (intro i64_nonneg, auto)
  moreover have "div64 (?p * int (unat q)) (int (unat q)) = ?p"
  proof -
    have "?p * 1 \<le> ?p * int (unat q)" using assms(5,6) by (intro mult_left_mono) linarith+
    then have "?p < 2 ^ 63" using assms(7) by (simp only: mult_1_right le_less_trans)
    moreover have "(?p * int (unat q)) sdiv int (unat q) = ?p"
      using assms(5,6) by (subst sdiv_nonneg) (simp_all del: of_nat_unat)
    ultimately show ?thesis unfolding div64_def using assms(5) by simp
  qed
  ultimately have b: "rk_qty ?r1 ?l = q" "rk_avg_cost ?r1 ?l = ?p" "realized_pnl ?r1 = realized_pnl r"
    using z nz sq assms(2) by (simp_all add: risk_on_fill_def Let_def)
  have "sub64 (co_price ord') ?p = co_price ord' - ?p"
    "mul64 (co_price ord' - ?p) (int (unat q)) = (co_price ord' - ?p) * int (unat q)"
    using assms(8,9) unfolding sub64_def mul64_def by (simp_all only: i64_id)
  then show ?thesis
    using b sq assms(3,4,10) unfolding risk_on_fill_def [of ord']
    by (simp add: Let_def position_def avg_cost_def add64_def)
qed

lemma risk_round_trip_witness:
  "realized_pnl (risk_on_fill (sell40\<lparr>co_price := 53\<rparr>) 40 (risk_on_fill (sell40\<lparr>co_side := OS_BUY, co_price := 50\<rparr>) 40 (held 0 0))) = 120"
  using risk_round_trip [of "held 0 0" "sell40\<lparr>co_side := OS_BUY, co_price := 50\<rparr>" "sell40\<lparr>co_price := 53\<rparr>" 40]
  by (simp add: code_eval held_def in_i64_def)

lemma equity_cong:
  assumes "initial_equity r = initial_equity s" "realized_pnl r = realized_pnl s" "rk_qty r = rk_qty s"
    and "rk_avg_cost r = rk_avg_cost s" "rk_mark_price r = rk_mark_price s"
  shows "equity r = equity s"
proof -
  have "open_profit r = open_profit s" using assms by (simp add: open_profit_def fun_eq_iff)
  then show ?thesis using assms by (simp add: equity_sum)
qed

lemma equity_mark_twice: "equity (mark_price_at s p (mark_price_at s p' r)) = equity (mark_price_at s p r)"
  unfolding mark_price_at_def equity_update by (rule equity_cong) simp_all

text \<open>
  C27: The trading pause is not latched: whatever the drawdown was, as soon as a mark lifts the equity
  to its peak the pause is over and orders pass again. (The comments at \<open>drawdown_paused\<close> and
  \<open>drawdown_flatten\<close> say that a breach is locked in and not released by a recovery.)
\<close>

theorem drawdown_pause_lifts:
  assumes "equity_peak r \<le> equity (mark_price_at symbol pr r)" "0 \<le> max_drawdown_pause r"
  shows "\<not> drawdown_paused (mark_price_at symbol pr r)"
proof -
  have "equity_peak (mark_price_at symbol pr r) = equity (mark_price_at symbol pr r)"
    using assms(1) by (simp add: mark_price_at_def)
  then show ?thesis
    using assms(2) by (simp add: drawdown_paused_def drawdown_def sub64_def mark_price_at_def i64_def)
qed

lemma drawdown_pause_lifts_witness:
  "drawdown_paused (mark_price_at 7 49 (held 100 50)) \<and>
   \<not> drawdown_paused (mark_price_at 7 51 (mark_price_at 7 49 (held 100 50)))"
proof -
  have m: "mark_price_at 7 p (held 100 50) = update_equity (held 100 50\<lparr>rk_mark_price := (\<lambda>_. 0)(7 := p)\<rparr>)" for p
    by (simp add: mark_price_at_def locate_idx_def rk_max_locate_def held_def risk_configure_def
        set_initial_equity_def risk_new_def)
  have e: "equity (mark_price_at 7 49 (held 100 50)) = 49900"
    unfolding m equity_update held_equity by (simp add: i64_def)
  have pk: "equity_peak (mark_price_at 7 49 (held 100 50)) = 50000"
  proof -
    have "equity_peak (held 100 50\<lparr>rk_mark_price := (\<lambda>_. 0)(7 := 49)\<rparr>) = 50000"
      by (simp add: held_def risk_configure_def set_initial_equity_def)
    then show ?thesis unfolding m peak_update held_equity by (simp add: i64_def)
  qed
  have "equity (mark_price_at 7 51 (mark_price_at 7 49 (held 100 50))) = 50100"
    by (subst equity_mark_twice) (simp add: m held_equity i64_def)
  moreover have mp: "max_drawdown_pause (mark_price_at 7 49 (held 100 50)) = 0"
    by (simp add: m) (simp add: held_def risk_configure_def)
  moreover have "drawdown_paused (mark_price_at 7 49 (held 100 50))"
    by (simp add: drawdown_paused_def drawdown_def e pk mp sub64_def i64_def)
  ultimately show ?thesis
    using drawdown_pause_lifts [of "mark_price_at 7 49 (held 100 50)" 7 51] pk by simp
qed

end
