(* ===== verification/Execution.thy ===== *)
theory Execution
  imports Oms Risk Matching
begin

text \<open>
  The execution engine (\<open>src/execution/execution_engine.h\<close>) and the interface of the exchange it talks
  to (\<open>src/exchange/i_exchange_simulator.h\<close>): signals become orders, which pass the risk gate, enter the
  order manager and go to the exchange; fills come back to the order manager, the risk manager and the
  trade recorder.

  The exchange calls back into the execution engine, so an operation of the interface works on a state
  that extends the execution engine's record. The mutex is not recursive: a call that takes it while it
  is held never returns, which is the result \<open>None\<close>. \<open>iterate\<close> visits the orders in the order of the
  association list that stands for the hash table.
\<close>

section \<open>The interface of the exchange\<close>

definition kStrategyUserId :: u64 where
  [code_eval]: "kStrategyUserId = 0x4E585F55"

record fill =
  fl_type :: u8
  fl_order_id :: u64
  fl_exchange_ref :: u64
  fl_filled_qty :: u64
  fl_fill_price :: int

record book_quote =
  bq_symbol_id :: u64
  bq_bid :: int
  bq_bid_vol :: u64
  bq_ask :: int
  bq_ask_vol :: u64

record submit_result =
  sr_accepted :: bool
  sr_fully_filled :: bool
  sr_fills :: "fill list"

text \<open>The virtual functions; a quote is \<open>None\<close> where the code returns \<open>false\<close>.\<close>

record 's exchange_if =
  if_submit :: "core_order \<Rightarrow> u64 \<Rightarrow> order_tif \<Rightarrow> 's \<Rightarrow> (submit_result \<times> 's) option"
  if_cancel :: "u64 \<Rightarrow> u64 \<Rightarrow> u64 \<Rightarrow> 's \<Rightarrow> 's option"
  if_quote :: "u64 \<Rightarrow> 's \<Rightarrow> book_quote option \<times> 's"

section \<open>State\<close>

record trade_record =
  td_order_id :: u64
  td_symbol_id :: u64
  td_side :: order_side
  td_qty :: u64
  td_price :: int
  td_mid :: int
  td_passive :: bool
  td_segment :: u64
  td_seq :: u64

text \<open>
  The managers the engine holds references to are fields. \<open>xe_trades\<close> is what the trade callback has
  been given so far, \<open>None\<close> while no callback is set.
\<close>

record exec_engine =
  xe_om :: order_manager
  xe_rm :: risk_manager
  xe_base_qty :: u64
  xe_flatten_issued :: bool
  xe_trades :: "trade_record list option"
  xe_mid :: "u64 \<rightharpoonup> int"
  xe_segment :: u64
  xe_seq :: u64
  xe_locked :: bool

definition exec_new :: "order_manager \<Rightarrow> risk_manager \<Rightarrow> exec_engine" where
  [code_eval]: "exec_new om rm = \<lparr>xe_om = om, xe_rm = rm, xe_base_qty = 100, xe_flatten_issued = False,
     xe_trades = None, xe_mid = Map.empty, xe_segment = 0, xe_seq = 0, xe_locked = False\<rparr>"

definition set_base_qty :: "u64 \<Rightarrow> 'x exec_engine_scheme \<Rightarrow> 'x exec_engine_scheme" where
  [code_eval]: "set_base_qty qty s = s\<lparr>xe_base_qty := qty\<rparr>"

definition set_trade_recorder :: "'x exec_engine_scheme \<Rightarrow> 'x exec_engine_scheme" where
  [code_eval]: "set_trade_recorder s = s\<lparr>xe_trades := Some []\<rparr>"

definition set_mid :: "u64 \<Rightarrow> int \<Rightarrow> 'x exec_engine_scheme \<Rightarrow> 'x exec_engine_scheme" where
  [code_eval]: "set_mid symbol_id mid s = (if mid \<ge> 0 then s\<lparr>xe_mid := (xe_mid s)(symbol_id \<mapsto> mid)\<rparr> else s)"

definition set_segment_ctx :: "u64 \<Rightarrow> u64 \<Rightarrow> 'x exec_engine_scheme \<Rightarrow> 'x exec_engine_scheme" where
  [code_eval]: "set_segment_ctx seg seqno s = s\<lparr>xe_segment := seg, xe_seq := seqno\<rparr>"

definition mid_of :: "u64 \<Rightarrow> 'x exec_engine_scheme \<Rightarrow> int" where
  [code_eval]: "mid_of symbol_id s = (case xe_mid s symbol_id of Some m \<Rightarrow> m | None \<Rightarrow> -1)"

section \<open>Operations\<close>

text \<open>\<open>std::lock_guard<std::mutex> lk(mtx_)\<close> around a body.\<close>

definition with_lock ::
  "('x exec_engine_scheme \<Rightarrow> ('a \<times> 'x exec_engine_scheme) option) \<Rightarrow> 'x exec_engine_scheme \<Rightarrow> ('a \<times> 'x exec_engine_scheme) option" where
  [code_eval]: "with_lock act s =
     (if xe_locked s then None
      else do { (r, s1) \<leftarrow> act (s\<lparr>xe_locked := True\<rparr>); Some (r, s1\<lparr>xe_locked := False\<rparr>) })"

definition record_trade ::
  "u64 \<Rightarrow> u64 \<Rightarrow> order_side \<Rightarrow> u64 \<Rightarrow> int \<Rightarrow> int \<Rightarrow> bool \<Rightarrow> 'x exec_engine_scheme \<Rightarrow> 'x exec_engine_scheme" where
  [code_eval]: "record_trade oid symbol_id sd qty pr mid passive s =
     (case xe_trades s of
        None \<Rightarrow> s
      | Some ts \<Rightarrow> s\<lparr>xe_trades := Some (ts @ [\<lparr>td_order_id = oid, td_symbol_id = symbol_id, td_side = sd,
          td_qty = qty, td_price = pr, td_mid = (if mid < 0 then pr else mid), td_passive = passive,
          td_segment = xe_segment s, td_seq = xe_seq s\<rparr>])\<rparr>)"

text \<open>A fill enters the order manager, then the risk manager at its own price, then the record.\<close>

definition book_fill :: "u64 \<Rightarrow> core_order \<Rightarrow> u64 \<Rightarrow> int \<Rightarrow> bool \<Rightarrow> 'x exec_engine_scheme \<Rightarrow> 'x exec_engine_scheme" where
  [code_eval]: "book_fill oid ord qty pr passive s =
     (let s1 = s\<lparr>xe_om := oms_on_fill oid qty pr (xe_om s)\<rparr>;
          s2 = s1\<lparr>xe_rm := risk_on_fill (ord\<lparr>co_price := pr\<rparr>) qty (xe_rm s1)\<rparr> in
      record_trade oid (co_symbol_id ord) (co_side ord) qty pr (mid_of (co_symbol_id ord) s2) passive s2)"

definition flatten_one ::
  "'x exec_engine_scheme exchange_if ptr \<Rightarrow> u64 \<Rightarrow> 'x exec_engine_scheme \<Rightarrow> 'x exec_engine_scheme option" where
  [code_eval]: "flatten_one ex oid s =
     (case oms_find (xe_om s) oid of
        None \<Rightarrow> Some s
      | Some e \<Rightarrow>
          if e_status e = SUBMITTED \<or> e_status e = PARTIAL_FILL then
            (let s1 = s\<lparr>xe_om := snd (request_cancel oid (xe_om s))\<rparr> in
             case ex of
               None \<Rightarrow> Some s1
             | Some x \<Rightarrow> if_cancel x oid (co_symbol_id (e_order e)) kStrategyUserId s1)
          else Some s)"

definition flatten_on_drawdown ::
  "'x exec_engine_scheme exchange_if ptr \<Rightarrow> 'x exec_engine_scheme \<Rightarrow> 'x exec_engine_scheme option" where
  [code_eval]: "flatten_on_drawdown ex s =
     (if xe_flatten_issued s then Some s
      else if \<not> drawdown_flatten (xe_rm s) then Some s
      else foldo (flatten_one ex) (map fst (oms_orders (xe_om s))) (s\<lparr>xe_flatten_issued := True\<rparr>))"

definition reject_order :: "u64 \<Rightarrow> 'x exec_engine_scheme \<Rightarrow> 'x exec_engine_scheme" where
  [code_eval]: "reject_order oid s = s\<lparr>xe_om := on_reject oid (xe_om s)\<rparr>"

definition accept_order :: "u64 \<Rightarrow> u64 \<Rightarrow> 'x exec_engine_scheme \<Rightarrow> 'x exec_engine_scheme" where
  [code_eval]: "accept_order oid ref s = s\<lparr>xe_om := on_accept oid ref (xe_om s)\<rparr>"

text \<open>The order a signal asks for; \<open>None\<close> when nothing is to be sent.\<close>

definition signal_qty :: "signal \<Rightarrow> u64 \<Rightarrow> u64" where
  [code_eval]: "signal_qty sig base = base * word_of_int (sg_strength sig) div word_of_int kStrengthScale"

definition signal_order :: "signal \<Rightarrow> u64 \<Rightarrow> order_type \<Rightarrow> u64 \<Rightarrow> core_order option" where
  [code_eval]: "signal_order sig strategy_id ty base =
     (if sg_side sig = OS_NONE \<or> sg_price sig < 0 then None
      else if ty = LIMIT \<and> sg_price sig \<le> 0 then None
      else
        let qty = signal_qty sig base in
        if qty = 0 then None
        else Some (zero_order\<lparr>co_strategy_id := strategy_id, co_symbol_id := sg_locate sig, co_side := sg_side sig,
          co_type := ty, co_price := sg_price sig, co_quantity := qty, co_timestamp := sg_timestamp sig\<rparr>))"

text \<open>What happens under the lock, once the order has its number.\<close>

definition send_order ::
  "'x exec_engine_scheme exchange_if ptr \<Rightarrow> u64 \<Rightarrow> core_order \<Rightarrow> 'x exec_engine_scheme \<Rightarrow> (u64 \<times> 'x exec_engine_scheme) option" where
  [code_eval]: "send_order ex oid ord s =
     (if \<not> check_order ord (xe_rm s) then Some (oid, reject_order oid s)
      else case ex of
        None \<Rightarrow> Some (oid, reject_order oid s)
      | Some x \<Rightarrow> do {
          (r, s1) \<leftarrow> if_submit x ord oid (if co_type ord = LIMIT then DAY else IOC) s;
          let s2 = (if \<not> sr_accepted r then reject_order oid s1
                    else fold (\<lambda>f. book_fill oid ord (fl_filled_qty f) (fl_fill_price f) False)
                           (sr_fills r) (accept_order oid 0 s1));
          s3 \<leftarrow> flatten_on_drawdown ex s2;
          Some (oid, s3)
        })"

definition submit_signal ::
  "'x exec_engine_scheme exchange_if ptr \<Rightarrow> signal \<Rightarrow> u64 \<Rightarrow> order_type \<Rightarrow> 'x exec_engine_scheme \<Rightarrow>
   (u64 \<times> 'x exec_engine_scheme) option" where
  [code_eval]: "submit_signal ex sig strategy_id ty s =
     (case signal_order sig strategy_id ty (xe_base_qty s) of
        None \<Rightarrow> Some (0, s)
      | Some ord0 \<Rightarrow>
          with_lock (\<lambda>s1. case new_order ord0 (xe_om s1) of
            (oid, ord, m) \<Rightarrow> send_order ex oid ord (s1\<lparr>xe_om := m\<rparr>)) s)"

definition on_order_fill ::
  "'x exec_engine_scheme exchange_if ptr \<Rightarrow> u64 \<Rightarrow> u64 \<Rightarrow> int \<Rightarrow> 'x exec_engine_scheme \<Rightarrow> 'x exec_engine_scheme option" where
  [code_eval]: "on_order_fill ex oid qty pr s =
     map_option snd (with_lock (\<lambda>s1.
       case oms_order (xe_om s1) oid of
         None \<Rightarrow> Some ((), s1)
       | Some ord \<Rightarrow> do {
           s2 \<leftarrow> flatten_on_drawdown ex (book_fill oid ord qty pr True s1);
           Some ((), s2)
         }) s)"

definition on_order_report ::
  "'x exec_engine_scheme exchange_if ptr \<Rightarrow> fill \<Rightarrow> 'x exec_engine_scheme \<Rightarrow> 'x exec_engine_scheme option" where
  [code_eval]: "on_order_report ex f s =
     map_option snd (with_lock (\<lambda>s1.
       case oms_order (xe_om s1) (fl_order_id f) of
         None \<Rightarrow> Some ((), s1)
       | Some ord \<Rightarrow>
           if fl_type f = 0x41 then Some ((), accept_order (fl_order_id f) (fl_exchange_ref f) s1)
           else if fl_type f = 0x45 then do {
             s2 \<leftarrow> flatten_on_drawdown ex (book_fill (fl_order_id f) ord (fl_filled_qty f) (fl_fill_price f) True s1);
             Some ((), s2)
           }
           else if fl_type f = 0x43 then Some ((), s1\<lparr>xe_om := snd (on_cancel (fl_order_id f) (xe_om s1))\<rparr>)
           else if fl_type f = 0x4A then Some ((), reject_order (fl_order_id f) s1)
           else Some ((), s1)) s)"

definition cancel_order ::
  "'x exec_engine_scheme exchange_if ptr \<Rightarrow> u64 \<Rightarrow> 'x exec_engine_scheme \<Rightarrow> (bool \<times> 'x exec_engine_scheme) option" where
  [code_eval]: "cancel_order ex oid =
     with_lock (\<lambda>s.
       case ex of
         None \<Rightarrow> Some (False, s)
       | Some x \<Rightarrow>
           (case oms_order (xe_om s) oid of
              None \<Rightarrow> Some (False, s)
            | Some ord \<Rightarrow>
                (case request_cancel oid (xe_om s) of (ok, m) \<Rightarrow>
                   if \<not> ok then Some (False, s)
                   else do {
                     s1 \<leftarrow> if_cancel x oid (co_symbol_id ord) kStrategyUserId (s\<lparr>xe_om := m\<rparr>);
                     Some (True, s1)
                   })))"

section \<open>Quotes\<close>

definition query_book ::
  "'x exec_engine_scheme exchange_if ptr \<Rightarrow> u64 \<Rightarrow> 'x exec_engine_scheme \<Rightarrow> book_quote option \<times> 'x exec_engine_scheme" where
  [code_eval]: "query_book ex symbol_id s = (case ex of None \<Rightarrow> (None, s) | Some x \<Rightarrow> if_quote x symbol_id s)"

definition live_mid ::
  "'x exec_engine_scheme exchange_if ptr \<Rightarrow> u64 \<Rightarrow> 'x exec_engine_scheme \<Rightarrow> int \<times> 'x exec_engine_scheme" where
  [code_eval]: "live_mid ex symbol_id s =
     (case query_book ex symbol_id s of
        (Some q, s1) \<Rightarrow> (if bq_bid q > 0 \<and> bq_ask q > 0 then div64 (add64 (bq_bid q) (bq_ask q)) 2 else -1, s1)
      | (None, s1) \<Rightarrow> (-1, s1))"

definition submit_market_as_limit ::
  "'x exec_engine_scheme exchange_if ptr \<Rightarrow> signal \<Rightarrow> u64 \<Rightarrow> 'x exec_engine_scheme \<Rightarrow> (u64 \<times> 'x exec_engine_scheme) option" where
  [code_eval]: "submit_market_as_limit ex sig strategy_id s =
     (if sg_side sig = OS_NONE then Some (0, s)
      else case query_book ex (sg_locate sig) s of
        (None, s1) \<Rightarrow> Some (0, s1)
      | (Some q, s1) \<Rightarrow>
          (let limit_price = (if sg_side sig = OS_BUY then bq_ask q else bq_bid q) in
           if limit_price \<le> 0 then Some (0, s1)
           else submit_signal ex (sig\<lparr>sg_price := limit_price\<rparr>) strategy_id LIMIT s1))"

end
