(* ===== verification/Exec_Ledger.thy ===== *)
theory Exec_Ledger
  imports Execution
begin

text \<open>
  The books of the execution engine: what the order manager says was filled, what the risk manager
  holds and what was recorded as trades agree. The exchange enters through a locale that states what
  the execution engine relies on when it sends immediate-or-cancel orders.
\<close>

section \<open>Agreement of the books\<close>

definition entry_flow :: "oms_entry \<Rightarrow> int" where
  [code_eval]: "entry_flow e = (case co_side (e_order e) of OS_BUY \<Rightarrow> 1 | OS_SELL \<Rightarrow> -1 | OS_NONE \<Rightarrow> 0) * int (unat (e_filled e))"

definition flow_at :: "nat \<Rightarrow> oms_entry option \<Rightarrow> int" where
  "flow_at l x = (case x of None \<Rightarrow> 0 | Some e \<Rightarrow> if locate_idx (co_symbol_id (e_order e)) = l then entry_flow e else 0)"

text \<open>Bought less sold at one instrument, over all orders.\<close>

definition net_flow :: "nat \<Rightarrow> order_manager \<Rightarrow> int" where
  "net_flow l m = (\<Sum>oid\<in>UNIV. flow_at l (oms_find m oid))"

definition traded :: "u64 \<Rightarrow> trade_record list \<Rightarrow> nat" where
  "traded oid ts = sum_list (map (\<lambda>t. unat (td_qty t)) (filter (\<lambda>t. td_order_id t = oid) ts))"

definition ledger :: "'x exec_engine_scheme \<Rightarrow> bool" where
  "ledger s \<longleftrightarrow> oms_ok (xe_om s) \<and>
     (\<forall>l. int (unat (rk_qty (xe_rm s) l)) = net_flow l (xe_om s)) \<and>
     (\<forall>l. rk_qty (xe_rm s) l \<le> max_position (xe_rm s)) \<and>
     (\<forall>ts oid. xe_trades s = Some ts \<longrightarrow>
        traded oid ts = (case oms_find (xe_om s) oid of None \<Rightarrow> 0 | Some e \<Rightarrow> unat (e_filled e)))"

lemma unat_lt64: "unat (x :: u64) < 2 ^ 64"
  by (rule order_less_le_trans [OF unsigned_less]) simp

lemma traded_snoc [simp]: "traded oid (ts @ [t]) = traded oid ts + (if td_order_id t = oid then unat (td_qty t) else 0)"
  by (simp add: traded_def)

lemma traded_Nil [simp]: "traded oid [] = 0"
  by (simp add: traded_def)

text \<open>Only one order differs.\<close>

lemma net_flow_change:
  assumes "\<And>q. q \<noteq> oid \<Longrightarrow> oms_find m' q = oms_find m q"
  shows "net_flow l m' = net_flow l m - flow_at l (oms_find m oid) + flow_at l (oms_find m' oid)"
proof -
  have "net_flow l x = flow_at l (oms_find x oid) + (\<Sum>q\<in>UNIV - {oid}. flow_at l (oms_find x q))" for x
    unfolding net_flow_def by (rule sum.remove) auto
  moreover have "(\<Sum>q\<in>UNIV - {oid}. flow_at l (oms_find m' q)) = (\<Sum>q\<in>UNIV - {oid}. flow_at l (oms_find m q))"
    by (rule sum.cong) (auto simp: assms)
  ultimately show ?thesis by (metis add.commute add_diff_cancel_left')
qed

text \<open>The orders and their filled quantities are as before.\<close>

definition same_fills :: "order_manager \<Rightarrow> order_manager \<Rightarrow> bool" where
  "same_fills m m' \<longleftrightarrow> (\<forall>q. map_option (\<lambda>e. (e_order e, e_filled e)) (oms_find m' q) =
     map_option (\<lambda>e. (e_order e, e_filled e)) (oms_find m q))"

lemma same_fills_flow: "same_fills m m' \<Longrightarrow> flow_at l (oms_find m' q) = flow_at l (oms_find m q)"
  using spec [where x = q, of "\<lambda>q. map_option (\<lambda>e. (e_order e, e_filled e)) (oms_find m' q) =
     map_option (\<lambda>e. (e_order e, e_filled e)) (oms_find m q)"]
  by (cases "oms_find m' q"; cases "oms_find m q") (auto simp: same_fills_def flow_at_def entry_flow_def)

lemma same_fills_trans: "same_fills m m' \<Longrightarrow> same_fills m' m'' \<Longrightarrow> same_fills m m''"
  by (simp add: same_fills_def)

lemma same_fills_refl [simp]: "same_fills m m"
  by (simp add: same_fills_def)

lemma ledger_same_fills:
  assumes "ledger s" "same_fills (xe_om s) m'" "oms_ok m'"
  shows "ledger (s\<lparr>xe_om := m'\<rparr>)"
proof -
  have "net_flow l m' = net_flow l (xe_om s)" for l
    unfolding net_flow_def by (rule sum.cong) (auto simp: same_fills_flow [OF assms(2)])
  moreover have "(case oms_find m' q of None \<Rightarrow> 0 | Some e \<Rightarrow> unat (e_filled e)) =
      (case oms_find (xe_om s) q of None \<Rightarrow> 0 | Some e \<Rightarrow> unat (e_filled e))" for q
    using assms(2) [unfolded same_fills_def, THEN spec, of q]
    by (cases "oms_find m' q"; cases "oms_find (xe_om s) q") auto
  ultimately show ?thesis using assms(1,3) by (simp add: ledger_def)
qed

lemma same_fills_ops:
  "same_fills m (on_accept oid ref m)" "same_fills m (on_reject oid m)" "same_fills m (snd (request_cancel oid m))"
  "same_fills m (snd (on_cancel oid m))"
  by (auto simp: same_fills_def on_accept_def on_reject_def request_cancel_def on_cancel_def split: option.splits)

lemma ledger_reject: "ledger s \<Longrightarrow> ledger (reject_order oid s)"
  unfolding reject_order_def by (rule ledger_same_fills [OF _ same_fills_ops(2) on_reject_ok]) (simp_all add: ledger_def)

lemma ledger_accept: "ledger s \<Longrightarrow> ledger (accept_order oid ref s)"
  unfolding accept_order_def by (rule ledger_same_fills [OF _ same_fills_ops(1) on_accept_ok]) (simp_all add: ledger_def)

lemma ledger_request: "ledger s \<Longrightarrow> ledger (s\<lparr>xe_om := snd (request_cancel oid (xe_om s))\<rparr>)"
  by (rule ledger_same_fills [OF _ same_fills_ops(3) request_cancel_ok]) (simp_all add: ledger_def)

lemma oms_next_id_ops [simp]:
  "oms_next_id (on_accept oid ref m) = oms_next_id m" "oms_next_id (on_reject oid m) = oms_next_id m"
  "oms_next_id (snd (request_cancel oid m)) = oms_next_id m"
  by (simp_all add: on_accept_def on_reject_def request_cancel_def split: option.split)

lemma new_order_find:
  assumes "new_order ord0 m = (oid, ord, m')" "oms_ok m"
  shows "oms_find m oid = None" "oms_find m' q = (if q = oid then Some \<lparr>e_order = ord, e_status = PENDING,
      e_exchange_ref = 0, e_filled = 0, e_remaining = co_quantity ord, e_avg_fill_price = 0,
      e_submit_time = co_timestamp ord, e_update_time = co_timestamp ord\<rparr> else oms_find m q)"
    and "ord = ord0\<lparr>co_order_id := oid\<rparr>" "oid = oms_next_id m" "oms_next_id m' = oms_next_id m + 1"
proof -
  show "oms_find m oid = None"
    using assms by (cases "oms_find m oid") (auto simp: new_order_def Let_def oms_ok_def)
  show "oms_find m' q = (if q = oid then Some \<lparr>e_order = ord, e_status = PENDING,
      e_exchange_ref = 0, e_filled = 0, e_remaining = co_quantity ord, e_avg_fill_price = 0,
      e_submit_time = co_timestamp ord, e_update_time = co_timestamp ord\<rparr> else oms_find m q)"
    using assms(1) by (auto simp: new_order_def Let_def oms_find_def oms_put_def update_conv')
qed (use assms(1) in \<open>auto simp: new_order_def Let_def oms_put_def\<close>)

lemma ledger_new:
  assumes led: "ledger s" and n: "oms_next_id (xe_om s) \<noteq> - 1" and new: "new_order ord0 (xe_om s) = (oid, ord, m')"
  shows "ledger (s\<lparr>xe_om := m'\<rparr>)"
proof -
  have ok: "oms_ok (xe_om s)" using led by (simp add: ledger_def)
  note find = new_order_find [OF new ok]
  have "oms_ok m'" using new_order_ok [OF ok n, of ord0] new by simp
  moreover have "net_flow l m' = net_flow l (xe_om s)" for l
    using net_flow_change [of oid m' "xe_om s" l] by (simp add: find(1,2) flow_at_def entry_flow_def)
  ultimately show ?thesis
    using led find(1) by (auto simp: ledger_def find(2))
qed

section \<open>One fill\<close>

definition fillable :: "oms_entry \<Rightarrow> bool" where
  "fillable e \<longleftrightarrow> e_status e \<in> {SUBMITTED, PARTIAL_FILL, ST_FILLED}"

lemma oms_on_fill_find:
  assumes ok: "oms_ok m" and f: "oms_find m oid = Some e" and st: "fillable e"
    and q: "unat (e_filled e) + unat q \<le> unat (co_quantity (e_order e))"
  obtains e' where "oms_find (oms_on_fill oid q p m) oid = Some e'" "e_order e' = e_order e"
    "unat (e_filled e') = unat (e_filled e) + unat q" "fillable e'"
    "\<And>r. r \<noteq> oid \<Longrightarrow> oms_find (oms_on_fill oid q p m) r = oms_find m r"
proof (cases "e_status e = ST_FILLED")
  case True
  have "entry_ok oid e" by (rule oms_okD [OF ok f])
  then have "e_filled e = co_quantity (e_order e)" using True by (simp add: entry_ok_def fill_state_def)
  then have "unat q = 0" using q by simp
  moreover have "oms_on_fill oid q p m = m" by (rule oms_on_fill_skip) (simp add: f True)
  ultimately show ?thesis using that [of e] f st by simp
next
  case False
  then have s: "e_status e = SUBMITTED \<or> e_status e = PARTIAL_FILL" using st by (auto simp: fillable_def)
  have u: "unat (e_filled e + q) = unat (e_filled e) + unat q"
    by (rule unat_plus64 [OF le_less_trans [OF q unat_lt64]])
  then have b: "booked e q = q" using q by (simp add: booked_def word_less_nat_alt)
  let ?e = "fill_entry e q p\<lparr>e_update_time := oms_clock m + 1\<rparr>"
  have "oms_find (oms_on_fill oid q p m) r = (if r = oid then Some ?e else oms_find m r)" for r
    by (simp add: oms_on_fill_eq [OF f s] Let_def)
  moreover have "fillable ?e" by (simp add: fillable_def fill_entry_def Let_def)
  ultimately show ?thesis
    using that [of ?e] u by (simp add: fill_entry_def Let_def b)
qed

lemma record_trade_fields [simp]:
  "xe_om (record_trade oid y sd qty pr mid pas s) = xe_om s" "xe_rm (record_trade oid y sd qty pr mid pas s) = xe_rm s"
  "xe_locked (record_trade oid y sd qty pr mid pas s) = xe_locked s"
  "xe_base_qty (record_trade oid y sd qty pr mid pas s) = xe_base_qty s"
  by (simp_all add: record_trade_def split: option.split)

lemma risk_on_fill_qty:
  "rk_qty (risk_on_fill (ord\<lparr>co_price := p\<rparr>) q r) =
    (let l = locate_idx (co_symbol_id ord); c = rk_qty r l in
     case co_side ord of
       OS_BUY \<Rightarrow> (rk_qty r)(l := c + q)
     | OS_SELL \<Rightarrow> (rk_qty r)(l := c - (if q < c then q else c))
     | OS_NONE \<Rightarrow> rk_qty r)"
  "max_position (risk_on_fill ord' q r) = max_position r"
  by (simp_all add: risk_on_fill_def Let_def split: order_side.split)

lemma ledger_fill:
  assumes led: "ledger s" and f: "oms_find (xe_om s) oid = Some e" and st: "fillable e" and o: "e_order e = ord"
    and q: "unat (e_filled e) + unat q \<le> unat (co_quantity ord)"
    and buy: "co_side ord = OS_BUY \<Longrightarrow> unat (position (xe_rm s) (co_symbol_id ord)) + unat q \<le> unat (max_position (xe_rm s))"
    and sell: "co_side ord = OS_SELL \<Longrightarrow> unat q \<le> unat (position (xe_rm s) (co_symbol_id ord))"
    and none: "co_side ord \<noteq> OS_NONE"
  shows "ledger (book_fill oid ord q p pas s)"
proof -
  let ?l = "locate_idx (co_symbol_id ord)" and ?s = "book_fill oid ord q p pas s"
  have ok: "oms_ok (xe_om s)" using led by (simp add: ledger_def)
  note q' = q [folded o]
  obtain e' where e': "oms_find (oms_on_fill oid q p (xe_om s)) oid = Some e'" "e_order e' = e_order e"
    "unat (e_filled e') = unat (e_filled e) + unat q"
    "\<And>r. r \<noteq> oid \<Longrightarrow> oms_find (oms_on_fill oid q p (xe_om s)) r = oms_find (xe_om s) r"
    using oms_on_fill_find [OF ok f st q'] by metis
  have om: "xe_om ?s = oms_on_fill oid q p (xe_om s)"
    and rm: "xe_rm ?s = risk_on_fill (ord\<lparr>co_price := p\<rparr>) q (xe_rm s)"
    by (simp_all add: book_fill_def Let_def)
  have "oms_ok (xe_om ?s)" unfolding om by (rule oms_on_fill_ok [OF ok])
  moreover have flow: "net_flow l (xe_om ?s) = net_flow l (xe_om s) +
      (if l = ?l then (case co_side ord of OS_BUY \<Rightarrow> 1 | OS_SELL \<Rightarrow> -1 | OS_NONE \<Rightarrow> 0) * int (unat q) else 0)" for l
    using net_flow_change [of oid "xe_om ?s" "xe_om s" l] e' f o
    by (auto simp: om flow_at_def entry_flow_def algebra_simps simp del: of_nat_unat)
  moreover have pos: "int (unat (rk_qty (xe_rm ?s) l)) = int (unat (rk_qty (xe_rm s) l)) +
      (if l = ?l then (case co_side ord of OS_BUY \<Rightarrow> 1 | OS_SELL \<Rightarrow> -1 | OS_NONE \<Rightarrow> 0) * int (unat q) else 0) \<and>
      rk_qty (xe_rm ?s) l \<le> max_position (xe_rm ?s)" for l
  proof -
    have le: "rk_qty (xe_rm s) l \<le> max_position (xe_rm s)" using led by (simp add: ledger_def)
    show ?thesis
    proof (cases "co_side ord")
      case OS_BUY
      have u: "unat (rk_qty (xe_rm s) ?l + q) = unat (rk_qty (xe_rm s) ?l) + unat q"
        by (rule unat_plus64 [OF le_less_trans [OF buy [OF OS_BUY, unfolded position_def] unat_lt64]])
      then show ?thesis
        using OS_BUY le buy by (simp add: rm risk_on_fill_qty Let_def position_def word_le_nat_alt del: of_nat_unat)
    next
      case OS_SELL
      let ?c = "rk_qty (xe_rm s) ?l"
      have c: "q \<le> ?c" using sell [OF OS_SELL] by (simp add: word_le_nat_alt position_def)
      then have "?c - (if q < ?c then q else ?c) = ?c - q" "unat (?c - q) = unat ?c - unat q"
        by (auto simp: unat_sub)
      moreover have "unat q \<le> unat ?c" using c by (simp add: word_le_nat_alt)
      ultimately show ?thesis
        using OS_SELL le
        by (auto simp: rm risk_on_fill_qty Let_def word_le_nat_alt of_nat_diff simp del: of_nat_unat)
    qed (use none in simp)
  qed
  moreover have "traded oid' ts = (case oms_find (xe_om ?s) oid' of None \<Rightarrow> 0 | Some x \<Rightarrow> unat (e_filled x))"
    if ts: "xe_trades ?s = Some ts" for ts oid'
  proof -
    obtain ts0 t where t0: "xe_trades s = Some ts0" "ts = ts0 @ [t]" "td_order_id t = oid" "td_qty t = q"
      using ts by (auto simp: book_fill_def Let_def record_trade_def split: option.splits)
    show ?thesis using led e' f t0 by (cases "oid' = oid") (auto simp: ledger_def om)
  qed
  ultimately show ?thesis using led by (simp add: ledger_def del: of_nat_unat)
qed

section \<open>The fills of one order\<close>

definition fills_total :: "fill list \<Rightarrow> nat" where
  [code_eval]: "fills_total fs = sum_list (map (\<lambda>f. unat (fl_filled_qty f)) fs)"

lemma fills_total_simps [simp]:
  "fills_total [] = 0" "fills_total (f # fs) = unat (fl_filled_qty f) + fills_total fs"
  "fills_total (fs @ gs) = fills_total fs + fills_total gs"
  by (simp_all add: fills_total_def)

abbreviation book_fills :: "u64 \<Rightarrow> core_order \<Rightarrow> fill list \<Rightarrow> 'x exec_engine_scheme \<Rightarrow> 'x exec_engine_scheme" where
  "book_fills oid ord fs s \<equiv> fold (\<lambda>f. book_fill oid ord (fl_filled_qty f) (fl_fill_price f) False) fs s"

text \<open>What no fill changes.\<close>

lemma book_fill_fields [simp]:
  "xe_locked (book_fill oid ord q p pas s) = xe_locked s" "xe_base_qty (book_fill oid ord q p pas s) = xe_base_qty s"
  "max_position (xe_rm (book_fill oid ord q p pas s)) = max_position (xe_rm s)"
  by (simp_all add: book_fill_def Let_def risk_on_fill_qty)

lemma oms_on_fill_next [simp]: "oms_next_id (oms_on_fill oid q p m) = oms_next_id m"
  by (simp add: oms_on_fill_def Let_def split: option.split prod.split)

lemma book_fill_next [simp]: "oms_next_id (xe_om (book_fill oid ord q p pas s)) = oms_next_id (xe_om s)"
  by (simp add: book_fill_def Let_def)

lemma book_fills_fields [simp]:
  "xe_locked (book_fills oid ord fs s) = xe_locked s" "xe_base_qty (book_fills oid ord fs s) = xe_base_qty s"
  "max_position (xe_rm (book_fills oid ord fs s)) = max_position (xe_rm s)"
  "oms_next_id (xe_om (book_fills oid ord fs s)) = oms_next_id (xe_om s)"
  by (induction fs arbitrary: s) simp_all

lemma ledger_fills:
  assumes "ledger s" "oms_find (xe_om s) oid = Some e" "fillable e" "e_order e = ord"
    and "unat (e_filled e) + fills_total fs \<le> unat (co_quantity ord)"
    and "co_side ord = OS_BUY \<Longrightarrow> unat (position (xe_rm s) (co_symbol_id ord)) + fills_total fs \<le> unat (max_position (xe_rm s))"
    and "co_side ord = OS_SELL \<Longrightarrow> fills_total fs \<le> unat (position (xe_rm s) (co_symbol_id ord))"
    and none: "co_side ord \<noteq> OS_NONE"
  shows "ledger (book_fills oid ord fs s)"
  using assms(1-7)
proof (induction fs arbitrary: s e)
  case (Cons f fs)
  let ?q = "fl_filled_qty f" and ?s = "book_fill oid ord (fl_filled_qty f) (fl_fill_price f) False s"
  have led: "ledger ?s"
    by (rule ledger_fill [OF Cons.prems(1-4)]) (use Cons.prems(5-7) none in auto)
  have om: "xe_om ?s = oms_on_fill oid ?q (fl_fill_price f) (xe_om s)" by (simp add: book_fill_def Let_def)
  obtain e' where e': "oms_find (xe_om ?s) oid = Some e'" "e_order e' = ord"
    "unat (e_filled e') = unat (e_filled e) + unat ?q" "fillable e'"
    using oms_on_fill_find [of "xe_om s" oid e ?q] Cons.prems(1-5) unfolding om
    by (metis (no_types, lifting) add_leD1 fills_total_simps(2) group_cancel.add1 ledger_def)
  let ?c = "rk_qty (xe_rm s) (locate_idx (co_symbol_id ord))"
  have pos: "position (xe_rm ?s) (co_symbol_id ord) =
      (case co_side ord of OS_BUY \<Rightarrow> ?c + ?q | OS_SELL \<Rightarrow> ?c - (if ?q < ?c then ?q else ?c) | OS_NONE \<Rightarrow> ?c)"
    by (simp add: book_fill_def Let_def position_def risk_on_fill_qty split: order_side.split)
  have "ledger (book_fills oid ord fs ?s)"
  proof (rule Cons.IH [OF led e'(1,4,2)])
    show "unat (e_filled e') + fills_total fs \<le> unat (co_quantity ord)" using Cons.prems(5) e'(3) by simp
    show "unat (position (xe_rm ?s) (co_symbol_id ord)) + fills_total fs \<le> unat (max_position (xe_rm ?s))"
      if b: "co_side ord = OS_BUY"
    proof -
      have le: "unat ?c + unat ?q + fills_total fs \<le> unat (max_position (xe_rm s))"
        using Cons.prems(6) [OF b] by (simp add: position_def)
      then have "unat (?c + ?q) = unat ?c + unat ?q"
        by (intro unat_plus64 le_less_trans [OF _ unat_lt64 [of "max_position (xe_rm s)"]]) simp
      then show ?thesis using le by (simp add: pos b)
    qed
    show "fills_total fs \<le> unat (position (xe_rm ?s) (co_symbol_id ord))" if b: "co_side ord = OS_SELL"
    proof -
      have le: "unat ?q + fills_total fs \<le> unat ?c" using Cons.prems(7) [OF b] by (simp add: position_def)
      then have "?q \<le> ?c" by (simp add: word_le_nat_alt)
      then have "?c - (if ?q < ?c then ?q else ?c) = ?c - ?q" "unat (?c - ?q) = unat ?c - unat ?q"
        by (auto simp: unat_sub)
      then show ?thesis using le by (simp add: pos b)
    qed
  qed
  then show ?case by simp
qed simp

section \<open>What the execution engine relies on\<close>

text \<open>The books and the lock are as before; market data may have moved marks and middle prices.\<close>

definition untouched :: "'x exec_engine_scheme \<Rightarrow> 'x exec_engine_scheme \<Rightarrow> bool" where
  "untouched s s' \<longleftrightarrow> xe_om s' = xe_om s \<and> xe_trades s' = xe_trades s \<and> xe_locked s' = xe_locked s \<and>
     xe_base_qty s' = xe_base_qty s \<and> rk_qty (xe_rm s') = rk_qty (xe_rm s) \<and>
     max_position (xe_rm s') = max_position (xe_rm s)"

lemma untouched_refl [simp]: "untouched s s"
  by (simp add: untouched_def)

lemma untouched_trans: "untouched s s' \<Longrightarrow> untouched s' s'' \<Longrightarrow> untouched s s''"
  by (simp add: untouched_def)

lemma ledger_untouched: "ledger s \<Longrightarrow> untouched s s' \<Longrightarrow> ledger s'"
  by (simp add: ledger_def untouched_def)

text \<open>
  The contract of an exchange for immediate-or-cancel orders: it fills at most what was ordered, and
  while the execution engine holds its lock it does not change the engine's books. \<open>quiet\<close> is a condition
  on the exchange's own part of the state.
\<close>

locale ioc_exchange =
  fixes ex :: "'x exec_engine_scheme exchange_if" and quiet :: "'x exec_engine_scheme \<Rightarrow> bool"
  assumes submit_keeps: "quiet s \<Longrightarrow> if_submit ex ord oid IOC s = Some (r, s') \<Longrightarrow> untouched s s' \<and> quiet s'"
    and submit_fills: "quiet s \<Longrightarrow> if_submit ex ord oid IOC s = Some (r, s') \<Longrightarrow>
      fills_total (sr_fills r) \<le> unat (co_quantity ord)"
    and cancel_keeps: "quiet s \<Longrightarrow> xe_locked s \<Longrightarrow> if_cancel ex oid symbol uid s = Some s' \<Longrightarrow> untouched s s' \<and> quiet s'"
    and quote_keeps: "quiet s \<Longrightarrow> untouched s (snd (if_quote ex symbol s)) \<and> quiet (snd (if_quote ex symbol s))"
    and quiet_exec [simp]: "quiet (s\<lparr>xe_om := m\<rparr>) = quiet s" "quiet (s\<lparr>xe_rm := rm\<rparr>) = quiet s"
      "quiet (s\<lparr>xe_trades := ts\<rparr>) = quiet s" "quiet (s\<lparr>xe_locked := b\<rparr>) = quiet s"
      "quiet (s\<lparr>xe_flatten_issued := b\<rparr>) = quiet s"
begin

text \<open>Both together, and the fields that stay.\<close>

definition sound :: "'x exec_engine_scheme \<Rightarrow> 'x exec_engine_scheme \<Rightarrow> bool" where
  "sound s0 s \<longleftrightarrow> ledger s \<and> quiet s \<and> xe_locked s = xe_locked s0 \<and> xe_base_qty s = xe_base_qty s0 \<and>
     max_position (xe_rm s) = max_position (xe_rm s0) \<and> oms_next_id (xe_om s) = oms_next_id (xe_om s0)"

lemma sound_untouched: "sound s0 s \<Longrightarrow> untouched s s' \<Longrightarrow> quiet s' \<Longrightarrow> sound s0 s'"
  by (auto simp: sound_def untouched_def intro: ledger_untouched)

lemma flatten_one_sound:
  assumes "flatten_one (Some ex) oid s = Some s'" "sound s0 s" "xe_locked s0"
  shows "sound s0 s'"
proof -
  let ?s = "s\<lparr>xe_om := snd (request_cancel oid (xe_om s))\<rparr>"
  have "sound s0 ?s" using assms(2) by (simp add: sound_def ledger_request)
  moreover have "xe_locked ?s" "quiet ?s" using assms(2,3) by (simp_all add: sound_def)
  ultimately show ?thesis
    using assms(1,2) cancel_keeps [of ?s] sound_untouched [of s0 ?s]
    by (fastforce simp: flatten_one_def Let_def split: option.splits if_splits)
qed

lemma flatten_sound:
  assumes "flatten_on_drawdown (Some ex) s = Some s'" "sound s0 s" "xe_locked s0"
  shows "sound s0 s'"
proof (cases "xe_flatten_issued s \<or> \<not> drawdown_flatten (xe_rm s)")
  case True
  then show ?thesis using assms(1,2) by (auto simp: flatten_on_drawdown_def split: if_splits)
next
  case False
  then have "foldo (flatten_one (Some ex)) (map fst (oms_orders (xe_om s))) (s\<lparr>xe_flatten_issued := True\<rparr>) = Some s'"
    using assms(1) by (simp add: flatten_on_drawdown_def)
  moreover have "sound s0 (s\<lparr>xe_flatten_issued := True\<rparr>)"
    using assms(2) by (intro sound_untouched [OF assms(2)]) (simp_all add: untouched_def sound_def)
  ultimately show ?thesis
    by (rule foldo_keeps [where P = "sound s0"]) (rule flatten_one_sound [OF _ _ assms(3)])
qed

text \<open>An order that has its number goes to the exchange.\<close>

lemma send_sound:
  assumes send: "send_order (Some ex) oid ord s = Some (r, s')" and led: "ledger s" and q: "quiet s"
    and lock: "xe_locked s" and ty: "co_type ord = MARKET"
    and f: "oms_find (xe_om s) oid = Some e" and e: "e_status e = PENDING" "e_order e = ord"
    and big: "unat (max_position (xe_rm s)) + unat (co_quantity ord) < 2 ^ 64"
  shows "sound s s' \<and> r = oid"
proof (cases "check_order ord (xe_rm s)")
  case False
  then show ?thesis
    using send led q lock ledger_reject [OF led, of oid] by (auto simp: send_order_def sound_def reject_order_def)
next
  case True
  then obtain res s1 where s1: "if_submit ex ord oid IOC s = Some (res, s1)"
    and s2: "flatten_on_drawdown (Some ex) (if \<not> sr_accepted res then reject_order oid s1
        else book_fills oid ord (sr_fills res) (accept_order oid 0 s1)) = Some s'" and r: "r = oid"
    using send ty by (auto simp: send_order_def Let_def split: bind_split_asm)
  have u: "untouched s s1" "quiet s1" using submit_keeps [OF q s1] by auto
  have tot: "fills_total (sr_fills res) \<le> unat (co_quantity ord)" by (rule submit_fills [OF q s1])
  have led1: "ledger s1" by (rule ledger_untouched [OF led u(1)])
  have f1: "oms_find (xe_om s1) oid = Some e" using f u(1) by (simp add: untouched_def)
  have z: "e_filled e = 0"
    using oms_okD [OF _ f1] led1 e(1) by (simp add: ledger_def entry_ok_def fill_state_def)
  define s3 where "s3 = (if \<not> sr_accepted res then reject_order oid s1
        else book_fills oid ord (sr_fills res) (accept_order oid 0 s1))"
  have "ledger s3"
  proof (cases "sr_accepted res")
    case False
    then show ?thesis using ledger_reject [OF led1] by (simp add: s3_def)
  next
    case acc: True
    let ?a = "accept_order oid 0 s1"
    let ?e = "e\<lparr>e_status := SUBMITTED, e_exchange_ref := 0, e_update_time := oms_clock (xe_om s1) + 1\<rparr>"
    have fa: "oms_find (xe_om ?a) oid = Some ?e"
      using f1 e(1) by (simp add: accept_order_def on_accept_def)
    have rk: "xe_rm ?a = xe_rm s1" by (simp add: accept_order_def)
    have chk: "(co_side ord = OS_BUY \<longrightarrow> position (xe_rm s) (co_symbol_id ord) + co_quantity ord \<le> max_position (xe_rm s)) \<and>
        (co_side ord = OS_SELL \<longrightarrow> co_quantity ord \<le> position (xe_rm s) (co_symbol_id ord)) \<and> co_side ord \<noteq> OS_NONE"
      using True by (auto simp: check_order_def Let_def position_def split: if_splits order_side.splits)
    have pos: "position (xe_rm s1) (co_symbol_id ord) = position (xe_rm s) (co_symbol_id ord)"
      "max_position (xe_rm s1) = max_position (xe_rm s)"
      using u(1) by (simp_all add: untouched_def position_def)
    have "unat (position (xe_rm s) (co_symbol_id ord)) \<le> unat (max_position (xe_rm s))"
      using led by (simp add: ledger_def position_def word_le_nat_alt)
    then have sum: "unat (position (xe_rm s) (co_symbol_id ord) + co_quantity ord) =
        unat (position (xe_rm s) (co_symbol_id ord)) + unat (co_quantity ord)"
      by (intro unat_plus64) (use big in linarith)
    have "ledger (book_fills oid ord (sr_fills res) ?a)"
    proof (rule ledger_fills [OF ledger_accept [OF led1] fa])
      show "unat (position (xe_rm ?a) (co_symbol_id ord)) + fills_total (sr_fills res) \<le> unat (max_position (xe_rm ?a))"
        if "co_side ord = OS_BUY"
        using chk that sum tot by (simp add: rk pos word_le_nat_alt)
      show "fills_total (sr_fills res) \<le> unat (position (xe_rm ?a) (co_symbol_id ord))" if "co_side ord = OS_SELL"
        using chk that tot by (simp add: rk pos word_le_nat_alt)
    qed (use z tot e(2) chk in \<open>auto simp: fillable_def\<close>)
    then show ?thesis using acc by (simp add: s3_def)
  qed
  moreover have "quiet s3"
  proof -
    have "quiet (book_fills oid ord fs t) = quiet t" for fs t
      by (induction fs arbitrary: t) (simp_all add: book_fill_def record_trade_def Let_def split: option.split)
    then show ?thesis using u(2) by (simp add: s3_def reject_order_def accept_order_def)
  qed
  moreover have "oms_next_id (xe_om s3) = oms_next_id (xe_om s1)" "xe_locked s3 = xe_locked s1"
    "xe_base_qty s3 = xe_base_qty s1" "max_position (xe_rm s3) = max_position (xe_rm s1)"
    by (simp_all add: s3_def reject_order_def accept_order_def)
  ultimately have "sound s s3" using u(1) by (simp add: sound_def untouched_def)
  then show ?thesis using flatten_sound [OF s2 [folded s3_def] _ lock] r by simp
qed

text \<open>A signal is sent at most once, under the lock, and leaves the books in agreement.\<close>

lemma submit_sound:
  assumes sub: "submit_signal (Some ex) sig strategy_id MARKET s = Some (r, s')" and led: "ledger s" and q: "quiet s"
    and n: "oms_next_id (xe_om s) \<noteq> - 1" and mp: "unat (max_position (xe_rm s)) < 2 ^ 63"
  shows "ledger s' \<and> quiet s' \<and> xe_locked s' = xe_locked s \<and> max_position (xe_rm s') = max_position (xe_rm s) \<and>
    (oms_next_id (xe_om s') = oms_next_id (xe_om s) \<or> oms_next_id (xe_om s') = oms_next_id (xe_om s) + 1)"
proof (cases "signal_order sig strategy_id MARKET (xe_base_qty s)")
  case None
  then show ?thesis using sub led q by (simp add: submit_signal_def)
next
  case (Some ord0)
  obtain oid ord m where new: "new_order ord0 (xe_om s) = (oid, ord, m)" by (cases "new_order ord0 (xe_om s)") auto
  define s0 where "s0 = s\<lparr>xe_locked := True, xe_om := m\<rparr>"
  have nl: "\<not> xe_locked s" using sub Some by (auto simp: submit_signal_def with_lock_def)
  then obtain s1 where send: "send_order (Some ex) oid ord s0 = Some (r, s1)" and s': "s' = s1\<lparr>xe_locked := False\<rparr>"
    using sub Some new by (auto simp: submit_signal_def with_lock_def s0_def split: bind_split_asm)
  have ok: "oms_ok (xe_om s)" using led by (simp add: ledger_def)
  note find = new_order_find [OF new ok]
  have o: "co_type ord = MARKET" "co_quantity ord = signal_qty sig (xe_base_qty s)"
    using Some find(3) by (auto simp: signal_order_def Let_def zero_order_def split: if_splits)
  have "ledger (s\<lparr>xe_om := m\<rparr>)" by (rule ledger_new [OF led n new])
  then have led0: "ledger s0" by (simp add: s0_def ledger_def)
  have "unat (signal_qty sig (xe_base_qty s)) < 2 ^ 63"
  proof -
    have "unat (x div 10000 :: u64) < 2 ^ 63" for x
      using unat_lt64 [of x] by (simp add: unat_div)
    then show ?thesis by (simp add: signal_qty_def kStrengthScale_def)
  qed
  then have "sound s0 s1 \<and> r = oid"
    using send_sound [OF send led0 _ _ o(1)] q find(2) [of oid] mp o(2) by (simp add: s0_def)
  moreover have "ledger s1 \<Longrightarrow> ledger s'" unfolding s' by (simp add: ledger_def)
  ultimately show ?thesis
    using nl find(4,5) by (auto simp: sound_def s0_def s')
qed

end

end
