(* ===== verification/Itch.thy ===== *)
theory Itch
  imports Ex_Book
begin

text \<open>
  The ITCH 5.0 parser (\<open>src/exchange/itch_parser.h\<close>, \<open>itch_parser.cpp\<close>) and the file replay
  source (\<open>src/replay/itch_replay_source.h\<close>, \<open>itch_replay_source.cpp\<close>). A message body is the list
  of its bytes. \<open>feed\<close> fills the caller's event in place: a field that a message type does not
  set keeps the caller's value.
\<close>

section \<open>The parser\<close>

datatype itch_type = IT_ADD | IT_DELETE | IT_CANCEL | IT_REPLACE | IT_BOOK

record itch_event =
  it_type :: itch_type
  it_locate :: u16
  it_order_ref :: u64
  it_new_order_ref :: u64
  it_side :: side
  it_price :: u32
  it_shares :: u32
  it_user_id :: u64

type_synonym symbol_map = "u8 list \<rightharpoonup> u16"

definition rd_u16 :: "u8 list \<Rightarrow> nat \<Rightarrow> u16" where
  [code_eval]: "rd_u16 m i = push_bit 8 (ucast (m ! i)) OR ucast (m ! (i + 1))"

definition rd_u32 :: "u8 list \<Rightarrow> nat \<Rightarrow> u32" where
  [code_eval]: "rd_u32 m i = push_bit 24 (ucast (m ! i)) OR push_bit 16 (ucast (m ! (i + 1))) OR
     push_bit 8 (ucast (m ! (i + 2))) OR ucast (m ! (i + 3))"

definition rd_u64 :: "u8 list \<Rightarrow> nat \<Rightarrow> u64" where
  [code_eval]: "rd_u64 m i = fold (\<lambda>k v. push_bit 8 v OR ucast (m ! (i + k))) [0..<8] 0"

definition itch_price_ticks :: "u32 \<Rightarrow> u32" where
  [code_eval]: "itch_price_ticks p = p"

text \<open>
  The symbol: eight bytes up to the first zero (\<open>std::string s(sym)\<close>), without trailing blanks.
\<close>

definition symbol_of :: "u8 list \<Rightarrow> u8 list" where
  [code_eval]: "symbol_of m = rev (dropWhile (\<lambda>c. c = 0x20 \<or> c = 0) (rev (takeWhile (\<lambda>c. c \<noteq> 0) (map (\<lambda>i. m ! (11 + i)) [0..<8]))))"

definition feed :: "u8 list \<Rightarrow> symbol_map \<Rightarrow> itch_event \<Rightarrow> bool \<times> symbol_map \<times> itch_event" where
  [code_eval]: "feed m sm out =
     (let len = length m in
      if len < 3 then (False, sm, out)
      else
        let mt = m ! 0 in
        if mt = 0x52 then
          (if len < 19 then (False, sm, out)
           else
             let loc = rd_u16 m 1; s = symbol_of m in
             (False, if s \<noteq> [] then sm(s \<mapsto> loc) else sm, out))
        else if mt = 0x41 \<or> mt = 0x46 then
          (if len < 36 then (False, sm, out)
           else (True, sm, out\<lparr>it_type := IT_ADD, it_locate := rd_u16 m 1, it_order_ref := rd_u64 m 11,
                   it_side := (if m ! 19 = 0x53 then SELL else BUY), it_shares := rd_u32 m 20,
                   it_price := itch_price_ticks (rd_u32 m 32)\<rparr>))
        else if mt = 0x44 then
          (if len < 19 then (False, sm, out)
           else (True, sm, out\<lparr>it_type := IT_DELETE, it_locate := rd_u16 m 1, it_order_ref := rd_u64 m 11,
                   it_side := INVALID\<rparr>))
        else if mt = 0x58 then
          (if len < 23 then (False, sm, out)
           else (True, sm, out\<lparr>it_type := IT_CANCEL, it_locate := rd_u16 m 1, it_order_ref := rd_u64 m 11,
                   it_shares := rd_u32 m 19, it_side := INVALID\<rparr>))
        else if mt = 0x55 then
          (if len < 35 then (False, sm, out)
           else (True, sm, out\<lparr>it_type := IT_REPLACE, it_locate := rd_u16 m 1, it_order_ref := rd_u64 m 11,
                   it_new_order_ref := rd_u64 m 19, it_shares := rd_u32 m 27,
                   it_price := itch_price_ticks (rd_u32 m 31), it_side := INVALID\<rparr>))
        else if mt = 0x51 then (True, sm, out\<lparr>it_type := IT_BOOK, it_locate := rd_u16 m 1\<rparr>)
        else (False, sm, out))"

definition locate_for_symbol :: "symbol_map \<Rightarrow> u8 list \<Rightarrow> u16" where
  [code_eval]: "locate_for_symbol sm s = (case sm s of Some l \<Rightarrow> l | None \<Rightarrow> 0xFFFF)"

section \<open>The messages of the protocol\<close>

text \<open>
  Big-endian encodings, and the NASDAQ layouts of the order messages: tracking number, time stamp
  and stock symbol are arbitrary bytes of the right number.
\<close>

definition wr_u16 :: "u16 \<Rightarrow> u8 list" where
  "wr_u16 v = [ucast (drop_bit 8 v), ucast v]"

definition wr_u32 :: "u32 \<Rightarrow> u8 list" where
  "wr_u32 v = map (\<lambda>k. ucast (drop_bit (8 * (3 - k)) v)) [0..<4]"

definition wr_u64 :: "u64 \<Rightarrow> u8 list" where
  "wr_u64 v = map (\<lambda>k. ucast (drop_bit (8 * (7 - k)) v)) [0..<8]"

lemma wr_length [simp]: "length (wr_u16 a) = 2" "length (wr_u32 b) = 4" "length (wr_u64 c) = 8"
  by (simp_all add: wr_u16_def wr_u32_def wr_u64_def)

lemma rd_wr16:
  assumes "m ! i = ucast (drop_bit 8 v)" "m ! Suc i = ucast v"
  shows "rd_u16 m i = v"
  unfolding rd_u16_def using assms
  by (simp, intro bit_word_eqI) (auto simp: bit_simps)

lemma rd_wr32:
  assumes "\<forall>k<4. m ! (i + k) = ucast (drop_bit (8 * (3 - k)) v)"
  shows "rd_u32 m i = v"
proof -
  have "m ! i = ucast (drop_bit 24 v)" "m ! (i + 1) = ucast (drop_bit 16 v)"
    "m ! (i + 2) = ucast (drop_bit 8 v)" "m ! (i + 3) = ucast v"
    using assms [THEN spec [of _ 0]] assms [THEN spec [of _ 1]] assms [THEN spec [of _ 2]] assms [THEN spec [of _ 3]]
    by simp_all
  moreover have "push_bit 24 (ucast (ucast (drop_bit 24 v) :: u8)) OR push_bit 16 (ucast (ucast (drop_bit 16 v) :: u8)) OR
      push_bit 8 (ucast (ucast (drop_bit 8 v) :: u8)) OR ucast (ucast v :: u8) = v"
  proof (rule bit_word_eqI)
    fix n assume "n < LENGTH(32)"
    then consider "n < 8" | "8 \<le> n" "n < 16" | "16 \<le> n" "n < 24" | "24 \<le> n" "n < 32" by force
    then show "bit (push_bit 24 (ucast (ucast (drop_bit 24 v) :: u8)) OR push_bit 16 (ucast (ucast (drop_bit 16 v) :: u8)) OR
      push_bit 8 (ucast (ucast (drop_bit 8 v) :: u8)) OR ucast (ucast v :: u8) :: u32) n = bit v n"
      by cases (auto simp: bit_simps)
  qed
  ultimately show ?thesis unfolding rd_u32_def by simp
qed

lemma push_byte: "push_bit 8 (drop_bit (n + 8) v) OR ucast (ucast (drop_bit n v) :: u8) = drop_bit n (v :: u64)"
proof (rule bit_word_eqI)
  fix i assume "i < LENGTH(64)"
  then show "bit (push_bit 8 (drop_bit (n + 8) v) OR ucast (ucast (drop_bit n v) :: u8)) i = bit (drop_bit n v) i"
    by (cases "i < 8") (auto simp: bit_simps)
qed

lemma rd_wr64:
  assumes "\<forall>k<8. m ! (i + k) = ucast (drop_bit (8 * (7 - k)) v)"
  shows "rd_u64 m i = v"
proof -
  have "fold (\<lambda>k w. push_bit 8 w OR ucast (m ! (i + k))) [0..<n] 0 = drop_bit (64 - 8 * n) v" if "n \<le> 8" for n
    using that
  proof (induction n)
    case 0
    then show ?case by (simp add: drop_bit_word_beyond)
  next
    case (Suc n)
    have "m ! (i + n) = ucast (drop_bit (8 * (7 - n)) v)" using assms Suc.prems by simp
    moreover have "64 - 8 * n = 8 * (7 - n) + 8" "64 - 8 * Suc n = 8 * (7 - n)" using Suc.prems by simp_all
    ultimately show ?case using Suc push_byte [of "8 * (7 - n)" v] by simp
  qed
  from this [of 8] show ?thesis by (simp add: rd_u64_def)
qed

lemma rd_at16: "length xs = i \<Longrightarrow> rd_u16 (xs @ wr_u16 v @ ys) i = v"
  by (rule rd_wr16) (auto simp: wr_u16_def nth_append)

lemma rd_at32: "length xs = i \<Longrightarrow> rd_u32 (xs @ wr_u32 v @ ys) i = v"
  by (rule rd_wr32) (auto simp: wr_u32_def nth_append)

lemma rd_at64: "length xs = i \<Longrightarrow> rd_u64 (xs @ wr_u64 v @ ys) i = v"
  by (rule rd_wr64) (auto simp: wr_u64_def nth_append)

datatype itch_msg =
    M_Add (am_locate: u16) (am_ref: u64) (am_sell: bool) (am_shares: u32) (am_price: u32)
  | M_Delete u16 u64
  | M_Cancel u16 u64 u32
  | M_Replace u16 u64 u64 u32 u32

text \<open>\<open>hdr\<close> is tracking number and time stamp (8 bytes), \<open>stock\<close> the symbol (8 bytes).\<close>

fun wire :: "itch_msg \<Rightarrow> u8 list \<Rightarrow> u8 list \<Rightarrow> u8 list \<Rightarrow> u8 list" where
  "wire (M_Add l ref sell sh p) hdr stock rest =
     [0x41] @ wr_u16 l @ hdr @ wr_u64 ref @ [if sell then 0x53 else 0x42] @ wr_u32 sh @ stock @ wr_u32 p @ rest"
| "wire (M_Delete l ref) hdr stock rest = [0x44] @ wr_u16 l @ hdr @ wr_u64 ref @ rest"
| "wire (M_Cancel l ref sh) hdr stock rest = [0x58] @ wr_u16 l @ hdr @ wr_u64 ref @ wr_u32 sh @ rest"
| "wire (M_Replace l ref new sh p) hdr stock rest =
     [0x55] @ wr_u16 l @ hdr @ wr_u64 ref @ wr_u64 new @ wr_u32 sh @ wr_u32 p @ rest"

fun event_of :: "itch_msg \<Rightarrow> itch_event \<Rightarrow> itch_event" where
  "event_of (M_Add l ref sell sh p) out = out\<lparr>it_type := IT_ADD, it_locate := l, it_order_ref := ref,
     it_side := (if sell then SELL else BUY), it_shares := sh, it_price := p\<rparr>"
| "event_of (M_Delete l ref) out = out\<lparr>it_type := IT_DELETE, it_locate := l, it_order_ref := ref, it_side := INVALID\<rparr>"
| "event_of (M_Cancel l ref sh) out =
     out\<lparr>it_type := IT_CANCEL, it_locate := l, it_order_ref := ref, it_shares := sh, it_side := INVALID\<rparr>"
| "event_of (M_Replace l ref new sh p) out = out\<lparr>it_type := IT_REPLACE, it_locate := l, it_order_ref := ref,
     it_new_order_ref := new, it_shares := sh, it_price := p, it_side := INVALID\<rparr>"

definition blank_event :: itch_event where
  [code_eval]: "blank_event = \<lparr>it_type = IT_BOOK, it_locate = 0, it_order_ref = 0, it_new_order_ref = 0,
     it_side = INVALID, it_price = 0, it_shares = 0, it_user_id = 0\<rparr>"



text \<open>
  A stock directory message registers its symbol: the bytes before the blank padding become the
  key of the locate, which \<open>locate_for_symbol\<close> then returns, and no order event is produced.
\<close>

lemma feed_directory:
  assumes "length hdr = 8" "length name \<le> 8" "name \<noteq> []" "0 \<notin> set name" "last name \<noteq> 0x20"
  shows "\<exists>sm'. feed ([0x52] @ wr_u16 l @ hdr @ name @ replicate (8 - length name) 0x20 @ rest) sm out = (False, sm', out) \<and>
    locate_for_symbol sm' name = l \<and> (\<forall>s. s \<noteq> name \<longrightarrow> locate_for_symbol sm' s = locate_for_symbol sm s)"
proof -
  let ?f = "name @ replicate (8 - length name) (0x20 :: u8)"
  let ?m = "[0x52] @ wr_u16 l @ hdr @ ?f @ rest"
  have lf: "length ?f = 8" using assms(2) by simp
  have "map (\<lambda>i. ?m ! (11 + i)) [0..<8] = ?f"
  proof (rule nth_equalityI)
    fix i assume "i < length (map (\<lambda>i. ?m ! (11 + i)) [0..<8])"
    then have i: "i < 8" by simp
    have "?m ! (11 + i) = (?f @ rest) ! i" using assms(1) by (simp add: nth_append)
    also have "\<dots> = ?f ! i" using i lf by (simp only: nth_append if_True)
    finally show "map (\<lambda>i. ?m ! (11 + i)) [0..<8] ! i = ?f ! i" using i by simp
  qed (use lf in simp)
  moreover have "takeWhile (\<lambda>c. c \<noteq> 0) ?f = ?f" using assms(4) by (auto simp: takeWhile_eq_all_conv)
  moreover have "dropWhile (\<lambda>c. c = 0x20 \<or> c = 0) (rev ?f) = rev name"
  proof -
    have "dropWhile (\<lambda>c. c = 0x20 \<or> c = 0) (replicate n 0x20 @ rev name) = dropWhile (\<lambda>c. c = 0x20 \<or> c = 0) (rev name)" for n
      by (induction n) auto
    moreover have "last name \<noteq> 0" using assms(3,4) last_in_set by metis
    then have "dropWhile (\<lambda>c. c = 0x20 \<or> c = 0) (rev name) = rev name"
      using assms(3,5) by (cases name rule: rev_cases) auto
    ultimately show ?thesis by simp
  qed
  ultimately have sym: "symbol_of ?m = name" by (simp only: symbol_of_def rev_rev_ident)
  have "rd_u16 ?m 1 = l" using rd_at16 [of "[0x52]" 1 l "hdr @ ?f @ rest"] by simp
  moreover have "length ?m = 19 + length rest" using assms(1) lf by simp
  moreover have "?m ! 0 = 0x52" by simp
  ultimately have "feed ?m sm out = (False, sm(name \<mapsto> l), out)"
    using assms(3) sym unfolding feed_def Let_def by (simp del: append.simps append_assoc)
  then show ?thesis by (intro exI [of _ "sm(name \<mapsto> l)"]) (simp add: locate_for_symbol_def)
qed

lemma feed_directory_witness:
  "\<exists>sm'. feed ([0x52] @ wr_u16 7 @ replicate 8 0 @ [0x56, 0x4F, 0x44] @ replicate (8 - length [0x56, 0x4F, 0x44 :: u8]) 0x20 @ [])
     Map.empty blank_event = (False, sm', blank_event) \<and> locate_for_symbol sm' [0x56, 0x4F, 0x44] = 7"
  using feed_directory [of "replicate 8 0" "[0x56, 0x4F, 0x44]" 7 "[]" Map.empty blank_event] by auto

end
