(* ===== verification/Exchange_Sim.thy ===== *)
theory Exchange_Sim
  imports Execution Itch Consumer
begin

text \<open>
  The exchange simulator (\<open>src/exchange/exchange_simulator.h\<close>, \<open>exchange_simulator.cpp\<close>): the matching
  engine with the list of the strategies' resting orders and the broadcast of what happens to the
  market data consumer and to a subscriber. Its state extends the execution engine's, which it calls
  back; \<open>report\<close> is \<open>execution_->on_order_report\<close> and \<open>sink\<close> is \<open>sink_\<close>, both \<open>None\<close> when not set.
\<close>

section \<open>State\<close>

record market = exec_engine +
  xs_engine :: engine
  xs_view :: "consumer ptr"
  xs_strategy_refs :: "u64 set"
  xs_trades :: u64
  xs_clock :: u64

text \<open>The constructor: own pool and index, no counters; the pointers are set later.\<close>

definition exchange_new :: "nat \<Rightarrow> exec_engine \<Rightarrow> market option" where
  [code_eval]: "exchange_new pool_slots x = do {
     pool \<leftarrow> pool_new default_order pool_slots;
     ix \<leftarrow> om_new pool_slots;
     Some (exec_engine.extend x \<lparr>xs_engine = engine_shared pool ix None, xs_view = None,
       xs_strategy_refs = {}, xs_trades = 0, xs_clock = 0\<rparr>)
   }"

definition set_market_view :: "consumer ptr \<Rightarrow> 'x market_scheme \<Rightarrow> 'x market_scheme" where
  [code_eval]: "set_market_view v s = s\<lparr>xs_view := v\<rparr>"

definition is_strategy_order :: "u64 \<Rightarrow> 'x market_scheme \<Rightarrow> bool" where
  [code_eval]: "is_strategy_order ref s \<longleftrightarrow> ref \<in> xs_strategy_refs s"

definition strategy_resting :: "'x market_scheme \<Rightarrow> nat" where
  [code_eval]: "strategy_resting s = card (xs_strategy_refs s)"

section \<open>Broadcast\<close>

type_synonym 's sink_t = "(market_event \<Rightarrow> 's \<Rightarrow> 's option) ptr"
type_synonym 's report_t = "(fill \<Rightarrow> 's \<Rightarrow> 's option) ptr"

definition broadcast :: "'x market_scheme sink_t \<Rightarrow> market_event \<Rightarrow> 'x market_scheme \<Rightarrow> 'x market_scheme option" where
  [code_eval]: "broadcast sink ev s = do {
     s1 \<leftarrow> (case xs_view s of
             None \<Rightarrow> Some s
           | Some v \<Rightarrow> do { v' \<leftarrow> on_event ev v; Some (s\<lparr>xs_view := Some v'\<rparr>) });
     case sink of None \<Rightarrow> Some s1 | Some f \<Rightarrow> f ev s1
   }"

text \<open>\<open>MarketEvent{}\<close>: all zero, which is an \<open>ADD\<close> on the buy side.\<close>

definition zero_event :: market_event where
  [code_eval]: "zero_event = \<lparr>me_type = EV_ADD, me_seq_id = 0, me_locate = 0, me_timestamp = 0, me_side = OS_BUY,
     me_price = 0, me_qty = 0, me_order_ref = 0, me_new_order_ref = 0\<rparr>"

definition to_market_event :: "itch_event \<Rightarrow> 'x market_scheme \<Rightarrow> market_event" where
  [code_eval]: "to_market_event ev s =
     (let m = zero_event\<lparr>me_timestamp := xs_clock s, me_locate := ucast (it_locate ev)\<rparr> in
      case it_type ev of
        IT_ADD \<Rightarrow> m\<lparr>me_type := EV_ADD, me_side := (if it_side ev = BUY then OS_BUY else OS_SELL),
          me_price := uint (it_price ev), me_qty := ucast (it_shares ev), me_order_ref := it_order_ref ev\<rparr>
      | IT_DELETE \<Rightarrow> m\<lparr>me_type := EV_DELETE, me_order_ref := it_order_ref ev\<rparr>
      | IT_CANCEL \<Rightarrow> m\<lparr>me_type := EV_CANCEL, me_order_ref := it_order_ref ev, me_qty := ucast (it_shares ev)\<rparr>
      | IT_REPLACE \<Rightarrow> m\<lparr>me_type := EV_REPLACE, me_order_ref := it_order_ref ev, me_new_order_ref := it_new_order_ref ev,
          me_price := uint (it_price ev), me_qty := ucast (it_shares ev)\<rparr>
      | IT_BOOK \<Rightarrow> m)"

definition make_execute :: "u64 \<Rightarrow> u64 \<Rightarrow> u64 \<Rightarrow> market_event" where
  [code_eval]: "make_execute locate order_ref qty =
     zero_event\<lparr>me_type := EV_EXECUTE, me_locate := locate, me_order_ref := order_ref, me_qty := qty, me_price := -1\<rparr>"

section \<open>Orders of the market\<close>

text \<open>\<open>engine_.book_for(locate)\<close> and \<open>findOrder\<close> on it: \<open>None\<close> inside when there is no such order.\<close>

definition engine_find :: "u64 \<Rightarrow> u64 \<Rightarrow> engine \<Rightarrow> (order ptr \<times> engine) option" where
  [code_eval]: "engine_find locate ref e =
     (case book_for locate e of
        (None, e1) \<Rightarrow> Some (None, e1)
      | (Some b, e1) \<Rightarrow> do {
          r \<leftarrow> findOrder ref b;
          case r of
            None \<Rightarrow> Some (None, e1)
          | Some i \<Rightarrow> do { o' \<leftarrow> pool_at (ob_pool b) i; Some (Some o', e1) }
        })"

definition unregister_if_gone :: "u64 \<Rightarrow> u64 \<Rightarrow> 'x market_scheme \<Rightarrow> 'x market_scheme option" where
  [code_eval]: "unregister_if_gone locate ref s = do {
     (r, e) \<leftarrow> engine_find locate ref (xs_engine s);
     let s1 = s\<lparr>xs_engine := e\<rparr>;
     Some (if r = None then s1\<lparr>xs_strategy_refs := xs_strategy_refs s1 - {ref}\<rparr> else s1)
   }"

definition on_strategy_maker_fill ::
  "'x market_scheme report_t \<Rightarrow> u64 \<Rightarrow> u64 \<Rightarrow> u64 \<Rightarrow> u64 \<Rightarrow> 'x market_scheme \<Rightarrow> 'x market_scheme option" where
  [code_eval]: "on_strategy_maker_fill report locate maker_ref qty pr s = do {
     s1 \<leftarrow> (case report of
             None \<Rightarrow> Some s
           | Some f \<Rightarrow> f \<lparr>fl_type = 0x45, fl_order_id = maker_ref, fl_exchange_ref = 0, fl_filled_qty = qty,
               fl_fill_price = sint pr\<rparr> s);
     unregister_if_gone locate maker_ref s1
   }"

text \<open>The engine's part of \<open>on_market_order\<close>; \<open>None\<close> inside for an event that is not an order.\<close>

definition engine_order :: "itch_event \<Rightarrow> engine \<Rightarrow> (response list \<times> engine) ptr option" where
  [code_eval]: "engine_order ev e =
     (let loc = ucast (it_locate ev); ref = it_order_ref ev in
      case it_type ev of
        IT_ADD \<Rightarrow> map_option Some (processAdd loc ref (it_side ev) (it_price ev) (it_shares ev) ref DAY [] e)
      | IT_DELETE \<Rightarrow> map_option Some (processCancel loc ref ref [] e)
      | IT_CANCEL \<Rightarrow> map_option Some (processCancelShares loc ref (it_shares ev) ref [] e)
      | IT_REPLACE \<Rightarrow> do {
          (old, e1) \<leftarrow> engine_find loc ref e;
          map_option Some (processReplace loc ref (it_new_order_ref ev) (case old of None \<Rightarrow> INVALID | Some o' \<Rightarrow> side o')
            (it_price ev) (it_shares ev) ref [] e1)
        }
      | IT_BOOK \<Rightarrow> Some None)"

text \<open>One response of the engine; \<open>taker_fill\<close> is what the incoming order has traded so far.\<close>

definition route_response ::
  "'x market_scheme sink_t \<Rightarrow> 'x market_scheme report_t \<Rightarrow> u64 \<Rightarrow> response \<Rightarrow> u64 \<times> 'x market_scheme \<Rightarrow>
   (u64 \<times> 'x market_scheme) option" where
  [code_eval]: "route_response sink report locate r st =
     (case st of (taker_fill, s) \<Rightarrow>
        (case r of
           RSP_TRADE _ maker_ref _ pr qty \<Rightarrow>
             (let s1 = s\<lparr>xs_trades := xs_trades s + 1\<rparr> in do {
                s2 \<leftarrow> (if is_strategy_order maker_ref s1
                       then on_strategy_maker_fill report locate maker_ref (ucast qty) (ucast pr) s1
                       else broadcast sink (make_execute locate maker_ref (ucast qty)) s1);
                Some (taker_fill + ucast qty, s2)
              })
         | _ \<Rightarrow> Some (taker_fill, s)))"

definition on_market_order ::
  "'x market_scheme sink_t \<Rightarrow> 'x market_scheme report_t \<Rightarrow> itch_event \<Rightarrow> 'x market_scheme \<Rightarrow> 'x market_scheme option" where
  [code_eval]: "on_market_order sink report ev s0 =
     (let s1 = s0\<lparr>xs_clock := xs_clock s0 + 1\<rparr> in do {
        answer \<leftarrow> engine_order ev (xs_engine s1);
        case answer of
          None \<Rightarrow> Some s1
        | Some (rsp, e) \<Rightarrow> do {
            let s2 = s1\<lparr>xs_engine := e\<rparr>;
            s3 \<leftarrow> broadcast sink (to_market_event ev s2) s2;
            (taker_fill, s4) \<leftarrow> foldo (route_response sink report (ucast (it_locate ev))) rsp (0, s3);
            if taker_fill > 0
            then broadcast sink (make_execute (ucast (it_locate ev))
                   (if it_type ev = IT_REPLACE then it_new_order_ref ev else it_order_ref ev) taker_fill) s4
            else Some s4
          }
      })"

section \<open>Orders of the strategies\<close>

text \<open>One response to a submitted order: the result so far, what it has traded, the state.\<close>

definition submit_response ::
  "'x market_scheme sink_t \<Rightarrow> u64 \<Rightarrow> u64 \<Rightarrow> response \<Rightarrow> submit_result \<times> u64 \<times> 'x market_scheme \<Rightarrow>
   (submit_result \<times> u64 \<times> 'x market_scheme) option" where
  [code_eval]: "submit_response sink symbol_id oid r st =
     (case st of (res, tot, s) \<Rightarrow>
        (case r of
           RSP_TRADE _ maker_ref _ pr qty \<Rightarrow> do {
             s1 \<leftarrow> broadcast sink (make_execute symbol_id maker_ref (ucast qty)) (s\<lparr>xs_trades := xs_trades s + 1\<rparr>);
             Some (res\<lparr>sr_accepted := True, sr_fills := sr_fills res @ [\<lparr>fl_type = 0x45, fl_order_id = oid,
               fl_exchange_ref = 0, fl_filled_qty = ucast qty, fl_fill_price = uint pr\<rparr>]\<rparr>, tot + ucast qty, s1)
           }
         | RSP_OK _ \<Rightarrow> Some (res\<lparr>sr_accepted := True\<rparr>, tot, s\<lparr>xs_strategy_refs := insert oid (xs_strategy_refs s)\<rparr>)
         | RSP_FILLED _ \<Rightarrow> Some (res\<lparr>sr_accepted := True\<rparr>, tot, s)
         | _ \<Rightarrow> Some (res, tot, s)))"

definition exchange_submit ::
  "'x market_scheme sink_t \<Rightarrow> core_order \<Rightarrow> u64 \<Rightarrow> order_tif \<Rightarrow> 'x market_scheme \<Rightarrow> (submit_result \<times> 'x market_scheme) option" where
  [code_eval]: "exchange_submit sink ord oid tif s0 =
     (let s1 = s0\<lparr>xs_clock := xs_clock s0 + 1\<rparr> in do {
        (rsp, e) \<leftarrow> processAdd (co_symbol_id ord) oid (if co_side ord = OS_BUY then BUY else SELL)
          (word_of_int (co_price ord)) (ucast (co_quantity ord)) kStrategyUserId tif [] (xs_engine s1);
        (res, tot, s2) \<leftarrow> foldo (submit_response sink (co_symbol_id ord) oid) rsp
          (\<lparr>sr_accepted = False, sr_fully_filled = False, sr_fills = []\<rparr>, 0, s1\<lparr>xs_engine := e\<rparr>);
        Some (res\<lparr>sr_fully_filled := (tot = co_quantity ord)\<rparr>, s2)
      })"

definition cancel_response ::
  "'x market_scheme report_t \<Rightarrow> u64 \<Rightarrow> response \<Rightarrow> 'x market_scheme \<Rightarrow> 'x market_scheme option" where
  [code_eval]: "cancel_response report oid r s =
     (let gone = (s\<lparr>xs_strategy_refs := xs_strategy_refs s - {oid}\<rparr>);
          told = (case report of
                    None \<Rightarrow> Some gone
                  | Some f \<Rightarrow> f \<lparr>fl_type = 0x43, fl_order_id = oid, fl_exchange_ref = 0, fl_filled_qty = 0,
                      fl_fill_price = 0\<rparr> gone) in
      case r of RSP_CANCELLED _ \<Rightarrow> told | RSP_OK _ \<Rightarrow> told | _ \<Rightarrow> Some s)"

definition exchange_cancel ::
  "'x market_scheme report_t \<Rightarrow> u64 \<Rightarrow> u64 \<Rightarrow> u64 \<Rightarrow> 'x market_scheme \<Rightarrow> 'x market_scheme option" where
  [code_eval]: "exchange_cancel report oid symbol_id uid s0 =
     (let s1 = s0\<lparr>xs_clock := xs_clock s0 + 1\<rparr> in do {
        (rsp, e) \<leftarrow> processCancel symbol_id oid uid [] (xs_engine s1);
        foldo (cancel_response report oid) rsp (s1\<lparr>xs_engine := e\<rparr>)
      })"

definition exchange_quote :: "u64 \<Rightarrow> 'x market_scheme \<Rightarrow> book_quote option \<times> 'x market_scheme" where
  [code_eval]: "exchange_quote symbol_id s =
     (case book_for symbol_id (xs_engine s) of
        (None, e) \<Rightarrow> (None, s\<lparr>xs_engine := e\<rparr>)
      | (Some b, e) \<Rightarrow>
          (let t = getTopOfBook b;
               q = \<lparr>bq_symbol_id = symbol_id, bq_bid = uint (bid_price t), bq_bid_vol = ucast (bid_volume t),
                 bq_ask = uint (ask_price t), bq_ask_vol = ucast (ask_volume t)\<rparr> in
           (if bq_bid q > 0 \<and> bq_ask q > 0 then Some q else None, s\<lparr>xs_engine := e\<rparr>)))"

section \<open>Execution engine and exchange together\<close>

text \<open>
  The two call each other: a fill reported to the execution engine may make it cancel orders, and a
  cancel is reported back. \<open>sim_exchange n\<close> allows \<open>n\<close> such rounds; one is enough, because the report of a
  cancel asks nothing of the exchange.
\<close>

fun sim_exchange :: "'x market_scheme sink_t \<Rightarrow> nat \<Rightarrow> 'x market_scheme exchange_if" where
  "sim_exchange sink 0 = \<lparr>if_submit = exchange_submit sink, if_cancel = (\<lambda>_ _ _ _. None), if_quote = exchange_quote\<rparr>"
| "sim_exchange sink (Suc n) = \<lparr>if_submit = exchange_submit sink,
     if_cancel = exchange_cancel (Some (on_order_report (Some (sim_exchange sink n)))), if_quote = exchange_quote\<rparr>"

declare sim_exchange.simps [code_eval]

definition the_exchange :: "'x market_scheme sink_t \<Rightarrow> 'x market_scheme exchange_if" where
  [code_eval]: "the_exchange sink = sim_exchange sink 1"

definition the_report :: "'x market_scheme sink_t \<Rightarrow> fill \<Rightarrow> 'x market_scheme \<Rightarrow> 'x market_scheme option" where
  [code_eval]: "the_report sink = on_order_report (Some (the_exchange sink))"

lemma report_cancel_any: "fl_type f = 0x43 \<Longrightarrow> on_order_report ex f s = on_order_report ex' f s"
  by (simp add: on_order_report_def cong: option.case_cong)

lemma cancel_response_any: "cancel_response (Some (on_order_report ex)) oid r s = cancel_response (Some (on_order_report ex')) oid r s"
  by (simp add: cancel_response_def report_cancel_any [of _ ex _ ex'] Let_def split: response.split)

lemma exchange_cancel_any: "exchange_cancel (Some (on_order_report ex)) = exchange_cancel (Some (on_order_report ex'))"
proof -
  have "cancel_response (Some (on_order_report ex)) = cancel_response (Some (on_order_report ex'))"
    by (intro ext) (rule cancel_response_any)
  then show ?thesis by (intro ext) (simp only: exchange_cancel_def)
qed

lemma sim_exchange_enough: "sim_exchange sink (Suc n) = the_exchange sink"
  by (simp add: the_exchange_def exchange_cancel_any [of "Some (sim_exchange sink n)" "Some (sim_exchange sink 0)", simplified])

end
