(* ===== verification/Strategy.thy ===== *)
theory Strategy
  imports Core_Types
begin

text \<open>
  The strategies and their vote: the weighted net vote (\<open>src/strategy/base/arbitrate.h\<close>), the order
  flow imbalance strategy (\<open>src/strategy/tick/order_flow_imbalance_strategy.h\<close>) and the order book
  imbalance strategy (\<open>src/strategy/tick/order_book_imbalance_strategy.h\<close>), with the context the
  framework hands them (\<open>src/strategy/base/strategy.h\<close>).
\<close>

section \<open>The vote\<close>

record arb_signal =
  as_side :: order_side
  as_locate :: u64
  as_strength :: int
  as_seq :: u64

record arb_decision =
  ad_act :: bool
  ad_dir :: order_side
  ad_locate :: u64
  ad_strength :: int
  ad_seq :: u64

definition no_decision :: arb_decision where
  [code_eval]: "no_decision = \<lparr>ad_act = False, ad_dir = OS_NONE, ad_locate = 0, ad_strength = 0, ad_seq = 0\<rparr>"

definition side_sign :: "order_side \<Rightarrow> int" where
  [code_eval]: "side_sign s = (case s of OS_BUY \<Rightarrow> 1 | OS_SELL \<Rightarrow> -1 | OS_NONE \<Rightarrow> 0)"

text \<open>\<open>sigs\<close> and \<open>weights_bp\<close> are the two arrays of length \<open>n\<close>.\<close>

definition arbitrate_decide :: "arb_signal list \<Rightarrow> int list \<Rightarrow> nat \<Rightarrow> int \<Rightarrow> arb_decision" where
  [code_eval]: "arbitrate_decide sigs weights_bp primary_idx threshold_bp =
     (if sigs = [] then no_decision
      else if primary_idx \<ge> length sigs then no_decision
      else
        let votes = zip sigs weights_bp;
            net_bp = fold (\<lambda>(s, w) net. add64 net (mul64 (side_sign (as_side s)) w)) votes 0;
            dir = (if net_bp > threshold_bp then OS_BUY
                   else if net_bp < sub64 0 threshold_bp then OS_SELL else OS_NONE) in
        if dir = OS_NONE then no_decision
        else
          let agree = filter (\<lambda>(s, w). as_side s = dir) votes;
              sum_w = fold (\<lambda>(s, w) t. add64 t w) agree 0;
              sum_sw = fold (\<lambda>(s, w) t. add64 t (mul64 (as_strength s) w)) agree 0 in
          \<lparr>ad_act = True, ad_dir = dir, ad_locate = as_locate (sigs ! primary_idx),
           ad_strength = (if sum_w > 0 then div64 sum_sw sum_w else 0),
           ad_seq = as_seq (sigs ! primary_idx)\<rparr>)"

text \<open>The vote over the integers.\<close>

definition net_vote :: "(arb_signal \<times> int) list \<Rightarrow> int" where
  "net_vote vs = sum_list (map (\<lambda>(s, w). side_sign (as_side s) * w) vs)"

definition weight_of :: "order_side \<Rightarrow> (arb_signal \<times> int) list \<Rightarrow> int" where
  "weight_of d vs = sum_list (map snd (filter (\<lambda>(s, w). as_side s = d) vs))"

definition strength_of :: "order_side \<Rightarrow> (arb_signal \<times> int) list \<Rightarrow> int" where
  "strength_of d vs = sum_list (map (\<lambda>(s, w). as_strength s * w) (filter (\<lambda>(s, w). as_side s = d) vs))"

lemma net_fold: "fold (\<lambda>(s, w) net. add64 net (mul64 (side_sign (as_side s)) w)) vs 0 = i64 (net_vote vs)"
proof -
  have "fold (\<lambda>(s, w) net. add64 net (mul64 (side_sign (as_side s)) w)) vs (i64 x) = i64 (x + net_vote vs)" for x
    by (induction vs arbitrary: x) (auto simp: net_vote_def add.assoc)
  from this [of 0] show ?thesis by (simp add: i64_def)
qed

lemma weight_fold: "fold (\<lambda>(s, w) t. add64 t w) vs 0 = i64 (sum_list (map snd vs))"
proof -
  have "fold (\<lambda>(s, w) t. add64 t w) vs (i64 x) = i64 (x + sum_list (map snd vs))" for x
    by (induction vs arbitrary: x) (auto simp: add.assoc)
  from this [of 0] show ?thesis by (simp add: i64_def)
qed

lemma strength_fold: "fold (\<lambda>(s, w) t. add64 t (mul64 (as_strength s) w)) vs 0 = i64 (sum_list (map (\<lambda>(s, w). as_strength s * w) vs))"
proof -
  have "fold (\<lambda>(s, w) t. add64 t (mul64 (as_strength s) w)) vs (i64 x) =
      i64 (x + sum_list (map (\<lambda>(s, w). as_strength s * w) vs))" for x
    by (induction vs arbitrary: x) (auto simp: add.assoc)
  from this [of 0] show ?thesis by (simp add: i64_def)
qed

lemma net_vote_split: "net_vote vs = weight_of OS_BUY vs - weight_of OS_SELL vs"
  by (induction vs) (auto simp: net_vote_def weight_of_def side_sign_def split: order_side.split)

lemma weight_nonneg: "\<forall>v\<in>set vs. 0 \<le> snd v \<Longrightarrow> 0 \<le> weight_of d vs"
  unfolding weight_of_def by (rule sum_list_nonneg) auto

text \<open>The decision with its sums, once they fit.\<close>

lemma arbitrate_eq:
  assumes "length weights = length sigs" "primary < length sigs"
    and "in_i64 (net_vote (zip sigs weights))" "0 \<le> th" "th < 2 ^ 63"
  defines "vs \<equiv> zip sigs weights"
  defines "dir \<equiv> (if net_vote vs > th then OS_BUY else if net_vote vs < - th then OS_SELL else OS_NONE)"
  shows "arbitrate_decide sigs weights primary th =
    (if dir = OS_NONE then no_decision
     else \<lparr>ad_act = True, ad_dir = dir, ad_locate = as_locate (sigs ! primary),
       ad_strength = (if i64 (weight_of dir vs) > 0 then div64 (i64 (strength_of dir vs)) (i64 (weight_of dir vs)) else 0),
       ad_seq = as_seq (sigs ! primary)\<rparr>)"
proof -
  have th: "sub64 0 th = - th" using assms(4,5) by (simp add: sub64_def in_i64_def)
  have ne: "sigs \<noteq> []" using assms(2) by auto
  show ?thesis
    using assms(2,3) ne
    by (simp add: arbitrate_decide_def Let_def net_fold weight_fold strength_fold th weight_of_def
        strength_of_def vs_def dir_def)
qed

definition sg_buy :: arb_signal where
  [code_eval]: "sg_buy = \<lparr>as_side = OS_BUY, as_locate = 7, as_strength = 9000, as_seq = 3\<rparr>"

definition sg_sell :: arb_signal where
  [code_eval]: "sg_sell = \<lparr>as_side = OS_SELL, as_locate = 7, as_strength = 4000, as_seq = 4\<rparr>"

text \<open>
  C28: The vote is decided by the net weight: an order is placed exactly when the weight of the
  buyers and that of the sellers differ by more than the threshold, in the direction of the
  heavier side, for the instrument of the primary strategy.
\<close>

theorem arbitrate_direction:
  assumes "length weights = length sigs" "primary < length sigs"
    and "in_i64 (weight_of OS_BUY (zip sigs weights) - weight_of OS_SELL (zip sigs weights))"
    and "0 \<le> th" "th < 2 ^ 63"
  shows "(ad_act (arbitrate_decide sigs weights primary th) \<longleftrightarrow>
      th < \<bar>weight_of OS_BUY (zip sigs weights) - weight_of OS_SELL (zip sigs weights)\<bar>) \<and>
    (ad_act (arbitrate_decide sigs weights primary th) \<longrightarrow>
      ad_dir (arbitrate_decide sigs weights primary th) =
        (if weight_of OS_SELL (zip sigs weights) < weight_of OS_BUY (zip sigs weights) then OS_BUY else OS_SELL) \<and>
      ad_locate (arbitrate_decide sigs weights primary th) = as_locate (sigs ! primary) \<and>
      ad_seq (arbitrate_decide sigs weights primary th) = as_seq (sigs ! primary)) \<and>
    (\<not> ad_act (arbitrate_decide sigs weights primary th) \<longrightarrow>
      arbitrate_decide sigs weights primary th = no_decision)"
proof -
  have n: "in_i64 (net_vote (zip sigs weights))" using assms(3) by (simp add: net_vote_split)
  show ?thesis
    unfolding arbitrate_eq [OF assms(1,2) n assms(4,5)] net_vote_split
    using assms(4) by (simp add: no_decision_def abs_if)
qed

lemma arbitrate_direction_witness:
  "ad_dir (arbitrate_decide [sg_buy, sg_sell] [15000, 10000] 0 0) = OS_BUY"
proof -
  have w: "weight_of OS_BUY (zip [sg_buy, sg_sell] [15000, 10000]) = 15000"
    "weight_of OS_SELL (zip [sg_buy, sg_sell] [15000, 10000]) = 10000"
    by (simp_all add: weight_of_def sg_buy_def sg_sell_def)
  show ?thesis
    using arbitrate_direction [of "[15000, 10000]" "[sg_buy, sg_sell]" 0 0] by (simp only: w) (simp add: in_i64_def)
qed

text \<open>
  The strength of a decision is a mean of the strengths that agree with it: with non-negative
  weights it lies between the smallest and the largest strength among the signals on the winning
  side, whatever the losing side says.
\<close>

theorem arbitrate_strength:
  assumes "length weights = length sigs" "primary < length sigs" "\<forall>w\<in>set weights. 0 \<le> w"
    and "0 \<le> th" "th < 2 ^ 63" "ad_act (arbitrate_decide sigs weights primary th)"
    and "0 \<le> lo" "1 \<le> hi" "hi * sum_list weights < 2 ^ 63"
    and "\<forall>s\<in>set sigs. as_side s = ad_dir (arbitrate_decide sigs weights primary th) \<longrightarrow> lo \<le> as_strength s \<and> as_strength s \<le> hi"
  shows "lo \<le> ad_strength (arbitrate_decide sigs weights primary th) \<and>
    ad_strength (arbitrate_decide sigs weights primary th) \<le> hi"
proof -
  let ?vs = "zip sigs weights"
  have nn: "\<forall>v\<in>set ?vs. 0 \<le> snd v" using assms(3) by (auto dest: set_zip_rightD)
  have tot: "weight_of OS_BUY ?vs + weight_of OS_SELL ?vs \<le> sum_list weights"
  proof -
    have "weight_of OS_BUY vs + weight_of OS_SELL vs \<le> sum_list (map snd vs)" if "\<forall>v\<in>set vs. 0 \<le> snd v" for vs
      using that by (induction vs) (auto simp: weight_of_def)
    from this [OF nn] show ?thesis using assms(1) by simp
  qed
  have W: "0 \<le> weight_of OS_BUY ?vs" "0 \<le> weight_of OS_SELL ?vs" by (rule weight_nonneg [OF nn])+
  have "1 * sum_list weights \<le> hi * sum_list weights"
    using assms(8) tot W by (intro mult_right_mono) linarith+
  then have T: "sum_list weights < 2 ^ 63" using assms(9) by (simp only: mult_1 le_less_trans)
  have n: "in_i64 (net_vote ?vs)" using T tot W by (simp add: net_vote_split in_i64_def)
  define dir where "dir = ad_dir (arbitrate_decide sigs weights primary th)"
  let ?w = "weight_of dir ?vs" and ?s = "strength_of dir ?vs"
  have eq: "ad_strength (arbitrate_decide sigs weights primary th) = (if i64 ?w > 0 then div64 (i64 ?s) (i64 ?w) else 0)"
    and pos: "0 < ?w" "?w \<le> sum_list weights"
    using assms(6,4) W tot unfolding dir_def arbitrate_eq [OF assms(1,2) n assms(4,5)] net_vote_split
    by (auto simp: no_decision_def split: if_splits)
  have "lo * ?w \<le> ?s \<and> ?s \<le> hi * ?w"
  proof -
    have "lo * weight_of dir vs \<le> strength_of dir vs \<and> strength_of dir vs \<le> hi * weight_of dir vs"
      if "\<forall>v\<in>set vs. 0 \<le> snd v \<and> (as_side (fst v) = dir \<longrightarrow> lo \<le> as_strength (fst v) \<and> as_strength (fst v) \<le> hi)" for vs
      using that by (induction vs) (auto simp: weight_of_def strength_of_def distrib_left mult_right_mono add_mono)
    moreover have "\<forall>v\<in>set ?vs. 0 \<le> snd v \<and> (as_side (fst v) = dir \<longrightarrow> lo \<le> as_strength (fst v) \<and> as_strength (fst v) \<le> hi)"
      using nn assms(10) unfolding dir_def [symmetric] by (auto dest: set_zip_leftD)
    ultimately show ?thesis by blast
  qed
  then have s: "lo * ?w \<le> ?s" "?s \<le> hi * ?w" by auto
  have "hi * ?w \<le> hi * sum_list weights" using pos(2) assms(8) by (intro mult_left_mono) auto
  then have "?s < 2 ^ 63" using s(2) assms(9) by linarith
  moreover have "0 \<le> lo * ?w" using assms(7) pos by simp
  ultimately have "i64 ?s = ?s" "0 \<le> ?s" "i64 ?w = ?w" using s pos T by auto
  moreover have d: "lo \<le> ?s div ?w" "?s div ?w \<le> hi"
    using zdiv_mono1 [OF s(1) pos(1)] zdiv_mono1 [OF s(2) pos(1)] pos by auto
  moreover have "hi < 2 ^ 63"
  proof -
    have "hi * 1 \<le> hi * sum_list weights" using pos assms(8) by (intro mult_left_mono) linarith+
    then show ?thesis using assms(9) by (simp only: mult_1_right le_less_trans)
  qed
  ultimately show ?thesis
    unfolding eq div64_def using pos assms(7) by (simp add: sdiv_nonneg)
qed

lemma arbitrate_strength_witness:
  "ad_strength (arbitrate_decide [sg_buy, sg_sell] [15000, 10000] 0 0) = 9000"
proof -
  have a: "ad_act (arbitrate_decide [sg_buy, sg_sell] [15000, 10000] 0 0)"
    "ad_dir (arbitrate_decide [sg_buy, sg_sell] [15000, 10000] 0 0) = OS_BUY"
    by (simp_all add: code_eval i64_def)
  show ?thesis
    using arbitrate_strength [of "[15000, 10000]" "[sg_buy, sg_sell]" 0 0 9000 9000] a
    by (simp add: sg_buy_def sg_sell_def)
qed

section \<open>Order flow imbalance\<close>

text \<open>
  The context of one event. \<open>cx_book\<close> says whether the book exists (the pointer is never
  dereferenced by a strategy).
\<close>

record book_context =
  cx_book :: bool
  cx_side :: order_side
  cx_mid :: int
  cx_bid :: int
  cx_bid_vol :: u64
  cx_ask :: int
  cx_ask_vol :: u64
  cx_seq :: u64

definition empty_context :: book_context where
  [code_eval]: "empty_context = \<lparr>cx_book = False, cx_side = OS_NONE, cx_mid = -1, cx_bid = -1, cx_bid_vol = 0,
     cx_ask = -1, cx_ask_vol = 0, cx_seq = 0\<rparr>"

definition kWindow :: nat where
  [code_eval]: "kWindow = 1024"

definition kSaturate :: int where
  [code_eval]: "kSaturate = 2"

record ofi_state =
  of_threshold :: int
  of_ofi :: int
  of_win :: "int list"
  of_widx :: u64
  of_current :: order_side
  of_locate :: u64
  of_last_price :: int
  of_last_ts :: u64
  of_strength :: int

definition ofi_new :: "int \<Rightarrow> ofi_state" where
  [code_eval]: "ofi_new th = \<lparr>of_threshold = th, of_ofi = 0, of_win = replicate kWindow 0, of_widx = 0,
     of_current = OS_NONE, of_locate = 0, of_last_price = 0, of_last_ts = 0, of_strength = 0\<rparr>"

definition ofi_reset :: "ofi_state \<Rightarrow> ofi_state" where
  [code_eval]: "ofi_reset s = s\<lparr>of_ofi := 0, of_current := OS_NONE, of_strength := 0,
     of_win := replicate (length (of_win s)) 0, of_widx := 0\<rparr>"

definition ofi_delta :: "market_event \<Rightarrow> order_side \<Rightarrow> int" where
  [code_eval]: "ofi_delta ev side =
     (let q = sint (me_qty ev) in
      case me_type ev of
        EV_ADD \<Rightarrow> if side = OS_BUY then q else sub64 0 q
      | EV_DELETE \<Rightarrow> if side = OS_BUY then sub64 0 q else q
      | EV_CANCEL \<Rightarrow> if side = OS_BUY then sub64 0 q else q
      | EV_REPLACE \<Rightarrow> if side = OS_BUY then q else sub64 0 q
      | EV_EXECUTE \<Rightarrow> if side = OS_BUY then sub64 0 q else q
      | EV_TRADE \<Rightarrow> if side = OS_BUY then sub64 0 q else q)"

text \<open>The write to the ring: while it fills, nothing leaves; afterwards the oldest entry does.\<close>

definition ofi_push :: "int \<Rightarrow> ofi_state \<Rightarrow> ofi_state" where
  [code_eval]: "ofi_push delta s =
     (let s1 = (if unat (of_widx s) < kWindow then s\<lparr>of_win := (of_win s)[unat (of_widx s) := delta]\<rparr>
                else let i = unat (of_widx s) mod kWindow in
                     s\<lparr>of_ofi := sub64 (of_ofi s) (of_win s ! i), of_win := (of_win s)[i := delta]\<rparr>) in
      s1\<lparr>of_ofi := add64 (of_ofi s1) delta, of_widx := of_widx s1 + 1\<rparr>)"

definition ofi_signal :: "ofi_state \<Rightarrow> ofi_state" where
  [code_eval]: "ofi_signal s =
     (let cur = (if of_ofi s > of_threshold s then OS_BUY
                 else if of_ofi s < sub64 0 (of_threshold s) then OS_SELL else OS_NONE);
          mag = (if of_ofi s > 0 then of_ofi s else sub64 0 (of_ofi s));
          over = sub64 mag (of_threshold s);
          span = mul64 (of_threshold s) (kSaturate - 1) in
      s\<lparr>of_current := cur,
        of_strength := (if cur = OS_NONE then 0
                        else if over \<ge> span then kStrengthScale
                        else div64 (mul64 over kStrengthScale) span)\<rparr>)"

definition ofi_on_event :: "market_event \<Rightarrow> order_side \<Rightarrow> ofi_state \<Rightarrow> ofi_state" where
  [code_eval]: "ofi_on_event ev side s =
     ofi_signal (ofi_push (ofi_delta ev side) (s\<lparr>of_locate := me_locate ev, of_last_ts := me_timestamp ev\<rparr>))"

definition ofi_on_market :: "market_event \<Rightarrow> book_context \<Rightarrow> ofi_state \<Rightarrow> ofi_state" where
  [code_eval]: "ofi_on_market ev ctx s =
     (let s1 = (if cx_side ctx \<noteq> OS_NONE then ofi_on_event ev (cx_side ctx) s else s) in
      if cx_bid ctx \<ge> 0 \<and> cx_ask ctx \<ge> 0 then s1\<lparr>of_last_price := cx_mid ctx\<rparr> else s1)"

definition ofi_get_signal :: "ofi_state \<Rightarrow> signal" where
  [code_eval]: "ofi_get_signal s = \<lparr>sg_side = of_current s, sg_locate = of_locate s, sg_price = of_last_price s,
     sg_timestamp = of_last_ts s, sg_strength = of_strength s\<rparr>"

text \<open>The last \<open>n\<close> elements of a list.\<close>

definition lastn :: "nat \<Rightarrow> 'a list \<Rightarrow> 'a list" where
  "lastn n xs = drop (length xs - n) xs"

text \<open>
  What the ring holds after the deltas \<open>ds\<close>: cell \<open>i\<close> has the latest delta whose position is \<open>i\<close>
  modulo the window, and \<open>ofi_\<close> the sum of the last \<open>kWindow\<close> ones.
\<close>

definition ring_ok :: "int list \<Rightarrow> ofi_state \<Rightarrow> bool" where
  "ring_ok ds s \<longleftrightarrow> length (of_win s) = kWindow \<and> unat (of_widx s) = length ds \<and>
     of_ofi s = i64 (sum_list (lastn kWindow ds)) \<and>
     (\<forall>j<length ds. length ds \<le> j + kWindow \<longrightarrow> of_win s ! (j mod kWindow) = ds ! j)"

lemma lastn_snoc_small: "length ds < n \<Longrightarrow> lastn n (ds @ [d]) = lastn n ds @ [d]"
  by (simp add: lastn_def)

lemma lastn_snoc_full:
  assumes "n \<le> length ds" "0 < n"
  shows "sum_list (lastn n (ds @ [d])) = sum_list (lastn n ds) - ds ! (length ds - n) + (d :: int)"
proof -
  have "drop (length ds - n) ds = ds ! (length ds - n) # drop (Suc (length ds - n)) ds"
    using assms by (intro Cons_nth_drop_Suc [symmetric]) auto
  moreover have "Suc (length ds - n) = Suc (length ds) - n" using assms by auto
  ultimately show ?thesis using assms by (simp add: lastn_def)
qed

lemma mod_window_neq:
  fixes j n w :: nat
  assumes "j < n" "n < j + w"
  shows "j mod w \<noteq> n mod w"
proof
  assume "j mod w = n mod w"
  then have "w dvd n - j" using assms(1) by (metis mod_eq_dvd_iff_nat less_imp_le)
  then show False using assms by (auto dest: dvd_imp_le)
qed

lemma ring_push:
  assumes r: "ring_ok ds s" and n: "Suc (length ds) < 2 ^ 64"
  shows "ring_ok (ds @ [d]) (ofi_push d s)"
proof -
  have l: "length (of_win s) = kWindow" and w: "unat (of_widx s) = length ds"
    and o': "of_ofi s = i64 (sum_list (lastn kWindow ds))"
    and c: "\<And>j. j < length ds \<Longrightarrow> length ds \<le> j + kWindow \<Longrightarrow> of_win s ! (j mod kWindow) = ds ! j"
    using r by (simp_all add: ring_ok_def)
  have w1: "unat (of_widx s + 1) = Suc (length ds)"
    using unat_plus64 [of "of_widx s" 1] n w by simp
  show ?thesis
  proof (cases "length ds < kWindow")
    case True
    then show ?thesis
      using l w w1 o' c by (auto simp: ring_ok_def ofi_push_def Let_def nth_append nth_list_update lastn_snoc_small)
  next
    case False
    have kw: "0 < kWindow" by (simp add: kWindow_def)
    have "(length ds - kWindow) mod kWindow = length ds mod kWindow"
      using False by (metis le_mod_geq not_le)
    then have old: "of_win s ! (length ds mod kWindow) = ds ! (length ds - kWindow)"
      using c [of "length ds - kWindow"] False kw by simp
    have i: "length ds mod kWindow < kWindow" using kw by simp
    have ne: "j mod kWindow \<noteq> length ds mod kWindow" if "j < length ds" "Suc (length ds) \<le> j + kWindow" for j
      using that by (intro mod_window_neq) auto
    have "of_win (ofi_push d s) ! (j mod kWindow) = (ds @ [d]) ! j"
      if "j < Suc (length ds)" "Suc (length ds) \<le> j + kWindow" for j
    proof (cases "j = length ds")
      case True
      then show ?thesis using False w l i by (simp add: ofi_push_def Let_def)
    next
      case ff: False
      then show ?thesis using ne [of j] c [of j] that False w l i by (simp add: ofi_push_def Let_def nth_append)
    qed
    moreover have "of_ofi (ofi_push d s) = i64 (sum_list (lastn kWindow (ds @ [d])))"
      using False w o' old kw by (simp add: ofi_push_def Let_def lastn_snoc_full)
    ultimately show ?thesis
      using False l w w1 by (simp add: ring_ok_def) (simp add: ofi_push_def Let_def)
  qed
qed

text \<open>The deltas that the gate lets through: events whose side is known.\<close>

definition fed :: "(market_event \<times> book_context) list \<Rightarrow> int list" where
  "fed evs = map (\<lambda>(ev, c). ofi_delta ev (cx_side c)) (filter (\<lambda>(ev, c). cx_side c \<noteq> OS_NONE) evs)"

definition ofi_run :: "(market_event \<times> book_context) list \<Rightarrow> ofi_state \<Rightarrow> ofi_state" where
  "ofi_run evs s = fold (\<lambda>(ev, c). ofi_on_market ev c) evs s"

lemma ring_ok_fields [simp]:
  "ring_ok ds (ofi_signal s) = ring_ok ds s"
  "ring_ok ds (s\<lparr>of_locate := a, of_last_ts := b\<rparr>) = ring_ok ds s"
  "ring_ok ds (s\<lparr>of_last_price := p\<rparr>) = ring_ok ds s"
  by (simp_all add: ring_ok_def ofi_signal_def Let_def)

lemma ring_market:
  assumes "ring_ok ds s" "length ds + length (fed [(ev, c)]) < 2 ^ 64"
  shows "ring_ok (ds @ fed [(ev, c)]) (ofi_on_market ev c s)"
  using assms by (auto simp: ofi_on_market_def ofi_on_event_def Let_def fed_def intro!: ring_push)

lemma ring_run:
  "ring_ok ds s \<Longrightarrow> length ds + length (fed evs) < 2 ^ 64 \<Longrightarrow> ring_ok (ds @ fed evs) (ofi_run evs s)"
proof (induction evs arbitrary: ds s)
  case (Cons x evs)
  obtain ev c where x: "x = (ev, c)" by (cases x)
  have f: "fed (x # evs) = fed [(ev, c)] @ fed evs" by (simp add: fed_def x)
  have "ring_ok (ds @ fed [(ev, c)]) (ofi_on_market ev c s)"
    by (rule ring_market) (use Cons.prems f in auto)
  from Cons.IH [OF this] show ?case using Cons.prems(2) f by (simp add: ofi_run_def x)
qed (simp add: ofi_run_def fed_def)

lemma ring_new: "ring_ok [] (ofi_new th)"
  by (simp add: ring_ok_def ofi_new_def lastn_def i64_def)

text \<open>What the signal step computes, for a positive threshold.\<close>

lemma ofi_signal_value:
  assumes "0 < of_threshold s" "of_threshold s * 10000 < 2 ^ 63" "- (2 ^ 63) < of_ofi s" "of_ofi s < 2 ^ 63"
  shows "of_current (ofi_signal s) = (if of_threshold s < of_ofi s then OS_BUY
      else if of_ofi s < - of_threshold s then OS_SELL else OS_NONE) \<and>
    of_strength (ofi_signal s) = (if \<bar>of_ofi s\<bar> \<le> of_threshold s then 0
      else min 10000 ((\<bar>of_ofi s\<bar> - of_threshold s) * 10000 div of_threshold s))"
proof -
  let ?t = "of_threshold s" and ?o = "of_ofi s"
  have t: "sub64 0 ?t = - ?t" "mul64 ?t (kSaturate - 1) = ?t"
    using assms(1,2) by (simp_all add: sub64_def mul64_def kSaturate_def in_i64_def)
  have m: "(if ?o > 0 then ?o else sub64 0 ?o) = \<bar>?o\<bar>"
    using assms(3,4) by (auto simp: sub64_def in_i64_def)
  have v: "sub64 \<bar>?o\<bar> ?t = \<bar>?o\<bar> - ?t"
    using assms by (auto simp: sub64_def in_i64_def abs_if)
  have "div64 (mul64 d 10000) ?t = d * 10000 div ?t \<and> d * 10000 div ?t \<le> 10000" if d: "0 \<le> d" "d < ?t" for d
  proof -
    have "d * 10000 < 2 ^ 63" using d assms(2) by simp
    then have ml: "mul64 d 10000 = d * 10000" using d by (simp add: mul64_def)
    have "d * 10000 div ?t \<le> ?t * 10000 div ?t" using d assms(1) by (intro zdiv_mono1) auto
    then have le: "d * 10000 div ?t \<le> 10000" using assms(1) by simp
    have "0 \<le> d * 10000 div ?t" using d assms(1) by (simp add: pos_imp_zdiv_nonneg_iff)
    then show ?thesis using le ml d assms(1) by (simp add: div64_def sdiv_nonneg)
  qed
  note dv = this [of "\<bar>?o\<bar> - ?t"]
  have full: "?t \<le> d \<Longrightarrow> 10000 \<le> d * 10000 div ?t" for d
    using assms(1) zdiv_mono1 [of "?t * 10000" "d * 10000" ?t] by simp
  show ?thesis
    using t m v dv full [of "\<bar>?o\<bar> - ?t"] assms(1)
    by (auto simp: ofi_signal_def Let_def kStrengthScale_def min_def)
qed

definition sig_ok :: "ofi_state \<Rightarrow> bool" where
  "sig_ok s \<longleftrightarrow> of_current s = of_current (ofi_signal s) \<and> of_strength s = of_strength (ofi_signal s)"

lemma ofi_signal_keeps [simp]: "of_threshold (ofi_signal s) = of_threshold s" "of_ofi (ofi_signal s) = of_ofi s"
  by (simp_all add: ofi_signal_def Let_def)

lemma sig_ok_signal [simp]: "sig_ok (ofi_signal s)"
  by (simp add: sig_ok_def) (simp add: ofi_signal_def Let_def)

lemma sig_ok_price [simp]: "sig_ok (s\<lparr>of_last_price := p\<rparr>) = sig_ok s"
  by (simp add: sig_ok_def) (simp add: ofi_signal_def Let_def)

lemma sig_ok_run: "sig_ok s \<Longrightarrow> sig_ok (ofi_run evs s)"
proof (induction evs arbitrary: s)
  case (Cons x evs)
  obtain ev c where x: "x = (ev, c)" by (cases x)
  have "sig_ok (ofi_on_market ev c s)"
    using Cons.prems by (simp add: ofi_on_market_def ofi_on_event_def Let_def)
  from Cons.IH [OF this] show ?case by (simp add: x ofi_run_def)
qed (simp add: ofi_run_def)

lemma ofi_run_threshold [simp]: "of_threshold (ofi_run evs s) = of_threshold s"
proof (induction evs arbitrary: s)
  case (Cons x evs)
  obtain ev c where x: "x = (ev, c)" by (cases x)
  have "of_threshold (ofi_on_market ev c s) = of_threshold s"
    by (simp add: ofi_on_market_def ofi_on_event_def ofi_push_def Let_def)
  then show ?case using Cons.IH [of "ofi_on_market ev c s"] by (simp add: x ofi_run_def)
qed (simp add: ofi_run_def)

lemma sig_ok_new: "0 \<le> th \<Longrightarrow> th < 2 ^ 63 \<Longrightarrow> sig_ok (ofi_new th)"
  by (auto simp: sig_ok_def ofi_new_def ofi_signal_def Let_def sub64_def in_i64_def)

definition add_event :: "u64 \<Rightarrow> market_event" where
  [code_eval]: "add_event q = \<lparr>me_type = EV_ADD, me_seq_id = 0, me_locate = 7, me_timestamp = 1, me_side = OS_BUY,
     me_price = 50, me_qty = q, me_order_ref = 1, me_new_order_ref = 0\<rparr>"

text \<open>
  C29: The order flow signal is a function of the last \<open>kWindow\<close> contributions: after any stream
  of events, the direction is the sign of their net sum once it exceeds the threshold, and the
  strength rises linearly from 0 at the threshold to the full scale at twice the threshold.
\<close>

theorem ofi_tracks_window:
  assumes "0 < th" "th * 10000 < 2 ^ 63" "length (fed evs) < 2 ^ 64"
    and "- (2 ^ 63) < sum_list (lastn kWindow (fed evs))" "sum_list (lastn kWindow (fed evs)) < 2 ^ 63"
  shows "sg_side (ofi_get_signal (ofi_run evs (ofi_new th))) =
      (if th < sum_list (lastn kWindow (fed evs)) then OS_BUY
       else if sum_list (lastn kWindow (fed evs)) < - th then OS_SELL else OS_NONE) \<and>
    sg_strength (ofi_get_signal (ofi_run evs (ofi_new th))) =
      (if \<bar>sum_list (lastn kWindow (fed evs))\<bar> \<le> th then 0
       else min 10000 ((\<bar>sum_list (lastn kWindow (fed evs))\<bar> - th) * 10000 div th))"
proof -
  let ?s = "ofi_run evs (ofi_new th)" and ?n = "sum_list (lastn kWindow (fed evs))"
  have th: "of_threshold ?s = th" by (simp add: ofi_new_def)
  have "ring_ok ([] @ fed evs) ?s" by (rule ring_run [OF ring_new]) (use assms(3) in simp)
  then have "of_ofi ?s = i64 ?n" by (simp add: ring_ok_def)
  then have o': "of_ofi ?s = ?n" using assms(4,5) by (simp add: in_i64_def)
  have "sig_ok ?s" by (rule sig_ok_run [OF sig_ok_new]) (use assms in auto)
  then have "of_current ?s = of_current (ofi_signal ?s)" "of_strength ?s = of_strength (ofi_signal ?s)"
    by (simp_all only: sig_ok_def)
  then show ?thesis
    using ofi_signal_value [of ?s, unfolded th o', OF assms(1,2,4,5)] by (simp add: ofi_get_signal_def)
qed

lemma ofi_tracks_window_witness:
  "sg_side (ofi_get_signal (ofi_run [(add_event 800, empty_context\<lparr>cx_side := OS_BUY\<rparr>)] (ofi_new 500))) = OS_BUY \<and>
   sg_strength (ofi_get_signal (ofi_run [(add_event 800, empty_context\<lparr>cx_side := OS_BUY\<rparr>)] (ofi_new 500))) = 6000"
proof -
  have f: "fed [(add_event 800, empty_context\<lparr>cx_side := OS_BUY\<rparr>)] = [800]"
    by (simp add: fed_def ofi_delta_def add_event_def)
  show ?thesis
    using ofi_tracks_window [of 500 "[(add_event 800, empty_context\<lparr>cx_side := OS_BUY\<rparr>)]", unfolded f]
    by (simp add: lastn_def kWindow_def)
qed

section \<open>Order book imbalance\<close>

text \<open>
  The threshold is the integer \<open>(int64_t)(threshold_ * kStrengthScale)\<close> that every call derives
  from the constant floating point threshold.
\<close>

record obi_state =
  ob_th :: int
  obi_current :: order_side
  obi_locate :: u64
  obi_bid_price :: int
  obi_ask_price :: int
  obi_timestamp :: u64
  obi_strength :: int

definition obi_new :: "int \<Rightarrow> obi_state" where
  [code_eval]: "obi_new th = \<lparr>ob_th = th, obi_current = OS_NONE, obi_locate = 0, obi_bid_price = 0,
     obi_ask_price = 0, obi_timestamp = 0, obi_strength = 0\<rparr>"

definition obi_value :: "u64 \<Rightarrow> u64 \<Rightarrow> int" where
  [code_eval]: "obi_value bid_vol ask_vol =
     div64 (mul64 (sint (bid_vol - ask_vol)) kStrengthScale) (sint (bid_vol + ask_vol))"

definition on_book :: "u64 \<Rightarrow> int \<Rightarrow> u64 \<Rightarrow> int \<Rightarrow> u64 \<Rightarrow> u64 \<Rightarrow> obi_state \<Rightarrow> obi_state" where
  [code_eval]: "on_book locate bid_price bid_vol ask_price ask_vol timestamp s0 =
     (let s = s0\<lparr>obi_locate := locate, obi_bid_price := bid_price, obi_ask_price := ask_price, obi_timestamp := timestamp\<rparr> in
      if bid_vol + ask_vol = 0 then s\<lparr>obi_current := OS_NONE, obi_strength := 0\<rparr>
      else
        let obi = obi_value bid_vol ask_vol;
            th = ob_th s;
            mag = (if obi > 0 then obi else sub64 0 obi) in
        s\<lparr>obi_current := (if obi > th then OS_BUY else if obi < sub64 0 th then OS_SELL else OS_NONE),
          obi_strength := (if mag \<ge> th then kStrengthScale else div64 (mul64 mag kStrengthScale) (add64 th 1))\<rparr>)"

definition obi_on_market :: "market_event \<Rightarrow> book_context \<Rightarrow> obi_state \<Rightarrow> obi_state" where
  [code_eval]: "obi_on_market ev ctx s =
     (if \<not> cx_book ctx then s
      else on_book (me_locate ev) (cx_bid ctx) (cx_bid_vol ctx) (cx_ask ctx) (cx_ask_vol ctx) (me_timestamp ev) s)"

definition obi_get_signal :: "obi_state \<Rightarrow> signal" where
  [code_eval]: "obi_get_signal s = \<lparr>sg_side = obi_current s, sg_locate = obi_locate s,
     sg_price = (if obi_current s = OS_BUY then obi_bid_price s else obi_ask_price s),
     sg_timestamp = obi_timestamp s, sg_strength = obi_strength s\<rparr>"

lemma sint_minus_small:
  fixes a b :: u64
  assumes "unat a < 2 ^ 63" "unat b < 2 ^ 63"
  shows "sint (a - b) = int (unat a) - int (unat b)"
proof -
  have s: "sint a = int (unat a)" "sint b = int (unat b)" using assms by (simp_all only: sint_small)
  have "sint (a - b) = signed_take_bit 63 (sint a - sint b)"
    by (simp add: sint_word_ariths)
  also have "\<dots> = sint a - sint b"
    unfolding s using assms by (intro signed_take_bit_int_eq_self) (simp_all del: of_nat_unat)
  finally show ?thesis by (simp only: s)
qed

lemma obi_value_int:
  fixes a b :: u64
  assumes "unat a < 2 ^ 48" "unat b < 2 ^ 48" "0 < unat a + unat b"
  defines "A \<equiv> int (unat a)" and "B \<equiv> int (unat b)"
  shows "obi_value a b = sgn (A - B) * (\<bar>A - B\<bar> * 10000 div (A + B)) \<and>
    0 \<le> \<bar>A - B\<bar> * 10000 div (A + B) \<and> \<bar>A - B\<bar> * 10000 div (A + B) \<le> 10000"
proof -
  have r: "0 \<le> A" "A < 2 ^ 48" "0 \<le> B" "B < 2 ^ 48" "0 < A + B"
    using assms(1-3) unfolding A_def B_def by (simp_all del: of_nat_unat) linarith
  have "unat (a + b) = unat a + unat b" using assms(1,2) by (intro unat_plus64) simp
  then have ab: "sint (a + b) = A + B" "sint (a - b) = A - B"
    using assms(1,2) by (simp_all add: sint_minus_small A_def B_def del: of_nat_unat)
  have "\<bar>A - B\<bar> * 10000 div (A + B) \<le> (A + B) * 10000 div (A + B)"
    using r by (intro zdiv_mono1) (auto simp: abs_if)
  also have "(A + B) * 10000 div (A + B) = 10000" using r by (intro nonzero_mult_div_cancel_left) auto
  finally have b: "\<bar>A - B\<bar> * 10000 div (A + B) \<le> 10000" .
  have b0: "0 \<le> \<bar>A - B\<bar> * 10000 div (A + B)" using r by (simp add: pos_imp_zdiv_nonneg_iff)
  have "mul64 (A - B) 10000 = (A - B) * 10000"
    unfolding mul64_def using r by (intro i64_id) (auto simp: in_i64_def)
  moreover have "(A - B) * 10000 sdiv (A + B) = sgn (A - B) * (\<bar>A - B\<bar> * 10000 div (A + B))"
    unfolding signed_divide_int_def abs_mult sgn_mult using r by simp
  moreover have "in_i64 (sgn (A - B) * (\<bar>A - B\<bar> * 10000 div (A + B)))"
    using b b0 by (cases "A - B" "0 :: int" rule: linorder_cases) (auto simp: in_i64_def)
  ultimately show ?thesis using b b0 by (simp add: obi_value_def ab kStrengthScale_def div64_def)
qed

lemma less_div_iff:
  assumes "0 < (c :: int)"
  shows "t < x div c \<longleftrightarrow> (t + 1) * c \<le> x"
proof
  assume "t < x div c"
  then have "(t + 1) * c \<le> x div c * c" using assms by (intro mult_right_mono) auto
  also have "\<dots> \<le> x" using assms div_mult_mod_eq [of x c] pos_mod_sign [of c x] by linarith
  finally show "(t + 1) * c \<le> x" .
next
  assume "(t + 1) * c \<le> x"
  then have "(t + 1) * c div c \<le> x div c" using assms by (intro zdiv_mono1) auto
  then show "t < x div c" using assms by simp
qed

text \<open>The imbalance exceeds a threshold; the other side is the same with the volumes exchanged.\<close>

lemma obi_exceeds:
  fixes A B th :: int
  assumes c: "0 < A + B" and th: "0 \<le> th"
  shows "sgn (A - B) * (\<bar>A - B\<bar> * 10000 div (A + B)) > th \<longleftrightarrow> (th + 1) * (A + B) \<le> (A - B) * 10000"
proof (cases "0 < A - B")
  case True
  then show ?thesis using less_div_iff [OF c, of th] by (simp only: sgn_pos abs_of_pos mult_1)
next
  case False
  have "0 \<le> \<bar>A - B\<bar> * 10000 div (A + B)" using c by (simp add: pos_imp_zdiv_nonneg_iff)
  then have "sgn (A - B) * (\<bar>A - B\<bar> * 10000 div (A + B)) \<le> 0" using False by (cases "A = B") (auto simp: sgn_if)
  moreover have "(A - B) * 10000 \<le> 0" using False by simp
  moreover have "0 < (th + 1) * (A + B)" using th c by (intro mult_pos_pos) auto
  ultimately show ?thesis using th by linarith
qed

lemma obi_signal:
  assumes "unat bv < 2 ^ 48" "unat av < 2 ^ 48" "0 < unat bv + unat av" "0 \<le> ob_th s" "ob_th s < 2 ^ 62"
  defines "o' \<equiv> obi_value bv av"
  shows "obi_current (on_book loc bp bv ap av t s) = (if o' > ob_th s then OS_BUY else if - o' > ob_th s then OS_SELL else OS_NONE)"
    "obi_strength (on_book loc bp bv ap av t s) = (if \<bar>o'\<bar> \<ge> ob_th s then 10000 else div64 (mul64 \<bar>o'\<bar> 10000) (ob_th s + 1))"
proof -
  have "unat (bv + av) = unat bv + unat av" using assms(1,2) by (intro unat_plus64) simp
  then have nz: "bv + av \<noteq> 0" using assms(3) by (metis unat_0 less_irrefl)
  have th: "sub64 0 (ob_th s) = - ob_th s" "add64 (ob_th s) 1 = ob_th s + 1"
    using assms(4,5) by (simp_all add: sub64_def add64_def in_i64_def)
  have m: "(if o' > 0 then o' else sub64 0 o') = \<bar>o'\<bar>"
    using obi_value_int [OF assms(1-3)] unfolding o'_def
    by (cases "int (unat bv) - int (unat av)" "0 :: int" rule: linorder_cases) (auto simp: sub64_def in_i64_def)
  show "obi_current (on_book loc bp bv ap av t s) = (if o' > ob_th s then OS_BUY else if - o' > ob_th s then OS_SELL else OS_NONE)"
    using nz by (simp add: o'_def on_book_def Let_def th less_minus_iff)
  show "obi_strength (on_book loc bp bv ap av t s) = (if \<bar>o'\<bar> \<ge> ob_th s then 10000 else div64 (mul64 \<bar>o'\<bar> 10000) (ob_th s + 1))"
    using nz m [unfolded o'_def] by (simp add: o'_def on_book_def Let_def th kStrengthScale_def)
qed

lemma obi_below_full:
  fixes x th :: int
  assumes "0 \<le> x" "x < th" "x \<le> 10000"
  shows "0 \<le> div64 (mul64 x 10000) (th + 1) \<and> div64 (mul64 x 10000) (th + 1) \<le> 10000"
proof -
  have "mul64 x 10000 = x * 10000" using assms by (simp add: mul64_def)
  moreover have "(th + 1) * 10000 div (th + 1) = 10000" using assms by (intro nonzero_mult_div_cancel_left) auto
  moreover have "x * 10000 div (th + 1) \<le> (th + 1) * 10000 div (th + 1)" using assms by (intro zdiv_mono1) auto
  moreover have "0 \<le> x * 10000 div (th + 1)" using assms by (simp add: pos_imp_zdiv_nonneg_iff)
  ultimately show ?thesis using assms by (simp add: div64_def sdiv_nonneg)
qed

text \<open>
  C30: The book imbalance signal compares volumes only: it is a buy exactly when the bid volume
  exceeds the ask volume by more than the threshold's share of their sum, a sell in the mirrored
  case. Whenever there is a direction the strength is the full scale (the comment speaks of the
  part above the threshold), and it never leaves the scale.
\<close>

theorem obi_compares_volumes:
  assumes "unat bv < 2 ^ 48" "unat av < 2 ^ 48" "0 < unat bv + unat av" "0 \<le> ob_th s" "ob_th s < 2 ^ 62"
  shows "(obi_current (on_book loc bp bv ap av t s) = OS_BUY \<longleftrightarrow>
      (ob_th s + 1) * (int (unat bv) + int (unat av)) \<le> (int (unat bv) - int (unat av)) * 10000) \<and>
    (obi_current (on_book loc bp bv ap av t s) = OS_SELL \<longleftrightarrow>
      (ob_th s + 1) * (int (unat bv) + int (unat av)) \<le> (int (unat av) - int (unat bv)) * 10000) \<and>
    (obi_current (on_book loc bp bv ap av t s) \<noteq> OS_NONE \<longrightarrow> obi_strength (on_book loc bp bv ap av t s) = 10000) \<and>
    0 \<le> obi_strength (on_book loc bp bv ap av t s) \<and> obi_strength (on_book loc bp bv ap av t s) \<le> 10000"
proof -
  let ?A = "int (unat bv)" and ?B = "int (unat av)" and ?o = "obi_value bv av" and ?r = "on_book loc bp bv ap av t s"
  note sig = obi_signal [OF assms, of loc bp ap t]
  have o': "?o = sgn (?A - ?B) * (\<bar>?A - ?B\<bar> * 10000 div (?A + ?B))" "\<bar>?o\<bar> \<le> 10000"
    using obi_value_int [OF assms(1-3)] by (auto simp: abs_mult abs_sgn_eq)
  have c: "0 < ?A + ?B" "0 < ?B + ?A" using assms(3) by linarith+
  have buy: "?o > ob_th s \<longleftrightarrow> (ob_th s + 1) * (?A + ?B) \<le> (?A - ?B) * 10000"
    unfolding o'(1) by (rule obi_exceeds [OF c(1) assms(4)])
  have "sgn (?B - ?A) = - sgn (?A - ?B)" by (metis minus_diff_eq sgn_minus)
  then have "- ?o = sgn (?B - ?A) * (\<bar>?B - ?A\<bar> * 10000 div (?B + ?A))"
    unfolding o'(1) by (simp add: add.commute abs_minus_commute)
  then have sell: "- ?o > ob_th s \<longleftrightarrow> (ob_th s + 1) * (?A + ?B) \<le> (?B - ?A) * 10000"
    using obi_exceeds [OF c(2) assms(4)] by (simp only: add.commute [of ?A])
  have "obi_current ?r = OS_BUY \<longleftrightarrow> ?o > ob_th s" "obi_current ?r = OS_SELL \<longleftrightarrow> - ?o > ob_th s"
    "obi_current ?r \<noteq> OS_NONE \<longrightarrow> \<bar>?o\<bar> \<ge> ob_th s"
    using assms(4) unfolding sig(1) by auto
  then show ?thesis unfolding buy sell using sig(2) obi_below_full [of "\<bar>?o\<bar>" "ob_th s"] o'(2) by (simp add: not_le)
qed

lemma obi_compares_volumes_witness:
  "obi_current (on_book 7 100 900 101 100 5 (obi_new 3000)) = OS_BUY \<and>
   obi_strength (on_book 7 100 900 101 100 5 (obi_new 3000)) = 10000"
  using obi_compares_volumes [of 900 100 "obi_new 3000" 7 100 101 5] by (simp add: obi_new_def)

end
