(* ===== verification/Doubles.thy ===== *)
theory Doubles
  imports Prelude "HOL-Library.Log_Nat"
begin

text \<open>
  The type \<open>double\<close> of C++: the finite numbers of IEEE 754 binary64 as rationals, every operation
  rounded to nearest, ties to even, with 53 bits and gradual underflow. There is no overflow to
  infinity and no sign of zero; the code divides by positive numbers only, and none of its results
  comes near the largest double.
\<close>

type_synonym double = rat

section \<open>Rounding\<close>

text \<open>Evaluation on numerals.\<close>

lemma bitlen_numeral [code_eval]:
  "bitlen (numeral (num.Bit0 n)) = bitlen (numeral n) + 1"
  "bitlen (numeral (num.Bit1 n)) = bitlen (numeral n) + 1"
  "bitlen 1 = 1" "bitlen (numeral num.One) = 1"
  using compute_bitlen [of "numeral (num.Bit0 n)"] compute_bitlen [of "numeral (num.Bit1 n)"] compute_bitlen [of 1] by simp_all

lemma floor_quotient [code_eval]:
  "\<lfloor>numeral a / numeral b :: rat\<rfloor> = numeral a div numeral b" "\<lfloor>1 / numeral b :: rat\<rfloor> = 1 div numeral b"
  "\<lceil>numeral a / numeral b :: rat\<rceil> = - (- numeral a div numeral b)" "\<lceil>1 / numeral b :: rat\<rceil> = - (- 1 div numeral b)"
  using floor_divide_of_int_eq [where 'a = rat, of "numeral a" "numeral b"] floor_divide_of_int_eq [where 'a = rat, of 1 "numeral b"]
    floor_divide_of_int_eq [where 'a = rat, of "- numeral a" "numeral b"] floor_divide_of_int_eq [where 'a = rat, of "- 1" "numeral b"]
  by (simp_all add: ceiling_def)

definition pow2 :: "int \<Rightarrow> rat" where
  [code_eval]: "pow2 e = (if 0 \<le> e then 2 ^ nat e else 1 / 2 ^ nat (- e))"

text \<open>The binary exponent \<open>e\<close> of \<open>x > 0\<close>: \<open>2^e \<le> x < 2^(e+1)\<close>.\<close>

definition binade :: "rat \<Rightarrow> int" where
  [code_eval]: "binade x = (if 1 \<le> x then bitlen \<lfloor>x\<rfloor> - 1 else - bitlen (\<lceil>1 / x\<rceil> - 1))"

text \<open>The exponent of the last of the 53 bits.\<close>

definition last_bit :: "rat \<Rightarrow> int" where
  [code_eval]: "last_bit x = max (- 1074) (binade x - 52)"

definition half_even :: "rat \<Rightarrow> int" where
  [code_eval]: "half_even y =
     (let f = \<lfloor>y\<rfloor>; r = y - of_int f in
      if r < 1 / 2 then f else if r > 1 / 2 then f + 1 else if even f then f else f + 1)"

definition rnd :: "rat \<Rightarrow> double" where
  [code_eval]: "rnd x = (if x = 0 then 0 else let e = last_bit \<bar>x\<bar> in of_int (half_even (x / pow2 e)) * pow2 e)"

lemma pow2_pos [simp]: "0 < pow2 e"
  by (simp add: pow2_def)

lemma pow2_add: "pow2 (a + b) = pow2 a * pow2 b"
proof -
  have "pow2 e = 2 powi e" for e by (simp add: pow2_def power_int_def inverse_eq_divide power_one_over)
  then show ?thesis by (simp add: power_int_add)
qed

lemma pow2_mono: "a \<le> b \<Longrightarrow> pow2 a \<le> pow2 b"
proof -
  assume "a \<le> b"
  then have "1 \<le> pow2 (b - a)" by (simp add: pow2_def)
  then show ?thesis using pow2_add [of a "b - a"] mult_left_mono [of 1 "pow2 (b - a)" "pow2 a"] by (simp add: less_imp_le)
qed

lemma binade_le:
  assumes "0 < x"
  shows "pow2 (binade x) \<le> x"
proof (cases "1 \<le> x")
  case True
  then have "0 < \<lfloor>x\<rfloor>" by simp
  then have "2 ^ nat (bitlen \<lfloor>x\<rfloor> - 1) \<le> \<lfloor>x\<rfloor>" "0 < bitlen \<lfloor>x\<rfloor>"
    using bitlen_bounds [of "\<lfloor>x\<rfloor>"] bitlen_eq_zero_iff [of "\<lfloor>x\<rfloor>"] bitlen_nonneg [of "\<lfloor>x\<rfloor>"] by linarith+
  then have "rat_of_int (2 ^ nat (bitlen \<lfloor>x\<rfloor> - 1)) \<le> of_int \<lfloor>x\<rfloor>" by (simp only: of_int_le_iff)
  then show ?thesis using True \<open>0 < bitlen \<lfloor>x\<rfloor>\<close> by (simp add: binade_def pow2_def le_floor_iff)
next
  case False
  let ?n = "\<lceil>1 / x\<rceil> - 1"
  have "1 < 1 / x" using False assms by (simp add: field_simps)
  then have "0 < ?n" by linarith
  then have b: "?n < 2 ^ nat (bitlen ?n)" "0 < bitlen ?n"
    using bitlen_bounds [of ?n] bitlen_eq_zero_iff [of ?n] bitlen_nonneg [of ?n] by linarith+
  then have "\<lceil>1 / x\<rceil> \<le> 2 ^ nat (bitlen ?n)" by linarith
  then have "1 / x \<le> of_int (2 ^ nat (bitlen ?n))" by (simp only: ceiling_le_iff)
  then have "1 / x \<le> 2 ^ nat (bitlen ?n)" by simp
  then show ?thesis using False assms b(2) by (simp add: binade_def pow2_def field_simps)
qed

lemma binade_less:
  assumes "0 < x"
  shows "x < pow2 (binade x + 1)"
proof (cases "1 \<le> x")
  case True
  then have "0 < \<lfloor>x\<rfloor>" by simp
  then have b: "\<lfloor>x\<rfloor> < 2 ^ nat (bitlen \<lfloor>x\<rfloor>)" using bitlen_bounds [of "\<lfloor>x\<rfloor>"] by simp
  then have "x < of_int (2 ^ nat (bitlen \<lfloor>x\<rfloor>))" by (simp only: floor_less_iff)
  then show ?thesis using True bitlen_nonneg [of "\<lfloor>x\<rfloor>"] by (simp add: binade_def pow2_def)
next
  case False
  let ?n = "\<lceil>1 / x\<rceil> - 1"
  have "1 < 1 / x" using False assms by (simp add: field_simps)
  then have "0 < ?n" by linarith
  then have b: "2 ^ nat (bitlen ?n - 1) \<le> ?n" "0 < bitlen ?n"
    using bitlen_bounds [of ?n] bitlen_eq_zero_iff [of ?n] bitlen_nonneg [of ?n] by linarith+
  then have "rat_of_int (2 ^ nat (bitlen ?n - 1)) \<le> of_int ?n" by (simp only: of_int_le_iff)
  moreover have "rat_of_int ?n < 1 / x" by linarith
  ultimately have a: "2 ^ nat (bitlen ?n - 1) < 1 / x" by simp
  have "pow2 (- (bitlen ?n - 1)) = 1 / 2 ^ nat (bitlen ?n - 1)"
    using b(2) by (cases "bitlen ?n = 1") (auto simp: pow2_def)
  moreover have "x < 1 / 2 ^ nat (bitlen ?n - 1)" using a assms by (simp add: field_simps)
  ultimately have "x < pow2 (- (bitlen ?n - 1))" by simp
  then show ?thesis using False by (simp add: binade_def algebra_simps)
qed

text \<open>The distance of a rounded number: half of the last place.\<close>

lemma half_even_error: "\<bar>of_int (half_even y) - y\<bar> \<le> 1 / 2"
proof -
  have "of_int \<lfloor>y\<rfloor> \<le> y" "y < of_int \<lfloor>y\<rfloor> + 1" by linarith+
  then show ?thesis by (auto simp: half_even_def Let_def abs_le_iff)
qed

lemma half_even_le: "y \<le> of_int c \<Longrightarrow> half_even y \<le> c"
proof -
  assume a: "y \<le> of_int c"
  have f: "of_int \<lfloor>y\<rfloor> \<le> y" "\<lfloor>y\<rfloor> \<le> c" using a by linarith+
  show ?thesis
  proof (cases "\<lfloor>y\<rfloor> = c")
    case True
    then have "y = of_int c" using a f(1) by simp
    then show ?thesis by (simp add: half_even_def)
  next
    case False
    then show ?thesis using f(2) by (auto simp: half_even_def Let_def)
  qed
qed

lemma half_even_ge: "of_int c \<le> y \<Longrightarrow> c \<le> half_even y"
proof -
  assume "of_int c \<le> y"
  then have "c \<le> \<lfloor>y\<rfloor>" by (simp add: le_floor_iff)
  then show ?thesis by (auto simp: half_even_def Let_def)
qed

lemma half_even_int: "half_even (of_int c) = c"
  by (simp add: half_even_def)

lemma rnd_error:
  assumes "pow2 (- 1022) \<le> \<bar>x\<bar>"
  shows "\<bar>rnd x - x\<bar> \<le> \<bar>x\<bar> / 2 ^ 53"
proof -
  let ?e = "last_bit \<bar>x\<bar>"
  have x: "x \<noteq> 0" using assms pow2_pos [of "- 1022"] by (metis abs_zero not_less)
  have "pow2 ?e \<le> \<bar>x\<bar> / 2 ^ 52"
  proof (cases "- 1074 \<le> binade \<bar>x\<bar> - 52")
    case True
    then have "pow2 ?e * 2 ^ 52 = pow2 (binade \<bar>x\<bar>)"
      using pow2_add [of "binade \<bar>x\<bar> - 52" 52] by (simp add: last_bit_def max_def pow2_def [of 52])
    then show ?thesis using binade_le [of "\<bar>x\<bar>"] x by (simp add: field_simps)
  next
    case False
    then have "pow2 ?e = pow2 (- 1074)" by (simp add: last_bit_def max_def)
    moreover have "pow2 (- 1074) * 2 ^ 52 = pow2 (- 1022)" using pow2_add [of "- 1074" 52] by (simp add: pow2_def [of 52])
    ultimately show ?thesis using assms by (simp add: field_simps)
  qed
  moreover have "\<bar>rnd x - x\<bar> \<le> pow2 ?e / 2"
  proof -
    have "rnd x - x = (of_int (half_even (x / pow2 ?e)) - x / pow2 ?e) * pow2 ?e"
      using x by (simp add: rnd_def Let_def field_simps less_imp_neq [OF pow2_pos, symmetric])
    then have "\<bar>rnd x - x\<bar> = \<bar>of_int (half_even (x / pow2 ?e)) - x / pow2 ?e\<bar> * pow2 ?e"
      by (simp add: abs_mult less_imp_le)
    then show ?thesis using half_even_error [of "x / pow2 ?e"] mult_right_mono [of _ "1 / 2" "pow2 ?e"] by (simp add: less_imp_le)
  qed
  ultimately show ?thesis by simp
qed

lemma rnd_nonneg: "0 \<le> x \<Longrightarrow> 0 \<le> rnd x"
  using half_even_ge [of 0 "x / pow2 (last_bit \<bar>x\<bar>)"] by (auto simp: rnd_def Let_def less_imp_le)

text \<open>Rounding keeps the integers of at most 53 bits and does not cross them.\<close>

lemma last_bit_small:
  assumes "0 < x" "x < 2 ^ 53"
  shows "x / pow2 (last_bit x) = x * 2 ^ nat (- last_bit x)" "pow2 (last_bit x) * 2 ^ nat (- last_bit x) = 1"
proof -
  have "last_bit x \<le> 0"
  proof (cases "1 \<le> x")
    case True
    have "\<lfloor>x\<rfloor> < 2 ^ 53" using assms by (simp add: floor_less_iff)
    then have "bitlen \<lfloor>x\<rfloor> \<le> 53" by (simp add: bitlen_le_iff_power)
    then show ?thesis using True by (simp add: last_bit_def binade_def)
  next
    case False
    then show ?thesis using bitlen_nonneg [of "\<lceil>1 / x\<rceil> - 1"] by (simp add: last_bit_def binade_def)
  qed
  then have "pow2 (last_bit x) = 1 / 2 ^ nat (- last_bit x)" by (simp add: pow2_def)
  then show "x / pow2 (last_bit x) = x * 2 ^ nat (- last_bit x)" "pow2 (last_bit x) * 2 ^ nat (- last_bit x) = 1" by simp_all
qed

lemma rnd_int:
  assumes "0 \<le> c" "c < 2 ^ 53"
  shows "rnd (of_int c) = of_int c"
proof (cases "c = 0")
  case False
  then have "rat_of_int c < of_int (2 ^ 53)" using assms(2) by (simp only: of_int_less_iff)
  then have p: "0 < rat_of_int c" "rat_of_int c < 2 ^ 53" using False assms(1) by simp_all
  let ?k = "2 ^ nat (- last_bit (rat_of_int c)) :: int"
  have "rat_of_int c / pow2 (last_bit (of_int c)) = of_int (c * ?k)" using last_bit_small(1) [OF p] by simp
  moreover have "half_even (of_int (c * ?k)) = c * ?k" by (rule half_even_int)
  ultimately have "rnd (of_int c) = of_int (c * ?k) * pow2 (last_bit (of_int c))"
    using False assms(1) by (simp add: rnd_def Let_def)
  also have "\<dots> = of_int c * (pow2 (last_bit (of_int c)) * of_int ?k)" by (simp add: ac_simps)
  also have "\<dots> = of_int c" using last_bit_small(2) [OF p] by simp
  finally show ?thesis .
qed (simp add: rnd_def)

lemma rnd_le_int:
  assumes "0 \<le> x" "x \<le> of_int c" "c < 2 ^ 53"
  shows "rnd x \<le> of_int c"
proof (cases "x = 0")
  case False
  let ?e = "last_bit x"
  have "rat_of_int c < of_int (2 ^ 53)" using assms(3) by (simp only: of_int_less_iff)
  then have x: "0 < x" "x < 2 ^ 53" using False assms by simp_all
  note p = last_bit_small [OF x]
  have "x / pow2 ?e \<le> of_int (c * 2 ^ nat (- ?e))" using p(1) assms(2) by simp
  then have "half_even (x / pow2 ?e) \<le> c * 2 ^ nat (- ?e)" by (rule half_even_le)
  then have "rat_of_int (half_even (x / pow2 ?e)) \<le> of_int (c * 2 ^ nat (- ?e))" by (simp only: of_int_le_iff)
  then have "of_int (half_even (x / pow2 ?e)) * pow2 ?e \<le> of_int (c * 2 ^ nat (- ?e)) * pow2 ?e"
    by (rule mult_right_mono) (simp add: less_imp_le)
  also have "\<dots> = of_int c" using p(2) by (simp add: mult.assoc mult.commute)
  finally show ?thesis using x(1) by (simp add: rnd_def Let_def)
qed (use assms in \<open>simp add: rnd_def\<close>)

section \<open>Operations\<close>

definition dadd :: "double \<Rightarrow> double \<Rightarrow> double" where
  [code_eval]: "dadd x y = rnd (x + y)"

definition dsub :: "double \<Rightarrow> double \<Rightarrow> double" where
  [code_eval]: "dsub x y = rnd (x - y)"

definition dmul :: "double \<Rightarrow> double \<Rightarrow> double" where
  [code_eval]: "dmul x y = rnd (x * y)"

definition ddiv :: "double \<Rightarrow> double \<Rightarrow> double" where
  [code_eval]: "ddiv x y = rnd (x / y)"

text \<open>Conversions from an integer type, and the truncating conversion to one.\<close>

definition of_int64 :: "int \<Rightarrow> double" where
  [code_eval]: "of_int64 i = rnd (of_int i)"

definition to_int64 :: "double \<Rightarrow> int" where
  [code_eval]: "to_int64 x = (if 0 \<le> x then \<lfloor>x\<rfloor> else \<lceil>x\<rceil>)"

text \<open>
  The square root, correctly rounded: the root of \<open>y = x / 4^e\<close> has 53 bits before the point;
  \<open>root_bits\<close> finds its integer part bit by bit.
\<close>

fun root_bits :: "nat \<Rightarrow> rat \<Rightarrow> int \<Rightarrow> int" where
  "root_bits 0 y r = r"
| "root_bits (Suc k) y r = (let r' = r + 2 ^ k in root_bits k y (if of_int (r' * r') \<le> y then r' else r))"

declare root_bits.simps [code_eval]

lemma root_bits_numeral [code_eval]:
  "root_bits (numeral v) y r =
     (let r' = r + 2 ^ pred_numeral v in root_bits (pred_numeral v) y (if of_int (r' * r') \<le> y then r' else r))"
  by (simp add: numeral_eq_Suc)

definition dsqrt :: "double \<Rightarrow> double" where
  [code_eval]: "dsqrt x =
     (if x \<le> 0 then 0
      else let e = binade x div 2 - 52; y = x / pow2 (2 * e); n = root_bits 53 y 0;
               h = of_int n + 1 / 2 in
           of_int (if y < h * h then n else if y > h * h then n + 1 else if even n then n else n + 1) * pow2 e)"

lemma root_bits_ok:
  assumes "0 \<le> r" "of_int (r * r) \<le> y" "y < of_int ((r + 2 ^ k) * (r + 2 ^ k))"
  shows "0 \<le> root_bits k y r \<and> of_int (root_bits k y r * root_bits k y r) \<le> y \<and>
    y < of_int ((root_bits k y r + 1) * (root_bits k y r + 1))"
  using assms
proof (induction k arbitrary: r)
  case (Suc k)
  let ?r = "r + 2 ^ k"
  have e: "r + 2 ^ Suc k = ?r + 2 ^ k" by simp
  show ?case
  proof (cases "of_int (?r * ?r) \<le> y")
    case True
    then show ?thesis using Suc.IH [of ?r] Suc.prems unfolding e by (simp add: Let_def)
  next
    case False
    then show ?thesis using Suc.IH [of r] Suc.prems by (simp add: Let_def not_le)
  qed
qed simp

text \<open>The result is a multiple of the last place nearest to the root.\<close>

lemma dsqrt_nearest:
  assumes "0 < x"
  shows "\<exists>n. 0 \<le> n \<and> dsqrt x = of_int n * pow2 (binade x div 2 - 52) \<and>
    (0 < n \<longrightarrow> (of_int n - 1 / 2)\<^sup>2 \<le> x / pow2 (2 * (binade x div 2 - 52))) \<and>
    x / pow2 (2 * (binade x div 2 - 52)) \<le> (of_int n + 1 / 2)\<^sup>2"
proof -
  let ?e = "binade x div 2 - 52"
  let ?y = "x / pow2 (2 * ?e)"
  let ?n = "root_bits 53 ?y 0"
  have "b + 1 \<le> 2 * (b div 2 - 52) + 106" for b :: int by presburger
  then have le: "binade x + 1 \<le> 2 * ?e + 106" .
  have "x < pow2 (2 * ?e + 106)" using binade_less [OF assms] pow2_mono [OF le] by linarith
  then have "x < pow2 106 * pow2 (2 * ?e)" unfolding pow2_add by (simp add: mult.commute)
  then have "?y < pow2 106" by (simp add: divide_less_eq)
  then have "?y < of_int ((0 + 2 ^ 53) * (0 + 2 ^ 53))" by (simp add: pow2_def)
  then have n: "0 \<le> ?n" "of_int (?n * ?n) \<le> ?y" "?y < of_int ((?n + 1) * (?n + 1))"
    using root_bits_ok [of 0 ?y 53] assms by (simp_all add: less_imp_le)
  have low: "(rat_of_int ?n - 1 / 2)\<^sup>2 \<le> of_int (?n * ?n)" if "0 < ?n"
  proof -
    have "1 \<le> rat_of_int ?n" using that by linarith
    then show ?thesis by (simp add: power2_eq_square algebra_simps)
  qed
  define n where "n = ?n"
  define h where "h = rat_of_int n + 1 / 2"
  have s: "dsqrt x = of_int (if ?y < h * h then n else if ?y > h * h then n + 1 else if even n then n else n + 1) * pow2 ?e"
    using assms by (simp add: dsqrt_def Let_def n_def h_def)
  have up: "?y \<le> (of_int (n + 1) + 1 / 2)\<^sup>2" using n(1,3)
    by (simp add: power2_eq_square algebra_simps n_def)
  show ?thesis
  proof (cases "?y < h * h \<or> ?y = h * h \<and> even n")
    case True
    then have "dsqrt x = of_int n * pow2 ?e" using s by auto
    moreover have "?y \<le> h\<^sup>2" using True by (auto simp: power2_eq_square)
    moreover have "(of_int n - 1 / 2)\<^sup>2 \<le> ?y" if "0 < n" using low that n(2) unfolding n_def by linarith
    ultimately show ?thesis using n(1) unfolding h_def n_def by blast
  next
    case False
    then have "dsqrt x = of_int (n + 1) * pow2 ?e" using s by auto
    moreover have "(of_int (n + 1) - 1 / 2)\<^sup>2 \<le> ?y"
    proof -
      have "rat_of_int (n + 1) - 1 / 2 = h" by (simp add: h_def)
      then show ?thesis using False by (auto simp: power2_eq_square not_less)
    qed
    moreover have "0 \<le> n + 1" using n(1) by (simp add: n_def)
    ultimately show ?thesis using up by blast
  qed
qed

end
