(* ===== verification/Config.thy ===== *)
theory Config
  imports Doubles
begin

text \<open>
  The configuration (\<open>src/core/config.h\<close>) and its loader (\<open>src/core/config_loader.cpp\<close>). The YAML library
  is a parameter: the operations of \<open>YAML::Node\<close> the loader calls, each of which may throw.
\<close>

section \<open>Data\<close>

record market_config =
  mc_type :: string
  mc_host :: string
  mc_port :: u16
  mc_backend :: string
  mc_ifname :: string
  mc_vdev :: string
  mc_eal_args :: "string list"
  mc_uring_entries :: u32
  mc_ring_bytes :: nat
  mc_chan_slots :: nat

record order_book_config =
  oc_enabled :: bool
  oc_pool_slots :: nat
  oc_workers :: nat

record strategy_config =
  sc_strategies :: "string list"
  sc_primary :: string
  sc_weights_bp :: "string \<rightharpoonup> int"
  sc_vote_threshold_bp :: int

record risk_config =
  kc_max_position :: u64
  kc_max_daily_loss :: int
  kc_initial_equity :: int
  kc_max_drawdown_pause :: int
  kc_max_drawdown_flatten :: int

record execution_config =
  xc_base_qty :: u64
  xc_order_port :: u16
  xc_order_ret_port :: u16
  xc_idle_timeout_sec :: u32

record replay_section =
  pc_file :: string
  pc_segment_size :: nat
  pc_max_messages :: nat
  pc_order_id_base :: u64

record analysis_config =
  ac_out_dir :: string

record config =
  cfg_market :: market_config
  cfg_order_book :: order_book_config
  cfg_strategy :: strategy_config
  cfg_risk :: risk_config
  cfg_execution :: execution_config
  cfg_replay :: replay_section
  cfg_analysis :: analysis_config

text \<open>The member initializers.\<close>

definition default_market :: market_config where
  [code_eval]: "default_market = \<lparr>mc_type = ''itch'', mc_host = ''127.0.0.1'', mc_port = 8080, mc_backend = ''io_uring'',
     mc_ifname = [], mc_vdev = [], mc_eal_args = [], mc_uring_entries = 256, mc_ring_bytes = 2 ^ 22, mc_chan_slots = 2 ^ 20\<rparr>"

definition default_order_book :: order_book_config where
  [code_eval]: "default_order_book = \<lparr>oc_enabled = True, oc_pool_slots = 2 ^ 20, oc_workers = 4\<rparr>"

definition default_strategy :: strategy_config where
  [code_eval]: "default_strategy = \<lparr>sc_strategies = [''ofi'', ''obi''], sc_primary = ''ofi'', sc_weights_bp = Map.empty,
     sc_vote_threshold_bp = 0\<rparr>"

definition default_risk :: risk_config where
  [code_eval]: "default_risk = \<lparr>kc_max_position = 10000, kc_max_daily_loss = 10000000000, kc_initial_equity = 10000000000,
     kc_max_drawdown_pause = 500000000, kc_max_drawdown_flatten = 1000000000\<rparr>"

definition default_execution :: execution_config where
  [code_eval]: "default_execution = \<lparr>xc_base_qty = 100, xc_order_port = 9090, xc_order_ret_port = 9091, xc_idle_timeout_sec = 3\<rparr>"

definition default_replay :: replay_section where
  [code_eval]: "default_replay = \<lparr>pc_file = ''test_data/itch_sample.bin'', pc_segment_size = 1000, pc_max_messages = 0,
     pc_order_id_base = 100000000000\<rparr>"

definition default_analysis :: analysis_config where
  [code_eval]: "default_analysis = \<lparr>ac_out_dir = ''results''\<rparr>"

definition default_config :: config where
  [code_eval]: "default_config = \<lparr>cfg_market = default_market, cfg_order_book = default_order_book,
     cfg_strategy = default_strategy, cfg_risk = default_risk, cfg_execution = default_execution,
     cfg_replay = default_replay, cfg_analysis = default_analysis\<rparr>"

text \<open>The settings the simulator reads.\<close>

abbreviation cf_pool_slots :: "config \<Rightarrow> nat" where "cf_pool_slots c \<equiv> oc_pool_slots (cfg_order_book c)"
abbreviation cf_workers :: "config \<Rightarrow> nat" where "cf_workers c \<equiv> oc_workers (cfg_order_book c)"
abbreviation cf_max_position :: "config \<Rightarrow> u64" where "cf_max_position c \<equiv> kc_max_position (cfg_risk c)"
abbreviation cf_max_daily_loss :: "config \<Rightarrow> int" where "cf_max_daily_loss c \<equiv> kc_max_daily_loss (cfg_risk c)"
abbreviation cf_initial_equity :: "config \<Rightarrow> int" where "cf_initial_equity c \<equiv> kc_initial_equity (cfg_risk c)"
abbreviation cf_max_drawdown_pause :: "config \<Rightarrow> int" where "cf_max_drawdown_pause c \<equiv> kc_max_drawdown_pause (cfg_risk c)"
abbreviation cf_max_drawdown_flatten :: "config \<Rightarrow> int" where "cf_max_drawdown_flatten c \<equiv> kc_max_drawdown_flatten (cfg_risk c)"
abbreviation cf_base_qty :: "config \<Rightarrow> u64" where "cf_base_qty c \<equiv> xc_base_qty (cfg_execution c)"
abbreviation cf_segment_size :: "config \<Rightarrow> nat" where "cf_segment_size c \<equiv> pc_segment_size (cfg_replay c)"
abbreviation cf_max_messages :: "config \<Rightarrow> nat" where "cf_max_messages c \<equiv> pc_max_messages (cfg_replay c)"
abbreviation cf_order_id_base :: "config \<Rightarrow> u64" where "cf_order_id_base c \<equiv> pc_order_id_base (cfg_replay c)"

section \<open>The YAML library\<close>

datatype yaml_exception = BadFile | ParserException | BadSubscript | BadConversion

text \<open>
  \<open>LoadFile\<close>; \<open>n[key]\<close> together with the test that the node is defined (\<open>None\<close>: it is not); iteration over
  a sequence and over a map; \<open>as<T>\<close> for the types the loader asks for (\<open>size_t\<close> as \<open>uint64_t\<close>).
\<close>

record 'n yaml =
  y_load :: "string \<Rightarrow> yaml_exception + 'n"
  y_get :: "'n \<Rightarrow> string \<Rightarrow> yaml_exception + 'n option"
  y_items :: "'n \<Rightarrow> 'n list"
  y_pairs :: "'n \<Rightarrow> ('n \<times> 'n) list"
  y_string :: "'n \<Rightarrow> yaml_exception + string"
  y_strings :: "'n \<Rightarrow> yaml_exception + string list"
  y_bool :: "'n \<Rightarrow> yaml_exception + bool"
  y_u16 :: "'n \<Rightarrow> yaml_exception + u16"
  y_u32 :: "'n \<Rightarrow> yaml_exception + u32"
  y_u64 :: "'n \<Rightarrow> yaml_exception + u64"
  y_i64 :: "'n \<Rightarrow> yaml_exception + int"
  y_double :: "'n \<Rightarrow> yaml_exception + double"

section \<open>Loading\<close>

text \<open>An exception ends the computation.\<close>

definition attempt :: "'e + 'a \<Rightarrow> ('a \<Rightarrow> 'e + 'b) \<Rightarrow> 'e + 'b" where
  [code_eval]: "attempt x f = (case x of Inl e \<Rightarrow> Inl e | Inr a \<Rightarrow> f a)"

primrec in_order :: "('c \<Rightarrow> 'e + 'c) list \<Rightarrow> 'c \<Rightarrow> 'e + 'c" where
  "in_order [] c = Inr c"
| "in_order (f # fs) c = attempt (f c) (in_order fs)"

declare in_order.simps [code_eval]

text \<open>\<open>if (n[key]) field = n[key].as<T>();\<close> and \<open>if (auto n = rt[key]) { ... }\<close>.\<close>

definition setting :: "'n yaml \<Rightarrow> 'n \<Rightarrow> string \<Rightarrow> ('n \<Rightarrow> yaml_exception + 'a) \<Rightarrow> ('a \<Rightarrow> 'c \<Rightarrow> 'c) \<Rightarrow> 'c \<Rightarrow> yaml_exception + 'c" where
  [code_eval]: "setting y n key conv put c =
     attempt (y_get y n key) (\<lambda>v. case v of None \<Rightarrow> Inr c | Some m \<Rightarrow> attempt (conv m) (\<lambda>a. Inr (put a c)))"

definition group :: "'n yaml \<Rightarrow> 'n \<Rightarrow> string \<Rightarrow> ('n \<Rightarrow> 'c \<Rightarrow> yaml_exception + 'c) \<Rightarrow> 'c \<Rightarrow> yaml_exception + 'c" where
  [code_eval]: "group y rt key load_group c =
     attempt (y_get y rt key) (\<lambda>v. case v of None \<Rightarrow> Inr c | Some n \<Rightarrow> load_group n c)"

primrec push_args :: "'n yaml \<Rightarrow> 'n list \<Rightarrow> market_config \<Rightarrow> yaml_exception + market_config" where
  "push_args y [] c = Inr c"
| "push_args y (a # as) c = attempt (y_string y a) (\<lambda>s. push_args y as (c\<lparr>mc_eal_args := mc_eal_args c @ [s]\<rparr>))"

declare push_args.simps [code_eval]

definition load_market :: "'n yaml \<Rightarrow> 'n \<Rightarrow> market_config \<Rightarrow> yaml_exception + market_config" where
  [code_eval]: "load_market y n = in_order
    [setting y n ''type'' (y_string y) (\<lambda>v c. c\<lparr>mc_type := v\<rparr>),
     setting y n ''host'' (y_string y) (\<lambda>v c. c\<lparr>mc_host := v\<rparr>),
     setting y n ''port'' (y_u16 y) (\<lambda>v c. c\<lparr>mc_port := v\<rparr>),
     setting y n ''backend'' (y_string y) (\<lambda>v c. c\<lparr>mc_backend := v\<rparr>),
     setting y n ''ifname'' (y_string y) (\<lambda>v c. c\<lparr>mc_ifname := v\<rparr>),
     setting y n ''vdev'' (y_string y) (\<lambda>v c. c\<lparr>mc_vdev := v\<rparr>),
     group y n ''eal_args'' (\<lambda>m c. push_args y (y_items y m) (c\<lparr>mc_eal_args := []\<rparr>)),
     setting y n ''uring_entries'' (y_u32 y) (\<lambda>v c. c\<lparr>mc_uring_entries := v\<rparr>),
     setting y n ''ring_bytes'' (y_u64 y) (\<lambda>v c. c\<lparr>mc_ring_bytes := unat v\<rparr>),
     setting y n ''chan_slots'' (y_u64 y) (\<lambda>v c. c\<lparr>mc_chan_slots := unat v\<rparr>)]"

definition load_order_book :: "'n yaml \<Rightarrow> 'n \<Rightarrow> order_book_config \<Rightarrow> yaml_exception + order_book_config" where
  [code_eval]: "load_order_book y n = in_order
    [setting y n ''enabled'' (y_bool y) (\<lambda>v c. c\<lparr>oc_enabled := v\<rparr>),
     setting y n ''pool_slots'' (y_u64 y) (\<lambda>v c. c\<lparr>oc_pool_slots := unat v\<rparr>),
     setting y n ''workers'' (y_u64 y) (\<lambda>v c. c\<lparr>oc_workers := unat v\<rparr>)]"

text \<open>\<open>(int64_t)(w * 10000.0)\<close>: a weight in units of a ten-thousandth.\<close>

definition to_bp :: "double \<Rightarrow> int" where
  [code_eval]: "to_bp w = to_int64 (dmul w 10000)"

primrec load_weights :: "'n yaml \<Rightarrow> ('n \<times> 'n) list \<Rightarrow> strategy_config \<Rightarrow> yaml_exception + strategy_config" where
  "load_weights y [] c = Inr c"
| "load_weights y (kv # kvs) c = attempt (y_string y (fst kv)) (\<lambda>name. attempt (y_double y (snd kv)) (\<lambda>w.
     load_weights y kvs (c\<lparr>sc_weights_bp := (sc_weights_bp c)(name \<mapsto> to_bp w)\<rparr>)))"

declare load_weights.simps [code_eval]

definition load_strategy :: "'n yaml \<Rightarrow> 'n \<Rightarrow> strategy_config \<Rightarrow> yaml_exception + strategy_config" where
  [code_eval]: "load_strategy y n = in_order
    [setting y n ''strategies'' (y_strings y) (\<lambda>v c. c\<lparr>sc_strategies := v\<rparr>),
     setting y n ''primary'' (y_string y) (\<lambda>v c. c\<lparr>sc_primary := v\<rparr>),
     group y n ''weights'' (\<lambda>m. load_weights y (y_pairs y m)),
     setting y n ''vote_threshold'' (y_double y) (\<lambda>v c. c\<lparr>sc_vote_threshold_bp := to_bp v\<rparr>)]"

definition load_risk :: "'n yaml \<Rightarrow> 'n \<Rightarrow> risk_config \<Rightarrow> yaml_exception + risk_config" where
  [code_eval]: "load_risk y n = in_order
    [setting y n ''max_position'' (y_u64 y) (\<lambda>v c. c\<lparr>kc_max_position := v\<rparr>),
     setting y n ''max_daily_loss'' (y_i64 y) (\<lambda>v c. c\<lparr>kc_max_daily_loss := v\<rparr>),
     setting y n ''initial_equity'' (y_i64 y) (\<lambda>v c. c\<lparr>kc_initial_equity := v\<rparr>),
     setting y n ''max_drawdown_pause'' (y_i64 y) (\<lambda>v c. c\<lparr>kc_max_drawdown_pause := v\<rparr>),
     setting y n ''max_drawdown_flatten'' (y_i64 y) (\<lambda>v c. c\<lparr>kc_max_drawdown_flatten := v\<rparr>)]"

definition load_execution :: "'n yaml \<Rightarrow> 'n \<Rightarrow> execution_config \<Rightarrow> yaml_exception + execution_config" where
  [code_eval]: "load_execution y n = in_order
    [setting y n ''base_qty'' (y_u64 y) (\<lambda>v c. c\<lparr>xc_base_qty := v\<rparr>),
     setting y n ''order_port'' (y_u16 y) (\<lambda>v c. c\<lparr>xc_order_port := v\<rparr>),
     setting y n ''order_ret_port'' (y_u16 y) (\<lambda>v c. c\<lparr>xc_order_ret_port := v\<rparr>),
     setting y n ''idle_timeout_sec'' (y_u32 y) (\<lambda>v c. c\<lparr>xc_idle_timeout_sec := v\<rparr>)]"

definition load_replay :: "'n yaml \<Rightarrow> 'n \<Rightarrow> replay_section \<Rightarrow> yaml_exception + replay_section" where
  [code_eval]: "load_replay y n = in_order
    [setting y n ''file'' (y_string y) (\<lambda>v c. c\<lparr>pc_file := v\<rparr>),
     setting y n ''segment_size'' (y_u64 y) (\<lambda>v c. c\<lparr>pc_segment_size := unat v\<rparr>),
     setting y n ''max_messages'' (y_u64 y) (\<lambda>v c. c\<lparr>pc_max_messages := unat v\<rparr>),
     setting y n ''order_id_base'' (y_u64 y) (\<lambda>v c. c\<lparr>pc_order_id_base := v\<rparr>)]"

definition load_analysis :: "'n yaml \<Rightarrow> 'n \<Rightarrow> analysis_config \<Rightarrow> yaml_exception + analysis_config" where
  [code_eval]: "load_analysis y n = in_order [setting y n ''out_dir'' (y_string y) (\<lambda>v c. c\<lparr>ac_out_dir := v\<rparr>)]"

text \<open>A group's loader works on its part of the configuration.\<close>

definition on_part :: "('a \<Rightarrow> 'b) \<Rightarrow> ('b \<Rightarrow> 'a \<Rightarrow> 'a) \<Rightarrow> ('b \<Rightarrow> 'e + 'b) \<Rightarrow> 'a \<Rightarrow> 'e + 'a" where
  [code_eval]: "on_part get put f c = attempt (f (get c)) (\<lambda>b. Inr (put b c))"

definition config_load :: "'n yaml \<Rightarrow> string \<Rightarrow> yaml_exception + config" where
  [code_eval]: "config_load y path = attempt (y_load y path) (\<lambda>rt. in_order
    [on_part cfg_market (\<lambda>b c. c\<lparr>cfg_market := b\<rparr>) (group y rt ''market'' (load_market y)),
     on_part cfg_order_book (\<lambda>b c. c\<lparr>cfg_order_book := b\<rparr>) (group y rt ''order_book'' (load_order_book y)),
     on_part cfg_strategy (\<lambda>b c. c\<lparr>cfg_strategy := b\<rparr>) (group y rt ''strategy'' (load_strategy y)),
     on_part cfg_risk (\<lambda>b c. c\<lparr>cfg_risk := b\<rparr>) (group y rt ''risk'' (load_risk y)),
     on_part cfg_execution (\<lambda>b c. c\<lparr>cfg_execution := b\<rparr>) (group y rt ''execution'' (load_execution y)),
     on_part cfg_replay (\<lambda>b c. c\<lparr>cfg_replay := b\<rparr>) (group y rt ''replay'' (load_replay y)),
     on_part cfg_analysis (\<lambda>b c. c\<lparr>cfg_analysis := b\<rparr>) (group y rt ''analysis'' (load_analysis y))]
    default_config)"

section \<open>What a loaded configuration holds\<close>

lemma attempt_Inr: "attempt x f = Inr b \<longleftrightarrow> (\<exists>a. x = Inr a \<and> f a = Inr b)"
  by (simp add: attempt_def split: sum.split)

lemma on_part_Inr: "on_part get put f c = Inr c' \<longleftrightarrow> (\<exists>b. f (get c) = Inr b \<and> c' = put b c)"
  by (auto simp: on_part_def attempt_Inr)

lemma group_Inr:
  "group y rt key f c = Inr c' \<longleftrightarrow>
     y_get y rt key = Inr None \<and> c' = c \<or> (\<exists>n. y_get y rt key = Inr (Some n) \<and> f n c = Inr c')"
  by (auto simp: group_def attempt_Inr split: option.split)

lemma setting_Inr:
  "setting y n key conv put c = Inr c' \<longleftrightarrow>
     y_get y n key = Inr None \<and> c' = c \<or> (\<exists>v a. y_get y n key = Inr (Some v) \<and> conv v = Inr a \<and> c' = put a c)"
  by (auto simp: setting_def attempt_Inr split: option.split)

lemmas load_Inr = attempt_Inr on_part_Inr group_Inr setting_Inr

text \<open>The value \<open>a\<close> is what the node has under the key, or the default where it has nothing.\<close>

definition reads :: "'n yaml \<Rightarrow> 'n \<Rightarrow> string \<Rightarrow> ('n \<Rightarrow> yaml_exception + 'a) \<Rightarrow> 'a \<Rightarrow> 'a \<Rightarrow> bool" where
  [code_eval]: "reads y n key conv d a \<longleftrightarrow>
     (case y_get y n key of Inl _ \<Rightarrow> False | Inr None \<Rightarrow> a = d | Inr (Some v) \<Rightarrow> conv v = Inr a)"

definition reads_group :: "'n yaml \<Rightarrow> 'n \<Rightarrow> string \<Rightarrow> ('n \<Rightarrow> bool) \<Rightarrow> 'a \<Rightarrow> 'a \<Rightarrow> bool" where
  [code_eval]: "reads_group y rt key all_read d a \<longleftrightarrow>
     (case y_get y rt key of Inl _ \<Rightarrow> False | Inr None \<Rightarrow> a = d | Inr (Some n) \<Rightarrow> all_read n)"

definition size_of :: "(yaml_exception + u64) \<Rightarrow> yaml_exception + nat" where
  [code_eval]: "size_of x = attempt x (\<lambda>v. Inr (unat v))"

lemma reads_groupI:
  "group y rt key f c = Inr c' \<Longrightarrow> (\<And>n. f n c = Inr c' \<Longrightarrow> P n) \<Longrightarrow> reads_group y rt key P c c'"
  by (auto simp: reads_group_def group_Inr)

lemma load_risk_reads:
  assumes "load_risk y n c = Inr c'"
  shows "reads y n ''max_position'' (y_u64 y) (kc_max_position c) (kc_max_position c') \<and>
    reads y n ''max_daily_loss'' (y_i64 y) (kc_max_daily_loss c) (kc_max_daily_loss c') \<and>
    reads y n ''initial_equity'' (y_i64 y) (kc_initial_equity c) (kc_initial_equity c') \<and>
    reads y n ''max_drawdown_pause'' (y_i64 y) (kc_max_drawdown_pause c) (kc_max_drawdown_pause c') \<and>
    reads y n ''max_drawdown_flatten'' (y_i64 y) (kc_max_drawdown_flatten c) (kc_max_drawdown_flatten c')"
  using assms by (auto simp: load_risk_def load_Inr reads_def)

lemma load_order_book_reads:
  assumes "load_order_book y n c = Inr c'"
  shows "reads y n ''pool_slots'' (\<lambda>v. size_of (y_u64 y v)) (oc_pool_slots c) (oc_pool_slots c') \<and>
    reads y n ''workers'' (\<lambda>v. size_of (y_u64 y v)) (oc_workers c) (oc_workers c')"
  using assms by (auto simp: load_order_book_def load_Inr reads_def size_of_def)

lemma load_execution_reads:
  assumes "load_execution y n c = Inr c'"
  shows "reads y n ''base_qty'' (y_u64 y) (xc_base_qty c) (xc_base_qty c')"
  using assms by (auto simp: load_execution_def load_Inr reads_def)

lemma load_replay_reads:
  assumes "load_replay y n c = Inr c'"
  shows "reads y n ''file'' (y_string y) (pc_file c) (pc_file c') \<and>
    reads y n ''segment_size'' (\<lambda>v. size_of (y_u64 y v)) (pc_segment_size c) (pc_segment_size c') \<and>
    reads y n ''max_messages'' (\<lambda>v. size_of (y_u64 y v)) (pc_max_messages c) (pc_max_messages c') \<and>
    reads y n ''order_id_base'' (y_u64 y) (pc_order_id_base c) (pc_order_id_base c')"
  using assms by (auto simp: load_replay_def load_Inr reads_def size_of_def)

lemma load_weights_keeps:
  "load_weights y kvs c = Inr c' \<Longrightarrow> sc_strategies c' = sc_strategies c \<and> sc_primary c' = sc_primary c \<and>
     sc_vote_threshold_bp c' = sc_vote_threshold_bp c"
  by (induction kvs arbitrary: c) (auto simp: attempt_Inr)

lemma load_strategy_reads:
  assumes "load_strategy y n c = Inr c'"
  shows "reads y n ''strategies'' (y_strings y) (sc_strategies c) (sc_strategies c') \<and>
    reads y n ''primary'' (y_string y) (sc_primary c) (sc_primary c') \<and>
    reads y n ''vote_threshold'' (\<lambda>v. attempt (y_double y v) (\<lambda>w. Inr (to_bp w))) (sc_vote_threshold_bp c) (sc_vote_threshold_bp c')"
  using assms by (auto simp: load_strategy_def load_Inr reads_def dest!: load_weights_keeps)


text \<open>A small YAML library: maps, integers, texts and doubles; the path is the name of the only file.\<close>

datatype demo_node = Demo_Map "(string \<times> demo_node) list" | Demo_Int int | Demo_Text string | Demo_Double double

definition demo_yaml :: "demo_node \<Rightarrow> demo_node yaml" where
  [code_eval]: "demo_yaml doc = \<lparr>
     y_load = (\<lambda>path. if path = ''sim.yaml'' then Inr doc else Inl BadFile),
     y_get = (\<lambda>n k. case n of Demo_Map kvs \<Rightarrow> Inr (map_of kvs k) | _ \<Rightarrow> Inl BadSubscript),
     y_items = (\<lambda>n. []),
     y_pairs = (\<lambda>n. case n of Demo_Map kvs \<Rightarrow> map (\<lambda>p. (Demo_Text (fst p), snd p)) kvs | _ \<Rightarrow> []),
     y_string = (\<lambda>n. case n of Demo_Text s \<Rightarrow> Inr s | _ \<Rightarrow> Inl BadConversion),
     y_strings = (\<lambda>n. Inl BadConversion),
     y_bool = (\<lambda>n. Inl BadConversion),
     y_u16 = (\<lambda>n. Inl BadConversion),
     y_u32 = (\<lambda>n. Inl BadConversion),
     y_u64 = (\<lambda>n. case n of Demo_Int i \<Rightarrow> if 0 \<le> i then Inr (word_of_int i) else Inl BadConversion | _ \<Rightarrow> Inl BadConversion),
     y_i64 = (\<lambda>n. case n of Demo_Int i \<Rightarrow> Inr i | _ \<Rightarrow> Inl BadConversion),
     y_double = (\<lambda>n. case n of Demo_Double d \<Rightarrow> Inr d | _ \<Rightarrow> Inl BadConversion)\<rparr>"

definition demo_doc :: demo_node where
  [code_eval]: "demo_doc = Demo_Map [(''risk'', Demo_Map [(''max_position'', Demo_Int 500)]),
     (''strategy'', Demo_Map [(''weights'', Demo_Map [(''obi'', Demo_Double (rnd (5700 / 10000)))])])]"


section \<open>Weights\<close>

lemma abs_diff_le: "\<bar>a - b\<bar> \<le> c \<Longrightarrow> a - b \<le> c" "\<bar>a - b\<bar> \<le> c \<Longrightarrow> b - a \<le> c" for a b c :: rat
  by linarith+

lemma to_bp_close:
  assumes "0 \<le> k" "k < 2 ^ 50"
  shows "to_bp (rnd (of_int k / 10000)) \<in> {k - 1, k}"
proof (cases "k = 0")
  case False
  define x w where "x = rat_of_int k / 10000" and "w = rnd x"
  have "rat_of_int k < of_int (2 ^ 50)" using assms(2) by (simp only: of_int_less_iff)
  then have k: "of_int k = x * 10000" "1 \<le> x * 10000" "x * 10000 < 1125899906842624" using False assms by (simp_all add: x_def)
  have tiny: "pow2 (- 1022) \<le> 1 / 10000" by (simp add: pow2_def)
  have w: "\<bar>w - x\<bar> \<le> x / 9007199254740992" using rnd_error [of x] tiny k by (simp add: w_def)
  then have z: "w * 10000 - x * 10000 \<le> x * 10000 / 9007199254740992" "x * 10000 - w * 10000 \<le> x * 10000 / 9007199254740992"
    using abs_diff_le [OF w] by linarith+
  then have z1: "1 / 2 \<le> w * 10000" "w * 10000 \<le> 2 * (x * 10000)" using k(2) by simp_all
  then have m: "\<bar>dmul w 10000 - w * 10000\<bar> \<le> w * 10000 / 9007199254740992"
    using rnd_error [of "w * 10000"] tiny by (simp add: dmul_def)
  have "x * 10000 - 1 < dmul w 10000" "dmul w 10000 < x * 10000 + 1"
    using abs_diff_le [OF m] z z1 k(2,3) by linarith+
  then have "of_int (k - 1) < dmul w 10000" "dmul w 10000 < of_int (k + 1)" by (simp_all add: k(1))
  then have "\<lfloor>dmul w 10000\<rfloor> = k - 1 \<or> \<lfloor>dmul w 10000\<rfloor> = k" "0 \<le> dmul w 10000" using False assms(1) by linarith+
  then show ?thesis by (auto simp: to_bp_def to_int64_def w_def x_def)
qed (simp add: to_bp_def to_int64_def rnd_def dmul_def)

text \<open>
  A weight loses at most one ten-thousandth, and can lose it. A weight written with four decimals
  is stored as the number of ten-thousandths written, or as one less: the product with 10000.0 is
  truncated, not rounded. (The witness is the weight 0.57, which is stored as 5699.)
\<close>

lemma weight_truncated:
  assumes "y_string y kn = Inr name" "y_double y v = Inr (rnd (of_int k / 10000))" "0 \<le> k" "k < 2 ^ 50"
  shows "\<exists>c' bp. load_weights y [(kn, v)] c = Inr c' \<and> sc_weights_bp c' name = Some bp \<and> bp \<in> {k - 1, k}"
  using to_bp_close [OF assms(3,4)] assms(1,2) by (simp add: attempt_def)

lemma weight_truncated_witness:
  "\<exists>c'. load_weights (demo_yaml demo_doc) [(Demo_Text ''obi'', Demo_Double (rnd (5700 / 10000)))] default_strategy = Inr c' \<and>
     sc_weights_bp c' ''obi'' = Some 5699"
proof -
  have "y_string (demo_yaml demo_doc) (Demo_Text ''obi'') = Inr ''obi''"
    "y_double (demo_yaml demo_doc) (Demo_Double (rnd (5700 / 10000))) = Inr (rnd (of_int 5700 / 10000))"
    by (simp_all add: demo_yaml_def)
  from weight_truncated [OF this, of default_strategy] obtain c' bp where c':
    "load_weights (demo_yaml demo_doc) [(Demo_Text ''obi'', Demo_Double (rnd (5700 / 10000)))] default_strategy = Inr c'"
    "sc_weights_bp c' ''obi'' = Some bp" by auto
  have "to_bp (rnd (5700 / 10000)) = 5699" by (simp add: code_eval)
  then have "bp = 5699" using c' by (simp add: attempt_def demo_yaml_def) auto
  then show ?thesis using c' by blast
qed

end
