(* ===== verification/Sim_Worker.thy ===== *)
theory Sim_Worker
  imports Exchange_Sim Strategy Config
begin

text \<open>
  The workers (\<open>src/sim/sim_worker.h\<close>): each runs a tuple of strategies on the broadcast events of its
  symbols and votes at every segment border. The tuple is a list whose elements are the two strategies
  the program is built with; the state is that of the whole simulation, because an order sent at a
  border is broadcast to the same workers before the call returns.
\<close>

section \<open>State\<close>

datatype strategy = OFI (the_ofi: ofi_state) | OBI (the_obi: obi_state)

definition strategy_on_market :: "market_event \<Rightarrow> book_context \<Rightarrow> strategy \<Rightarrow> strategy" where
  [code_eval]: "strategy_on_market ev ctx st =
     (case st of OFI x \<Rightarrow> OFI (ofi_on_market ev ctx x) | OBI x \<Rightarrow> OBI (obi_on_market ev ctx x))"

definition strategy_signal :: "strategy \<Rightarrow> signal" where
  [code_eval]: "strategy_signal st = (case st of OFI x \<Rightarrow> ofi_get_signal x | OBI x \<Rightarrow> obi_get_signal x)"

text \<open>\<open>on_segment\<close> of the base class; neither strategy overrides it.\<close>

definition strategy_on_segment :: "nat \<Rightarrow> strategy \<Rightarrow> strategy" where
  [code_eval]: "strategy_on_segment seg st = st"

definition kStrengthStep :: int where
  [code_eval]: "kStrengthStep = 500"

text \<open>\<open>sw_bound\<close>: \<open>init\<close> has set the two pointers.\<close>

record worker =
  sw_strategies :: "strategy list"
  sw_weight_bp :: "int list"
  sw_primary_idx :: nat
  sw_threshold_bp :: int
  sw_bound :: bool
  sw_id :: u64
  sw_nworkers :: u64
  sw_strategy_id :: u64
  sw_max_position :: u64
  sw_last_side :: order_side
  sw_last_str :: int
  sw_cur_segment :: nat

definition worker_new :: "strategy list \<Rightarrow> worker" where
  [code_eval]: "worker_new sts = \<lparr>sw_strategies = sts, sw_weight_bp = replicate (length sts) 0, sw_primary_idx = 0,
     sw_threshold_bp = 0, sw_bound = False, sw_id = 0, sw_nworkers = 1, sw_strategy_id = 1,
     sw_max_position = 10000, sw_last_side = OS_NONE, sw_last_str = -1, sw_cur_segment = 0\<rparr>"

definition set_slot :: "strategy_config \<Rightarrow> nat \<Rightarrow> worker \<Rightarrow> worker" where
  [code_eval]: "set_slot sc i w =
     (let name = sc_strategies sc ! i;
          w1 = w\<lparr>sw_weight_bp := (sw_weight_bp w)[i := (case sc_weights_bp sc name of Some x \<Rightarrow> x | None \<Rightarrow> 10000)]\<rparr> in
      if name = sc_primary sc then w1\<lparr>sw_primary_idx := i\<rparr> else w1)"

definition worker_init :: "u64 \<Rightarrow> u64 \<Rightarrow> u64 \<Rightarrow> u64 \<Rightarrow> strategy_config \<Rightarrow> worker \<Rightarrow> worker" where
  [code_eval]: "worker_init wid nworkers strategy_id max_pos sc w =
     (let w1 = w\<lparr>sw_id := wid, sw_nworkers := nworkers, sw_strategy_id := strategy_id, sw_max_position := max_pos,
            sw_bound := True\<rparr>;
          w2 = fold (set_slot sc) [0..<min (length (sw_strategies w)) (length (sc_strategies sc))] w1 in
      w2\<lparr>sw_threshold_bp := sc_vote_threshold_bp sc\<rparr>)"

record sim = market +
  sm_workers :: "worker list"

definition put_worker :: "nat \<Rightarrow> worker \<Rightarrow> 'x sim_scheme \<Rightarrow> 'x sim_scheme" where
  [code_eval]: "put_worker i w s = s\<lparr>sm_workers := (sm_workers s)[i := w]\<rparr>"

section \<open>Events\<close>

definition book_bbo :: "mkt_book \<Rightarrow> bool" where
  [code_eval]: "book_bbo b \<longleftrightarrow> best_bid b \<ge> 0 \<and> best_ask b \<ge> 0"

definition mid_price :: "mkt_book \<Rightarrow> int" where
  [code_eval]: "mid_price b = div64 (add64 (best_bid b) (best_ask b)) 2"

text \<open>The direction of an event: adds and replacements carry it, the others are looked up.\<close>

definition event_side :: "market_event \<Rightarrow> mkt_book option \<Rightarrow> order_side option" where
  [code_eval]: "event_side ev bk =
     (if me_type ev = EV_ADD \<or> me_type ev = EV_REPLACE then Some (me_side ev)
      else case bk of None \<Rightarrow> Some OS_NONE | Some b \<Rightarrow> side_of (me_order_ref ev) b)"

definition event_context :: "market_event \<Rightarrow> mkt_book option \<Rightarrow> book_context option" where
  [code_eval]: "event_context ev bk = do {
     let c0 = empty_context\<lparr>cx_book := (bk \<noteq> None), cx_seq := me_timestamp ev\<rparr>;
     let c1 = (case bk of
                 None \<Rightarrow> c0
               | Some b \<Rightarrow> if book_bbo b
                   then c0\<lparr>cx_bid := best_bid b, cx_bid_vol := best_bid_volume b, cx_ask := best_ask b,
                     cx_ask_vol := best_ask_volume b, cx_mid := mid_price b\<rparr>
                   else c0);
     sd \<leftarrow> event_side ev bk;
     Some (c1\<lparr>cx_side := sd\<rparr>)
   }"

definition on_market_event :: "market_event \<Rightarrow> consumer \<Rightarrow> nat \<Rightarrow> 'x sim_scheme \<Rightarrow> 'x sim_scheme option" where
  [code_eval]: "on_market_event ev view i s = do {
     w \<leftarrow> lget (sm_workers s) i;
     if sw_nworkers w > 1 \<and> me_locate ev mod sw_nworkers w \<noteq> sw_id w then Some s
     else do {
       let bk = consumer_book (me_locate ev) view;
       let s1 = (case bk of
                   None \<Rightarrow> s
                 | Some b \<Rightarrow> if book_bbo b then s\<lparr>xe_rm := mark_price_at (me_locate ev) (mid_price b) (xe_rm s)\<rparr> else s);
       ctx \<leftarrow> event_context ev bk;
       let s2 = set_segment_ctx (of_nat (sw_cur_segment w)) (me_timestamp ev) s1;
       Some (put_worker i (w\<lparr>sw_strategies := map (strategy_on_market ev ctx) (sw_strategies w)\<rparr>) s2)
     }
   }"

text \<open>The subscriber that \<open>run_sim\<close> installs: every worker, in order, on the market data consumer.\<close>

definition worker_sink :: "market_event \<Rightarrow> 'x sim_scheme \<Rightarrow> 'x sim_scheme option" where
  [code_eval]: "worker_sink ev s =
     (case xs_view s of
        None \<Rightarrow> None
      | Some view \<Rightarrow> foldo (on_market_event ev view) [0..<length (sm_workers s)] s)"

section \<open>The vote at a segment border\<close>

definition from_signal :: "signal \<Rightarrow> arb_signal" where
  [code_eval]: "from_signal sg = \<lparr>as_side = sg_side sg, as_locate = sg_locate sg, as_strength = sg_strength sg,
     as_seq = sg_timestamp sg\<rparr>"

definition worker_vote :: "worker \<Rightarrow> arb_decision" where
  [code_eval]: "worker_vote w = arbitrate_decide (map (\<lambda>st. from_signal (strategy_signal st)) (sw_strategies w))
     (sw_weight_bp w) (sw_primary_idx w) (sw_threshold_bp w)"

text \<open>No order without room, and one only when the direction is new or the strength has grown.\<close>

definition worker_blocked :: "arb_decision \<Rightarrow> u64 \<Rightarrow> worker \<Rightarrow> bool" where
  [code_eval]: "worker_blocked d pos w \<longleftrightarrow>
     (ad_dir d = OS_BUY \<and> pos \<ge> sw_max_position w) \<or> (ad_dir d = OS_SELL \<and> pos = 0)"

definition worker_due :: "arb_decision \<Rightarrow> worker \<Rightarrow> bool" where
  [code_eval]: "worker_due d w \<longleftrightarrow> ad_dir d \<noteq> sw_last_side w \<or> ad_strength d \<ge> add64 (sw_last_str w) kStrengthStep"

definition decision_signal :: "arb_decision \<Rightarrow> signal" where
  [code_eval]: "decision_signal d = \<lparr>sg_side = ad_dir d, sg_locate = ad_locate d, sg_price = 0, sg_timestamp = 0,
     sg_strength = ad_strength d\<rparr>"

text \<open>The order itself; afterwards the worker, whose strategies may have moved on, remembers the decision.\<close>

definition place_decision ::
  "'x sim_scheme exchange_if \<Rightarrow> nat \<Rightarrow> nat \<Rightarrow> worker \<Rightarrow> arb_decision \<Rightarrow> 'x sim_scheme \<Rightarrow> 'x sim_scheme option" where
  [code_eval]: "place_decision ex seg i w d s = do {
     let (live, s1) = live_mid (Some ex) (ad_locate d) s;
     let s2 = (if live > 0 then set_mid (ad_locate d) live s1 else s1);
     let s3 = set_segment_ctx (of_nat seg) 0 s2;
     (oid, s4) \<leftarrow> submit_signal (Some ex) (decision_signal d) (sw_strategy_id w) MARKET s3;
     if oid \<noteq> 0 then do {
       w1 \<leftarrow> lget (sm_workers s4) i;
       Some (put_worker i (w1\<lparr>sw_last_side := ad_dir d, sw_last_str := ad_strength d\<rparr>) s4)
     }
     else Some s4
   }"

definition arbitrate :: "'x sim_scheme exchange_if \<Rightarrow> nat \<Rightarrow> nat \<Rightarrow> 'x sim_scheme \<Rightarrow> 'x sim_scheme option" where
  [code_eval]: "arbitrate ex seg i s = do {
     w0 \<leftarrow> lget (sm_workers s) i;
     if \<not> sw_bound w0 \<or> sw_strategies w0 = [] then Some s
     else do {
       let w = w0\<lparr>sw_cur_segment := seg, sw_strategies := map (strategy_on_segment seg) (sw_strategies w0)\<rparr>;
       let s1 = put_worker i w s;
       let d = worker_vote w;
       if \<not> ad_act d then Some s1
       else if worker_blocked d (position (xe_rm s1) (ad_locate d)) w \<or> \<not> worker_due d w then Some s1
       else place_decision ex seg i w d s1
     }
   }"

end
