(* ===== verification/Recorder.thy ===== *)
theory Recorder
  imports Execution Doubles
begin

text \<open>
  The result recorder (\<open>src/analysis/result_recorder.h\<close>, \<open>result_recorder.cpp\<close>): snapshots, fills and
  final orders of a run, the three CSV files and the summary with its performance figures. Every
  floating point operation is rounded on its own (a compiler may fuse a product with the sum it goes
  into, which can change the last bit). Texts are lists of the bytes written.
\<close>

section \<open>State\<close>

record segment_snapshot =
  sn_segment :: nat
  sn_equity :: int
  sn_drawdown :: int
  sn_realized_pnl :: int
  sn_net_position :: int
  sn_engine_trades :: u64
  sn_strategy_resting :: nat
  sn_strategy_trades :: u64
  sn_strategy_filled :: u64
  sn_strategy_pnl :: int

record recorder =
  rr_snapshots :: "segment_snapshot list"
  rr_orders :: "(u64 \<times> oms_entry) list"
  rr_trades :: "trade_record list"

definition recorder_new :: recorder where
  [code_eval]: "recorder_new = \<lparr>rr_snapshots = [], rr_orders = [], rr_trades = []\<rparr>"

definition add_snapshot :: "segment_snapshot \<Rightarrow> recorder \<Rightarrow> recorder" where
  [code_eval]: "add_snapshot sn r = r\<lparr>rr_snapshots := rr_snapshots r @ [sn]\<rparr>"

definition add_order_final :: "u64 \<Rightarrow> oms_entry \<Rightarrow> recorder \<Rightarrow> recorder" where
  [code_eval]: "add_order_final oid e r = r\<lparr>rr_orders := rr_orders r @ [(oid, e)]\<rparr>"

definition add_trade :: "trade_record \<Rightarrow> recorder \<Rightarrow> recorder" where
  [code_eval]: "add_trade t r = r\<lparr>rr_trades := rr_trades r @ [t]\<rparr>"

section \<open>Names and numbers\<close>

definition side_name :: "order_side \<Rightarrow> string" where
  [code_eval]: "side_name sd = (case sd of OS_BUY \<Rightarrow> ''BUY'' | OS_SELL \<Rightarrow> ''SELL'' | OS_NONE \<Rightarrow> ''NONE'')"

definition status_name :: "oms_status \<Rightarrow> string" where
  [code_eval]: "status_name st = (case st of
     PENDING \<Rightarrow> ''PENDING'' | SUBMITTED \<Rightarrow> ''SUBMITTED'' | PARTIAL_FILL \<Rightarrow> ''PARTIAL_FILL''
   | PENDING_CANCEL \<Rightarrow> ''PENDING_CANCEL'' | ST_FILLED \<Rightarrow> ''FILLED'' | ST_CANCELLED \<Rightarrow> ''CANCELLED''
   | ST_REJECTED \<Rightarrow> ''REJECTED'' | NOT_FOUND \<Rightarrow> ''?'')"

fun csv_join :: "string list \<Rightarrow> string" where
  "csv_join [] = []"
| "csv_join [f] = f"
| "csv_join (f # g # fs) = f @ [CHR '',''] @ csv_join (g # fs)"

declare csv_join.simps [code_eval]

definition csv_line :: "string list \<Rightarrow> string" where
  [code_eval]: "csv_line fs = csv_join fs @ [CHR 0x0A]"

definition show_u64 :: "u64 \<Rightarrow> string" where
  [code_eval]: "show_u64 w = show_nat (unat w)"

section \<open>The CSV files\<close>

definition equity_row :: "segment_snapshot \<Rightarrow> string list" where
  [code_eval]: "equity_row sn = [show_nat (sn_segment sn), show_int (sn_equity sn), show_int (sn_drawdown sn),
     show_int (sn_realized_pnl sn), show_int (sn_net_position sn), show_u64 (sn_engine_trades sn),
     show_nat (sn_strategy_resting sn), show_u64 (sn_strategy_trades sn), show_u64 (sn_strategy_filled sn),
     show_int (sn_strategy_pnl sn)]"

definition equity_csv :: "segment_snapshot list \<Rightarrow> string" where
  [code_eval]: "equity_csv sns = csv_line [''segment'', ''equity'', ''drawdown'', ''realized_pnl'', ''net_position'',
     ''engine_trades'', ''strategy_resting'', ''strategy_trades'', ''strategy_filled'', ''strategy_pnl''] @
     concat (map (\<lambda>sn. csv_line (equity_row sn)) sns)"

text \<open>The slippage of a fill, positive when it was worse than the middle price.\<close>

definition slip :: "trade_record \<Rightarrow> int" where
  [code_eval]: "slip t = (if td_side t = OS_BUY then sub64 (td_price t) (td_mid t) else sub64 (td_mid t) (td_price t))"

definition trade_row :: "trade_record \<Rightarrow> string list" where
  [code_eval]: "trade_row t = [show_u64 (td_segment t), show_u64 (td_seq t), show_u64 (td_order_id t),
     show_u64 (td_symbol_id t), side_name (td_side t), show_u64 (td_qty t), show_int (td_price t),
     show_int (td_mid t), show_int (slip t), show_int (if td_passive t then 1 else 0)]"

definition trades_csv :: "trade_record list \<Rightarrow> string" where
  [code_eval]: "trades_csv ts = csv_line [''segment'', ''seq'', ''order_id'', ''symbol'', ''side'', ''qty'', ''price'',
     ''mid'', ''slip'', ''passive''] @ concat (map (\<lambda>t. csv_line (trade_row t)) ts)"

definition order_type_code :: "order_type \<Rightarrow> int" where
  [code_eval]: "order_type_code t = (case t of MARKET \<Rightarrow> 0 | LIMIT \<Rightarrow> 1 | ICEBERG \<Rightarrow> 2)"

definition order_row :: "u64 \<times> oms_entry \<Rightarrow> string list" where
  [code_eval]: "order_row p = (case p of (oid, e) \<Rightarrow>
     [show_u64 oid, show_u64 (co_symbol_id (e_order e)), side_name (co_side (e_order e)),
      show_u64 (co_quantity (e_order e)), show_int (order_type_code (co_type (e_order e))), status_name (e_status e),
      show_u64 (e_filled e), show_u64 (e_remaining e), show_int (e_avg_fill_price e)])"

definition orders_csv :: "(u64 \<times> oms_entry) list \<Rightarrow> string" where
  [code_eval]: "orders_csv os = csv_line [''order_id'', ''symbol'', ''side'', ''qty'', ''type'', ''status'', ''filled'',
     ''remaining'', ''avg_fill_price''] @ concat (map (\<lambda>p. csv_line (order_row p)) os)"

section \<open>The summary\<close>

record run_summary =
  rs_trades :: u64
  rs_filled :: u64
  rs_passive :: u64
  rs_active :: u64
  rs_slip_sum :: int
  rs_slip_cnt :: int
  rs_realized :: int
  rs_orders :: nat
  rs_orders_filled :: nat
  rs_orders_rejected :: nat
  rs_orders_cancelled :: nat
  rs_final_equity :: int
  rs_max_drawdown :: int

definition sum_trade :: "trade_record \<Rightarrow> run_summary \<Rightarrow> run_summary" where
  [code_eval]: "sum_trade t a =
     (let a1 = a\<lparr>rs_trades := rs_trades a + 1, rs_filled := rs_filled a + td_qty t\<rparr>;
          a2 = (if td_passive t then a1\<lparr>rs_passive := rs_passive a1 + 1\<rparr> else a1\<lparr>rs_active := rs_active a1 + 1\<rparr>) in
      if td_mid t > 0 then a2\<lparr>rs_slip_sum := add64 (rs_slip_sum a2) (slip t), rs_slip_cnt := add64 (rs_slip_cnt a2) 1\<rparr>
      else a2)"

definition sum_order :: "u64 \<times> oms_entry \<Rightarrow> run_summary \<Rightarrow> run_summary" where
  [code_eval]: "sum_order p a =
     (let st = e_status (snd p) in
      if st = ST_FILLED then a\<lparr>rs_orders_filled := rs_orders_filled a + 1\<rparr>
      else if st = ST_REJECTED then a\<lparr>rs_orders_rejected := rs_orders_rejected a + 1\<rparr>
      else if st = ST_CANCELLED then a\<lparr>rs_orders_cancelled := rs_orders_cancelled a + 1\<rparr>
      else a)"

text \<open>The running peak, which starts at zero, and the largest fall below it.\<close>

definition step_drawdown :: "segment_snapshot \<Rightarrow> int \<times> int \<Rightarrow> int \<times> int" where
  [code_eval]: "step_drawdown sn st =
     (case st of (peak, max_dd) \<Rightarrow>
        (let peak' = (if sn_equity sn > peak then sn_equity sn else peak);
             dd = sub64 peak' (sn_equity sn) in
         (peak', if dd > max_dd then dd else max_dd)))"

definition summarize :: "recorder \<Rightarrow> run_summary" where
  [code_eval]: "summarize r =
     (let a0 = \<lparr>rs_trades = 0, rs_filled = 0, rs_passive = 0, rs_active = 0, rs_slip_sum = 0, rs_slip_cnt = 0,
            rs_realized = (if rr_snapshots r = [] then 0 else sn_realized_pnl (last (rr_snapshots r))),
            rs_orders = length (rr_orders r), rs_orders_filled = 0, rs_orders_rejected = 0, rs_orders_cancelled = 0,
            rs_final_equity = (if rr_snapshots r = [] then 0 else sn_equity (last (rr_snapshots r))),
            rs_max_drawdown = snd (fold step_drawdown (rr_snapshots r) (0, 0))\<rparr> in
      fold sum_order (rr_orders r) (fold sum_trade (rr_trades r) a0))"

section \<open>Performance figures\<close>

text \<open>The relative returns between neighbouring snapshots, where the earlier equity is positive.\<close>

fun seg_returns :: "segment_snapshot list \<Rightarrow> double list" where
  "seg_returns (a # b # sns) =
     (if sn_equity a > 0
      then ddiv (of_int64 (sub64 (sn_equity b) (sn_equity a))) (of_int64 (sn_equity a)) # seg_returns (b # sns)
      else seg_returns (b # sns))"
| "seg_returns _ = []"

declare seg_returns.simps [code_eval]

record performance =
  pf_mean :: double
  pf_sd :: double
  pf_downside :: double
  pf_sum_pos :: double
  pf_sum_neg :: double
  pf_n_pos :: int
  pf_n_neg :: int

definition add_return :: "double \<Rightarrow> performance \<Rightarrow> performance" where
  [code_eval]: "add_return r a =
     (let a1 = (if r > 0 then a\<lparr>pf_sum_pos := dadd (pf_sum_pos a) r, pf_n_pos := pf_n_pos a + 1\<rparr>
                else if r < 0 then a\<lparr>pf_sum_neg := dadd (pf_sum_neg a) (- r), pf_n_neg := pf_n_neg a + 1\<rparr>
                else a) in
      if r < 0 then a1\<lparr>pf_downside := dadd (pf_downside a1) (dmul r r)\<rparr> else a1)"

definition performance_of :: "double list \<Rightarrow> performance" where
  [code_eval]: "performance_of rets =
     (let none = \<lparr>pf_mean = 0, pf_sd = 0, pf_downside = 0, pf_sum_pos = 0, pf_sum_neg = 0, pf_n_pos = 0, pf_n_neg = 0\<rparr> in
      if rets = [] then none
      else
        let n = of_int64 (int (length rets));
            mean = ddiv (fold (\<lambda>r m. dadd m r) rets 0) n;
            sd = dsqrt (ddiv (fold (\<lambda>r s. dadd s (dmul (dsub r mean) (dsub r mean))) rets 0) n);
            a = fold add_return rets (none\<lparr>pf_mean := mean, pf_sd := sd\<rparr>) in
        a\<lparr>pf_downside := dsqrt (ddiv (pf_downside a) n)\<rparr>)"

record ratios =
  ra_avg_slip :: double
  ra_fill_rate :: double
  ra_total_return :: double
  ra_sharpe :: double
  ra_sortino :: double
  ra_calmar :: double
  ra_win_rate :: double
  ra_profit_factor :: double

definition ratios_of :: "segment_snapshot list \<Rightarrow> run_summary \<Rightarrow> performance \<Rightarrow> ratios" where
  [code_eval]: "ratios_of sns a p =
     (let init = (if sns = [] then 0 else sn_equity (hd sns));
          total_ret = (if init > 0 then ddiv (of_int64 (sub64 (rs_final_equity a) init)) (of_int64 init) else 0) in
      \<lparr>ra_avg_slip = (if rs_slip_cnt a \<noteq> 0 then ddiv (of_int64 (rs_slip_sum a)) (of_int64 (rs_slip_cnt a)) else 0),
       ra_fill_rate = (if rs_orders a \<noteq> 0
         then ddiv (dmul 100 (of_int64 (int (rs_orders_filled a)))) (of_int64 (int (rs_orders a))) else 0),
       ra_total_return = total_ret,
       ra_sharpe = (if pf_sd p > 0 then ddiv (pf_mean p) (pf_sd p) else 0),
       ra_sortino = (if pf_downside p > 0 then ddiv (pf_mean p) (pf_downside p) else 0),
       ra_calmar = (if rs_max_drawdown a > 0 then ddiv total_ret (of_int64 (rs_max_drawdown a)) else 0),
       ra_win_rate = (if pf_n_pos p + pf_n_neg p \<noteq> 0
         then ddiv (dmul 100 (of_int64 (pf_n_pos p))) (of_int64 (pf_n_pos p + pf_n_neg p)) else 0),
       ra_profit_factor = (if pf_sum_neg p > 0 then ddiv (pf_sum_pos p) (pf_sum_neg p)
         else if pf_sum_pos p > 0 then 999 else 0)\<rparr>)"

text \<open>The conversion \<open>%.kf\<close>: the exact value rounded to \<open>k\<close> decimals, ties to even.\<close>

definition show_fixed :: "nat \<Rightarrow> double \<Rightarrow> string" where
  [code_eval]: "show_fixed k x =
     (let n = nat (half_even (\<bar>x\<bar> * 10 ^ k)); frac = show_nat (n mod 10 ^ k) in
      (if x < 0 then ''-'' else []) @ show_nat (n div 10 ^ k) @ ''.'' @ replicate (k - length frac) (CHR ''0'') @ frac)"

text \<open>The two lines of Chinese text, in UTF-8.\<close>

definition figures_title :: string where
  "figures_title = map char_of
    ([45, 45, 32, 231, 187, 169, 230, 149, 136, 230, 140, 135, 230, 160, 135, 239, 188, 136, 229, 135, 128, 229,
     128, 188, 229, 186, 143, 229, 136, 151, 230, 180, 190, 231, 148, 159, 239, 188, 140, 230, 174, 181, 231,
     186, 167, 239, 188, 140, 230, 151, 160, 229, 185, 180, 229, 140, 150, 239, 188, 137, 45, 45] :: nat list)"

definition figures_note :: string where
  "figures_note = map char_of
    ([232, 175, 180, 230, 152, 142, 58, 32, 230, 174, 181, 231, 186, 167, 230, 140, 135, 230, 160, 135, 230, 156,
     170, 229, 185, 180, 229, 140, 150, 239, 188, 155, 115, 101, 103, 109, 101, 110, 116, 61, 78, 32, 230,
     157, 161, 230, 182, 136, 230, 129, 175, 233, 157, 158, 229, 155, 186, 229, 174, 154, 230, 151, 182, 233,
     151, 180, 227, 128, 130, 231, 148, 168, 230, 136, 183, 229, 143, 175, 231, 148, 168, 32, 101, 113, 117,
     105, 116, 121, 46, 99, 115, 118, 32, 232, 135, 170, 232, 161, 140, 32, 80, 121, 116, 104, 111, 110, 32,
     229, 136, 134, 230, 158, 144, 227, 128, 130] :: nat list)"

definition summary_text :: "nat \<Rightarrow> nat \<Rightarrow> nat \<Rightarrow> u64 \<Rightarrow> recorder \<Rightarrow> string" where
  [code_eval]: "summary_text messages order_events nsegments engine_trades r =
     (let a = summarize r; p = performance_of (seg_returns (rr_snapshots r)); q = ratios_of (rr_snapshots r) a p in
      concat (map (\<lambda>l. l @ [CHR 0x0A])
       [''=== NebulaX-Simulator Summary ==='',
        ''messages_processed : '' @ show_nat messages,
        ''order_events       : '' @ show_nat order_events,
        ''segments           : '' @ show_nat nsegments,
        ''engine_trades      : '' @ show_u64 engine_trades,
        ''orders_total       : '' @ show_nat (rs_orders a) @ '' (filled '' @ show_nat (rs_orders_filled a) @
          '', rejected '' @ show_nat (rs_orders_rejected a) @ '', cancelled '' @ show_nat (rs_orders_cancelled a) @ '')'',
        ''fill_rate          : '' @ show_fixed 2 (ra_fill_rate q) @ ''%'',
        ''strategy_trades    : '' @ show_u64 (rs_trades a) @ '' (active '' @ show_u64 (rs_active a) @
          '', passive '' @ show_u64 (rs_passive a) @ '')'',
        ''strategy_filled    : '' @ show_u64 (rs_filled a),
        ''avg_slip           : '' @ show_fixed 4 (ra_avg_slip q) @ '' ticks'',
        ''realized_pnl       : '' @ show_int (rs_realized a),
        ''final_equity       : '' @ show_int (rs_final_equity a),
        ''max_drawdown       : '' @ show_int (rs_max_drawdown a),
        [], figures_title,
        ''total_return       : '' @ show_fixed 4 (dmul 100 (ra_total_return q)) @ ''%'',
        ''sharpe(segment)    : '' @ show_fixed 4 (ra_sharpe q),
        ''sortino(segment)   : '' @ show_fixed 4 (ra_sortino q),
        ''calmar             : '' @ show_fixed 4 (ra_calmar q),
        ''win_rate(segments) : '' @ show_fixed 2 (ra_win_rate q) @ ''%'',
        ''profit_factor      : '' @ show_fixed 4 (ra_profit_factor q),
        ''ret_mean/std       : '' @ show_fixed 6 (pf_mean p) @ '' / '' @ show_fixed 6 (pf_sd p),
        [], figures_note]))"

section \<open>Writing\<close>

text \<open>
  \<open>write\<close>: the files in order; it gives up with \<open>false\<close> at the first one that cannot be opened.
\<close>

record out_files =
  ou_equity :: "string option"
  ou_trades :: "string option"
  ou_orders :: "string option"
  ou_summary :: "string option"

definition recorder_write ::
  "(string \<Rightarrow> bool) \<Rightarrow> string \<Rightarrow> nat \<Rightarrow> nat \<Rightarrow> nat \<Rightarrow> u64 \<Rightarrow> recorder \<Rightarrow> bool \<times> out_files" where
  [code_eval]: "recorder_write can_open out_dir messages order_events nsegments engine_trades r =
     (let o0 = \<lparr>ou_equity = None, ou_trades = None, ou_orders = None, ou_summary = None\<rparr> in
      if \<not> can_open (out_dir @ ''/equity.csv'') then (False, o0)
      else let o1 = o0\<lparr>ou_equity := Some (equity_csv (rr_snapshots r))\<rparr> in
      if \<not> can_open (out_dir @ ''/trades.csv'') then (False, o1)
      else let o2 = o1\<lparr>ou_trades := Some (trades_csv (rr_trades r))\<rparr> in
      if \<not> can_open (out_dir @ ''/orders.csv'') then (False, o2)
      else let o3 = o2\<lparr>ou_orders := Some (orders_csv (rr_orders r))\<rparr> in
      if \<not> can_open (out_dir @ ''/summary.txt'') then (False, o3)
      else (True, o3\<lparr>ou_summary := Some (summary_text messages order_events nsegments engine_trades r)\<rparr>))"

end
