(* ===== verification/Replay.thy ===== *)
theory Replay
  imports Itch
begin

text \<open>
  The file source (\<open>src/replay/itch_replay_source.cpp\<close>) and the driver loop
  (\<open>src/replay/replay_engine.cpp\<close>). The exchange's handler and the segment callback are
  parameters of the loop: functions on a state, \<open>None\<close> when a handler has no result.
\<close>

section \<open>The frame source\<close>

record replay_source =
  rs_data :: "u8 list"
  rs_pos :: nat
  rs_frames :: nat

text \<open>\<open>open\<close>: \<open>None\<close> is a file that cannot be read; an empty file is refused.\<close>

definition source_open :: "u8 list option \<Rightarrow> replay_source \<Rightarrow> bool \<times> replay_source" where
  [code_eval]: "source_open file src =
     (case file of
        None \<Rightarrow> (False, src)
      | Some bytes \<Rightarrow> if bytes = [] then (False, src)
          else (True, \<lparr>rs_data = bytes, rs_pos = 0, rs_frames = 0\<rparr>))"

definition source_close :: "replay_source \<Rightarrow> replay_source" where
  [code_eval]: "source_close src = \<lparr>rs_data = [], rs_pos = 0, rs_frames = 0\<rparr>"

definition source_next :: "replay_source \<Rightarrow> (u8 list \<times> nat) option \<times> replay_source" where
  [code_eval]: "source_next src =
     (let d = rs_data src; p = rs_pos src in
      if p + 2 > length d then (None, src)
      else
        let l = unat (d ! p) * 256 + unat (d ! (p + 1)) in
        if p + 2 + l > length d then (None, src)
        else (Some (take l (drop (p + 2) d), rs_frames src + 1),
              src\<lparr>rs_pos := p + 2 + l, rs_frames := rs_frames src + 1\<rparr>))"

text \<open>The frames of a byte sequence: complete length-prefixed bodies, up to a truncated one.\<close>

fun frames_of :: "u8 list \<Rightarrow> u8 list list" where
  "frames_of (a # b # rest) =
     (let l = unat a * 256 + unat b in
      if length rest < l then [] else take l rest # frames_of (drop l rest))"
| "frames_of _ = []"

definition frame :: "u8 list \<Rightarrow> u8 list" where
  "frame body = wr_u16 (of_nat (length body)) @ body"

definition pending :: "replay_source \<Rightarrow> u8 list list" where
  "pending src = frames_of (drop (rs_pos src) (rs_data src))"

lemma two_cons:
  assumes "2 \<le> length xs"
  obtains a c rest where "xs = a # c # rest"
  using assms by (cases xs; cases "tl xs") auto

lemma source_next_pending:
  "source_next src = (case pending src of
      [] \<Rightarrow> (None, src)
    | b # bs \<Rightarrow> (Some (b, rs_frames src + 1),
        src\<lparr>rs_pos := rs_pos src + 2 + length b, rs_frames := rs_frames src + 1\<rparr>)) \<and>
   (\<forall>b bs. pending src = b # bs \<longrightarrow>
     pending (src\<lparr>rs_pos := rs_pos src + 2 + length b, rs_frames := rs_frames src + 1\<rparr>) = bs)"
proof (cases "length (rs_data src) < rs_pos src + 2")
  case True
  then have "length (drop (rs_pos src) (rs_data src)) < 2" by simp
  then have "frames_of (drop (rs_pos src) (rs_data src)) = []"
    by (cases "drop (rs_pos src) (rs_data src)" rule: frames_of.cases) auto
  then show ?thesis using True by (simp add: source_next_def pending_def Let_def)
next
  case False
  let ?d = "rs_data src" and ?p = "rs_pos src"
  have "2 \<le> length (drop ?p ?d)" using False by simp
  then obtain a c rest where x: "drop ?p ?d = a # c # rest" by (rule two_cons)
  have "?d ! (?p + 0) = a" "?d ! (?p + 1) = c"
    using nth_drop [of ?p ?d 0] nth_drop [of ?p ?d 1] x False by simp_all
  moreover have dr: "drop (?p + 2) ?d = rest"
    using x drop_drop [of 2 ?p ?d] by (simp add: add.commute)
  moreover have "length ?d = ?p + 2 + length rest"
    using x False length_drop [of ?p ?d] by simp
  moreover have "drop (?p + 2 + n) ?d = drop n rest" for n
    using dr drop_drop [of n "?p + 2" ?d] by (simp add: add.commute)
  ultimately show ?thesis
    using x False by (simp add: source_next_def pending_def Let_def)
qed

lemma frames_of_frame:
  assumes "length body < 2 ^ 16"
  shows "frames_of (frame body @ rest) = body # frames_of rest"
proof -
  let ?w = "of_nat (length body) :: u16"
  have w: "unat ?w = length body" using assms by (simp add: unat_of_nat take_bit_nat_eq_self)
  have "unat (ucast (drop_bit 8 ?w) :: u8) = length body div 256 mod 256"
    using w by (simp add: unat_drop_bit_eq unsigned_ucast_eq take_bit_eq_mod drop_bit_eq_div unat_div)
  moreover have "unat (ucast ?w :: u8) = length body mod 256"
    using w by (simp add: unsigned_ucast_eq take_bit_eq_mod)
  moreover have "length body div 256 mod 256 = length body div 256" using assms by simp
  ultimately have "unat (ucast (drop_bit 8 ?w) :: u8) * 256 + unat (ucast ?w :: u8) = length body"
    by simp
  then show ?thesis by (simp add: frame_def wr_u16_def Let_def)
qed

text \<open>Reading a source to its end: the bodies that \<open>next\<close> hands out.\<close>

partial_function (option) read_all :: "replay_source \<Rightarrow> u8 list list option" where
  [code, code_eval]: "read_all src =
     (case source_next src of
        (None, s) \<Rightarrow> Some []
      | (Some (b, n), s) \<Rightarrow> do { bs \<leftarrow> read_all s; Some (b # bs) })"

lemma read_all_pending: "read_all src = Some (pending src)"
proof (induction "pending src" arbitrary: src)
  case Nil
  then show ?case using source_next_pending [of src] by (subst read_all.simps) simp
next
  case (Cons b bs)
  let ?s = "src\<lparr>rs_pos := rs_pos src + 2 + length b, rs_frames := rs_frames src + 1\<rparr>"
  have p: "pending ?s = bs" using source_next_pending [of src] Cons.hyps(2) by metis
  have n: "source_next src = (Some (b, rs_frames src + 1), ?s)"
    using source_next_pending [of src] Cons.hyps(2) [symmetric] by simp
  have "read_all ?s = Some bs" using Cons.hyps(1) [of ?s] p by simp
  then show ?case using n Cons.hyps(2) by (subst read_all.simps) simp
qed

text \<open>
  C34: A file of length-prefixed frames is read back frame by frame: reading terminates and returns
  the bodies in order, and an incomplete frame at the end of the file is dropped.
\<close>

theorem replay_reads_frames:
  assumes "\<forall>b\<in>set bodies. length b < 2 ^ 16" "frames_of tail = []"
    and "source_open (Some (concat (map frame bodies) @ tail)) src0 = (True, src)"
  shows "read_all src = Some bodies"
proof -
  have "frames_of (concat (map frame bs) @ tail) = bs" if "\<forall>b\<in>set bs. length b < 2 ^ 16" for bs
    using that
  proof (induction bs)
    case (Cons b bs)
    then show ?case using frames_of_frame [of b "concat (map frame bs) @ tail"] by simp
  qed (simp add: assms(2))
  from this [OF assms(1)] have "pending src = bodies"
    using assms(3) by (auto simp: pending_def source_open_def split: if_splits)
  then show ?thesis by (simp add: read_all_pending)
qed

lemma replay_reads_frames_witness:
  "read_all \<lparr>rs_data = [0, 2, 0x48, 9, 0, 1, 0x44, 0, 3, 0x44], rs_pos = 0, rs_frames = 0\<rparr> = Some [[0x48, 9], [0x44]]"
  by (rule replay_reads_frames [of _ "[0, 3, 0x44]" "source_close undefined"])
    (simp_all add: source_open_def frame_def wr_u16_def)

section \<open>The driver loop\<close>

record replay_config =
  rc_segment_size :: nat
  rc_max_messages :: nat

record replay_engine =
  re_total :: nat
  re_order_events :: nat
  re_segments :: nat

text \<open>
  One frame: parse it, hand an order event to the exchange, count. The event is a local without
  initializer: \<open>junk\<close> is what a field holds that the parser does not set.
\<close>

definition handle_frame ::
  "(itch_event \<Rightarrow> 's \<Rightarrow> 's option) \<Rightarrow> itch_event \<Rightarrow> u8 list \<Rightarrow> replay_engine \<times> symbol_map \<times> 's \<Rightarrow>
   (replay_engine \<times> symbol_map \<times> 's) option" where
  [code_eval]: "handle_frame on_order junk body st =
     (case st of (re, sm, s) \<Rightarrow>
        case feed body sm junk of
          (True, sm', ev) \<Rightarrow> do {
            s' \<leftarrow> on_order ev s;
            Some (re\<lparr>re_order_events := re_order_events re + 1, re_total := re_total re + 1\<rparr>, sm', s')
          }
        | (False, sm', ev) \<Rightarrow> Some (re\<lparr>re_total := re_total re + 1\<rparr>, sm', s))"

definition end_segment ::
  "(nat \<Rightarrow> 's \<Rightarrow> 's option) \<Rightarrow> replay_engine \<times> symbol_map \<times> 's \<Rightarrow> (replay_engine \<times> symbol_map \<times> 's) option" where
  [code_eval]: "end_segment on_seg st =
     (case st of (re, sm, s) \<Rightarrow> do {
        s' \<leftarrow> on_seg (re_segments re) s;
        Some (re\<lparr>re_segments := re_segments re + 1\<rparr>, sm, s')
      })"

partial_function (option) replay_loop ::
  "replay_config \<Rightarrow> (itch_event \<Rightarrow> 's \<Rightarrow> 's option) \<Rightarrow> (nat \<Rightarrow> 's \<Rightarrow> 's option) \<Rightarrow> itch_event \<Rightarrow>
   nat \<Rightarrow> replay_source \<Rightarrow> replay_engine \<times> symbol_map \<times> 's \<Rightarrow> (replay_engine \<times> symbol_map \<times> 's) option" where
  [code, code_eval]: "replay_loop cfg on_order on_seg junk seg_msg src st =
     (case source_next src of
        (None, src') \<Rightarrow> if seg_msg > 0 then end_segment on_seg st else Some st
      | (Some (body, n), src') \<Rightarrow>
          if rc_max_messages cfg \<noteq> 0 \<and> re_total (fst st) \<ge> rc_max_messages cfg
          then (if seg_msg > 0 then end_segment on_seg st else Some st)
          else do {
            st1 \<leftarrow> handle_frame on_order junk body st;
            if seg_msg + 1 \<ge> rc_segment_size cfg
            then do {
              st2 \<leftarrow> end_segment on_seg st1;
              replay_loop cfg on_order on_seg junk 0 src' st2
            }
            else replay_loop cfg on_order on_seg junk (seg_msg + 1) src' st1
          })"

definition replay_run ::
  "replay_config \<Rightarrow> (itch_event \<Rightarrow> 's \<Rightarrow> 's option) \<Rightarrow> (nat \<Rightarrow> 's \<Rightarrow> 's option) \<Rightarrow> itch_event \<Rightarrow>
   u8 list option \<Rightarrow> replay_source \<Rightarrow> replay_engine \<times> symbol_map \<times> 's \<Rightarrow> (replay_engine \<times> symbol_map \<times> 's) option" where
  [code_eval]: "replay_run cfg on_order on_seg junk file src st =
     (case source_open file src of
        (False, src') \<Rightarrow> Some st
      | (True, src') \<Rightarrow> replay_loop cfg on_order on_seg junk 0 src' st)"

text \<open>
  The plan of a run: the frames up to the message limit, cut into segments; every segment is
  handled frame by frame and closed by the callback.
\<close>

fun chunks :: "nat \<Rightarrow> 'a list \<Rightarrow> 'a list list" where
  "chunks n [] = []"
| "chunks n (x # xs) = (x # take (n - 1) xs) # chunks n (drop (n - 1) xs)"

definition run_segment ::
  "(itch_event \<Rightarrow> 's \<Rightarrow> 's option) \<Rightarrow> (nat \<Rightarrow> 's \<Rightarrow> 's option) \<Rightarrow> itch_event \<Rightarrow> u8 list list \<Rightarrow>
   replay_engine \<times> symbol_map \<times> 's \<Rightarrow> (replay_engine \<times> symbol_map \<times> 's) option" where
  "run_segment on_order on_seg junk seg st = do {
     st1 \<leftarrow> foldo (handle_frame on_order junk) seg st;
     end_segment on_seg st1
   }"

definition wanted :: "replay_config \<Rightarrow> nat \<Rightarrow> 'a list \<Rightarrow> 'a list" where
  "wanted cfg done xs = (if rc_max_messages cfg = 0 then xs else take (rc_max_messages cfg - done) xs)"

lemma handle_frame_total: "handle_frame on_order junk b st = Some st1 \<Longrightarrow> re_total (fst st1) = Suc (re_total (fst st))"
  by (auto simp: handle_frame_def split: prod.splits bool.splits bind_split_asm)

lemma end_segment_total: "end_segment on_seg st = Some st1 \<Longrightarrow> re_total (fst st1) = re_total (fst st)"
  by (auto simp: end_segment_def split: prod.splits bind_split_asm)

lemma wanted_Nil [simp]: "wanted cfg n [] = []"
  by (simp add: wanted_def)

lemma wanted_Cons:
  "wanted cfg n (b # bs) = (if rc_max_messages cfg \<noteq> 0 \<and> n \<ge> rc_max_messages cfg then [] else b # wanted cfg (Suc n) bs)"
proof (cases "rc_max_messages cfg \<le> n")
  case False
  then have "rc_max_messages cfg - n = Suc (rc_max_messages cfg - Suc n)" by simp
  then show ?thesis using False by (simp add: wanted_def)
qed (auto simp: wanted_def)

text \<open>
  The loop from inside a segment: \<open>j\<close> frames of it are done, the next ones complete it and the
  rest is cut afresh.
\<close>

lemma replay_loop_chunks:
  fixes st :: "replay_engine \<times> symbol_map \<times> 's" and cfg :: replay_config
  defines "n \<equiv> max 1 (rc_segment_size cfg)"
  assumes "j < n"
  shows "replay_loop cfg on_order on_seg junk j src st =
    (let ws = wanted cfg (re_total (fst st)) (pending src) in
     if j = 0 then foldo (run_segment on_order on_seg junk) (chunks n ws) st
     else do {
       st1 \<leftarrow> run_segment on_order on_seg junk (take (n - j) ws) st;
       foldo (run_segment on_order on_seg junk) (chunks n (drop (n - j) ws)) st1
     })"
  using assms(2)
proof (induction "pending src" arbitrary: src j st)
  case Nil
  then have "source_next src = (None, src)" using source_next_pending [of src] by simp
  then show ?case
    by (subst replay_loop.simps) (simp add: Nil.hyps [symmetric] run_segment_def split: bind_split)
next
  case (Cons b bs)
  define s' where "s' = src\<lparr>rs_pos := rs_pos src + 2 + length b, rs_frames := rs_frames src + 1\<rparr>"
  let ?F = "foldo (run_segment on_order on_seg junk)"
  have p: "pending s' = bs" using source_next_pending [of src] Cons.hyps(2) by (metis s'_def)
  have nx: "source_next src = (Some (b, rs_frames src + 1), s')"
    using source_next_pending [of src] Cons.hyps(2) [symmetric] by (simp add: s'_def)
  show ?case
  proof (cases "rc_max_messages cfg \<noteq> 0 \<and> re_total (fst st) \<ge> rc_max_messages cfg")
    case True
    then show ?thesis
      by (subst replay_loop.simps) (simp add: nx Cons.hyps(2) [symmetric] wanted_Cons run_segment_def split: bind_split)
  next
    case False
    let ?ws = "wanted cfg (Suc (re_total (fst st))) bs"
    have ws: "wanted cfg (re_total (fst st)) (pending src) = b # ?ws"
      using False by (simp add: Cons.hyps(2) [symmetric] wanted_Cons)
    have step: "replay_loop cfg on_order on_seg junk j src st = do {
        st1 \<leftarrow> handle_frame on_order junk b st;
        if j + 1 \<ge> rc_segment_size cfg
        then do { st2 \<leftarrow> end_segment on_seg st1; replay_loop cfg on_order on_seg junk 0 s' st2 }
        else replay_loop cfg on_order on_seg junk (j + 1) s' st1 }"
      using False by (subst replay_loop.simps) (simp only: nx prod.case option.case if_False)
    show ?thesis
    proof (cases "handle_frame on_order junk b st")
      case None
      then show ?thesis
        using Cons.prems by (cases "n - j") (simp_all add: step ws Let_def run_segment_def)
    next
      case (Some st1)
      have t1: "re_total (fst st1) = Suc (re_total (fst st))" by (rule handle_frame_total [OF Some])
      show ?thesis
      proof (cases "j + 1 \<ge> rc_segment_size cfg")
        case True
        then have nj: "n - j = 1" "n - 1 = j" using Cons.prems by (auto simp: n_def)
        have "replay_loop cfg on_order on_seg junk 0 s' st2 = ?F (chunks n ?ws) st2"
          if "end_segment on_seg st1 = Some st2" for st2
          using Cons.hyps(1) [of s' 0 st2] p t1 end_segment_total [OF that] by (simp add: Let_def n_def)
        then show ?thesis
          using True Some nj ws
          by (cases "end_segment on_seg st1") (auto simp: step Let_def run_segment_def)
      next
        case nl: False
        then have nj: "j + 1 < n" "n - j = Suc (n - (j + 1))" by (auto simp: n_def)
        have "replay_loop cfg on_order on_seg junk (j + 1) s' st1 = do {
            st1 \<leftarrow> run_segment on_order on_seg junk (take (n - (j + 1)) ?ws) st1;
            ?F (chunks n (drop (n - (j + 1)) ?ws)) st1 }"
          using Cons.hyps(1) [of s' "j + 1" st1] p t1 nj by (simp add: Let_def)
        then show ?thesis
          using nl Some nj ws by (simp add: step Let_def run_segment_def)
      qed
    qed
  qed
qed

lemma replay_run_eq:
  "replay_run cfg on_order on_seg junk (Some file) src (re, sm, s) =
    foldo (run_segment on_order on_seg junk)
      (chunks (max 1 (rc_segment_size cfg)) (wanted cfg (re_total re) (frames_of file))) (re, sm, s)"
proof (cases "file = []")
  case False
  then show ?thesis
    using replay_loop_chunks [of 0 cfg on_order on_seg junk "\<lparr>rs_data = file, rs_pos = 0, rs_frames = 0\<rparr>" "(re, sm, s)"]
    by (simp add: replay_run_def source_open_def pending_def)
qed (simp add: replay_run_def source_open_def)

text \<open>What the callbacks keep holds at the end of the run.\<close>

lemma replay_run_keeps:
  assumes "replay_run cfg on_order on_seg junk file src (re, sm, s) = Some (re', sm', s')" "P (re_segments re) s"
    and ord: "\<And>n ev s s'. on_order ev s = Some s' \<Longrightarrow> P n s \<Longrightarrow> P n s'"
    and seg: "\<And>n s s'. on_seg n s = Some s' \<Longrightarrow> P n s \<Longrightarrow> P (Suc n) s'"
  shows "P (re_segments re') s'"
proof (cases "file")
  case None
  then show ?thesis using assms(1,2) by (simp add: replay_run_def source_open_def)
next
  case (Some f)
  let ?P = "\<lambda>st. P (re_segments (fst st)) (snd (snd st))"
  have frame: "?P st'" if "handle_frame on_order junk b st = Some st'" "?P st" for b st st'
    using that by (auto simp: handle_frame_def split: prod.splits bool.splits bind_split_asm dest: ord)
  have segm: "?P st'" if "end_segment on_seg st = Some st'" "?P st" for st st'
    using that by (auto simp: end_segment_def split: prod.splits bind_split_asm dest: seg)
  have step: "?P st'" if r: "run_segment on_order on_seg junk c st = Some st'" and p: "?P st" for c st st'
  proof -
    obtain st1 where a: "foldo (handle_frame on_order junk) c st = Some st1" "end_segment on_seg st1 = Some st'"
      using r unfolding run_segment_def bind_eq_Some_conv by blast
    have "?P st1" by (rule foldo_keeps [where P = ?P, OF a(1) p]) (erule (1) frame)
    then show ?thesis by (rule segm [OF a(2)])
  qed
  have run: "foldo (run_segment on_order on_seg junk)
      (chunks (max 1 (rc_segment_size cfg)) (wanted cfg (re_total re) (frames_of f))) (re, sm, s) = Some (re', sm', s')"
    using assms(1) Some by (simp add: replay_run_eq)
  show ?thesis using foldo_keeps [where P = ?P, OF run _ step] assms(2) by simp
qed

text \<open>
  C35: The replay is segment by segment: a run handles the frames of the file up to the message limit
  in order, calls the segment callback after every \<open>segment_size\<close> frames and once more for a last
  incomplete segment, and nothing else.
\<close>

theorem replay_run_plan:
  "replay_run cfg on_order on_seg junk (Some file) src (re, sm, s) =
    foldo (run_segment on_order on_seg junk)
      (chunks (max 1 (rc_segment_size cfg)) (wanted cfg (re_total re) (frames_of file))) (re, sm, s)"
  by (rule replay_run_eq)

definition accepts :: "u8 list \<Rightarrow> bool" where
  "accepts b \<longleftrightarrow> fst (feed b Map.empty blank_event)"

lemma feed_accepts: "fst (feed b sm out) = accepts b"
  by (simp add: feed_def Let_def accepts_def)

lemma handle_frame_ok:
  assumes "\<And>ev s. \<exists>s'. on_order ev s = Some s'"
  shows "\<exists>sm' s'. handle_frame on_order junk b (re, sm, s) =
    Some (re\<lparr>re_order_events := re_order_events re + (if accepts b then 1 else 0), re_total := re_total re + 1\<rparr>, sm', s')"
proof -
  obtain ok sm' ev where f: "feed b sm junk = (ok, sm', ev)" by (cases "feed b sm junk")
  then have "ok = accepts b" using feed_accepts [of b sm junk] by simp
  moreover obtain s' where "on_order ev s = Some s'" using assms by blast
  ultimately show ?thesis using f by (cases ok) (auto simp: handle_frame_def)
qed

lemma foldo_frames_ok:
  assumes "\<And>ev s. \<exists>s'. on_order ev s = Some s'"
  shows "\<exists>sm' s'. foldo (handle_frame on_order junk) bs (re, sm, s) =
    Some (re\<lparr>re_order_events := re_order_events re + length (filter accepts bs), re_total := re_total re + length bs\<rparr>, sm', s')"
proof (induction bs arbitrary: re sm s)
  case (Cons b bs)
  obtain sm1 s1 where h: "handle_frame on_order junk b (re, sm, s) =
      Some (re\<lparr>re_order_events := re_order_events re + (if accepts b then 1 else 0), re_total := re_total re + 1\<rparr>, sm1, s1)"
    using handle_frame_ok [where on_order = on_order and junk = junk and b = b and re = re and sm = sm and s = s, OF assms] by blast
  show ?case
    using Cons.IH [of "re\<lparr>re_order_events := re_order_events re + (if accepts b then 1 else 0), re_total := re_total re + 1\<rparr>" sm1 s1]
    by (auto simp: h)
qed simp

lemma run_segments_ok:
  assumes "\<And>ev s. \<exists>s'. on_order ev s = Some s'" "\<And>k s. \<exists>s'. on_seg k s = Some s'"
  shows "\<exists>re' sm' s'. foldo (run_segment on_order on_seg junk) cs (re, sm, s) = Some (re', sm', s') \<and>
    re_total re' = re_total re + length (concat cs) \<and>
    re_order_events re' = re_order_events re + length (filter accepts (concat cs)) \<and>
    re_segments re' = re_segments re + length cs"
proof (induction cs arbitrary: re sm s)
  case (Cons c cs)
  let ?r = "re\<lparr>re_order_events := re_order_events re + length (filter accepts c), re_total := re_total re + length c\<rparr>"
  obtain sm1 s1 where h: "foldo (handle_frame on_order junk) c (re, sm, s) = Some (?r, sm1, s1)"
    using foldo_frames_ok [where on_order = on_order and junk = junk and bs = c and re = re and sm = sm and s = s, OF assms(1)] by blast
  obtain s2 where e: "on_seg (re_segments re) s1 = Some s2" using assms(2) by blast
  show ?case
    using Cons.IH [of "?r\<lparr>re_segments := re_segments re + 1\<rparr>" sm1 s2]
    by (auto simp: run_segment_def h end_segment_def e)
qed simp

lemma concat_chunks [simp]: "concat (chunks n xs) = xs"
  by (induction n xs rule: chunks.induct) simp_all

lemma length_chunks: "0 < n \<Longrightarrow> length (chunks n xs) = (length xs + n - 1) div n"
proof (induction n xs rule: chunks.induct)
  case (2 n x xs)
  show ?case
  proof (cases "length xs \<le> n - 1")
    case True
    then have "(length (x # xs) + n - 1) div n = 1"
      using 2(2) by (intro div_nat_eqI) auto
    then show ?thesis using True by simp
  next
    case False
    then have "length (x # xs) + n - 1 = (length (drop (n - 1) xs) + n - 1) + n" using 2(2) by auto
    then have "(length (x # xs) + n - 1) div n = (length (drop (n - 1) xs) + n - 1) div n + 1"
      using 2(2) by (simp only: div_add_self2)
    then show ?thesis using 2 by simp
  qed
qed simp



end
