(* ===== verification/Simulator.thy ===== *)
theory Simulator
  imports Sim_Worker Recorder Replay
begin

text \<open>
  The program (\<open>src/sim_main.cpp\<close>): a replayed file drives the exchange, the exchange drives the market
  data consumer and the workers, and every segment border is a window in which the workers trade. The
  file is its bytes, \<open>None\<close> when it cannot be opened.
\<close>

section \<open>State\<close>

record program = sim +
  pg_snapshots :: "segment_snapshot list"
  pg_orders :: "(u64 \<times> oms_entry) list"

text \<open>The default thresholds, 500 and 0.3 of the full scale.\<close>

definition new_ofi :: strategy where
  [code_eval]: "new_ofi = OFI (ofi_new 500)"

definition new_obi :: strategy where
  [code_eval]: "new_obi = OBI (obi_new 3000)"

definition new_worker :: "config \<Rightarrow> strategy list \<Rightarrow> nat \<Rightarrow> worker" where
  [code_eval]: "new_worker cfg sts i =
     worker_init (of_nat i) (of_nat (max 1 (cf_workers cfg))) 1 (cf_max_position cfg) (cfg_strategy cfg) (worker_new sts)"

definition new_risk :: "config \<Rightarrow> risk_manager" where
  [code_eval]: "new_risk cfg = risk_configure (cf_max_position cfg) (cf_max_daily_loss cfg) (cf_initial_equity cfg)
     (cf_max_drawdown_pause cfg) (cf_max_drawdown_flatten cfg) risk_new"

definition assemble :: "config \<Rightarrow> strategy list \<Rightarrow> program option" where
  [code_eval]: "assemble cfg sts = do {
     market_pool \<leftarrow> slot_pool_new (cf_pool_slots cfg);
     market_index \<leftarrow> slot_index_new (cf_pool_slots cfg);
     let om = set_next_id (cf_order_id_base cfg) oms_empty;
     let x = set_trade_recorder (set_base_qty (cf_base_qty cfg) (exec_new om (new_risk cfg)));
     m \<leftarrow> exchange_new (cf_pool_slots cfg) x;
     let m1 = set_market_view (Some (consumer_new market_pool market_index)) m;
     Some (sim.extend (market.extend m1 \<lparr>sm_workers = map (new_worker cfg sts) [0..<max 1 (cf_workers cfg)]\<rparr>)
       \<lparr>pg_snapshots = [], pg_orders = []\<rparr>)
   }"

section \<open>The run\<close>

text \<open>What the segment snapshot adds up over the orders: quantity traded, net position.\<close>

definition add_filled :: "u64 \<times> oms_entry \<Rightarrow> u64 \<times> int \<Rightarrow> u64 \<times> int" where
  [code_eval]: "add_filled p acc = (case (p, acc) of ((_, e), (filled, net)) \<Rightarrow>
     (filled + e_filled e,
      add64 net (mul64 (if co_side (e_order e) = OS_BUY then 1 else -1) (sint (e_filled e)))))"

definition snapshot_of :: "nat \<Rightarrow> 'x sim_scheme \<Rightarrow> segment_snapshot" where
  [code_eval]: "snapshot_of seg s =
     (case fold add_filled (oms_orders (xe_om s)) (0, 0) of (filled, net) \<Rightarrow>
       \<lparr>sn_segment = seg, sn_equity = equity (xe_rm s), sn_drawdown = drawdown (xe_rm s),
        sn_realized_pnl = realized_pnl (xe_rm s), sn_net_position = net, sn_engine_trades = xs_trades s,
        sn_strategy_resting = strategy_resting s,
        sn_strategy_trades = (case xe_trades s of None \<Rightarrow> 0 | Some ts \<Rightarrow> of_nat (length ts)),
        sn_strategy_filled = filled, sn_strategy_pnl = realized_pnl (xe_rm s)\<rparr>)"

definition arbitrate_all :: "nat \<Rightarrow> 'x sim_scheme \<Rightarrow> 'x sim_scheme option" where
  [code_eval]: "arbitrate_all seg s =
     foldo (arbitrate (the_exchange (Some worker_sink)) seg) [0..<length (sm_workers s)] s"

definition segment_border :: "nat \<Rightarrow> program \<Rightarrow> program option" where
  [code_eval]: "segment_border seg s = do {
     s1 \<leftarrow> arbitrate_all seg s;
     Some (s1\<lparr>pg_snapshots := pg_snapshots s1 @ [snapshot_of seg s1]\<rparr>)
   }"

definition market_step :: "itch_event \<Rightarrow> 'x sim_scheme \<Rightarrow> 'x sim_scheme option" where
  [code_eval]: "market_step = on_market_order (Some worker_sink) (Some (the_report (Some worker_sink)))"

definition the_recorder :: "program \<Rightarrow> recorder" where
  [code_eval]: "the_recorder s = \<lparr>rr_snapshots = pg_snapshots s, rr_orders = pg_orders s,
     rr_trades = (case xe_trades s of None \<Rightarrow> [] | Some ts \<Rightarrow> ts)\<rparr>"

text \<open>The numbers printed at the end.\<close>

record printed =
  pr_messages :: nat
  pr_order_events :: nat
  pr_segments :: nat
  pr_engine_trades :: u64
  pr_orders :: nat
  pr_traded :: nat
  pr_qty :: u64
  pr_resting :: nat
  pr_realized :: int
  pr_final_equity :: int
  pr_max_drawdown :: int

definition print_run :: "replay_engine \<Rightarrow> program \<Rightarrow> printed" where
  [code_eval]: "print_run re s =
     (let ts = rr_trades (the_recorder s); sns = pg_snapshots s in
      \<lparr>pr_messages = re_total re, pr_order_events = re_order_events re, pr_segments = re_segments re,
       pr_engine_trades = xs_trades s, pr_orders = order_count (xe_om s), pr_traded = length ts,
       pr_qty = fold (\<lambda>t n. n + td_qty t) ts 0, pr_resting = strategy_resting s,
       pr_realized = realized_pnl (xe_rm s),
       pr_final_equity = (if sns = [] then equity (xe_rm s) else sn_equity (last sns)),
       pr_max_drawdown = fold (\<lambda>sn m. if sn_drawdown sn > m then sn_drawdown sn else m) sns 0\<rparr>)"

definition start_ok :: "strategy_config \<Rightarrow> bool" where
  [code_eval]: "start_ok sc \<longleftrightarrow>
     sc_strategies sc = [] \<or> sc_primary sc = [] \<or> sc_primary sc \<in> set (sc_strategies sc)"

definition run_sim ::
  "config \<Rightarrow> strategy list \<Rightarrow> itch_event \<Rightarrow> u8 list option \<Rightarrow> (string \<Rightarrow> bool) \<Rightarrow> (int \<times> (out_files \<times> printed) option) option" where
  [code_eval]: "run_sim cfg sts junk file can_open =
     (if \<not> start_ok (cfg_strategy cfg) then Some (1, None)
      else do {
        s0 \<leftarrow> assemble cfg sts;
        (re, _, s1) \<leftarrow> replay_run \<lparr>rc_segment_size = cf_segment_size cfg, rc_max_messages = cf_max_messages cfg\<rparr>
          market_step segment_border junk file \<lparr>rs_data = [], rs_pos = 0, rs_frames = 0\<rparr>
          (\<lparr>re_total = 0, re_order_events = 0, re_segments = 0\<rparr>, Map.empty, s0);
        let s2 = s1\<lparr>pg_orders := pg_orders s1 @ oms_orders (xe_om s1)\<rparr>;
        let (_, files) = recorder_write can_open (ac_out_dir (cfg_analysis cfg)) (re_total re) (re_order_events re) (re_segments re) (xs_trades s2) (the_recorder s2);
        Some (0, Some (files, print_run re s2))
      })"

text \<open>The rest of \<open>main\<close> after the configuration is loaded: the supported combinations of strategies; anything else ends with exit code 1.\<close>

definition sim_main ::
  "config \<Rightarrow> itch_event \<Rightarrow> u8 list option \<Rightarrow> (string \<Rightarrow> bool) \<Rightarrow> (int \<times> (out_files \<times> printed) option) option" where
  [code_eval]: "sim_main cfg junk file can_open =
     (let st = sc_strategies (cfg_strategy cfg) in
      if st = [''ofi'', ''obi''] then run_sim cfg [new_ofi, new_obi] junk file can_open
      else if st = [''ofi''] then run_sim cfg [new_ofi] junk file can_open
      else if st = [''obi''] then run_sim cfg [new_obi] junk file can_open
      else if st = [] then run_sim cfg [] junk file can_open
      else Some (1, None))"

text \<open>
  \<open>main\<close>, given the arguments after the program's name and the files it can read. An exception of the
  loader ends the program.
\<close>

definition main_entry ::
  "'n yaml \<Rightarrow> string list \<Rightarrow> itch_event \<Rightarrow> (string \<Rightarrow> u8 list option) \<Rightarrow> (string \<Rightarrow> bool) \<Rightarrow>
   yaml_exception + (int \<times> (out_files \<times> printed) option) option" where
  [code_eval]: "main_entry y args junk files can_open =
     attempt (config_load y (case args of [] \<Rightarrow> ''config/simulator.yaml'' | path # _ \<Rightarrow> path))
       (\<lambda>cfg. Inr (sim_main cfg junk (files (pc_file (cfg_replay cfg))) can_open))"

end
