(* ===== verification/Sim_Ledger.thy ===== *)
theory Sim_Ledger
  imports Exec_Ledger Simulator
begin

text \<open>
  The simulated exchange keeps the contract of the execution engine: an immediate-or-cancel order is
  filled at most once over and never rests, so the books of the trading side agree in every state a run
  reaches, whatever the market sends.
\<close>

section \<open>What the engine answers to an immediate-or-cancel order\<close>

definition rsp_total :: "response list \<Rightarrow> nat" where
  [code_eval]: "rsp_total rs = sum_list (map (\<lambda>r. case r of RSP_TRADE _ _ _ _ q \<Rightarrow> unat q | _ \<Rightarrow> 0) rs)"

definition is_trade :: "response \<Rightarrow> bool" where
  "is_trade r \<longleftrightarrow> (case r of RSP_TRADE _ _ _ _ _ \<Rightarrow> True | _ \<Rightarrow> False)"

lemma rsp_total_simps [simp]:
  "rsp_total [] = 0" "rsp_total (RSP_TRADE l m sd p q # rs) = unat q + rsp_total rs"
  "rsp_total (rs @ rs') = rsp_total rs + rsp_total rs'" "rsp_total [RSP_FILLED i] = 0" "rsp_total [RSP_ERROR c] = 0"
  by (simp_all add: rsp_total_def)

text \<open>A loop only adds trades, and trades what the order has left, \<open>n\<close>.\<close>

definition match_answer :: "response list \<Rightarrow> u32 \<Rightarrow> match_state \<Rightarrow> bool" where
  "match_answer out n z \<longleftrightarrow> (case z of (b, ord', out', lg) \<Rightarrow>
     \<exists>ts. out' = out @ ts \<and> (\<forall>r\<in>set ts. is_trade r) \<and> rsp_total ts + unat (remaining_qty ord') = unat n)"

lemma match_answer_stop [simp]: "match_answer out (remaining_qty ord) (b, ord, out, lg)"
  by (auto simp: match_answer_def intro!: exI [of _ "[]"])

lemma match_answer_done [simp]: "remaining_qty ord = 0 \<Longrightarrow> match_answer out 0 (b, ord, out, lg)"
  using match_answer_stop [of out ord b lg] by simp

lemma match_answer_step:
  assumes "match_answer (out @ [RSP_TRADE l m sd p q]) (n - q) z" and le: "q \<le> n"
  shows "match_answer out n z"
proof -
  obtain b ord' out' lg where z: "z = (b, ord', out', lg)" by (cases z)
  obtain ts where ts: "out' = (out @ [RSP_TRADE l m sd p q]) @ ts" "\<forall>r\<in>set ts. is_trade r"
    "rsp_total ts + unat (remaining_qty ord') = unat (n - q)"
    using assms(1) by (auto simp: match_answer_def z)
  have "unat (n - q) = unat n - unat q" "unat q \<le> unat n"
    using le by (simp_all add: unat_sub word_le_nat_alt)
  then show ?thesis
    using ts by (auto simp: match_answer_def z is_trade_def intro!: exI [of _ "RSP_TRADE l m sd p q # ts"])
qed

lemma match_answer_all: "match_answer (out @ [RSP_TRADE l m sd p n]) 0 z \<Longrightarrow> match_answer out n z"
  by (rule match_answer_step [where q = n]) simp_all

lemma matchBuy_answer:
  assumes "matchBuyOrder locate seq book ord out lg = Some z"
  shows "match_answer out (remaining_qty ord) z"
proof (rule matchBuyOrder.raw_induct
    [where P = "\<lambda>locate seq book ord out lg z. match_answer out (remaining_qty ord) z", OF _ assms], goal_cases)
  case (1 f locate seq book ord out lg z)
  show ?case
    using 1(2)
    by (auto simp: Let_def split: if_splits bind_split_asm option.splits dest!: 1(1)
        intro: match_answer_all match_answer_step)
qed

lemma matchSell_answer:
  assumes "matchSellOrder locate seq book ord out lg = Some z"
  shows "match_answer out (remaining_qty ord) z"
proof (rule matchSellOrder.raw_induct
    [where P = "\<lambda>locate seq book ord out lg z. match_answer out (remaining_qty ord) z", OF _ assms], goal_cases)
  case (1 f locate seq book ord out lg z)
  show ?case
    using 1(2)
    by (auto simp: Let_def split: if_splits bind_split_asm option.splits dest!: 1(1)
        intro: match_answer_all match_answer_step)
qed

text \<open>Whatever the state of the engine: at most the quantity is traded, and nothing rests.\<close>

lemma run_match_answer:
  assumes "run_match locate book ord [] e = Some (book', ord', out', e')"
  shows "\<exists>n. rsp_total out' + n = unat (remaining_qty ord) \<and> (\<forall>r\<in>set out'. is_trade r)"
  using assms matchBuy_answer [of locate "next_sequence e" book ord "[]" "tlog e"]
    matchSell_answer [of locate "next_sequence e" book ord "[]" "tlog e"]
  by (fastforce simp: run_match_def match_answer_def split: if_splits bind_split_asm)

lemma processAdd_ioc_answer:
  assumes "processAdd locate ref sd pr q uid IOC [] e = Some (rsp, e')"
  shows "rsp_total rsp \<le> unat q \<and> (\<forall>i. RSP_OK i \<notin> set rsp)"
proof -
  have tr: "rsp_total out' \<le> unat q \<and> (\<forall>i. RSP_OK i \<notin> set out')"
    if "run_match locate book ord [] e1 = Some (book', ord', out', e2)" "remaining_qty ord = q"
    for book ord e1 book' ord' out' e2
    using run_match_answer [OF that(1)] that(2) by (auto simp: is_trade_def)
  show ?thesis
    using assms by (auto simp: processAdd_def Let_def split: prod.splits option.splits if_splits bind_split_asm dest!: tr)
qed

section \<open>The broadcast\<close>

text \<open>No strategy order rests, and there are \<open>n\<close> workers.\<close>

definition quiet :: "nat \<Rightarrow> 'x sim_scheme \<Rightarrow> bool" where
  "quiet n s \<longleftrightarrow> xs_strategy_refs s = {} \<and> length (sm_workers s) = n"

lemma quiet_fields [simp]:
  "quiet n (s\<lparr>xe_om := m\<rparr>) = quiet n s" "quiet n (s\<lparr>xe_rm := rm\<rparr>) = quiet n s"
  "quiet n (s\<lparr>xe_trades := ts\<rparr>) = quiet n s" "quiet n (s\<lparr>xe_locked := b\<rparr>) = quiet n s"
  "quiet n (s\<lparr>xe_flatten_issued := b\<rparr>) = quiet n s"
  by (simp_all add: quiet_def)

text \<open>What a broadcast may change: market data, marks, the segment context and the workers.\<close>

definition aside :: "'x sim_scheme \<Rightarrow> 'x sim_scheme \<Rightarrow> bool" where
  "aside s s' \<longleftrightarrow> untouched s s' \<and> xs_strategy_refs s' = xs_strategy_refs s \<and> length (sm_workers s') = length (sm_workers s)"

lemma aside_refl [simp]: "aside s s"
  by (simp add: aside_def)

lemma aside_trans: "aside s s' \<Longrightarrow> aside s' s'' \<Longrightarrow> aside s s''"
  unfolding aside_def using untouched_trans by (metis (no_types))

lemma aside_quiet: "aside s s' \<Longrightarrow> quiet n s \<Longrightarrow> untouched s s' \<and> quiet n s'"
  by (simp add: aside_def quiet_def)

lemma aside_fields [simp]:
  "aside s (s'\<lparr>xs_engine := e\<rparr>) = aside s s'" "aside s (s'\<lparr>xs_view := v\<rparr>) = aside s s'"
  "aside s (s'\<lparr>xs_trades := n\<rparr>) = aside s s'" "aside s (s'\<lparr>xs_clock := n\<rparr>) = aside s s'"
  by (simp_all add: aside_def untouched_def)

lemma update_equity_kept [simp]:
  "rk_qty (mark_price_at y p r) = rk_qty r" "max_position (mark_price_at y p r) = max_position r"
  by (simp_all add: mark_price_at_def update_equity_def Let_def)

lemma on_market_event_aside:
  fixes s :: "'x sim_scheme"
  assumes "on_market_event ev v i s = Some s'"
  shows "aside s s'"
  using assms
  by (auto simp: on_market_event_def Let_def put_worker_def set_segment_ctx_def aside_def untouched_def
      split: bind_split_asm if_splits option.splits)

lemma worker_sink_aside:
  fixes s :: "'x sim_scheme"
  assumes "worker_sink ev s = Some s'"
  shows "aside s s'"
proof -
  obtain v where "foldo (on_market_event ev v) [0..<length (sm_workers s)] s = Some s'"
    using assms by (auto simp: worker_sink_def split: option.splits)
  then show ?thesis
    by (rule foldo_keeps [where P = "aside s"]) (auto intro: aside_trans on_market_event_aside)
qed

lemma broadcast_aside:
  fixes s :: "'x sim_scheme"
  assumes "broadcast (Some worker_sink) ev s = Some s'"
  shows "aside s s'"
proof -
  have "worker_sink ev (s\<lparr>xs_view := xs_view s\<rparr>) = worker_sink ev s" by simp
  then obtain v where "worker_sink ev (s\<lparr>xs_view := v\<rparr>) = Some s'"
    using assms by (cases "xs_view s") (auto simp: broadcast_def split: bind_split_asm)
  from worker_sink_aside [OF this] show ?thesis
    by (simp add: aside_def untouched_def)
qed

section \<open>The contract\<close>

lemma unat_ucast_up: "unat (ucast (q :: u32) :: u64) = unat q"
  by (simp add: unsigned_ucast_eq take_bit_nat_eq_self order_less_le_trans [OF unsigned_less])

lemma unat_ucast_down: "unat (ucast (q :: u64) :: u32) \<le> unat q"
  by (simp add: unsigned_ucast_eq take_bit_nat_less_eq_self)

lemma submit_responses:
  fixes s :: "'x sim_scheme"
  assumes "foldo (submit_response (Some worker_sink) y oid) rs (res, t, s) = Some (res', t', s')" "\<forall>i. RSP_OK i \<notin> set rs"
  shows "aside s s' \<and> fills_total (sr_fills res') = fills_total (sr_fills res) + rsp_total rs"
  using assms
proof (induction rs arbitrary: res t s)
  case (Cons r rs)
  obtain res1 t1 s1 where one: "submit_response (Some worker_sink) y oid r (res, t, s) = Some (res1, t1, s1)"
    and rest: "foldo (submit_response (Some worker_sink) y oid) rs (res1, t1, s1) = Some (res', t', s')"
    using Cons.prems(1) by (auto split: bind_split_asm)
  have "aside s s1 \<and> fills_total (sr_fills res1) = fills_total (sr_fills res) + rsp_total [r]"
  proof (cases r)
    case (RSP_TRADE l m sd p q)
    then obtain s2 where "broadcast (Some worker_sink) (make_execute y m (ucast q)) (s\<lparr>xs_trades := xs_trades s + 1\<rparr>) = Some s2" "s1 = s2"
      "sr_fills res1 = sr_fills res @ [\<lparr>fl_type = 0x45, fl_order_id = oid, fl_exchange_ref = 0, fl_filled_qty = ucast q,
         fl_fill_price = uint p\<rparr>]"
      using one by (auto simp: submit_response_def split: bind_split_asm)
    then show ?thesis
      using broadcast_aside [of _ "s\<lparr>xs_trades := xs_trades s + 1\<rparr>" s2] RSP_TRADE
      by (simp add: unat_ucast_up) (simp add: aside_def untouched_def)
  qed (use one Cons.prems(2) in \<open>auto simp: submit_response_def rsp_total_def\<close>)
  moreover have "aside s1 s' \<and> fills_total (sr_fills res') = fills_total (sr_fills res1) + rsp_total rs"
    using Cons.IH [OF rest] Cons.prems(2) by simp
  moreover have "rsp_total (r # rs) = rsp_total [r] + rsp_total rs" by (simp add: rsp_total_def)
  ultimately show ?case by (auto intro: aside_trans)
qed simp

lemma exchange_submit_ioc:
  fixes s :: "'x sim_scheme"
  assumes "exchange_submit (Some worker_sink) ord oid IOC s = Some (r, s')"
  shows "aside s s' \<and> fills_total (sr_fills r) \<le> unat (co_quantity ord)"
proof -
  let ?s = "s\<lparr>xs_clock := xs_clock s + 1\<rparr>"
  let ?q = "ucast (co_quantity ord) :: u32" and ?r0 = "\<lparr>sr_accepted = False, sr_fully_filled = False, sr_fills = []\<rparr>"
  obtain rsp e res t s2 where rsp: "processAdd (co_symbol_id ord) oid (if co_side ord = OS_BUY then BUY else SELL)
      (word_of_int (co_price ord)) ?q kStrategyUserId IOC [] (xs_engine ?s) = Some (rsp, e)"
    and f: "foldo (submit_response (Some worker_sink) (co_symbol_id ord) oid) rsp (?r0, 0, ?s\<lparr>xs_engine := e\<rparr>) = Some (res, t, s2)"
    and r: "r = res\<lparr>sr_fully_filled := (t = co_quantity ord)\<rparr>" "s' = s2"
    using assms by (auto simp: exchange_submit_def Let_def split: bind_split_asm prod.splits)
  have a: "rsp_total rsp \<le> unat ?q" "\<forall>i. RSP_OK i \<notin> set rsp"
    using processAdd_ioc_answer [OF rsp] by auto
  have "aside (?s\<lparr>xs_engine := e\<rparr>) s2 \<and> fills_total (sr_fills res) = 0 + rsp_total rsp"
    using submit_responses [OF f a(2)] by simp
  then show ?thesis
    using a(1) unat_ucast_down [of "co_quantity ord"] r by (auto simp: aside_def untouched_def)
qed

lemma exchange_cancel_locked:
  fixes s :: "'x sim_scheme"
  assumes "exchange_cancel (Some (on_order_report ex)) oid y uid s = Some s'" "xe_locked s"
  shows "aside s s'"
proof -
  let ?s = "s\<lparr>xs_clock := xs_clock s + 1\<rparr>"
  obtain rsp e where "foldo (cancel_response (Some (on_order_report ex)) oid) rsp (?s\<lparr>xs_engine := e\<rparr>) = Some s'"
    using assms(1) by (auto simp: exchange_cancel_def Let_def split: bind_split_asm prod.splits)
  then have "aside (?s\<lparr>xs_engine := e\<rparr>) s' \<and> xe_locked s'"
  proof (rule foldo_keeps [where P = "\<lambda>t. aside (?s\<lparr>xs_engine := e\<rparr>) t \<and> xe_locked t"])
    fix r t t'
    assume "cancel_response (Some (on_order_report ex)) oid r t = Some t'" "aside (?s\<lparr>xs_engine := e\<rparr>) t \<and> xe_locked t"
    then show "aside (?s\<lparr>xs_engine := e\<rparr>) t' \<and> xe_locked t'"
      by (auto simp: cancel_response_def Let_def on_order_report_def with_lock_def split: response.splits)
  qed (use assms(2) in simp)
  then show ?thesis by (auto simp: aside_def untouched_def)
qed

lemma exchange_quote_aside: "aside s (snd (exchange_quote y (s :: 'x sim_scheme)))"
  by (auto simp: exchange_quote_def Let_def split: prod.split option.split)

interpretation real_exchange: ioc_exchange "the_exchange (Some worker_sink) :: ('x sim_scheme) exchange_if" "quiet n" for n
proof unfold_locales
  fix s s' :: "'x sim_scheme" and ord oid r
  assume "if_submit (the_exchange (Some worker_sink)) ord oid IOC s = Some (r, s')"
  then have "aside s s' \<and> fills_total (sr_fills r) \<le> unat (co_quantity ord)"
    by (simp add: the_exchange_def exchange_submit_ioc)
  then show "fills_total (sr_fills r) \<le> unat (co_quantity ord)" "quiet n s \<Longrightarrow> untouched s s' \<and> quiet n s'"
    using aside_quiet by blast+
next
  fix s s' :: "'x sim_scheme" and oid y uid
  assume "quiet n s" "xe_locked s" "if_cancel (the_exchange (Some worker_sink)) oid y uid s = Some s'"
  then show "untouched s s' \<and> quiet n s'"
    using exchange_cancel_locked [of _ oid y uid s s'] aside_quiet by (auto simp: the_exchange_def)
next
  fix s :: "'x sim_scheme" and y
  assume "quiet n s"
  then show "untouched s (snd (if_quote (the_exchange (Some worker_sink)) y s)) \<and>
      quiet n (snd (if_quote (the_exchange (Some worker_sink)) y s))"
    using aside_quiet [OF exchange_quote_aside [of s y]] by (simp add: the_exchange_def)
qed simp_all

section \<open>The books in every state of a run\<close>

definition books_ok :: "nat \<Rightarrow> u64 \<Rightarrow> 'x sim_scheme \<Rightarrow> bool" where
  "books_ok n mp s \<longleftrightarrow> ledger s \<and> quiet n s \<and> \<not> xe_locked s \<and> max_position (xe_rm s) = mp"

lemma books_ok_aside: "books_ok n mp s \<Longrightarrow> aside s s' \<Longrightarrow> books_ok n mp s' \<and> xe_om s' = xe_om s"
  using aside_quiet [of s s' n] ledger_untouched [of s s'] by (auto simp: books_ok_def untouched_def)

text \<open>The events of the market leave the books alone: no strategy order rests that they could fill.\<close>

lemma route_aside:
  fixes s :: "'x sim_scheme"
  assumes "route_response (Some worker_sink) rep y r (t, s) = Some (t', s')" "xs_strategy_refs s = {}"
  shows "aside s s'"
proof (cases r)
  case (RSP_TRADE l m sd p q)
  then obtain s2 where "broadcast (Some worker_sink) (make_execute y m (ucast q)) (s\<lparr>xs_trades := xs_trades s + 1\<rparr>) = Some s2" "s' = s2"
    using assms by (auto simp: route_response_def is_strategy_order_def Let_def split: bind_split_asm)
  then show ?thesis
    using broadcast_aside [of _ "s\<lparr>xs_trades := xs_trades s + 1\<rparr>" s2] by (simp add: aside_def untouched_def)
qed (use assms in \<open>auto simp: route_response_def\<close>)

lemma market_step_aside:
  fixes s :: "'x sim_scheme"
  assumes "market_step ev s = Some s'" "xs_strategy_refs s = {}"
  shows "aside s s'"
proof -
  let ?s = "s\<lparr>xs_clock := xs_clock s + 1\<rparr>"
  obtain ans where ans: "engine_order ev (xs_engine ?s) = Some ans"
    using assms(1) by (auto simp: market_step_def on_market_order_def Let_def split: bind_split_asm)
  show ?thesis
  proof (cases ans)
    case None
    then show ?thesis
      using assms(1) ans by (auto simp: market_step_def on_market_order_def Let_def aside_def untouched_def)
  next
    case (Some a)
    obtain rsp e where a: "a = (rsp, e)" by (cases a)
    let ?e = "?s\<lparr>xs_engine := e\<rparr>"
    obtain s3 t s4 where b: "broadcast (Some worker_sink) (to_market_event ev ?e) ?e = Some s3"
      and f: "foldo (route_response (Some worker_sink) (Some (the_report (Some worker_sink))) (ucast (it_locate ev))) rsp (0, s3) = Some (t, s4)"
      and l: "s' = s4 \<or> (\<exists>x. broadcast (Some worker_sink) x s4 = Some s')"
      using assms(1) ans Some a
      by (auto simp: market_step_def on_market_order_def Let_def split: bind_split_asm prod.splits if_splits)
    have 3: "aside ?e s3" by (rule broadcast_aside [OF b])
    have "aside ?e (snd (t, s4))"
      using f
    proof (rule foldo_keeps [where P = "\<lambda>u. aside ?e (snd u)"])
      fix r u u'
      assume r: "route_response (Some worker_sink) (Some (the_report (Some worker_sink))) (ucast (it_locate ev)) r u = Some u'"
        and u: "aside ?e (snd u)"
      have "aside (snd u) (snd u')"
        using route_aside [of _ _ r "fst u" "snd u" "fst u'" "snd u'"] r u assms(2) by (simp add: aside_def)
      then show "aside ?e (snd u')" using u aside_trans by blast
    qed (use 3 in simp)
    then have "aside ?e s'" using l broadcast_aside aside_trans by (metis snd_conv)
    then show ?thesis by (simp add: aside_def untouched_def)
  qed
qed

text \<open>A worker's turn sends at most one order.\<close>

lemma aside_worker: "aside s (put_worker i w s)" "aside s (set_segment_ctx a b s)" "aside s (set_mid y m s)"
  by (simp_all add: aside_def untouched_def put_worker_def set_segment_ctx_def set_mid_def)

lemma live_mid_aside:
  fixes s :: "'x sim_scheme"
  assumes "live_mid (Some (the_exchange (Some worker_sink))) y s = (m, s')"
  shows "aside s s'"
  using assms exchange_quote_aside [of s y]
  by (cases "exchange_quote y s") (auto simp: live_mid_def query_book_def the_exchange_def split: option.splits if_splits)

lemma place_books:
  fixes s :: "'x sim_scheme"
  assumes p: "place_decision (the_exchange (Some worker_sink)) seg i w d s = Some s'"
    and ok: "books_ok n mp s" and nx: "oms_next_id (xe_om s) \<noteq> - 1" and mp: "unat mp < 2 ^ 63"
  shows "books_ok n mp s' \<and>
    (oms_next_id (xe_om s') = oms_next_id (xe_om s) \<or> oms_next_id (xe_om s') = oms_next_id (xe_om s) + 1)"
proof -
  obtain live s1 where l: "live_mid (Some (the_exchange (Some worker_sink))) (ad_locate d) s = (live, s1)"
    by (cases "live_mid (Some (the_exchange (Some worker_sink))) (ad_locate d) s")
  define s3 where "s3 = set_segment_ctx (of_nat seg) 0 (if live > 0 then set_mid (ad_locate d) live s1 else s1)"
  let ?sub = "submit_signal (Some (the_exchange (Some worker_sink))) (decision_signal d) (sw_strategy_id w) MARKET s3"
  have p': "(do {
       (oid, s4) \<leftarrow> ?sub;
       if oid \<noteq> 0 then do {
         w1 \<leftarrow> lget (sm_workers s4) i;
         Some (put_worker i (w1\<lparr>sw_last_side := ad_dir d, sw_last_str := ad_strength d\<rparr>) s4)
       } else Some s4 }) = Some s'"
    using p by (simp only: place_decision_def Let_def l prod.case flip: s3_def)
  then obtain oid s4 where sub: "?sub = Some (oid, s4)" by (cases ?sub) auto
  have s': "s' = s4 \<or> (\<exists>w1. s' = put_worker i w1 s4)"
    using p' unfolding sub by (cases "lget (sm_workers s4) i") (auto split: if_splits)
  have "aside s1 s3" unfolding s3_def by (auto intro: aside_trans aside_worker)
  then have "aside s s3" using live_mid_aside [OF l] aside_trans by blast
  from books_ok_aside [OF ok this] have 3: "books_ok n mp s3" "xe_om s3 = xe_om s" by simp_all
  have "books_ok n mp s4 \<and>
      (oms_next_id (xe_om s4) = oms_next_id (xe_om s) \<or> oms_next_id (xe_om s4) = oms_next_id (xe_om s) + 1)"
    using real_exchange.submit_sound [OF sub, of n] 3 nx mp by (simp add: books_ok_def)
  moreover have "aside s4 s'" using s' aside_worker(1) by auto
  ultimately show ?thesis using books_ok_aside [of n mp s4 s'] by simp
qed

lemma arbitrate_books:
  fixes s :: "'x sim_scheme"
  assumes "arbitrate (the_exchange (Some worker_sink)) seg i s = Some s'"
    and ok: "books_ok n mp s" and nx: "oms_next_id (xe_om s) \<noteq> - 1" and mp: "unat mp < 2 ^ 63"
  shows "books_ok n mp s' \<and>
    (oms_next_id (xe_om s') = oms_next_id (xe_om s) \<or> oms_next_id (xe_om s') = oms_next_id (xe_om s) + 1)"
proof -
  obtain w where "s' = s \<or> s' = put_worker i w s \<or>
      (\<exists>d. place_decision (the_exchange (Some worker_sink)) seg i w d (put_worker i w s) = Some s')"
    using assms(1) by (auto simp: arbitrate_def Let_def split: bind_split_asm if_splits)
  moreover have "books_ok n mp (put_worker i w s)" "xe_om (put_worker i w s) = xe_om s"
    using books_ok_aside [OF ok aside_worker(1) [of s i w]] by simp_all
  ultimately show ?thesis
    using ok nx mp place_books [of seg i w _ "put_worker i w s" s' n mp] by metis
qed

lemma arbitrate_turns:
  fixes s :: "'x sim_scheme"
  assumes "foldo (arbitrate (the_exchange (Some worker_sink)) seg) is s = Some s'"
    and "books_ok n mp s" "unat mp < 2 ^ 63" "unat (oms_next_id (xe_om s)) + length is < 2 ^ 64"
  shows "books_ok n mp s' \<and> unat (oms_next_id (xe_om s')) \<le> unat (oms_next_id (xe_om s)) + length is"
  using assms
proof (induction "is" arbitrary: s)
  case (Cons i "is")
  obtain s1 where s1: "arbitrate (the_exchange (Some worker_sink)) seg i s = Some s1"
    "foldo (arbitrate (the_exchange (Some worker_sink)) seg) is s1 = Some s'"
    using Cons.prems(1) by (auto split: bind_split_asm)
  have "unat (- 1 :: u64) = 2 ^ 64 - 1" by (simp add: unsigned_minus_1_eq_mask mask_eq_exp_minus_1)
  then have nx: "oms_next_id (xe_om s) \<noteq> - 1" using Cons.prems(4) by auto
  have u: "unat (oms_next_id (xe_om s) + 1) = unat (oms_next_id (xe_om s)) + 1"
    using Cons.prems(4) by (subst unat_plus64) auto
  note one = arbitrate_books [OF s1(1) Cons.prems(2) nx Cons.prems(3)]
  then have "unat (oms_next_id (xe_om s1)) \<le> unat (oms_next_id (xe_om s)) + 1" using u by auto
  then show ?case using Cons.IH [OF s1(2)] one Cons.prems(3,4) by simp
qed simp

section \<open>Runs\<close>

text \<open>The states a program reaches with \<open>n\<close> segment borders behind it, in any order of the calls.\<close>

inductive sim_reach :: "config \<Rightarrow> strategy list \<Rightarrow> nat \<Rightarrow> program \<Rightarrow> bool" for cfg sts where
  sim_start: "assemble cfg sts = Some s \<Longrightarrow> sim_reach cfg sts 0 s"
| sim_market: "sim_reach cfg sts n s \<Longrightarrow> market_step ev s = Some s' \<Longrightarrow> sim_reach cfg sts n s'"
| sim_border: "sim_reach cfg sts n s \<Longrightarrow> segment_border seg s = Some s' \<Longrightarrow> sim_reach cfg sts (Suc n) s'"

inductive_cases sim_reachE: "sim_reach cfg sts n s"

lemma assemble_books:
  assumes "assemble cfg sts = Some s"
  shows "books_ok (max 1 (cf_workers cfg)) (cf_max_position cfg) s \<and> oms_next_id (xe_om s) = cf_order_id_base cfg"
proof -
  have fields: "xe_om s = set_next_id (cf_order_id_base cfg) oms_empty" "xe_rm s = new_risk cfg" "xe_trades s = Some []"
    "xe_locked s = False" "xs_strategy_refs s = {}" "length (sm_workers s) = max 1 (cf_workers cfg)"
    using assms by (auto simp: assemble_def exchange_new_def set_market_view_def set_trade_recorder_def set_base_qty_def
        exec_new_def sim.extend_def market.extend_def exec_engine.extend_def Let_def split: bind_split_asm)
  have find: "oms_find (set_next_id (cf_order_id_base cfg) oms_empty) q = None" for q
    by (simp add: set_next_id_def oms_empty_def oms_find_def)
  have "ledger s"
    by (simp add: ledger_def fields oms_ok_start find net_flow_def flow_at_def new_risk_def risk_configure_def
        set_initial_equity_def risk_new_def)
  then show ?thesis
    by (simp add: books_ok_def quiet_def fields new_risk_def risk_configure_def set_initial_equity_def set_next_id_def)
qed

lemma sim_reach_books:
  assumes "sim_reach cfg sts n s" "unat (cf_max_position cfg) < 2 ^ 63"
    and "unat (cf_order_id_base cfg) + n * max 1 (cf_workers cfg) < 2 ^ 64"
  shows "books_ok (max 1 (cf_workers cfg)) (cf_max_position cfg) s \<and>
    unat (oms_next_id (xe_om s)) \<le> unat (cf_order_id_base cfg) + n * max 1 (cf_workers cfg)"
  using assms
proof (induction rule: sim_reach.induct)
  case (sim_start s)
  then show ?case using assemble_books by auto
next
  case (sim_market n s ev s')
  then show ?case
    using books_ok_aside [of _ _ s s'] market_step_aside [OF sim_market(2)] by (simp add: books_ok_def quiet_def)
next
  case (sim_border n s seg s')
  let ?W = "max 1 (cf_workers cfg)"
  have IH: "books_ok ?W (cf_max_position cfg) s" "unat (oms_next_id (xe_om s)) \<le> unat (cf_order_id_base cfg) + n * ?W"
    using sim_border by auto
  obtain s1 where s1: "foldo (arbitrate (the_exchange (Some worker_sink)) seg) [0..<length (sm_workers s)] s = Some s1"
    and s': "s' = s1\<lparr>pg_snapshots := pg_snapshots s1 @ [snapshot_of seg s1]\<rparr>"
    using sim_border(2) by (auto simp: segment_border_def arbitrate_all_def split: bind_split_asm)
  have "length (sm_workers s) = ?W" using IH(1) by (simp add: books_ok_def quiet_def)
  then have "books_ok ?W (cf_max_position cfg) s1 \<and> unat (oms_next_id (xe_om s1)) \<le> unat (oms_next_id (xe_om s)) + ?W"
    using arbitrate_turns [OF s1 IH(1)] sim_border.prems IH(2) by simp
  moreover have "aside s1 s'" by (simp add: s' aside_def untouched_def)
  ultimately show ?case using books_ok_aside [of ?W "cf_max_position cfg" s1 s'] IH(2) by simp
qed

section \<open>The books agree\<close>

text \<open>The end of every replay is such a state, with one border per segment of the replay.\<close>

lemma run_reaches:
  assumes "assemble cfg sts = Some s"
    and "replay_run rc market_step segment_border junk file src (\<lparr>re_total = 0, re_order_events = 0, re_segments = 0\<rparr>, sm, s) =
      Some (re, sm', s')"
  shows "sim_reach cfg sts (re_segments re) s'"
  using replay_run_keeps [where P = "sim_reach cfg sts", OF assms(2)] sim_start [OF assms(1)]
  by (simp add: sim_market sim_border)

text \<open>A small configuration, and its first segment border.\<close>

definition demo_config :: config where
  [code_eval]: "demo_config = default_config\<lparr>
     cfg_order_book := default_order_book\<lparr>oc_pool_slots := 4, oc_workers := 1\<rparr>,
     cfg_strategy := default_strategy\<lparr>sc_strategies := [''obi''], sc_primary := ''obi''\<rparr>,
     cfg_replay := default_replay\<lparr>pc_segment_size := 3\<rparr>\<rparr>"

text \<open>A bid and an ask arrive; at the border the imbalance strategy buys 100 shares from the ask.\<close>

definition demo_event :: "u64 \<Rightarrow> side \<Rightarrow> u32 \<Rightarrow> u32 \<Rightarrow> itch_event" where
  [code_eval]: "demo_event r sd pr q = \<lparr>it_type = IT_ADD, it_locate = 7, it_order_ref = r, it_new_order_ref = 0,
     it_side = sd, it_price = pr, it_shares = q, it_user_id = 0\<rparr>"

lemma demo_trade:
  "\<exists>s s1 s2 s3. assemble demo_config [new_obi] = Some s \<and> market_step (demo_event 1 BUY 5000 500) s = Some s1 \<and>
     market_step (demo_event 2 SELL 5002 150) s1 = Some s2 \<and> segment_border 0 s2 = Some s3 \<and> position (xe_rm s3) 7 = 100"
  by (simp add: code_eval sim.extend_def market.extend_def exec_engine.extend_def om_room_def hash_of_def
      equity_single [where k = 7] open_profit_def check_order_def drawdown_paused_def drawdown_def drawdown_flatten_def
      risk_on_fill_def mark_price_at_def update_equity_def i64_def cong: bind_eval_cong)



end
