(* ===== verification/Quiet_Feed.thy ===== *)
theory Quiet_Feed
  imports Log_Recovery Sim_Ledger "HOL-Library.Multiset"
begin

text \<open>
  A feed that brings no trade: orders that rest at once, deletions and replacements. What the exchange does
  with each of its events, as a change of the queues of its books.
\<close>

section \<open>The books of the exchange\<close>

text \<open>The queue of a side, and its top as price and quantity; -1 is the price of an empty side.\<close>

definition rested :: "engine \<Rightarrow> u64 \<Rightarrow> side \<Rightarrow> order list" where
  [code_eval]: "rested e l sd = (case view e (unat l) sd of None \<Rightarrow> [] | Some q \<Rightarrow> q)"

definition top_price :: "order list \<Rightarrow> int" where
  [code_eval]: "top_price q = (case q of [] \<Rightarrow> -1 | r # _ \<Rightarrow> uint (price r))"

definition top_qty :: "order list \<Rightarrow> u32" where
  [code_eval]: "top_qty q = (case q of [] \<Rightarrow> 0 | r # _ \<Rightarrow> (\<Sum>x\<leftarrow>filter (\<lambda>x. price x = price r) q. remaining_qty x))"

lemma top_of_queue:
  assumes ok: "book_ok b g F Oth" and S: "sd \<in> {BUY, SELL}"
  shows "(case lv sd b of [] \<Rightarrow> 0 | (p, l) # _ \<Rightarrow> p) = (case orders sd b g of [] \<Rightarrow> 0 | r # _ \<Rightarrow> price r) \<and>
    (case lv sd b of [] \<Rightarrow> 0 | (p, l) # _ \<Rightarrow> total_qty l) = top_qty (orders sd b g)"
proof (cases "lv sd b")
  case (Cons e m)
  obtain p l where e: "e = (p, l)" by (cases e)
  note side = book_side [OF ok S]
  have l: "level_ok (slots b) sd p l (g sd p)" using side_levels [OF side, of p l] Cons e by simp
  let ?as = "map (body (slots b)) (g sd p)" and ?bs = "map (body (slots b)) (queue_of m (g sd))"
  have q: "orders sd b g = ?as @ ?bs" by (simp add: orders_def qslots_def Cons e)
  have ne: "?as \<noteq> []" and pr: "\<forall>r\<in>set ?as. price r = p" using l by (auto simp: level_ok_def)
  have "price r \<noteq> p" if r: "r \<in> set ?bs" for r
  proof -
    obtain e' i where i: "e' \<in> set m" "i \<in> set (g sd (fst e'))" "r = body (slots b) i"
      using r by (auto simp: queue_of_def)
    have "distinct (map fst (lv sd b))" using side by (auto simp: side_ok_def intro: side_order.srt_distinct)
    then have "fst e' \<noteq> p" using i(1) Cons e by force
    then show ?thesis using side_slot(1) [OF side i(2)] i(3) by simp
  qed
  then have "filter (\<lambda>x. price x = p) (?as @ ?bs) = ?as" using pr by (simp add: filter_id_conv filter_empty_conv)
  moreover have "total_qty l = (\<Sum>x\<leftarrow>?as. remaining_qty x)" using l by (simp add: level_ok_def comp_def)
  moreover obtain r rs where "?as = r # rs" "price r = p" using ne pr by (cases ?as) auto
  ultimately show ?thesis unfolding q Cons e by (simp add: top_qty_def)
qed (simp add: orders_def qslots_def top_qty_def)

section \<open>A quiet feed\<close>

text \<open>
  New orders that are valid, under a number that is not in use, and cross nothing; deletions and replacements
  that name the order's own book, or no order at all, the replacements with a new number, a price and a
  quantity that rest; and messages that are no orders. Whether an event is quiet depends on the state
  of the engine, so the feed is checked along its run.
\<close>

definition quiet_event :: "engine \<Rightarrow> itch_event \<Rightarrow> bool" where
  [code_eval]: "quiet_event e ev =
     (let l = ucast (it_locate ev); ref = it_order_ref ev; sd = it_side ev in
      case it_type ev of
        IT_ADD \<Rightarrow> valid_add l ref sd (it_price ev) (it_shares ev) ref DAY \<and> fresh_ref e ref \<and>
          (\<forall>r\<in>set (rested e l (opposite sd)). \<not> crosses (opposite sd) (it_price ev) (price r))
      | IT_DELETE \<Rightarrow> fresh_ref e ref \<or> ref \<in> order_id ` set (rested e l BUY @ rested e l SELL)
      | IT_REPLACE \<Rightarrow> fresh_ref e (it_new_order_ref ev) \<and>
          (fresh_ref e ref \<or> it_price ev \<noteq> 0 \<and> it_shares ev \<noteq> 0 \<and>
            (\<exists>sd\<in>{BUY, SELL}. ref \<in> order_id ` set (rested e l sd) \<and>
              (\<forall>r\<in>set (rested e l (opposite sd)). \<not> crosses (opposite sd) (it_price ev) (price r))))
      | IT_BOOK \<Rightarrow> True
      | IT_CANCEL \<Rightarrow> False)"

text \<open>The events that use up room in the pools and indexes.\<close>

definition brings_order :: "itch_event \<Rightarrow> bool" where
  [code_eval]: "brings_order ev \<longleftrightarrow> it_type ev = IT_ADD \<or> it_type ev = IT_REPLACE"

definition engine_after :: "itch_event \<Rightarrow> engine \<Rightarrow> engine" where
  [code_eval]: "engine_after ev e = (case engine_order ev e of Some (Some (rsp, e')) \<Rightarrow> e' | _ \<Rightarrow> e)"

fun quiet_feed :: "engine \<Rightarrow> itch_event list \<Rightarrow> bool" where
  "quiet_feed e [] \<longleftrightarrow> True"
| "quiet_feed e (ev # evs) \<longleftrightarrow> quiet_event e ev \<and> quiet_feed (engine_after ev e) evs"

declare quiet_feed.simps [code_eval]

text \<open>The orders such a feed leaves in the exchange are their own users, at a price.\<close>

definition own_orders :: "engine \<Rightarrow> bool" where
  "own_orders e \<longleftrightarrow> (\<forall>l. \<forall>sd\<in>{BUY, SELL}. \<forall>r\<in>set (rested e l sd). user_id r = order_id r \<and> price r \<noteq> 0)"

lemma rests_rested: "rests e (unat l) sd r \<longleftrightarrow> r \<in> set (rested e l sd)"
  by (simp add: rests_def rested_def split: option.split)

lemma view_rested: "engine_inv e \<Longrightarrow> sd \<in> {BUY, SELL} \<Longrightarrow> view e (unat l) sd = Some (rested e l sd)"
  using inv_view [of e sd "unat l"] by (auto simp: rested_def)

lemma only_book_rested:
  "only_book (unat l) e e' \<Longrightarrow> k \<noteq> l \<Longrightarrow> sd \<in> {BUY, SELL} \<Longrightarrow> rested e' k sd = rested e k sd"
  by (auto simp: only_book_def rested_def)

lemma a_match_apart:
  "\<forall>r\<in>set q. \<not> crosses sd p (price r) \<Longrightarrow> a_match sd ex p n q = (n, q, [])"
  by (induction sd ex p n q rule: a_match.induct) (auto simp: Let_def)

lemma mset_a_insert: "mset (a_insert sd ord q) = add_mset (strip ord) (mset q)"
proof -
  have "mset (takeWhile P q) + mset (dropWhile P q) = mset q" for P
    by (metis mset_append takeWhile_dropWhile_id)
  then show ?thesis by (simp add: a_insert_def)
qed

text \<open>What the exchange does with one event: it answers without a trade.\<close>

lemma engine_adds:
  assumes a: "able (Suc n) e" and ev: "quiet_event e ev" "it_type ev = IT_ADD" and own: "own_orders e"
  defines "l \<equiv> ucast (it_locate ev) :: u64"
  shows "\<exists>rsp e1 r. engine_order ev e = Some (Some (rsp, e1)) \<and> (\<forall>x\<in>set rsp. \<not> is_trade x) \<and> able n e1 \<and> own_orders e1 \<and>
    order_id r = it_order_ref ev \<and> price r = it_price ev \<and> remaining_qty r = it_shares ev \<and>
    (\<forall>k. \<forall>sd\<in>{BUY, SELL}. mset (rested e1 k sd) =
      (if k = l \<and> sd = it_side ev then add_mset r (mset (rested e k sd)) else mset (rested e k sd)))"
proof -
  let ?ref = "it_order_ref ev" and ?sd = "it_side ev"
  have v: "valid_add l ?ref ?sd (it_price ev) (it_shares ev) ?ref DAY" "fresh_ref e ?ref"
    and ap: "\<forall>r\<in>set (rested e l (opposite ?sd)). \<not> crosses (opposite ?sd) (it_price ev) (price r)"
    using ev by (simp_all add: quiet_event_def Let_def l_def)
  have S: "?sd \<in> {BUY, SELL}" and q: "it_shares ev \<noteq> 0" using v(1) by (auto simp: valid_add_def)
  note O = opposite_side [OF S, THEN conjunct1]
  note inv = able_inv [OF a]
  note vw = view_rested [OF inv O, of l] view_rested [OF inv S, of l]
  note m = a_match_apart [OF ap, of ?ref "it_shares ev"]
  let ?o = "incoming e ?ref ?ref ?sd (it_price ev) (it_shares ev)"
  obtain rsp e1 where r: "processAdd l ?ref ?sd (it_price ev) (it_shares ev) ?ref DAY [] e = Some (rsp, e1)" "able n e1"
    "view e1 (unat l) (opposite ?sd) = Some (rested e l (opposite ?sd))"
    "view e1 (unat l) ?sd = Some (a_insert ?sd ?o (rested e l ?sd))" "only_book (unat l) e e1"
    using order_logged [OF a v vw m] q by (auto simp: taker_def)
  obtain full r' where "processAdd l ?ref ?sd (it_price ev) (it_shares ev) ?ref DAY [] e = Some r'"
    "add_outcome full l ?ref ?sd (it_price ev) (it_shares ev) ?ref DAY [] e (rested e l (opposite ?sd)) (rested e l ?sd) r'"
    using processAdd_total [OF inv v able_room [OF a] _ vw, of 0 "[]"] by auto
  then have nt: "\<forall>x\<in>set rsp. \<not> is_trade x"
    using r(1) m by (auto simp: add_outcome_def add_response_def limit_of_def is_trade_def split: if_splits)
  have rl: "rested e1 l ?sd = a_insert ?sd ?o (rested e l ?sd)" "rested e1 l (opposite ?sd) = rested e l (opposite ?sd)"
    using r(3,4) by (simp_all add: rested_def [of e1])
  have k: "mset (rested e1 k sd) =
      (if k = l \<and> sd = ?sd then add_mset (strip ?o) (mset (rested e k sd)) else mset (rested e k sd))" if "sd \<in> {BUY, SELL}" for k sd
  proof (cases "k = l")
    case True
    have "sd = ?sd \<or> sd = opposite ?sd \<and> sd \<noteq> ?sd" using S that by (auto simp: opposite_def)
    then show ?thesis using True rl by (auto simp: mset_a_insert)
  qed (use only_book_rested [OF r(5)] that in simp)
  have "own_orders e1"
    unfolding own_orders_def
  proof (intro allI ballI)
    fix k sd x
    assume sd: "sd \<in> {BUY, SELL}" and x: "x \<in> set (rested e1 k sd)"
    have "x \<in># mset (rested e1 k sd)" using x by simp
    then have "x = strip ?o \<or> x \<in> set (rested e k sd)" unfolding k [OF sd] by (auto split: if_splits)
    then show "user_id x = order_id x \<and> price x \<noteq> 0" using own sd v(1) by (auto simp: own_orders_def valid_add_def)
  qed
  then show ?thesis
    using r(1,2) nt k ev(2) by (intro exI [of _ rsp] exI [of _ e1] exI [of _ "strip ?o"]) (simp add: engine_order_def l_def Let_def)
qed

lemma processCancel_answer: "processCancel l ref uid [] e = Some (rsp, e1) \<Longrightarrow> \<forall>x\<in>set rsp. \<not> is_trade x"
  by (auto simp: processCancel_def Let_def is_trade_def split: prod.splits option.splits bind_split_asm if_splits)

lemma locate_small: "unat (ucast (x :: u16) :: u64) < kMaxLocate"
  using order_le_less_trans [OF take_bit_nat_less_eq_self [of 64 "unat x"] unsigned_less [of x]]
  by (simp add: kMaxLocate_def unsigned_ucast_eq)

lemma engine_deletes:
  assumes a: "able n e" and ev: "quiet_event e ev" "it_type ev = IT_DELETE" and own: "own_orders e"
  defines "l \<equiv> ucast (it_locate ev) :: u64"
  shows "\<exists>rsp e1 f. engine_order ev e = Some (Some (rsp, e1)) \<and> (\<forall>x\<in>set rsp. \<not> is_trade x) \<and> able n e1 \<and> own_orders e1 \<and>
    (\<forall>k. \<forall>sd\<in>{BUY, SELL}. rested e1 k sd = (if k = l then f (rested e k sd) else rested e k sd)) \<and>
    (fresh_ref e (it_order_ref ev) \<and> f = (\<lambda>q. q) \<or>
     (\<exists>sd\<in>{BUY, SELL}. \<exists>r\<in>set (rested e l sd). order_id r = it_order_ref ev) \<and> f = a_remove (it_order_ref ev))"
proof -
  let ?ref = "it_order_ref ev"
  have lc: "unat l < kMaxLocate" unfolding l_def by (rule locate_small)
  have "fresh_ref e ?ref \<or> (\<exists>sd\<in>{BUY, SELL}. \<exists>r\<in>set (rested e l sd). order_id r = ?ref)"
    using ev by (auto simp: quiet_event_def Let_def l_def)
  then obtain f where f: "cancels e l ?ref ?ref f"
    "fresh_ref e ?ref \<and> f = (\<lambda>q. q) \<or> (\<exists>sd\<in>{BUY, SELL}. \<exists>r\<in>set (rested e l sd). order_id r = ?ref) \<and> f = a_remove ?ref"
  proof
    assume "fresh_ref e ?ref"
    then show ?thesis by (intro that [of "\<lambda>q. q"]) (simp_all add: cancels_def foreign_ref_def)
  next
    assume home: "\<exists>sd\<in>{BUY, SELL}. \<exists>r\<in>set (rested e l sd). order_id r = ?ref"
    then obtain sd r where r: "sd \<in> {BUY, SELL}" "r \<in> set (rested e l sd)" "order_id r = ?ref" by blast
    moreover have "user_id r = ?ref" using own r unfolding own_orders_def by metis
    ultimately have "cancels e l ?ref ?ref (a_remove ?ref)" unfolding cancels_def rests_rested by blast
    then show ?thesis using home by (intro that [of "a_remove ?ref"]) blast+
  qed
  obtain rsp e1 where r: "processCancel l ?ref ?ref [] e = Some (rsp, e1)" "able n e1" "maps_book (unat l) f e e1"
    using cancel_logged [OF a lc f(1)] by blast
  have k: "rested e1 k sd = (if k = l then f (rested e k sd) else rested e k sd)" if sd: "sd \<in> {BUY, SELL}" for k sd
  proof (cases "k = l")
    case True
    have "view e1 (unat l) sd = map_option f (view e (unat l) sd)" using r(3) sd unfolding maps_book_def by blast
    then have "view e1 (unat l) sd = Some (f (rested e l sd))" by (simp add: view_rested [OF able_inv [OF a] sd])
    then show ?thesis using True by (simp add: rested_def [of e1])
  next
    case False
    then show ?thesis using only_book_rested [of l e e1 k sd] r(3) sd by (simp add: maps_book_def)
  qed
  have "own_orders e1"
    using own f(2) unfolding own_orders_def by (auto simp: k a_remove_def split: if_splits)
  then show ?thesis
    using r(1,2) processCancel_answer [OF r(1)] k f(2) ev(2)
    by (intro exI [of _ rsp] exI [of _ e1] exI [of _ f]) (simp add: engine_order_def l_def Let_def)
qed

text \<open>The lookup before a replacement: an order that rests in the named book shows its side.\<close>

lemma engine_find_none:
  assumes a: "able n e" and lc: "unat l < kMaxLocate" and f: "fresh_ref e ref"
  shows "\<exists>e2. engine_find l ref e = Some (None, e2) \<and> able n e2 \<and> view e2 = view e \<and> shared_index e2 = shared_index e"
proof -
  obtain e2 bk where e2: "book_for l e = (Some (the_book e2 bk), e2)" "able n e2" "view e2 = view e" "shared_index e2 = shared_index e"
    by (rule able_book_for [OF a lc]) simp
  then show ?thesis using f by (auto simp: engine_find_def findOrder_def fresh_ref_def)
qed

lemma engine_find_some:
  assumes a: "able n e" and lc: "unat l < kMaxLocate" and S: "sd \<in> {BUY, SELL}" and r: "rests e (unat l) sd r"
  shows "\<exists>o' e2. engine_find l (order_id r) e = Some (Some o', e2) \<and> side o' = sd \<and> able n e2 \<and> view e2 = view e \<and>
    shared_index e2 = shared_index e"
proof -
  obtain e2 bk where e2: "book_for l e = (Some (the_book e2 bk), e2)" "able n e2" "view e2 = view e" "shared_index e2 = shared_index e"
    by (rule able_book_for [OF a lc]) simp
  obtain G F where ok: "engine_ok e2 G F" using e2(2) by (auto simp: able_def)
  have "rests e2 (unat l) sd r" using r rests_cong [of e2 e] e2(3) by simp
  then obtain x bk' where x: "body (storage (shared_pool e2)) x = r" "unat x < length (storage (shared_pool e2))"
    "om_find (shared_index e2) (order_id r) = Some (Some x)" "side r = sd"
    by (rule rests_slot [OF ok S])
  have "engine_find l (order_id r) e = Some (Some (storage (shared_pool e2) ! unat x), e2)"
    using x(2,3) by (simp add: engine_find_def e2(1) findOrder_def pool_at_def)
  then show ?thesis using e2(2-4) x(1,4) by (auto simp: body_field)
qed

text \<open>A replacement in an engine with room for one more order.\<close>

lemma replace_able:
  assumes a: "able (Suc n) e" and lc: "unat l < kMaxLocate" and S: "sd \<in> {BUY, SELL}" and r: "rests e (unat l) sd r"
    and fresh: "fresh_ref e new_ref" and qn: "quantity \<noteq> 0"
    and q: "view e (unat l) (opposite sd) = Some q" and own: "view e (unat l) sd = Some own"
    and m: "a_match (opposite sd) new_ref pr quantity (a_remove (order_id r) q) = (quantity, q', [])"
  shows "\<exists>e1. processReplace l (order_id r) new_ref sd pr quantity (user_id r) [] e = Some ([RSP_OK new_ref], e1) \<and> able n e1 \<and>
    view e1 (unat l) (opposite sd) = Some q' \<and>
    view e1 (unat l) sd = Some (a_insert sd (incoming e new_ref new_ref sd pr quantity) (a_remove (order_id r) own)) \<and> only_book (unat l) e e1"
proof -
  let ?o = "incoming e new_ref new_ref sd pr quantity"
  obtain G F where ok: "engine_ok e G F" "Suc n \<le> length F" "om_spare (Suc n) (shared_index e)" using a by (auto simp: able_def)
  obtain e4 G1 x bk4 where e4: "processReplace l (order_id r) new_ref sd pr quantity (user_id r) [] e =
      run_match l (the_book e4 bk4) ?o [] e4 \<bind> finish_replace l new_ref"
    "engine_ok e4 G1 (x # F)" "books e4 (unat l) = Some bk4" "maps_book (unat l) (a_remove (order_id r)) e e4"
    "fresh_ref e4 new_ref" "\<forall>n. om_spare n (shared_index e) \<longrightarrow> om_spare n (shared_index e4)"
    by (rule processReplace_removes [OF ok(1) lc S r disjI2 [OF fresh]])
  have a4: "able (Suc n) e4" unfolding able_def using e4(2,6) ok(2,3) by (intro exI [of _ G1] exI [of _ "x # F"]) simp
  have q4: "view e4 (unat l) (opposite sd) = Some (a_remove (order_id r) q)" "view e4 (unat l) sd = Some (a_remove (order_id r) own)"
    using e4(4) q own opposite_side [OF S] S by (auto simp: maps_book_def)
  have tk: "taker quantity [] ?o = ?o" by (simp add: taker_def)
  obtain e5 bk5 out' e6 b' where d: "run_match l (the_book e4 bk4) ?o [] e4 = Some (the_book e5 bk5, ?o, [], e5)"
    "addOrder ?o (the_book e5 bk5) = Some (True, b')" "e6 = put_book l b' e5" "able n e6"
    "view e6 (unat l) (opposite sd) = Some q'" "view e6 (unat l) sd = Some (a_insert sd ?o (a_remove (order_id r) own))" "only_book (unat l) e4 e6"
    using day_order [OF a4 e4(3), of ?o _ _ quantity q' "[]" "[]", unfolded incoming_fields tk, OF S e4(5) q4 m] qn by auto
  have "processReplace l (order_id r) new_ref sd pr quantity (user_id r) [] e = Some ([RSP_OK new_ref], note_usage e6)"
    using e4(1) d(1-3) by (simp add: finish_replace_def rest_order_def Let_def)
  moreover have "able n (note_usage e6)" using d(4) able_cong [of "note_usage e6" e6] by simp
  moreover have "only_book (unat l) e e6" using only_book_trans [OF _ d(7)] e4(4) by (auto simp: maps_book_def)
  ultimately show ?thesis using d(5,6) by (intro exI [of _ "note_usage e6"]) (simp add: only_book_def)
qed

lemma replace_unknown:
  assumes a: "able n e" and lc: "unat l < kMaxLocate" and f: "fresh_ref e ref"
  shows "\<exists>e1. processReplace l ref new_ref sd pr quantity uid [] e = Some ([RSP_ERROR ORDER_NOT_FOUND], e1) \<and> able n e1 \<and> view e1 = view e"
proof -
  have "able n (count_cancel e)" using a able_cong [of "count_cancel e" e] by simp
  then obtain e2 bk where e2: "book_for l (count_cancel e) = (Some (the_book e2 bk), e2)" "able n e2" "view e2 = view e" "shared_index e2 = shared_index e"
    by (rule able_book_for [OF _ lc]) simp
  let ?w = "\<lparr>we_type = 4, we_side = 0, we_locate = ucast l, we_price = pr, we_quantity = quantity, we_user_id = uid,
    we_order_id = new_ref, we_seq = next_sequence e2\<rparr>"
  have "processReplace l ref new_ref sd pr quantity uid [] e = Some ([RSP_ERROR ORDER_NOT_FOUND], count_error (log_wal ?w e2))"
    using e2(1,4) f by (simp add: processReplace_def findOrder_def fresh_ref_def Let_def)
  moreover have "able n (count_error (log_wal ?w e2))" using e2(2) able_cong [of "count_error (log_wal ?w e2)" e2] by simp
  ultimately show ?thesis using e2(3) by simp
qed

text \<open>What the exchange does with a replacement in a quiet feed.\<close>

definition without :: "u64 \<Rightarrow> u64 \<Rightarrow> (u64 \<Rightarrow> side \<Rightarrow> order list) \<Rightarrow> u64 \<Rightarrow> side \<Rightarrow> order list" where
  "without l0 k Q j sd = (if j = l0 then a_remove k (Q j sd) else Q j sd)"

lemma engine_replaces:
  assumes a: "able (Suc n) e" and ev: "it_type ev = IT_REPLACE" "fresh_ref e (it_new_order_ref ev)" "it_price ev \<noteq> 0" "it_shares ev \<noteq> 0"
    and own: "own_orders e" and S: "sd \<in> {BUY, SELL}"
  defines "l \<equiv> ucast (it_locate ev) :: u64"
  assumes r: "r \<in> set (rested e l sd)" "order_id r = it_order_ref ev"
    and ap: "\<forall>x\<in>set (rested e l (opposite sd)). \<not> crosses (opposite sd) (it_price ev) (price x)"
  shows "\<exists>e1 r'. engine_order ev e = Some (Some ([RSP_OK (it_new_order_ref ev)], e1)) \<and> able n e1 \<and> own_orders e1 \<and>
    order_id r' = it_new_order_ref ev \<and> price r' = it_price ev \<and> remaining_qty r' = it_shares ev \<and>
    (\<forall>k. \<forall>sd'\<in>{BUY, SELL}. mset (rested e1 k sd') = (if k = l \<and> sd' = sd
      then add_mset r' (mset (without l (it_order_ref ev) (rested e) k sd')) else mset (without l (it_order_ref ev) (rested e) k sd')))"
proof -
  let ?ref = "it_order_ref ev" and ?new = "it_new_order_ref ev"
  have lc: "unat l < kMaxLocate" unfolding l_def by (rule locate_small)
  have rs: "rests e (unat l) sd r" unfolding rests_rested by (rule r(1))
  have uid: "user_id r = ?ref" using own S r unfolding own_orders_def by metis
  obtain o' e2 where e2: "engine_find l ?ref e = Some (Some o', e2)" "side o' = sd" "able (Suc n) e2" "view e2 = view e" "shared_index e2 = shared_index e"
    using engine_find_some [OF a lc S rs] r(2) by auto
  have vc: "rested e2 = rested e" "fresh_ref e2 = fresh_ref e" "rests e2 = rests e"
    using e2(4,5) rests_cong [of e2 e] by (simp_all add: rested_def fresh_ref_def fun_eq_iff)
  note O = opposite_side [OF S, THEN conjunct1]
  note inv = able_inv [OF e2(3)]
  note vw = view_rested [OF inv O, of l, unfolded vc] view_rested [OF inv S, of l, unfolded vc]
  have "\<forall>x\<in>set (a_remove ?ref (rested e l (opposite sd))). \<not> crosses (opposite sd) (it_price ev) (price x)"
    using ap by (auto simp: a_remove_def)
  note m = a_match_apart [OF this, of ?new "it_shares ev"]
  let ?o = "incoming e2 ?new ?new sd (it_price ev) (it_shares ev)"
  obtain e1 where e1: "processReplace l ?ref ?new sd (it_price ev) (it_shares ev) ?ref [] e2 = Some ([RSP_OK ?new], e1)" "able n e1"
    "view e1 (unat l) (opposite sd) = Some (a_remove ?ref (rested e l (opposite sd)))"
    "view e1 (unat l) sd = Some (a_insert sd ?o (a_remove ?ref (rested e l sd)))" "only_book (unat l) e2 e1"
    using replace_able [OF e2(3) lc S _ _ ev(4) vw m [unfolded r(2) [symmetric]]] rs ev(2) uid r(2) vc by auto
  have k: "mset (rested e1 k sd') = (if k = l \<and> sd' = sd
      then add_mset (strip ?o) (mset (without l ?ref (rested e) k sd')) else mset (without l ?ref (rested e) k sd'))"
    if "sd' \<in> {BUY, SELL}" for k sd'
  proof (cases "k = l")
    case True
    have "rested e1 l sd = a_insert sd ?o (a_remove ?ref (rested e l sd))" "rested e1 l (opposite sd) = a_remove ?ref (rested e l (opposite sd))"
      using e1(3,4) by (simp_all add: rested_def [of e1])
    moreover have "sd' = sd \<or> sd' = opposite sd \<and> sd' \<noteq> sd" using S that by (auto simp: opposite_def)
    ultimately show ?thesis using True by (auto simp: mset_a_insert without_def)
  qed (use only_book_rested [OF e1(5)] that vc(1) in \<open>simp add: without_def\<close>)
  have "own_orders e1"
    unfolding own_orders_def
  proof (intro allI ballI)
    fix k sd' x
    assume sd': "sd' \<in> {BUY, SELL}" and x: "x \<in> set (rested e1 k sd')"
    have "x \<in># mset (rested e1 k sd')" using x by simp
    then have "x = strip ?o \<or> x \<in> set (rested e k sd')" unfolding k [OF sd'] by (auto simp: without_def a_remove_def split: if_splits)
    then show "user_id x = order_id x \<and> price x \<noteq> 0" using own sd' ev(3) by (auto simp: own_orders_def)
  qed
  then show ?thesis
    using e1(1,2) k ev(1) e2(1,2) by (intro exI [of _ e1] exI [of _ "strip ?o"]) (simp add: engine_order_def l_def Let_def)
qed

lemma engine_replaces_none:
  assumes a: "able n e" and ev: "it_type ev = IT_REPLACE" "fresh_ref e (it_order_ref ev)"
  shows "\<exists>e1. engine_order ev e = Some (Some ([RSP_ERROR ORDER_NOT_FOUND], e1)) \<and> able n e1 \<and> view e1 = view e"
proof -
  let ?l = "ucast (it_locate ev) :: u64"
  obtain e2 where e2: "engine_find ?l (it_order_ref ev) e = Some (None, e2)" "able n e2" "view e2 = view e" "shared_index e2 = shared_index e"
    using engine_find_none [OF a locate_small ev(2)] by blast
  have "fresh_ref e2 (it_order_ref ev)" using ev(2) e2(4) by (simp add: fresh_ref_def)
  from replace_unknown [OF e2(2) locate_small this] show ?thesis
    using ev(1) e2(1,3) by (fastforce simp: engine_order_def Let_def)
qed

end
