(* ===== verification/View_Track.thy ===== *)
theory View_Track
  imports View_Books Quiet_Feed
begin

text \<open>
  Exchange and market view side by side: while the feed is quiet (\<open>Quiet_Feed\<close>), the view the strategies
  decide on is the book of the exchange, order by order and at the top, and both answer every event. The subscriber is any that leaves engine and view alone
  (locale \<open>listener\<close>), as the workers do.
\<close>

section \<open>The two sides together\<close>

definition shown :: "order \<Rightarrow> u64 \<times> u64" where
  "shown r = (order_id r, ucast (remaining_qty r))"

type_synonym shown_books = "u64 \<Rightarrow> bool \<Rightarrow> int \<Rightarrow> (u64 \<times> u64) multiset"

definition tracks :: "shown_books \<Rightarrow> (u64 \<Rightarrow> side \<Rightarrow> order list) \<Rightarrow> bool" where
  "tracks M Q \<longleftrightarrow> (\<forall>l. \<forall>sd\<in>{BUY, SELL}. \<forall>p. M l (sd = BUY) p = image_mset shown {#r \<in># mset (Q l sd). uint (price r) = p#})"

lemma tracksD:
  "tracks M Q \<Longrightarrow> sd \<in> {BUY, SELL} \<Longrightarrow> M l (sd = BUY) p = image_mset shown {#r \<in># mset (Q l sd). uint (price r) = p#}"
  unfolding tracks_def by blast

lemma tracked:
  "tracks M Q \<Longrightarrow> sd \<in> {BUY, SELL} \<Longrightarrow> x \<in># M l (sd = BUY) p \<longleftrightarrow> (\<exists>r\<in>set (Q l sd). x = shown r \<and> uint (price r) = p)"
  by (auto simp: tracksD)

lemma tracks_refs:
  assumes t: "tracks (at_price v G) (rested e)" and inv: "engine_inv e" and fresh: "fresh_ref e k"
  shows "\<forall>l bid p. k \<notin> fst ` set_mset (at_price v G l bid p)"
proof (intro allI notI)
  fix l bid p
  assume k: "k \<in> fst ` set_mset (at_price v G l bid p)"
  define sd where "sd = (if bid then BUY else SELL)"
  have sd: "sd \<in> {BUY, SELL}" "(sd = BUY) = bid" by (simp_all add: sd_def)
  obtain r where "r \<in> set (rested e l sd)" "order_id r = k"
    using k tracked [OF t sd(1), of _ l p] unfolding sd(2) by (auto simp: shown_def)
  then show False using fresh sd(1) unfolding fresh_views [OF inv] rests_rested [symmetric] by blast
qed

text \<open>An order more, and without the order of a number in one book.\<close>

lemma tracks_add:
  assumes t: "tracks M Q" and S: "sd0 \<in> {BUY, SELL}"
    and v: "\<forall>l bid p. M' l bid p = (if l = l0 \<and> bid = (sd0 = BUY) \<and> p = uint (price r) then add_mset (shown r) (M l bid p) else M l bid p)"
    and e: "\<forall>k. \<forall>sd\<in>{BUY, SELL}. mset (Q' k sd) = (if k = l0 \<and> sd = sd0 then add_mset r (mset (Q k sd)) else mset (Q k sd))"
  shows "tracks M' Q'"
  unfolding tracks_def
proof (intro allI ballI)
  fix l sd p
  assume sd: "sd \<in> {BUY, SELL}"
  have "mset (Q' l sd) = (if l = l0 \<and> sd = sd0 then add_mset r (mset (Q l sd)) else mset (Q l sd))" using e sd by blast
  moreover have "(sd = BUY) = (sd0 = BUY) \<longleftrightarrow> sd = sd0" using S sd by auto
  ultimately show "M' l (sd = BUY) p = image_mset shown {#r \<in># mset (Q' l sd). uint (price r) = p#}"
    using v tracksD [OF t sd] by auto
qed

definition hidden :: "u64 \<Rightarrow> u64 \<Rightarrow> shown_books \<Rightarrow> shown_books" where
  "hidden l0 k M l bid p = (if l = l0 then filter_mset (\<lambda>x. fst x \<noteq> k) (M l bid p) else M l bid p)"

lemma tracks_without: "tracks M Q \<Longrightarrow> tracks (hidden l0 k M) (without l0 k Q)"
  unfolding tracks_def [of "hidden l0 k M"]
  by (intro allI ballI)
    (simp add: tracksD hidden_def without_def a_remove_def filter_mset_image_mset shown_def filter_filter_mset conj_commute)

lemma tracks_cong: "tracks M Q \<Longrightarrow> \<forall>l. \<forall>sd\<in>{BUY, SELL}. mset (Q' l sd) = mset (Q l sd) \<Longrightarrow> tracks M Q'"
  by (simp add: tracks_def)

lemma tracked_slot:
  assumes "tracks (at_price v G) Q" "sd \<in> {BUY, SELL}" "r \<in> set (Q l sd)"
  shows "\<exists>i\<in>set (G l (sd = BUY) (uint (price r))). so_order_ref (body (vslots v) i) = order_id r"
proof -
  have "shown r \<in># at_price v G l (sd = BUY) (uint (price r))" using tracked [OF assms(1,2)] assms(3) by blast
  then show ?thesis by (auto simp: at_price_def shown_def)
qed

text \<open>\<open>n\<close> more orders fit everywhere; \<open>k\<close> bounds what the tables of the view have used up.\<close>

definition coupled :: "nat \<Rightarrow> nat \<Rightarrow> engine \<Rightarrow> consumer \<Rightarrow> bool" where
  "coupled n k e v \<longleftrightarrow> able n e \<and> own_orders e \<and> calm k v \<and> om_spare n (oc_index v) \<and>
     (\<exists>G F. view_ok v G F \<and> n \<le> length F \<and> tracks (at_price v G) (rested e))"

lemma coupled_mono: "coupled n k e v \<Longrightarrow> k \<le> k' \<Longrightarrow> coupled n k' e v"
  using calm_mono by (auto simp: coupled_def)

lemma coupled_less: "coupled n k e v \<Longrightarrow> m \<le> n \<Longrightarrow> coupled m k e v"
  unfolding coupled_def om_spare_def using able_mono by (meson le_trans)

lemma coupled_calm: "coupled n k e v \<Longrightarrow> calm k v"
  by (simp add: coupled_def)

lemma price_real: "real_price (uint (p :: u32)) \<and> in_i64 (uint p)"
proof -
  have "real_price x \<and> in_i64 x" if "0 \<le> x" "x < 2 ^ 32" for x :: int
    using that by (auto simp: real_price_def kEmpty_def kTombstone_def in_i64_def)
  from this [of "uint p"] show ?thesis using uint_bounded [of p] by simp
qed

lemma coupled_add:
  assumes c: "coupled (Suc n) k e v" and k: "Suc k < 2 ^ 30" and ev: "quiet_event e ev" "it_type ev = IT_ADD"
  shows "\<exists>rsp e1 v1. engine_order ev e = Some (Some (rsp, e1)) \<and> (\<forall>x\<in>set rsp. \<not> is_trade x) \<and>
    on_event (to_market_event ev s) v = Some v1 \<and> coupled n (Suc (Suc k)) e1 v1"
proof -
  obtain G F where v: "able (Suc n) e" "own_orders e" "calm k v" "om_spare (Suc n) (oc_index v)" "view_ok v G F" "Suc n \<le> length F" "tracks (at_price v G) (rested e)"
    using c by (auto simp: coupled_def)
  let ?m = "to_market_event ev s" and ?l = "ucast (it_locate ev) :: u64"
  have m: "me_type ?m = EV_ADD" "me_locate ?m = ?l" "is_buy (me_side ?m) = (it_side ev = BUY)" "me_price ?m = uint (it_price ev)"
    "me_qty ?m = ucast (it_shares ev)" "me_order_ref ?m = it_order_ref ev"
    using ev(2) by (simp_all add: to_market_event_def zero_event_def Let_def)
  have S: "it_side ev \<in> {BUY, SELL}" and fr: "fresh_ref e (it_order_ref ev)"
    using ev by (auto simp: quiet_event_def valid_add_def Let_def)
  obtain idx F' where F: "F = idx # F'" "n \<le> length F'" using v(6) by (cases F) auto
  have new: "slot_find (oc_index v) (me_order_ref ?m) = Some None"
    using view_absent [OF v(5) tracks_refs [OF v(7) able_inv [OF v(1)] fr]] m(6) by simp
  have fe: "feed_event ?m v" using m price_real new by (simp add: feed_event_def)
  obtain v1 where v1: "on_event ?m v = Some v1" "calm (Suc (Suc k)) v1" using on_event_calm [OF v(3) fe k] by blast
  obtain G1 where g: "view_ok v1 G1 F'" "om_spare n (oc_index v1)"
    "\<forall>l bid p. at_price v1 G1 l bid p = (if l = ?l \<and> bid = (it_side ev = BUY) \<and> p = uint (it_price ev)
      then add_mset (it_order_ref ev, ucast (it_shares ev)) (at_price v G l bid p) else at_price v G l bid p)"
    using view_add [OF v(5) [unfolded F(1)] v(3) _ v(4) new _ _ m(1)] k price_real v1(1) unfolding m by auto
  obtain rsp e1 r where e: "engine_order ev e = Some (Some (rsp, e1))" "\<forall>x\<in>set rsp. \<not> is_trade x" "able n e1" "own_orders e1"
    "order_id r = it_order_ref ev" "price r = it_price ev" "remaining_qty r = it_shares ev"
    "\<forall>k. \<forall>sd\<in>{BUY, SELL}. mset (rested e1 k sd) =
      (if k = ?l \<and> sd = it_side ev then add_mset r (mset (rested e k sd)) else mset (rested e k sd))"
    using engine_adds [OF v(1) ev v(2)] by blast
  have "tracks (at_price v1 G1) (rested e1)"
    by (rule tracks_add [OF v(7) S, of _ ?l r]) (use g(3) e(5-8) in \<open>simp_all add: shown_def\<close>)
  then show ?thesis using e(1-4) v1 g(1,2) F(2) unfolding coupled_def by blast
qed

lemma coupled_delete:
  assumes c: "coupled n k e v" and k: "Suc k < 2 ^ 30" and ev: "quiet_event e ev" "it_type ev = IT_DELETE"
  shows "\<exists>rsp e1 v1. engine_order ev e = Some (Some (rsp, e1)) \<and> (\<forall>x\<in>set rsp. \<not> is_trade x) \<and>
    on_event (to_market_event ev s) v = Some v1 \<and> coupled n (Suc (Suc k)) e1 v1"
proof -
  obtain G F where v: "able n e" "own_orders e" "calm k v" "om_spare n (oc_index v)" "view_ok v G F" "n \<le> length F" "tracks (at_price v G) (rested e)"
    using c by (auto simp: coupled_def)
  let ?m = "to_market_event ev s" and ?l = "ucast (it_locate ev) :: u64" and ?ref = "it_order_ref ev"
  have m: "me_type ?m = EV_DELETE" "me_locate ?m = ?l" "me_order_ref ?m = ?ref" "me_price ?m = 0"
    using ev(2) by (simp_all add: to_market_event_def zero_event_def Let_def)
  obtain v1 where v1: "on_event ?m v = Some v1" "calm (Suc (Suc k)) v1"
    using on_event_calm [OF v(3) _ k, of ?m] m price_real [of 0] by (auto simp: feed_event_def)
  obtain rsp e1 f where e: "engine_order ev e = Some (Some (rsp, e1))" "\<forall>x\<in>set rsp. \<not> is_trade x" "able n e1" "own_orders e1"
    "\<forall>k. \<forall>sd\<in>{BUY, SELL}. rested e1 k sd = (if k = ?l then f (rested e k sd) else rested e k sd)"
    "fresh_ref e ?ref \<and> f = (\<lambda>q. q) \<or> (\<exists>sd\<in>{BUY, SELL}. \<exists>r\<in>set (rested e ?l sd). order_id r = ?ref) \<and> f = a_remove ?ref"
    using engine_deletes [OF v(1) ev v(2)] by (elim exE conjE) (rule that)
  have "\<exists>G1 F1. view_ok v1 G1 F1 \<and> n \<le> length F1 \<and> om_spare n (oc_index v1) \<and> tracks (at_price v1 G1) (rested e1)"
    using e(6)
  proof
    assume a: "fresh_ref e ?ref \<and> f = (\<lambda>q. q)"
    have "slot_find (oc_index v) (me_order_ref ?m) = Some None"
      using view_absent [OF v(5) tracks_refs [OF v(7) able_inv [OF v(1)]]] a m(3) by simp
    from view_remove_none [OF v(5) m(1) this] have g: "view_ok v1 G F" "oc_index v1 = oc_index v" "at_price v1 G = at_price v G"
      using v1(1) by auto
    have "tracks (at_price v1 G) (rested e1)" unfolding g(3) by (rule tracks_cong [OF v(7)]) (use e(5) a in simp)
    then show ?thesis using g(1,2) v(4,6) by auto
  next
    assume a: "(\<exists>sd\<in>{BUY, SELL}. \<exists>r\<in>set (rested e ?l sd). order_id r = ?ref) \<and> f = a_remove ?ref"
    then obtain sd r where r: "sd \<in> {BUY, SELL}" "r \<in> set (rested e ?l sd)" "order_id r = ?ref" by blast
    obtain i where i: "i \<in> set (G ?l (sd = BUY) (uint (price r)))" "so_order_ref (body (vslots v) i) = order_id r"
      using tracked_slot [OF v(7) r(1,2)] by blast
    obtain G1 where g: "view_ok v1 G1 (i # F)" "om_spare n (oc_index v1)" "at_price v1 G1 = hidden ?l ?ref (at_price v G)"
      using view_remove [OF v(5,4) m(1), where i = i and bid = "sd = BUY" and p = "uint (price r)"] i r(3) v1(1) unfolding m
      by (auto simp: hidden_def fun_eq_iff simp del: split_paired_All)
    have "tracks (at_price v1 G1) (rested e1)"
      unfolding g(3) by (rule tracks_cong [OF tracks_without [OF v(7)]]) (use e(5) a in \<open>simp add: without_def\<close>)
    then show ?thesis using g(1,2) v(6) by (intro exI [of _ G1] exI [of _ "i # F"]) simp
  qed
  then show ?thesis using e(1-4) v1 unfolding coupled_def by blast
qed

lemma coupled_replace:
  assumes c: "coupled (Suc n) k e v" and k: "k + 2 < 2 ^ 30" and ev: "quiet_event e ev" "it_type ev = IT_REPLACE"
  shows "\<exists>rsp e1 v1. engine_order ev e = Some (Some (rsp, e1)) \<and> (\<forall>x\<in>set rsp. \<not> is_trade x) \<and>
    on_event (to_market_event ev s) v = Some v1 \<and> coupled n (Suc (Suc k)) e1 v1"
proof -
  obtain G F where v: "able (Suc n) e" "own_orders e" "calm k v" "om_spare (Suc n) (oc_index v)" "view_ok v G F" "Suc n \<le> length F"
    "tracks (at_price v G) (rested e)"
    using c by (auto simp: coupled_def)
  let ?m = "to_market_event ev s" and ?l = "ucast (it_locate ev) :: u64" and ?ref = "it_order_ref ev" and ?new = "it_new_order_ref ev"
  have m: "me_type ?m = EV_REPLACE" "me_locate ?m = ?l" "me_order_ref ?m = ?ref" "me_new_order_ref ?m = ?new"
    "me_price ?m = uint (it_price ev)" "me_qty ?m = ucast (it_shares ev)"
    using ev(2) by (simp_all add: to_market_event_def zero_event_def Let_def)
  have q: "fresh_ref e ?new" "fresh_ref e ?ref \<or> it_price ev \<noteq> 0 \<and> it_shares ev \<noteq> 0 \<and>
      (\<exists>sd\<in>{BUY, SELL}. ?ref \<in> order_id ` set (rested e ?l sd) \<and>
        (\<forall>r\<in>set (rested e ?l (opposite sd)). \<not> crosses (opposite sd) (it_price ev) (price r)))"
    using ev by (simp_all add: quiet_event_def Let_def)
  note absent = tracks_refs [OF v(7) able_inv [OF v(1)]]
  have "feed_event ?m v" using m price_real view_absent [OF v(5) absent [OF q(1)]] by (simp add: feed_event_def)
  then obtain v1 where v1: "on_event ?m v = Some v1" "calm (Suc (Suc k)) v1" using on_event_calm [OF v(3)] k by auto
  show ?thesis
    using q(2)
  proof
    assume f: "fresh_ref e ?ref"
    have "slot_find (oc_index v) (me_order_ref ?m) = Some None" using view_absent [OF v(5) absent [OF f]] m(3) by simp
    from view_replace_none [OF v(5) m(1) this] have g: "view_ok v1 G F" "oc_index v1 = oc_index v" "at_price v1 G = at_price v G"
      using v1(1) by auto
    obtain e1 where e: "engine_order ev e = Some (Some ([RSP_ERROR ORDER_NOT_FOUND], e1))" "able (Suc n) e1" "view e1 = view e"
      using engine_replaces_none [OF v(1) ev(2) f] by blast
    have same: "rested e1 = rested e" using e(3) by (simp add: rested_def fun_eq_iff)
    then have "own_orders e1" using v(2) by (simp add: own_orders_def)
    then have "coupled (Suc n) (Suc (Suc k)) e1 v1"
      unfolding coupled_def using e(2) v(4,6,7) v1(2) g same by (intro conjI exI [of _ G] exI [of _ F]) simp_all
    then show ?thesis using e(1) v1(1) coupled_less [of "Suc n" _ e1 v1 n] by (auto simp: is_trade_def)
  next
    assume known: "it_price ev \<noteq> 0 \<and> it_shares ev \<noteq> 0 \<and> (\<exists>sd\<in>{BUY, SELL}. ?ref \<in> order_id ` set (rested e ?l sd) \<and>
        (\<forall>r\<in>set (rested e ?l (opposite sd)). \<not> crosses (opposite sd) (it_price ev) (price r)))"
    then obtain sd where sd: "sd \<in> {BUY, SELL}" "?ref \<in> order_id ` set (rested e ?l sd)"
      "\<forall>x\<in>set (rested e ?l (opposite sd)). \<not> crosses (opposite sd) (it_price ev) (price x)"
      by (elim conjE bexE) (rule that)
    obtain r where "r \<in> set (rested e ?l sd)" "order_id r = ?ref" using sd(2) by (elim imageE) (rule that, simp_all)
    with known sd have r: "it_price ev \<noteq> 0" "it_shares ev \<noteq> 0" "sd \<in> {BUY, SELL}" "r \<in> set (rested e ?l sd)" "order_id r = ?ref"
      "\<forall>x\<in>set (rested e ?l (opposite sd)). \<not> crosses (opposite sd) (it_price ev) (price x)" by simp_all
    obtain i where i: "i \<in> set (G ?l (sd = BUY) (uint (price r)))" "so_order_ref (body (vslots v) i) = ?ref"
      using tracked_slot [OF v(7) r(3,4)] unfolding r(5) by blast
    obtain G1 where g: "view_ok v1 G1 F" "om_spare n (oc_index v1)"
      "\<forall>l bid p. at_price v1 G1 l bid p = (if l = ?l \<and> bid = (sd = BUY) \<and> p = uint (it_price ev)
        then add_mset (?new, ucast (it_shares ev)) (hidden ?l ?ref (at_price v G) l bid p) else hidden ?l ?ref (at_price v G) l bid p)"
      using view_replace [OF v(5,3) k v(4) m(1), where i = i and bid = "sd = BUY" and p = "uint (price r)"]
        i absent [OF q(1)] v1(1) price_real [of "it_price ev"] unfolding m by (auto simp: hidden_def Let_def simp del: split_paired_All)
    obtain e1 r' where e: "engine_order ev e = Some (Some ([RSP_OK ?new], e1))" "able n e1" "own_orders e1"
      "order_id r' = ?new" "price r' = it_price ev" "remaining_qty r' = it_shares ev"
      "\<forall>k. \<forall>sd'\<in>{BUY, SELL}. mset (rested e1 k sd') = (if k = ?l \<and> sd' = sd
        then add_mset r' (mset (without ?l ?ref (rested e) k sd')) else mset (without ?l ?ref (rested e) k sd'))"
      using engine_replaces [OF v(1) ev(2) q(1) r(1,2) v(2) r(3-6)] by blast
    have "tracks (at_price v1 G1) (rested e1)"
      by (rule tracks_add [OF tracks_without [OF v(7), of ?l ?ref] r(3), of _ ?l r']) (use g(3) e(4-7) in \<open>simp_all add: shown_def\<close>)
    then have "coupled n (Suc (Suc k)) e1 v1" unfolding coupled_def using e(2,3) v1(2) g(1,2) v(6) Suc_leD by blast
    then show ?thesis using e(1) v1(1) by (auto simp: is_trade_def)
  qed
qed

section \<open>The subscriber\<close>

lemma route_quiet: "\<forall>x\<in>set rsp. \<not> is_trade x \<Longrightarrow> foldo (route_response sk report l) rsp (t, s) = Some (t, s)"
  by (induction rsp) (auto simp: route_response_def is_trade_def split: response.splits)

text \<open>What the exchange relies on: a subscriber answers, and leaves engine and view alone.\<close>

locale listener =
  fixes sink :: "market_event \<Rightarrow> 'x market_scheme \<Rightarrow> 'x market_scheme option"
  assumes hears: "xs_view s = Some v \<Longrightarrow> calm k v \<Longrightarrow>
    \<exists>s'. sink ev s = Some s' \<and> xs_engine s' = xs_engine s \<and> xs_view s' = xs_view s"
begin

lemma broadcast_told:
  assumes "xs_view s = Some v" "on_event ev v = Some v'" "calm k v'"
  shows "\<exists>s'. broadcast (Some sink) ev s = Some s' \<and> xs_engine s' = xs_engine s \<and> xs_view s' = Some v'"
  using assms hears [of "s\<lparr>xs_view := Some v'\<rparr>" v' k ev] by (simp add: broadcast_def)

lemma order_told:
  assumes e: "engine_order ev (xs_engine s) = Some (Some (rsp, e1))" "\<forall>x\<in>set rsp. \<not> is_trade x"
    and v: "xs_view s = Some v" "on_event (to_market_event ev (s\<lparr>xs_clock := xs_clock s + 1, xs_engine := e1\<rparr>)) v = Some v'" "calm k v'"
  shows "\<exists>s'. on_market_order (Some sink) report ev s = Some s' \<and> xs_engine s' = e1 \<and> xs_view s' = Some v'"
proof -
  let ?s = "s\<lparr>xs_clock := xs_clock s + 1, xs_engine := e1\<rparr>"
  obtain s' where "broadcast (Some sink) (to_market_event ev ?s) ?s = Some s'" "xs_engine s' = e1" "xs_view s' = Some v'"
    using broadcast_told [of ?s v "to_market_event ev ?s" v' k] v by (auto simp del: split_paired_Ex)
  then show ?thesis using e(1) route_quiet [OF e(2), of "Some sink" report "ucast (it_locate ev)" 0 s'] by (simp add: on_market_order_def Let_def)
qed

text \<open>One event, and a whole feed.\<close>

lemma event_told:
  assumes v: "xs_view s = Some v" and c: "coupled (n + (if brings_order ev then 1 else 0)) k (xs_engine s) v"
    and k: "k + 2 < 2 ^ 30" and ev: "quiet_event (xs_engine s) ev"
  shows "\<exists>s' v'. on_market_order (Some sink) report ev s = Some s' \<and> xs_engine s' = engine_after ev (xs_engine s) \<and>
    xs_view s' = Some v' \<and> coupled n (Suc (Suc k)) (xs_engine s') v'"
proof -
  let ?e = "xs_engine s"
  let ?s = "s\<lparr>xs_clock := xs_clock s + 1, xs_engine := engine_after ev ?e\<rparr>"
  show ?thesis
  proof (cases "it_type ev = IT_BOOK")
    case True
    let ?s1 = "s\<lparr>xs_clock := xs_clock s + 1\<rparr>"
    have "on_market_order (Some sink) report ev s = Some ?s1" "engine_after ev ?e = ?e"
      using True by (simp_all add: on_market_order_def engine_order_def engine_after_def Let_def)
    then show ?thesis
      using v c True coupled_mono [of n k ?e v "Suc (Suc k)"] by (intro exI [of _ ?s1] exI [of _ v]) (simp add: brings_order_def)
  next
    case False
    then have "it_type ev = IT_ADD \<or> it_type ev = IT_DELETE \<or> it_type ev = IT_REPLACE"
      using ev by (cases "it_type ev") (auto simp: quiet_event_def Let_def)
    then obtain rsp e1 v1 where e: "engine_order ev ?e = Some (Some (rsp, e1))" "\<forall>x\<in>set rsp. \<not> is_trade x"
      "on_event (to_market_event ev ?s) v = Some v1" "coupled n (Suc (Suc k)) e1 v1"
      using coupled_add [of n k ?e v ev ?s] coupled_delete [of n k ?e v ev ?s] coupled_replace [of n k ?e v ev ?s] c k ev
      by (auto simp: brings_order_def)
    moreover have "engine_after ev ?e = e1" using e(1) by (simp add: engine_after_def)
    ultimately show ?thesis using order_told [OF e(1,2) v, of v1 "Suc (Suc k)" report] coupled_calm [OF e(4)] by auto
  qed
qed

lemma feed_told:
  "xs_view s = Some v \<Longrightarrow> coupled (n + length (filter brings_order evs)) k (xs_engine s) v \<Longrightarrow>
   quiet_feed (xs_engine s) evs \<Longrightarrow> k + 2 * length evs < 2 ^ 30 \<Longrightarrow>
   \<exists>s' v'. foldo (on_market_order (Some sink) report) evs s = Some s' \<and> xs_view s' = Some v' \<and>
     xs_engine s' = fold engine_after evs (xs_engine s) \<and> coupled n (k + 2 * length evs) (xs_engine s') v'"
proof (induction evs arbitrary: s v k)
  case (Cons ev evs)
  let ?n = "n + length (filter brings_order evs)"
  have n: "n + length (filter brings_order (ev # evs)) = ?n + (if brings_order ev then 1 else 0)" by simp
  obtain s1 v1 where s1: "on_market_order (Some sink) report ev s = Some s1" "xs_engine s1 = engine_after ev (xs_engine s)"
    "xs_view s1 = Some v1" "coupled ?n (Suc (Suc k)) (xs_engine s1) v1"
    using event_told [OF Cons.prems(1), of ?n ev k report] Cons.prems(2-4) unfolding n by auto
  have "quiet_feed (xs_engine s1) evs" "Suc (Suc k) + 2 * length evs < 2 ^ 30" using Cons.prems(3,4) s1(2) by simp_all
  from Cons.IH [OF s1(3,4) this] show ?case using s1(1,2) by simp
qed auto

end

text \<open>The workers are such a subscriber: they read the books of the view and change themselves.\<close>

lemma calm_side_of:
  assumes c: "calm k v" and b: "consumer_book l v = Some b"
  shows "\<exists>sd. side_of r b = Some sd"
proof -
  obtain F L key where s: "calm_store (oc_pool v) (oc_index v) F L key" using c by (auto simp: calm_def)
  have "mb_pool b = oc_pool v" "mb_index b = oc_index v" using b by (auto simp: consumer_book_def)
  then have "slot_find (mb_index b) r = Some None \<or> (\<exists>i\<in>L. slot_find (mb_index b) r = Some (Some i))"
    using s order_map.indexes_absent [of "oc_index v" L key r] order_map.indexes_look [of "oc_index v" L key]
    by (cases "r \<in> key ` L") (auto simp: calm_store_def slot_find_def)
  then show ?thesis
    using s \<open>mb_pool b = oc_pool v\<close> by (auto simp: side_of_def slot_at_def calm_store_def)
qed

interpretation workers: listener worker_sink
proof unfold_locales
  fix s :: "'a sim_scheme" and v k ev
  assume v: "xs_view s = Some v" and c: "calm k v"
  let ?P = "\<lambda>t. length (sm_workers t) = length (sm_workers s) \<and> xs_engine t = xs_engine s \<and> xs_view t = xs_view s"
  have "\<exists>s'. foldo (on_market_event ev v) [0..<length (sm_workers s)] s = Some s' \<and> ?P s'"
  proof (rule foldo_returns)
    fix i and t :: "'a sim_scheme"
    assume i: "i \<in> set [0..<length (sm_workers s)]" and t: "?P t"
    obtain sd where "event_side ev (consumer_book (me_locate ev) v) = Some sd"
      using calm_side_of [OF c, of "me_locate ev" _ "me_order_ref ev"]
      by (cases "consumer_book (me_locate ev) v") (fastforce simp: event_side_def split: if_splits)+
    then obtain ctx where "event_context ev (consumer_book (me_locate ev) v) = Some ctx"
      by (simp add: event_context_def Let_def)
    then show "\<exists>t'. on_market_event ev v i t = Some t' \<and> ?P t'"
      using i t lget_in [of i "sm_workers t"]
      by (auto simp: on_market_event_def Let_def put_worker_def set_segment_ctx_def split: option.split)
  qed simp
  then show "\<exists>s'. worker_sink ev s = Some s' \<and> xs_engine s' = xs_engine s \<and> xs_view s' = xs_view s"
    using v by (auto simp: worker_sink_def)
qed

section \<open>What the view shows\<close>

text \<open>The best price and its volume, on the side of the view.\<close>

lemma tracks_level:
  assumes "tracks (at_price v G) (rested e)" "sd \<in> {BUY, SELL}"
  shows "prices_of (at_price v G l (sd = BUY)) = (\<lambda>r. uint (price r)) ` set (rested e l sd)"
    "volume (at_price v G l (sd = BUY) (uint p)) = (\<Sum>r\<leftarrow>filter (\<lambda>r. price r = p) (rested e l sd). remaining_qty r)"
proof -
  have a: "at_price v G l (sd = BUY) p = image_mset shown {#r \<in># mset (rested e l sd). uint (price r) = p#}" for p
    using assms unfolding tracks_def by blast
  show "prices_of (at_price v G l (sd = BUY)) = (\<lambda>r. uint (price r)) ` set (rested e l sd)"
    by (auto simp: prices_of_def a filter_mset_eq_conv)
  have "ucast (ucast q :: u64) = q" for q :: u32 by transfer simp
  then have u: "ucast (snd (shown r)) = remaining_qty r" for r by (simp add: shown_def)
  have f: "{#r \<in># mset (rested e l sd). uint (price r) = uint p#} = mset (filter (\<lambda>r. price r = p) (rested e l sd))"
    by (simp flip: word_uint_eq_iff)
  show "volume (at_price v G l (sd = BUY) (uint p)) = (\<Sum>r\<leftarrow>filter (\<lambda>r. price r = p) (rested e l sd). remaining_qty r)"
    by (simp only: volume_def a f mset_map [symmetric] sum_mset_sum_list) (simp add: comp_def u)
qed

lemma top_extremum:
  assumes "sorted_wrt (\<lambda>r r'. \<not> blt sd (price r') (price r)) (r # rs)" "sd \<in> {BUY, SELL}"
  defines "P \<equiv> (\<lambda>r. uint (price r)) ` set (r # rs)"
  shows "(if sd = BUY then Max P else Min P) = uint (price r)"
proof -
  have "finite P" by (simp add: P_def)
  moreover have "\<forall>x\<in>P. if sd = BUY then x \<le> uint (price r) else uint (price r) \<le> x"
    using assms(1,2) by (auto simp: P_def blt_def word_less_def)
  moreover have "uint (price r) \<in> P" by (simp add: P_def)
  ultimately show ?thesis by (auto intro: Max_eqI Min_eqI)
qed

lemma tracks_top:
  fixes l
  assumes ok: "view_ok v G F" and t: "tracks (at_price v G) (rested e)" and inv: "engine_inv e" and S: "sd \<in> {BUY, SELL}" and os: "is_buy os = (sd = BUY)"
  defines "T \<equiv> side_table os (vbook v l)" and "q \<equiv> rested e l sd"
  shows "(if lt_empty T then -1 else lt_best T) = top_price q" "best_qty T = ucast (top_qty q)"
proof -
  note b = view_best [OF ok os, of l, folded T_def, unfolded tracks_level(1) [OF t S], folded q_def]
  have "(if lt_empty T then -1 else lt_best T) = top_price q \<and> best_qty T = ucast (top_qty q)"
  proof (cases q)
    case Nil
    then show ?thesis using b(1,3) by (simp add: top_price_def top_qty_def)
  next
    case (Cons r rs)
    obtain G' F' where "engine_ok e G' F'" using inv by (auto simp: engine_inv_def)
    then have "sorted_wrt (\<lambda>r r'. \<not> blt sd (price r') (price r)) (r # rs)"
      using view_sorted [OF _ S view_rested [OF inv S, of l]] Cons by (simp add: q_def)
    from top_extremum [OF this S]
    have m: "(if sd = BUY then Max ((\<lambda>r. uint (price r)) ` set q) else Min ((\<lambda>r. uint (price r)) ` set q)) = uint (price r)"
      by (simp only: Cons)
    have ne: "(\<lambda>r. uint (price r)) ` set q \<noteq> {}" by (simp add: Cons)
    have "top_qty q = (\<Sum>x\<leftarrow>filter (\<lambda>x. price x = price r) q. remaining_qty x)" unfolding top_qty_def Cons by simp
    then have "best_qty T = ucast (top_qty q)" using b(3) ne unfolding m tracks_level(2) [OF t S] q_def [symmetric] by simp
    then show ?thesis using b(1,2) ne unfolding m by (simp add: top_price_def Cons)
  qed
  then show "(if lt_empty T then -1 else lt_best T) = top_price q" "best_qty T = ucast (top_qty q)" by blast+
qed

text \<open>
  The view of a symbol shows the exchange: every resting order under its number, no number that is not in
  use, and the same top on both sides.
\<close>

definition mirrors :: "engine \<Rightarrow> u64 \<Rightarrow> mkt_book \<Rightarrow> bool" where
  "mirrors e l b \<longleftrightarrow>
     (\<forall>sd\<in>{BUY, SELL}. \<forall>r\<in>set (rested e l sd). \<exists>w. mkt_get (order_id r) b = Some (Some w) \<and>
        is_buy (sv_side w) = (sd = BUY) \<and> sv_price w = uint (price r) \<and> sv_remaining w = ucast (remaining_qty r)) \<and>
     (\<forall>k. fresh_ref e k \<longrightarrow> mkt_get k b = Some None) \<and>
     best_bid b = top_price (rested e l BUY) \<and> best_bid_volume b = ucast (top_qty (rested e l BUY)) \<and>
     best_ask b = top_price (rested e l SELL) \<and> best_ask_volume b = ucast (top_qty (rested e l SELL))"

lemma coupled_mirrors:
  assumes "coupled n k e v"
  shows "mirrors e l (vbook v l)"
proof -
  obtain G F where c: "able n e" "view_ok v G F" "tracks (at_price v G) (rested e)" using assms by (auto simp: coupled_def)
  note inv = able_inv [OF c(1)]
  have "\<exists>w. mkt_get (order_id r) (vbook v l) = Some (Some w) \<and> is_buy (sv_side w) = (sd = BUY) \<and> sv_price w = uint (price r) \<and>
      sv_remaining w = ucast (remaining_qty r)" if S: "sd \<in> {BUY, SELL}" and r: "r \<in> set (rested e l sd)" for sd r
  proof -
    have "at_price v G l (sd = BUY) (uint (price r)) = image_mset shown {#x \<in># mset (rested e l sd). uint (price x) = uint (price r)#}"
      using c(3) S unfolding tracks_def by blast
    then have "(order_id r, ucast (remaining_qty r)) \<in># at_price v G l (sd = BUY) (uint (price r))"
      using r by (auto simp: shown_def intro: image_eqI [of _ _ r])
    from view_get [OF c(2) this, of l] show ?thesis by blast
  qed
  moreover have "mkt_get k (vbook v l) = Some None" if "fresh_ref e k" for k
    using view_absent [OF c(2) tracks_refs [OF c(3) inv that]] by (simp add: mkt_get_def)
  moreover note tracks_top [OF c(2,3) inv, of BUY OS_BUY l] tracks_top [OF c(2,3) inv, of SELL OS_SELL l]
  ultimately show ?thesis
    unfolding mirrors_def by (auto simp: side_table_def best_bid_def best_ask_def best_bid_volume_def best_ask_volume_def)
qed

lemma mirrors_no_book:
  assumes "mirrors e l (vbook v l)" "oc_books v l = None"
  shows "rested e l BUY = [] \<and> rested e l SELL = []"
proof -
  have "tables v l = (lt_new True, lt_new False)" using assms(2) by (simp add: tables_def)
  then have "best_bid (vbook v l) = -1" "best_ask (vbook v l) = -1"
    by (simp_all add: best_bid_def best_ask_def lt_empty_def lt_new_def)
  then have "top_price (rested e l BUY) = -1" "top_price (rested e l SELL) = -1" using assms(1) by (simp_all add: mirrors_def)
  moreover have "uint p \<noteq> -1" for p :: u32 using uint_nonnegative [of p] by linarith
  ultimately show ?thesis by (auto simp: top_price_def split: list.splits)
qed

text \<open>The quote the exchange gives the execution engine is the top the strategies see.\<close>

definition quote_of :: "u64 \<Rightarrow> mkt_book \<Rightarrow> book_quote option" where
  [code_eval]: "quote_of l b = (if book_bbo b then Some \<lparr>bq_symbol_id = l, bq_bid = best_bid b, bq_bid_vol = best_bid_volume b,
     bq_ask = best_ask b, bq_ask_vol = best_ask_volume b\<rparr> else None)"

lemma quote_shown:
  assumes m: "mirrors (xs_engine s) l b" and inv: "engine_inv (xs_engine s)" and own: "own_orders (xs_engine s)" and l: "unat l < kMaxLocate"
  shows "fst (exchange_quote l s) = quote_of l b"
proof -
  let ?e = "xs_engine s"
  obtain G F where ok: "engine_ok ?e G F" using inv by (auto simp: engine_inv_def)
  obtain eb e' bk where b: "book_for l ?e = (Some eb, e')" "engine_ok e' G F" "eb = the_book e' bk" "books e' (unat l) = Some bk"
    "book_ok eb (G (unat l)) F (others G (unat l))" "e' = ?e\<lparr>books := (books ?e)(unat l \<mapsto> bk)\<rparr>"
    "bk = (case books ?e (unat l) of None \<Rightarrow> ([], []) | Some bk \<Rightarrow> bk)"
    by (rule book_for_ok [OF ok l])
  have q: "orders sd eb (G (unat l)) = rested ?e l sd" if "sd \<in> {BUY, SELL}" for sd
    using view_book [OF b(2,4) that] view_book_for [OF b(6,7)] b(3) by (simp add: rested_def)
  have top: "(case lv sd eb of [] \<Rightarrow> 0 | (p, l) # _ \<Rightarrow> p) = (case rested ?e l sd of [] \<Rightarrow> 0 | r # _ \<Rightarrow> price r) \<and>
      (case lv sd eb of [] \<Rightarrow> 0 | (p, l) # _ \<Rightarrow> total_qty l) = top_qty (rested ?e l sd)" if "sd \<in> {BUY, SELL}" for sd
    using top_of_queue [OF b(5) that] unfolding q [OF that] .
  define t where "t = getTopOfBook eb"
  have t: "bid_price t = (case rested ?e l BUY of [] \<Rightarrow> 0 | r # _ \<Rightarrow> price r)" "bid_volume t = top_qty (rested ?e l BUY)"
    "ask_price t = (case rested ?e l SELL of [] \<Rightarrow> 0 | r # _ \<Rightarrow> price r)" "ask_volume t = top_qty (rested ?e l SELL)"
    using top [of BUY] top [of SELL] by (simp_all add: t_def getTopOfBook_def lv_def)
  have pos: "top_price (rested ?e l sd) = (if rested ?e l sd = [] then -1 else uint (case rested ?e l sd of [] \<Rightarrow> 0 | r # _ \<Rightarrow> price r)) \<and>
      (0 < uint (case rested ?e l sd of [] \<Rightarrow> 0 | r # _ \<Rightarrow> price r) \<longleftrightarrow> rested ?e l sd \<noteq> [])" if "sd \<in> {BUY, SELL}" for sd
  proof (cases "rested ?e l sd")
    case (Cons r rs)
    then have "r \<in> set (rested ?e l sd)" by simp
    then have "price r \<noteq> 0" using own that unfolding own_orders_def by blast
    then have "0 < uint (price r)" by (simp add: order_less_le unsigned_eq_0_iff)
    then show ?thesis by (simp add: top_price_def Cons)
  qed (simp add: top_price_def)
  have "fst (exchange_quote l s) = (if 0 < uint (bid_price t) \<and> 0 < uint (ask_price t) then Some \<lparr>bq_symbol_id = l,
      bq_bid = uint (bid_price t), bq_bid_vol = ucast (bid_volume t), bq_ask = uint (ask_price t), bq_ask_vol = ucast (ask_volume t)\<rparr> else None)"
    using b(1) by (simp add: exchange_quote_def t_def Let_def)
  then show ?thesis
    using m pos [of BUY] pos [of SELL] unfolding t quote_of_def book_bbo_def mirrors_def by auto
qed

section \<open>The program\<close>

lemma assemble_engine: "assemble cfg sts = Some s \<Longrightarrow> engine_owned (cf_pool_slots cfg) None = Some (xs_engine s)"
  by (auto simp: assemble_def exchange_new_def engine_owned_def set_market_view_def Let_def sim.extend_def market.extend_def
      exec_engine.extend_def split: bind_split_asm)

lemma assemble_coupled:
  assumes "assemble cfg sts = Some s" "2 \<le> cf_pool_slots cfg" "cf_pool_slots cfg \<le> 2 ^ 31"
  shows "\<exists>v. xs_view s = Some v \<and> coupled (cf_pool_slots cfg) 0 (xs_engine s) v"
proof -
  let ?c = "cf_pool_slots cfg" and ?G = "\<lambda>_ _ _. [] :: u32 list"
  obtain pool ix where p: "slot_pool_new ?c = Some pool" "slot_index_new ?c = Some ix" "xs_view s = Some (consumer_new pool ix)"
    using assms(1) by (auto simp: assemble_def set_market_view_def Let_def sim.extend_def market.extend_def split: bind_split_asm)
  let ?v = "consumer_new pool ix"
  have pool: "pool_ok pool (map of_nat [0..<?c])" using pool_new_calm [OF p(1) assms(2,3)] by (simp add: calm_pool_def)
  have ix: "om_inv ix" "\<forall>k. om_find ix k = Some None" "om_spare ?c ix"
    using om_new_ok [OF assms(2), where 'v = u32] assms(3) p(2) by (auto simp: slot_index_new_def)
  have e: "engine_ok (xs_engine s) (\<lambda>_. no_ghost) (map of_nat [0..<?c])" "books (xs_engine s) = (\<lambda>_. None)" "om_spare ?c (shared_index (xs_engine s))"
    using engine_owned_start [OF assms(2,3), of None] assemble_engine [OF assms(1)] by auto
  have "mlive (\<lambda>_ _. [] :: u32 list) = {}" by (simp add: mlive_def mslots_def)
  then have "view_ok ?v ?G (map of_nat [0..<?c])"
    using pool ix(1,2) lt_new_ok
    by (simp add: view_ok_def mkt_ok_def mside_ok_def rest_of_def tables_def consumer_new_def order_map.indexes_def lt_new_def no_drift_def mslots_def)
  moreover have "tracks (at_price ?v ?G) (rested (xs_engine s))" by (simp add: tracks_def at_price_def rested_def view_def e(2))
  moreover have "calm 0 ?v" using feed_calm [OF feed_start [OF p(1,2) assms(2,3)]] by simp
  moreover have "able ?c (xs_engine s)" unfolding able_def using e by (intro exI [of _ "\<lambda>_. no_ghost"] exI [of _ "map of_nat [0..<?c]"]) simp
  moreover have "own_orders (xs_engine s)" by (simp add: own_orders_def rested_def view_def e(2))
  ultimately have "coupled ?c 0 (xs_engine s) ?v"
    unfolding coupled_def using ix(3) by (intro conjI exI [of _ ?G] exI [of _ "map of_nat [0..<?c]"]) (simp_all add: consumer_new_def)
  then show ?thesis using p(3) by blast
qed

lemma feed_coupled:
  assumes "assemble cfg sts = Some s0" "2 \<le> cf_pool_slots cfg" "cf_pool_slots cfg \<le> 2 ^ 31"
    and "quiet_feed (xs_engine s0) evs" "length evs < 2 ^ 28"
    and "n + length (filter brings_order evs) \<le> cf_pool_slots cfg"
  shows "\<exists>s v. foldo market_step evs s0 = Some s \<and> xs_view s = Some v \<and> xs_engine s = fold engine_after evs (xs_engine s0) \<and>
    coupled n (2 * length evs) (xs_engine s) v"
proof -
  obtain v0 where v0: "xs_view s0 = Some v0" "coupled (cf_pool_slots cfg) 0 (xs_engine s0) v0"
    using assemble_coupled [OF assms(1-3)] by blast
  from workers.feed_told [OF v0(1) coupled_less [OF v0(2) assms(6)] assms(4), of "Some (the_report (Some worker_sink))"] assms(5)
  show ?thesis by (simp add: market_step_def)
qed


text \<open>A bid, an ask, the ask moves, and the bid goes.\<close>

definition demo_replace :: itch_event where
  [code_eval]: "demo_replace = (demo_event 2 SELL 5003 100)\<lparr>it_type := IT_REPLACE, it_new_order_ref := 3\<rparr>"

definition demo_delete :: itch_event where
  [code_eval]: "demo_delete = (demo_event 1 BUY 0 0)\<lparr>it_type := IT_DELETE\<rparr>"

abbreviation "demo_feed \<equiv> [demo_event 1 BUY 5000 500, demo_event 2 SELL 5002 150, demo_replace, demo_delete]"

lemma demo_feed_steps:
  "\<exists>e e1 e2 e3 r1 r2 r3. engine_owned 4 None = Some e \<and> quiet_event e (demo_event 1 BUY 5000 500) \<and>
     engine_order (demo_event 1 BUY 5000 500) e = Some (Some (r1, e1)) \<and> quiet_event e1 (demo_event 2 SELL 5002 150) \<and>
     engine_order (demo_event 2 SELL 5002 150) e1 = Some (Some (r2, e2)) \<and> quiet_event e2 demo_replace \<and>
     engine_order demo_replace e2 = Some (Some (r3, e3)) \<and> quiet_event e3 demo_delete"
  by (simp add: code_eval om_room_def hash_of_def valid_add_def cong: bind_eval_cong)

lemma demo_feed_quiet: "\<exists>e. engine_owned 4 None = Some e \<and> quiet_feed e demo_feed"
proof -
  obtain e e1 e2 e3 r1 r2 r3 where "engine_owned 4 None = Some e" "quiet_event e (demo_event 1 BUY 5000 500)"
    "engine_order (demo_event 1 BUY 5000 500) e = Some (Some (r1, e1))" "quiet_event e1 (demo_event 2 SELL 5002 150)"
    "engine_order (demo_event 2 SELL 5002 150) e1 = Some (Some (r2, e2))" "quiet_event e2 demo_replace"
    "engine_order demo_replace e2 = Some (Some (r3, e3))" "quiet_event e3 demo_delete"
    using demo_feed_steps by (elim exE conjE) (rule that)
  then show ?thesis by (simp add: engine_after_def)
qed


end
