(* ===== verification/First_Trade.thy ===== *)
theory First_Trade
  imports View_Track
begin

text \<open>
  The first trade between two orders of the feed ends the agreement of \<open>view_mirrors\<close>: an incoming buy
  order that is filled at once is first shown as resting, and when its execution follows, the market
  view keeps its empty level as the best bid.
\<close>

section \<open>The exchange\<close>

text \<open>
  A buy order above all bids that takes a part of the first ask and is filled. The quantities at the best
  ask add up in 32 bits; the last clause only excludes a sum that wraps to the quantity taken.
\<close>

definition lifts :: "engine \<Rightarrow> itch_event \<Rightarrow> order \<Rightarrow> bool" where
  [code_eval]: "lifts e ev mk =
     (let l = ucast (it_locate ev); ref = it_order_ref ev in
      it_type ev = IT_ADD \<and> it_side ev = BUY \<and> valid_add l ref BUY (it_price ev) (it_shares ev) ref DAY \<and> fresh_ref e ref \<and>
      rested e l SELL \<noteq> [] \<and> hd (rested e l SELL) = mk \<and> price mk \<le> it_price ev \<and> it_shares ev < remaining_qty mk \<and>
      (\<forall>r\<in>set (rested e l BUY). price r < it_price ev) \<and> top_qty (rested e l SELL) \<noteq> it_shares ev)"

lemma a_match_part:
  assumes "foreign ex r" "crosses sd p (price r)" "n < remaining_qty r" "n \<noteq> 0"
  shows "a_match sd ex p n (r # q) = (0, mark PARTIALLY_FILLED (fill n r) # q, [(r, n)])"
  using assms by (auto simp: Let_def dest: leD)

lemma engine_lifts:
  assumes a: "able (Suc n) e" and own: "own_orders e" and ev: "lifts e ev mk"
  defines "l \<equiv> ucast (it_locate ev) :: u64"
  shows "\<exists>e1. engine_order ev e = Some (Some ([RSP_TRADE l (order_id mk) SIDE_SELL (price mk) (it_shares ev),
      RSP_FILLED (it_order_ref ev)], e1)) \<and>
    rested e1 l BUY = rested e l BUY \<and> map price (rested e1 l SELL) = map price (rested e l SELL)"
proof -
  let ?ref = "it_order_ref ev" and ?q = "it_shares ev" and ?p = "it_price ev"
  have v: "valid_add l ?ref BUY ?p ?q ?ref DAY" "fresh_ref e ?ref" and mk: "price mk \<le> ?p" "?q < remaining_qty mk"
    and ty: "it_type ev = IT_ADD" "it_side ev = BUY" and ne: "rested e l SELL \<noteq> []" "hd (rested e l SELL) = mk"
    using ev by (simp_all add: lifts_def Let_def l_def)
  obtain rs where rs: "rested e l SELL = mk # rs" using ne by (cases "rested e l SELL") auto
  note inv = able_inv [OF a]
  have vw: "view e (unat l) (opposite BUY) = Some (mk # rs)" "view e (unat l) BUY = Some (rested e l BUY)"
    using view_rested [OF inv, of SELL l] view_rested [OF inv, of BUY l] rs by (simp_all add: opposite_def)
  have q: "?q \<noteq> 0" using v(1) by (simp add: valid_add_def)
  have "rests e (unat l) SELL mk" unfolding rests_rested rs by simp
  then have "order_id mk \<noteq> ?ref" using v(2) unfolding fresh_views [OF inv] by blast
  moreover have "user_id mk = order_id mk" using own unfolding own_orders_def by (metis insertCI list.set_intros(1) rs)
  ultimately have fr: "foreign ?ref mk" by (simp add: foreign_def)
  have m: "a_match (opposite BUY) ?ref ?p ?q (mk # rs) = (0, mark PARTIALLY_FILLED (fill ?q mk) # rs, [(mk, ?q)])"
    using fr mk q by (intro a_match_part) (simp_all add: crosses_def opposite_def)
  obtain full r where r: "processAdd l ?ref BUY ?p ?q ?ref DAY [] e = Some r"
    "add_outcome full l ?ref BUY ?p ?q ?ref DAY [] e (mk # rs) (rested e l BUY) r"
    using processAdd_total [OF inv v able_room [OF a] _ vw, of 0 "[]"] by auto
  obtain rsp e1 where "r = (rsp, e1)" by (cases r)
  then show ?thesis
    using r m ty rs
    by (auto simp: engine_order_def Let_def l_def add_outcome_def limit_of_def add_response_def trade_rsp_def rside_def rested_def
        opposite_def mark_def fill_def)
qed

section \<open>The view\<close>

text \<open>An event of an execution, by what it does to the book.\<close>

lemma execute_told:
  assumes "on_event ev v = Some v'" "me_type ev = EV_EXECUTE" "mkt_execute (me_order_ref ev) (me_qty ev) (vbook v (me_locate ev)) = Some (x, b')"
  shows "consumer_book (me_locate ev) v' = Some b'" "vbook v' (me_locate ev) = b'"
proof -
  obtain b c1 where b: "market_book_for (me_locate ev) v = (b, c1)" by fastforce
  note bt = market_book_for_tables [OF b]
  obtain pr where "v' = put_tick ev pr (put_market_book (me_locate ev) b' v)"
    using assms b bt by (auto simp: on_event_def handle_execute_def Let_def split: bind_split_asm prod.splits)
  then show "consumer_book (me_locate ev) v' = Some b'" "vbook v' (me_locate ev) = b'"
    by (simp_all add: consumer_book_def tables_def as_book_def put_tick_def put_market_book_def Let_def)
qed

text \<open>Books over the same slots at the same prices have the same best prices.\<close>

lemma same_best:
  assumes "lt_ok t" "lt_ok t'" "lt_is_bid t' = lt_is_bid t" "dom (lt_map t') = dom (lt_map t)"
  shows "lt_best t' = lt_best t" "lt_empty t' = lt_empty t"
  using assms by (simp_all add: lt_ok_def lt_empty_def)

lemma mside_dom:
  assumes "mside_ok s bid t g D"
  shows "dom (lt_map t) = {p. g p \<noteq> []}"
proof -
  have "lt_map t p = None \<longleftrightarrow> g p = []" for p
    using mside_none(1) [OF assms] mside_level [OF assms, of p] by (cases "g p = []") auto
  then show ?thesis by (auto simp: dom_def)
qed

lemma mkt_same_best:
  assumes "mkt_ok b g D F Oth" "mkt_ok b' g D' F' Oth'"
  shows "lt_best (side_table sd b') = lt_best (side_table sd b)" "lt_empty (side_table sd b') = lt_empty (side_table sd b)"
proof -
  note s = mkt_side [OF assms(1), of sd] mkt_side [OF assms(2), of sd]
  then have "lt_ok (side_table sd b)" "lt_ok (side_table sd b')" "lt_is_bid (side_table sd b') = lt_is_bid (side_table sd b)"
    by (simp_all add: mside_ok_def)
  note eq = same_best [OF this] 
  have "dom (lt_map (side_table sd b')) = dom (lt_map (side_table sd b))" unfolding mside_dom [OF s(1)] mside_dom [OF s(2)] ..
  then show "lt_best (side_table sd b') = lt_best (side_table sd b)" "lt_empty (side_table sd b') = lt_empty (side_table sd b)"
    by (rule eq)+
qed

text \<open>A part of an order of the view is executed.\<close>

lemma part_executed:
  assumes ok: "view_ok c G F" and x: "(r, n) \<in># at_price c G l bid p" and q: "q < n" and vol: "volume (at_price c G l bid p) \<noteq> ucast q"
  shows "\<exists>b'. mkt_execute r q (vbook c l) = Some (True, b') \<and> mkt_ok b' (G l) no_drift F (rest_of G l) \<and>
    (\<forall>j. j \<notin> set (G l bid p) \<longrightarrow> body (mslot_array b') j = body (vslots c) j)"
proof -
  obtain i where i: "i \<in> set (G l bid p)" "so_order_ref (body (vslots c) i) = r" "so_remaining (body (vslots c) i) = n"
    using x by (auto simp: at_price_def)
  let ?sd = "so_side (body (vslots c) i)"
  have bid: "is_buy ?sd = bid" using mkt_slot(2) [OF view_ok_book [OF ok, of l] i(1)] by simp
  have "at_price c G l bid p \<noteq> {#}" using x by auto
  then obtain lev where lev: "lt_map (side_table ?sd (vbook c l)) p = Some lev" "ml_total lev = volume (at_price c G l bid p)"
    using view_level [OF ok bid, of l p] by blast
  obtain b' where "mkt_execute r q (vbook c l) = Some (True, b')" "mkt_ok b' (G l) no_drift F (rest_of G l)"
    "body (mslot_array b') = (body (vslots c))(i := less_remaining q (body (vslots c) i))"
    using execute_part [OF view_ok_book [OF ok, of l] i(1), of q lev] i(2,3) q lev vol by auto
  then show ?thesis using i(1) by auto
qed

text \<open>The only order at the best bid is executed in full: its price stays the best bid.\<close>

lemma sole_best_executed:
  assumes ok: "mkt_ok b g no_drift F Oth" and i: "g True p = [i]" and top: "\<forall>p'. g True p' \<noteq> [] \<longrightarrow> p' \<le> p" and room: "roomy (mb_bids b)"
    and o': "so_order_ref (body (mslot_array b) i) = r" "so_shares (body (mslot_array b) i) = q" "so_remaining (body (mslot_array b) i) = q"
  shows "\<exists>b'. mkt_execute r q b = Some (True, b') \<and> mkt_get r b' = Some None \<and> best_bid b' = p \<and> best_ask b' = best_ask b \<and>
    best_bid_volume b' = ucast (- ucast q :: u32)"
proof -
  have sd: "so_side (body (mslot_array b) i) = OS_BUY" using mkt_slot(2) [OF ok, of i True p] i by simp
  obtain b' where b': "mkt_execute r q b = Some (True, b')" "slot_find (mb_index b') r = Some None"
    "lt_ok (mb_bids b')" "lt_is_bid (mb_bids b')" "lt_map (mb_bids b') = (lt_map (mb_bids b))(p \<mapsto> ghost_level q)"
    "dom (lt_map (mb_bids b')) = dom (lt_map (mb_bids b))" "mb_asks b' = mb_asks b"
    using execute_sole [OF ok, of OS_BUY p i q] i sd room o' by (auto simp: side_table_def no_drift_def dest: spec [of _ OS_SELL])
  have d: "dom (lt_map (mb_bids b')) = {p. g True p \<noteq> []}"
    using b'(6) mside_dom [OF mkt_side [OF ok, of OS_BUY]] by (simp add: side_table_def)
  then have "Max (dom (lt_map (mb_bids b'))) = p" using finite_lt_map [of "mb_bids b'"] top i by (intro Max_eqI) auto
  then have best: "lt_best (mb_bids b') = p" using b'(3-5) by (simp add: lt_ok_def extremum_def)
  have ne: "\<not> lt_empty (mb_bids b')" using lt_empty_iff [OF b'(3) lt_dom_small [OF b'(3)]] b'(5) by auto
  have "real_price p" using lt_map_real [of p "mb_bids b'"] b'(5) by simp
  then have "best_bid_volume b' = ucast (- ucast q :: u32)"
    using lt_find_map [OF b'(3), of p] b'(5) best ne
    by (auto simp: best_bid_volume_def best_qty_def lt_find_def ghost_level_def split: option.splits)
  then show ?thesis using b'(1,2,7) best ne by (simp add: best_bid_def best_ask_def mkt_get_def)
qed

text \<open>What the view knows about a side, and a side with one order.\<close>

lemma at_price_sole:
  assumes "at_price c G l bid p = {#(r, n)#}"
  shows "\<exists>i. G l bid p = [i] \<and> so_order_ref (body (vslots c) i) = r \<and> so_remaining (body (vslots c) i) = n"
proof -
  have "length (G l bid p) = 1" using arg_cong [OF assms, of size] by (simp add: at_price_def)
  then obtain i where "G l bid p = [i]" by (auto simp: length_Suc_conv)
  then show ?thesis using assms by (simp add: at_price_def)
qed

lemma best_ask_cong:
  assumes "view_ok c G F" "view_ok c' G' F'" "at_price c' G' l False = at_price c G l False"
  shows "best_ask (vbook c' l) = best_ask (vbook c l)"
  using view_best(1,2) [OF assms(1), of OS_SELL False l] view_best(1,2) [OF assms(2), of OS_SELL False l] assms(3)
  by (simp add: best_ask_def side_table_def)

text \<open>The order is shown as resting: alone at its price, above all bids, and the asks are as before.\<close>

lemma view_shows:
  assumes c: "coupled (Suc n) k e v" and k: "Suc k < 2 ^ 30" and ev: "lifts e ev mk"
  defines "l \<equiv> ucast (it_locate ev) :: u64" and "q \<equiv> ucast (it_shares ev) :: u64" and "p \<equiv> uint (it_price ev)"
  shows "\<exists>v1 G1 F1 i. on_event (to_market_event ev s) v = Some v1 \<and> calm (Suc (Suc k)) v1 \<and> view_ok v1 G1 F1 \<and>
    G1 l True p = [i] \<and> so_order_ref (body (vslots v1) i) = it_order_ref ev \<and> so_remaining (body (vslots v1) i) = q \<and>
    (\<forall>p'. G1 l True p' \<noteq> [] \<longrightarrow> p' \<le> p) \<and> best_ask (vbook v1 l) = uint (price mk) \<and>
    shown mk \<in># at_price v1 G1 l False (uint (price mk)) \<and> volume (at_price v1 G1 l False (uint (price mk))) \<noteq> it_shares ev"
proof -
  let ?ref = "it_order_ref ev" and ?m = "to_market_event ev s"
  obtain G F where v: "able (Suc n) e" "own_orders e" "calm k v" "om_spare (Suc n) (oc_index v)" "view_ok v G F" "Suc n \<le> length F" "tracks (at_price v G) (rested e)"
    using c by (auto simp: coupled_def)
  have ev': "fresh_ref e ?ref" "rested e l SELL \<noteq> []" "hd (rested e l SELL) = mk" "it_type ev = IT_ADD" "it_side ev = BUY"
    "\<forall>r\<in>set (rested e l BUY). price r < it_price ev" "top_qty (rested e l SELL) \<noteq> it_shares ev"
    using ev by (simp_all add: lifts_def Let_def l_def)
  have m: "me_type ?m = EV_ADD" "me_locate ?m = l" "me_side ?m = OS_BUY" "me_price ?m = p" "me_qty ?m = q" "me_order_ref ?m = ?ref"
    using ev'(4,5) by (simp_all add: to_market_event_def zero_event_def Let_def l_def p_def q_def)
  obtain idx F1 where F: "F = idx # F1" using v(6) by (cases F) auto
  have new: "slot_find (oc_index v) (me_order_ref ?m) = Some None"
    using view_absent [OF v(5) tracks_refs [OF v(7) able_inv [OF v(1)] ev'(1)]] m(6) by simp
  obtain v1 where v1: "on_event ?m v = Some v1" "calm (Suc (Suc k)) v1"
    using on_event_calm [OF v(3) _ k, of ?m] new m price_real [of "it_price ev"] by (auto simp: feed_event_def p_def)
  obtain G1 where g: "view_ok v1 G1 F1"
    "\<forall>j bid p'. at_price v1 G1 j bid p' = (if j = l \<and> bid = True \<and> p' = p then add_mset (?ref, q) (at_price v G j bid p') else at_price v G j bid p')"
    using view_add [OF v(5) [unfolded F] v(3) _ v(4) new _ _ m(1)] k price_real [of "it_price ev"] v1(1) unfolding m p_def by auto
  note bids = tracked [OF v(7), of BUY, simplified] and asks = tracked [OF v(7), of SELL, simplified]
  have "at_price v G l True p = {#}"
    using ev'(6) by (intro multiset_eqI) (auto simp: not_in_iff [symmetric] bids p_def word_less_def)
  then obtain i where i: "G1 l True p = [i]" "so_order_ref (body (vslots v1) i) = ?ref" "so_remaining (body (vslots v1) i) = q"
    using at_price_sole [of v1 G1 l True p ?ref q] g(2) by auto
  have "p' \<le> p" if "G1 l True p' \<noteq> []" for p'
  proof (cases "p' = p")
    case False
    have "at_price v1 G1 l True p' \<noteq> {#}" using that by (simp add: at_price_def)
    then obtain x where "x \<in># at_price v G l True p'" using g(2) False by auto
    then show ?thesis using ev'(6) by (auto simp: bids p_def word_less_def)
  qed simp
  moreover have same: "at_price v1 G1 l False = at_price v G l False" using g(2) by (simp add: fun_eq_iff)
  have "best_ask (vbook v1 l) = uint (price mk)"
    using best_ask_cong [OF v(5) g(1) same] coupled_mirrors [OF c, of l] ev'(2,3)
    by (auto simp: mirrors_def top_price_def split: list.splits)
  moreover have "shown mk \<in># at_price v1 G1 l False (uint (price mk))"
    unfolding same asks using ev'(2,3) by (metis hd_in_set)
  moreover have "volume (at_price v1 G1 l False (uint (price mk))) = top_qty (rested e l SELL)"
    using tracks_level(2) [OF v(7), of SELL l "price mk"] ev'(2,3) unfolding same by (auto simp: top_qty_def split: list.splits)
  ultimately show ?thesis using v1 g(1) i ev'(7) by (intro exI conjI) auto
qed

text \<open>The two executions that follow.\<close>

lemma make_execute_fields [simp]:
  "me_type (make_execute l r q) = EV_EXECUTE" "me_locate (make_execute l r q) = l" "me_order_ref (make_execute l r q) = r"
  "me_qty (make_execute l r q) = q"
  by (simp_all add: make_execute_def)

lemma execute_calm:
  assumes "calm k v" "k + 2 \<le> k'" "k' < 2 ^ 30"
  shows "\<exists>v'. on_event (make_execute l r q) v = Some v' \<and> calm k' v'"
proof -
  have "feed_event (make_execute l r q) v"
    by (simp add: feed_event_def) (simp add: make_execute_def real_price_def in_i64_def kEmpty_def kTombstone_def)
  then obtain v' where "on_event (make_execute l r q) v = Some v'" "calm (Suc (Suc k)) v'"
    using on_event_calm [OF assms(1)] assms(2,3) by force
  moreover have "Suc (Suc k) \<le> k'" using assms(2) by simp
  ultimately show ?thesis using calm_mono by blast
qed

lemma view_executes:
  assumes ok: "view_ok v G F" and c: "calm k v" "k + 4 < 2 ^ 30"
    and i: "G l True p = [i]" "so_order_ref (body (vslots v) i) = r" "so_remaining (body (vslots v) i) = q"
    and top: "\<forall>p'. G l True p' \<noteq> [] \<longrightarrow> p' \<le> p"
    and mk: "(r', n) \<in># at_price v G l False pa" "q < n" "volume (at_price v G l False pa) \<noteq> ucast q"
  shows "\<exists>v1 v2 b. on_event (make_execute l r' q) v = Some v1 \<and> calm (k + 4) v1 \<and> on_event (make_execute l r q) v1 = Some v2 \<and>
    calm (k + 4) v2 \<and> consumer_book l v2 = Some b \<and> mkt_get r b = Some None \<and> best_bid b = p \<and> best_ask b = best_ask (vbook v l) \<and>
    best_bid_volume b = ucast (- ucast q :: u32)"
proof -
  obtain b1 where b1: "mkt_execute r' q (vbook v l) = Some (True, b1)" "mkt_ok b1 (G l) no_drift F (rest_of G l)"
    "\<forall>j. j \<notin> set (G l False pa) \<longrightarrow> body (mslot_array b1) j = body (vslots v) j"
    using part_executed [OF ok mk] by blast
  obtain v1 where v1: "on_event (make_execute l r' q) v = Some v1" "calm (k + 2) v1"
    using execute_calm [OF c(1), of "k + 2" l r' q] c(2) by auto
  have vb: "vbook v1 l = b1" using execute_told(2) [OF v1(1), of True b1] b1(1) by simp
  note bok = view_ok_book [OF ok, of l]
  have im: "i \<in> set (G l True p)" using i(1) by simp
  have "i \<notin> set (G l False pa)" using mkt_slot(2) [OF bok im] mkt_slot(2) [OF bok, of i False pa] by auto
  then have bi: "body (mslot_array b1) i = body (vslots v) i" using b1(3) by blast
  have "so_shares (body (vslots v) i) = q" using ok mkt_slot(5) [OF bok im] i(3) by (simp add: view_ok_def)
  moreover have "roomy (mb_bids b1)" using view_roomy [OF v1(2), of OS_BUY l] c(2) unfolding vb by (simp add: side_table_def)
  ultimately obtain b2 where b2: "mkt_execute r q b1 = Some (True, b2)" "mkt_get r b2 = Some None" "best_bid b2 = p"
    "best_ask b2 = best_ask b1" "best_bid_volume b2 = ucast (- ucast q :: u32)"
    using sole_best_executed [OF b1(2) i(1) top, of r q] i(2,3) unfolding bi by auto
  obtain v2 where v2: "on_event (make_execute l r q) v1 = Some v2" "calm (k + 4) v2"
    using execute_calm [OF v1(2), of "k + 4" l r q] c(2) by auto
  have "consumer_book l v2 = Some b2" using execute_told(1) [OF v2(1), of True b2] b2(1) vb by simp
  moreover have "best_ask b1 = best_ask (vbook v l)" using mkt_same_best [OF bok b1(2), of OS_SELL] by (simp add: best_ask_def side_table_def)
  moreover have "calm (k + 4) v1" using v1(2) by (rule calm_mono) simp
  ultimately show ?thesis using v1(1) v2 b2(2-5) by auto
qed

section \<open>The program\<close>

text \<open>The broadcasts of one order that is filled by one trade.\<close>

lemma lift_told:
  fixes s :: "'x sim_scheme"
  assumes e: "engine_order ev (xs_engine s) = Some (Some ([RSP_TRADE l mr sd pr q, RSP_FILLED fr], e1))" "xs_strategy_refs s = {}"
    and ev: "it_type ev = IT_ADD" "l = ucast (it_locate ev)" "q \<noteq> 0"
    and v: "xs_view s = Some v" "on_event (to_market_event ev (s\<lparr>xs_clock := xs_clock s + 1, xs_engine := e1\<rparr>)) v = Some v1" "calm k v1"
      "on_event (make_execute l mr (ucast q)) v1 = Some v2" "calm k v2"
      "on_event (make_execute l (it_order_ref ev) (ucast q)) v2 = Some v3" "calm k v3"
  shows "\<exists>s'. market_step ev s = Some s' \<and> xs_engine s' = e1 \<and> xs_view s' = Some v3"
proof -
  let ?s = "s\<lparr>xs_clock := xs_clock s + 1, xs_engine := e1\<rparr>" and ?b = "broadcast (Some worker_sink)"
  obtain s1 where s1: "?b (to_market_event ev ?s) ?s = Some s1" "xs_engine s1 = e1" "xs_view s1 = Some v1"
    using workers.broadcast_told [of ?s v _ v1 k] v(1-3) by (auto simp del: split_paired_Ex)
  have "xs_strategy_refs s1 = {}" using broadcast_aside [OF s1(1)] e(2) by (simp add: aside_def)
  then have no: "\<not> is_strategy_order mr (s1\<lparr>xs_trades := xs_trades s1 + 1\<rparr>)" by (simp add: is_strategy_order_def)
  obtain s2 where s2: "?b (make_execute l mr (ucast q)) (s1\<lparr>xs_trades := xs_trades s1 + 1\<rparr>) = Some s2" "xs_engine s2 = e1" "xs_view s2 = Some v2"
    using workers.broadcast_told [of "s1\<lparr>xs_trades := xs_trades s1 + 1\<rparr>" v1 _ v2 k] v(4,5) s1(2,3) by (auto simp del: split_paired_Ex)
  obtain s3 where s3: "?b (make_execute l (it_order_ref ev) (ucast q)) s2 = Some s3" "xs_engine s3 = e1" "xs_view s3 = Some v3"
    using workers.broadcast_told [of s2 v2 _ v3 k] v(6,7) s2(2,3) by (auto simp del: split_paired_Ex)
  have "unat (ucast q :: u64) = unat q" by (simp add: unat_ucast_up)
  then have "(ucast q :: u64) > 0" using ev(3) by (metis unat_0 unat_eq_zero word_gt_0)
  then show ?thesis
    using e(1) ev(1,2) s1(1) s2(1) s3 no by (simp add: market_step_def on_market_order_def route_response_def Let_def)
qed

lemma lifted:
  fixes s :: "'x sim_scheme"
  assumes c: "coupled (Suc n) k (xs_engine s) v" "xs_view s = Some v" "k + 6 < 2 ^ 30" "xs_strategy_refs s = {}"
    and ev: "lifts (xs_engine s) ev mk"
  defines "l \<equiv> ucast (it_locate ev) :: u64"
  shows "\<exists>s' v' b. market_step ev s = Some s' \<and> xs_view s' = Some v' \<and> consumer_book l v' = Some b \<and>
    rested (xs_engine s') l BUY = rested (xs_engine s) l BUY \<and> top_price (rested (xs_engine s') l SELL) = uint (price mk) \<and>
    mkt_get (it_order_ref ev) b = Some None \<and> best_bid b = uint (it_price ev) \<and> best_ask b = uint (price mk) \<and>
    best_bid_volume b = ucast (- it_shares ev)"
proof -
  let ?e = "xs_engine s" and ?r = "it_order_ref ev" and ?q = "it_shares ev"
  have a: "able (Suc n) ?e" "own_orders ?e" using c(1) by (simp_all add: coupled_def)
  have ev': "it_type ev = IT_ADD" "?q < remaining_qty mk" "?q \<noteq> 0" "rested ?e l SELL \<noteq> []" "hd (rested ?e l SELL) = mk"
    using ev by (simp_all add: lifts_def valid_add_def Let_def l_def)
  obtain e1 where e1: "engine_order ev ?e = Some (Some ([RSP_TRADE l (order_id mk) SIDE_SELL (price mk) ?q, RSP_FILLED ?r], e1))"
    "rested e1 l BUY = rested ?e l BUY" "map price (rested e1 l SELL) = map price (rested ?e l SELL)"
    using engine_lifts [OF a ev] unfolding l_def by blast
  have pm: "top_price (rested e1 l SELL) = uint (price mk)"
    using e1(3) ev'(4,5) by (cases "rested ?e l SELL"; cases "rested e1 l SELL") (auto simp: top_price_def)
  let ?s = "s\<lparr>xs_clock := xs_clock s + 1, xs_engine := e1\<rparr>" and ?p = "uint (it_price ev)"
  have k1: "Suc k < 2 ^ 30" using c(3) by simp
  obtain v1 G1 F1 i where v1: "on_event (to_market_event ev ?s) v = Some v1" "calm (Suc (Suc k)) v1" "view_ok v1 G1 F1"
    "G1 l True ?p = [i]" "so_order_ref (body (vslots v1) i) = ?r" "so_remaining (body (vslots v1) i) = ucast ?q"
    "\<forall>p'. G1 l True p' \<noteq> [] \<longrightarrow> p' \<le> ?p" "best_ask (vbook v1 l) = uint (price mk)"
    "shown mk \<in># at_price v1 G1 l False (uint (price mk))" "volume (at_price v1 G1 l False (uint (price mk))) \<noteq> ?q"
    using view_shows [OF c(1) k1 ev, of ?s, folded l_def] by (elim exE conjE) (rule that)
  have q: "ucast (ucast x :: u64) = x" for x :: u32 by transfer simp
  have "(ucast ?q :: u64) < ucast (remaining_qty mk)" using ev'(2) by (simp add: word_less_nat_alt unat_ucast_up)
  then obtain v2 v3 b where v3: "on_event (make_execute l (order_id mk) (ucast ?q)) v1 = Some v2" "calm (Suc (Suc k) + 4) v2"
    "on_event (make_execute l ?r (ucast ?q)) v2 = Some v3" "calm (Suc (Suc k) + 4) v3" "consumer_book l v3 = Some b" "mkt_get ?r b = Some None"
    "best_bid b = ?p" "best_ask b = uint (price mk)" "best_bid_volume b = ucast (- ?q)"
    using view_executes [OF v1(3,2) _ v1(4-7), of "order_id mk" "ucast (remaining_qty mk)" "uint (price mk)"] v1(8-10) c(3)
    by (auto simp: shown_def q)
  have "calm (Suc (Suc k) + 4) v1" using v1(2) by (rule calm_mono) simp
  from lift_told [OF e1(1) c(4) ev'(1) l_def [THEN meta_eq_to_obj_eq] ev'(3) c(2) v1(1) this v3(1-4)]
  show ?thesis using v3(5-9) e1(2) pm by auto
qed

text \<open>The feed before leaves the strategies without orders.\<close>

lemma feed_aside:
  fixes s :: "'x sim_scheme"
  assumes "foldo market_step evs s = Some s'" "xs_strategy_refs s = {}"
  shows "xs_strategy_refs s' = {}"
  using assms by (rule foldo_keeps [where P = "\<lambda>t. xs_strategy_refs t = {}"]) (auto dest: market_step_aside simp: aside_def)


text \<open>An ask of 150, and a bid above it that takes 100.\<close>

lemma demo_lift:
  "\<exists>e e1 r1 mk. engine_owned 4 None = Some e \<and> quiet_event e (demo_event 2 SELL 5002 150) \<and>
     engine_order (demo_event 2 SELL 5002 150) e = Some (Some (r1, e1)) \<and> lifts e1 (demo_event 1 BUY 5003 100) mk \<and> price mk = 5002"
  by (simp add: code_eval om_room_def hash_of_def valid_add_def cong: bind_eval_cong)


end
