(* ===== verification/Sim_Cancel.thy ===== *)
theory Sim_Cancel
  imports Exchange_Claims Sim_Ledger
begin

text \<open>
  Cancelling an order (\<open>ExecutionEngine::cancel_order\<close>) together with the exchange that answers it
  (\<open>ExchangeSimulator::cancel\<close>): the confirmation is reported while the mutex is held.
\<close>

lemma exchange_cancel_engine:
  assumes "processCancel y oid uid [] (xs_engine s) = Some ([RSP_CANCELLED oid], e)" "xe_locked s"
  shows "exchange_cancel (Some (on_order_report ex)) oid y uid s = None"
  using assms by (simp add: exchange_cancel_def cancel_response_def on_order_report_def with_lock_def Let_def)

text \<open>An order of the strategies rests: it is in its book, and the order manager holds it as live.\<close>

definition strategy_rests :: "u64 \<Rightarrow> 'x market_scheme \<Rightarrow> bool" where
  [code_eval]: "strategy_rests oid s \<longleftrightarrow>
     (case oms_find (xe_om s) oid of
        None \<Rightarrow> False
      | Some e \<Rightarrow>
          (e_status e = SUBMITTED \<or> e_status e = PARTIAL_FILL) \<and>
          (\<exists>sd \<in> {BUY, SELL}. \<exists>r \<in> set (case view (xs_engine s) (unat (co_symbol_id (e_order e))) sd of None \<Rightarrow> [] | Some q \<Rightarrow> q).
             order_id r = oid \<and> user_id r = kStrategyUserId))"

text \<open>
  C22: Cancelling an order that rests in the exchange never returns. The engine removes the order and
  answers CANCELLED; the exchange reports the cancel to the execution engine before its call returns,
  and \<open>on_order_report\<close> waits for the mutex that \<open>cancel_order\<close> still holds.
\<close>

theorem cancel_order_hangs:
  assumes inv: "engine_inv (xs_engine s)" and rs: "strategy_rests oid s"
    and lc: "\<And>ord. oms_order (xe_om s) oid = Some ord \<Longrightarrow> unat (co_symbol_id ord) < kMaxLocate"
  shows "cancel_order (Some (the_exchange sink)) oid s = None"
proof (cases "xe_locked s")
  case False
  obtain e sd r q where e: "oms_find (xe_om s) oid = Some e" "e_status e = SUBMITTED \<or> e_status e = PARTIAL_FILL"
    and r: "sd \<in> {BUY, SELL}" "view (xs_engine s) (unat (co_symbol_id (e_order e))) sd = Some q" "r \<in> set q"
      "order_id r = oid" "user_id r = kStrategyUserId"
    using rs by (fastforce simp: strategy_rests_def split: option.splits dest: sym [of "Some _"])
  have lc': "unat (co_symbol_id (e_order e)) < kMaxLocate" using lc e(1) by (simp add: oms_order_def)
  have "rests (xs_engine s) (unat (co_symbol_id (e_order e))) sd r" using r by (simp add: rests_def)
  then obtain e' where c: "processCancel (co_symbol_id (e_order e)) oid kStrategyUserId [] (xs_engine s) = Some ([RSP_CANCELLED oid], e')"
    using processCancel_ok [OF inv lc' r(1), of r "[]"] r(4,5) by auto
  have "if_cancel (the_exchange sink) oid (co_symbol_id (e_order e)) kStrategyUserId t = None"
    if "xs_engine t = xs_engine s" "xe_locked t" for t
    using exchange_cancel_engine [of _ _ _ t e'] c that by (simp add: the_exchange_def)
  then show ?thesis using e False by (auto simp: cancel_order_def with_lock_def oms_order_def request_cancel_def)
qed (simp add: cancel_order_def with_lock_def)

text \<open>A limit order of the strategies enters an empty exchange.\<close>

lemma demo_limit:
  "\<exists>s e o' s'. assemble demo_config [new_obi] = Some s \<and> engine_owned 4 None = Some (xs_engine s) \<and>
     processAdd 7 100000000000 BUY 5000 100 kStrategyUserId DAY [] (xs_engine s) = Some ([RSP_OK 100000000000], e) \<and>
     submit_signal (Some (the_exchange (Some worker_sink)))
       \<lparr>sg_side = OS_BUY, sg_locate = 7, sg_price = 5000, sg_timestamp = 0, sg_strength = kStrengthScale\<rparr> 1 LIMIT s = Some (o', s') \<and>
     o' = 100000000000 \<and> xs_engine s' = e \<and> strategy_rests o' s' \<and> map_option co_symbol_id (oms_order (xe_om s') o') = Some 7"
  by (simp add: code_eval sim.extend_def market.extend_def exec_engine.extend_def om_room_def hash_of_def
      equity_single [where k = 7] open_profit_def check_order_def drawdown_paused_def drawdown_def drawdown_flatten_def
      update_equity_def i64_def cong: bind_eval_cong)

lemma cancel_order_hangs_witness:
  "\<exists>s. strategy_rests 100000000000 s \<and> cancel_order (Some (the_exchange (Some worker_sink))) 100000000000 (s :: program) = None"
proof -
  obtain s :: program and e o' and s' :: program where r: "engine_owned 4 None = Some (xs_engine s)"
    "processAdd 7 100000000000 BUY 5000 100 kStrategyUserId DAY [] (xs_engine s) = Some ([RSP_OK 100000000000], e)"
    "o' = 100000000000" "xs_engine s' = e" "strategy_rests o' s'"
    "map_option co_symbol_id (oms_order (xe_om s') o') = Some 7"
    using demo_limit by blast
  have e0: "engine_inv (xs_engine s)" "view (xs_engine s) 7 SELL = Some []" "view (xs_engine s) 7 BUY = Some []"
    "fresh_ref (xs_engine s) 100000000000" "index_room (xs_engine s) 100000000000"
    "pool_size (shared_pool (xs_engine s)) = 0" "pool_capacity (shared_pool (xs_engine s)) = 4"
    using engine_owned_ok [of 4 None] r(1) by auto
  have "valid_add 7 100000000000 BUY 5000 100 kStrategyUserId DAY" by (simp add: valid_add_def kMaxLocate_def kStrategyUserId_def)
  from processAdd_ok [OF e0(1) this e0(4,5), of 0 "[]" "[]" "[]"] e0 r(2)
  have "engine_inv e" by (simp add: add_outcome_def opposite_def)
  moreover have "unat (co_symbol_id ord) < kMaxLocate" if "oms_order (xe_om s') 100000000000 = Some ord" for ord
    using that r(3,6) by (simp add: kMaxLocate_def)
  ultimately show ?thesis using cancel_order_hangs [of s' 100000000000 "Some worker_sink"] r(3-5) by blast
qed

end
