(* ===== verification/Recorder_Figures.thy ===== *)
theory Recorder_Figures
  imports Recorder
begin

text \<open>What the figures of the summary keep to, whatever was recorded.\<close>

lemma ddiv_percent:
  assumes "0 \<le> a" "a \<le> b" "0 < b" "b < 2 ^ 46"
  shows "0 \<le> ddiv (dmul 100 (of_int64 a)) (of_int64 b) \<and> ddiv (dmul 100 (of_int64 a)) (of_int64 b) \<le> 100"
proof -
  have "of_int64 a = of_int a" "of_int64 b = of_int b" using assms by (simp_all add: of_int64_def rnd_int)
  moreover have "dmul 100 (rat_of_int a) = of_int (100 * a)"
    using rnd_int [of "100 * a"] assms by (simp add: dmul_def)
  moreover have "0 \<le> rat_of_int (100 * a) / of_int b" "rat_of_int (100 * a) / of_int b \<le> of_int 100"
    using assms by (simp_all add: divide_le_eq mult_le_cancel_left)
  ultimately show ?thesis
    using rnd_nonneg [of "rat_of_int (100 * a) / of_int b"] rnd_le_int [of "rat_of_int (100 * a) / of_int b" 100]
    by (simp add: ddiv_def)
qed

lemma sum_trade_orders:
  "rs_orders (fold sum_trade ts a) = rs_orders a" "rs_orders_filled (fold sum_trade ts a) = rs_orders_filled a"
  "rs_orders_rejected (fold sum_trade ts a) = rs_orders_rejected a"
  "rs_orders_cancelled (fold sum_trade ts a) = rs_orders_cancelled a"
  by (induction ts arbitrary: a) (simp_all add: sum_trade_def Let_def)

lemma sum_order_counts:
  "rs_orders (fold sum_order os a) = rs_orders a \<and>
   rs_orders_filled (fold sum_order os a) + rs_orders_rejected (fold sum_order os a) + rs_orders_cancelled (fold sum_order os a)
     \<le> rs_orders_filled a + rs_orders_rejected a + rs_orders_cancelled a + length os"
proof (induction os arbitrary: a)
  case (Cons p os)
  have "rs_orders (sum_order p a) = rs_orders a \<and>
    rs_orders_filled (sum_order p a) + rs_orders_rejected (sum_order p a) + rs_orders_cancelled (sum_order p a)
      \<le> rs_orders_filled a + rs_orders_rejected a + rs_orders_cancelled a + 1"
    by (auto simp: sum_order_def Let_def)
  then show ?case using Cons.IH [of "sum_order p a"] by simp
qed simp

lemma summarize_counts:
  "rs_orders (summarize r) = length (rr_orders r) \<and>
   rs_orders_filled (summarize r) + rs_orders_rejected (summarize r) + rs_orders_cancelled (summarize r) \<le> length (rr_orders r)"
proof -
  define a where "a = fold sum_trade (rr_trades r) \<lparr>rs_trades = 0, rs_filled = 0, rs_passive = 0, rs_active = 0, rs_slip_sum = 0,
    rs_slip_cnt = 0, rs_realized = (if rr_snapshots r = [] then 0 else sn_realized_pnl (last (rr_snapshots r))),
    rs_orders = length (rr_orders r), rs_orders_filled = 0, rs_orders_rejected = 0, rs_orders_cancelled = 0,
    rs_final_equity = (if rr_snapshots r = [] then 0 else sn_equity (last (rr_snapshots r))),
    rs_max_drawdown = snd (fold step_drawdown (rr_snapshots r) (0, 0))\<rparr>"
  have "summarize r = fold sum_order (rr_orders r) a" by (simp add: summarize_def a_def)
  moreover have "rs_orders a = length (rr_orders r)" "rs_orders_filled a = 0" "rs_orders_rejected a = 0" "rs_orders_cancelled a = 0"
    by (simp_all add: a_def sum_trade_orders)
  ultimately show ?thesis using sum_order_counts [of "rr_orders r" a] by simp
qed

definition counts_ok :: "nat \<Rightarrow> performance \<Rightarrow> bool" where
  "counts_ok n p \<longleftrightarrow> 0 \<le> pf_n_pos p \<and> 0 \<le> pf_n_neg p \<and> pf_n_pos p + pf_n_neg p \<le> int n \<and>
     0 \<le> pf_sum_pos p \<and> 0 \<le> pf_sum_neg p"

lemma add_return_ok: "counts_ok n a \<Longrightarrow> counts_ok (Suc n) (add_return r a)"
  by (auto simp: counts_ok_def add_return_def Let_def dadd_def intro!: rnd_nonneg)

lemma add_returns_ok: "counts_ok n a \<Longrightarrow> counts_ok (n + length rs) (fold add_return rs a)"
proof (induction rs arbitrary: n a)
  case (Cons r rs)
  then show ?case using Cons.IH [OF add_return_ok [OF Cons.prems, of r]] by simp
qed simp

lemma performance_ok: "counts_ok (length rs) (performance_of rs)"
proof (cases "rs = []")
  case False
  define a where "a = \<lparr>pf_mean = ddiv (fold (\<lambda>r m. dadd m r) rs 0) (of_int64 (int (length rs))),
    pf_sd = dsqrt (ddiv (fold (\<lambda>r s. dadd s (dmul (dsub r (ddiv (fold (\<lambda>r m. dadd m r) rs 0) (of_int64 (int (length rs)))))
      (dsub r (ddiv (fold (\<lambda>r m. dadd m r) rs 0) (of_int64 (int (length rs))))))) rs 0) (of_int64 (int (length rs)))),
    pf_downside = 0, pf_sum_pos = 0, pf_sum_neg = 0, pf_n_pos = 0, pf_n_neg = 0\<rparr>"
  have "counts_ok 0 a" by (simp add: counts_ok_def a_def)
  from add_returns_ok [OF this, of rs] show ?thesis
    using False by (simp add: performance_of_def Let_def counts_ok_def a_def)
qed (simp add: performance_of_def counts_ok_def)

text \<open>The counted segments are those with a positive and with a negative return.\<close>

lemma add_returns_counts:
  "pf_n_pos (fold add_return rs a) = pf_n_pos a + int (length (filter (\<lambda>r. 0 < r) rs)) \<and>
   pf_n_neg (fold add_return rs a) = pf_n_neg a + int (length (filter (\<lambda>r. r < 0) rs))"
proof (induction rs arbitrary: a)
  case (Cons r rs)
  have "pf_n_pos (add_return r a) = pf_n_pos a + (if 0 < r then 1 else 0)"
    "pf_n_neg (add_return r a) = pf_n_neg a + (if r < 0 then 1 else 0)" by (auto simp: add_return_def Let_def)
  then show ?case using Cons.IH [of "add_return r a"] by simp
qed simp

lemma performance_counts:
  "pf_n_pos (performance_of rs) = int (length (filter (\<lambda>r. 0 < r) rs))"
  "pf_n_neg (performance_of rs) = int (length (filter (\<lambda>r. r < 0) rs))"
  by (auto simp: performance_of_def Let_def add_returns_counts)

lemma length_seg_returns: "length (seg_returns sns) \<le> length sns - 1"
  by (induction sns rule: seg_returns.induct) auto

lemma seg_returns_bound: "length (seg_returns sns) \<le> length sns"
  using length_seg_returns [of sns] by simp


text \<open>Three snapshots, one gain and one loss.\<close>

definition demo_snapshot :: "int \<Rightarrow> segment_snapshot" where
  [code_eval]: "demo_snapshot eq = \<lparr>sn_segment = 0, sn_equity = eq, sn_drawdown = 0, sn_realized_pnl = 0, sn_net_position = 0,
     sn_engine_trades = 0, sn_strategy_resting = 0, sn_strategy_trades = 0, sn_strategy_filled = 0, sn_strategy_pnl = 0\<rparr>"

definition demo_recorder :: recorder where
  [code_eval]: "demo_recorder = \<lparr>rr_snapshots = map demo_snapshot [1000, 1010, 990], rr_orders = [], rr_trades = []\<rparr>"


end
