(* ===== verification/Book_Text.thy ===== *)
theory Book_Text
  imports Ex_Book_Abs
begin

text \<open>
  The text of a book (\<open>getBookString\<close> and \<open>printBook\<close> in \<open>src/exchange/order_book.cpp\<close>): the first
  levels of both sides, with the quantity summed along each queue.
\<close>

text \<open>One line; the text before and after is the same for both operations but for one newline.\<close>

definition level_line :: "int \<times> u32 \<times> u32 \<Rightarrow> string" where
  [code_eval]: "level_line = (\<lambda>(n, pr, vol). show_int n @ '' : price = '' @ show_nat (unat pr) @ ''  ->  total = '' @
     show_nat (unat vol) @ [CHR 0x0A])"

definition book_text :: "string \<Rightarrow> (int \<times> u32 \<times> u32) list \<times> (int \<times> u32 \<times> u32) list \<Rightarrow> string" where
  [code_eval]: "book_text before_end = (\<lambda>(as, bs).
     [CHR 0x0A] @ ''==============BOOK_BEGIN=============='' @ [CHR 0x0A] @
     [CHR 0x0A] @ ''ASKS:'' @ [CHR 0x0A] @ concat (map level_line as) @
     [CHR 0x0A] @ ''BIDS:'' @ [CHR 0x0A] @ concat (map level_line bs) @
     before_end @ ''==============BOOK_END=============='' @ [CHR 0x0A])"

definition getBookString :: "int \<Rightarrow> order_book \<Rightarrow> string option" where
  [code_eval]: "getBookString levels b = map_option (book_text []) (book_lines levels b)"

text \<open>What \<open>printBook\<close> writes to the terminal.\<close>

definition printBook :: "int \<Rightarrow> order_book \<Rightarrow> string option" where
  [code_eval]: "printBook levels b = map_option (book_text [CHR 0x0A]) (book_lines levels b)"

text \<open>
  On a well-formed book both return, and the totals they sum up by walking are the totals the
  levels keep; the lines are numbered and cut off after \<open>levels\<close> levels.
\<close>

definition lines_of :: "int \<Rightarrow> levels \<Rightarrow> (int \<times> u32 \<times> u32) list" where
  [code_eval]: "lines_of levels m = map (\<lambda>(i, pr, l). (int i, pr, total_qty l)) (enumerate 0 (take (nat levels) m))"

lemma show_levels_eq:
  "\<forall>(q, l)\<in>set m. level_ok (storage p) sd q l (g q) \<Longrightarrow>
   show_levels p levels (int k) m = Some (map (\<lambda>(i, pr, l). (int i, pr, total_qty l)) (enumerate k (take (nat (levels - int k)) m)))"
proof (induction m arbitrary: k)
  case (Cons e m)
  obtain q l where e: "e = (q, l)" by (cases e)
  then have l: "level_ok (storage p) sd q l (g q)" using Cons.prems by auto
  then have s: "sum_level p 0 (head_idx l) = Some (total_qty l)"
    using sum_level_eq [OF level_chain [OF l], of 0] by (auto simp: level_ok_def)
  show ?case
  proof (cases "levels \<le> int k")
    case False
    then have "nat (levels - int k) = Suc (nat (levels - int (Suc k)))" by simp
    then show ?thesis using Cons.IH [of "Suc k"] Cons.prems False e s by (simp add: add.commute)
  qed (simp add: e)
qed simp

lemma book_lines_eq:
  assumes "book_ok b g F Oth"
  shows "book_lines levels b = Some (lines_of levels (asks b), lines_of levels (bids b))"
proof -
  have "\<forall>(q, l)\<in>set (lv sd b). level_ok (storage (ob_pool b)) sd q l (g sd q)" if "sd \<in> {BUY, SELL}" for sd
    using side_levels [OF book_side [OF assms that]] by auto
  then have "show_levels (ob_pool b) levels (int 0) (lv sd b) = Some (lines_of levels (lv sd b))" if "sd \<in> {BUY, SELL}" for sd
    unfolding lines_of_def using show_levels_eq [of "lv sd b" "ob_pool b" sd "g sd" levels 0] that by simp
  from this [of SELL] this [of BUY] show ?thesis by (simp add: book_lines_def lv_def)
qed

lemma getBookString_ok:
  assumes "book_ok b g F Oth"
  shows "getBookString levels b = Some (book_text [] (lines_of levels (asks b), lines_of levels (bids b)))"
    "printBook levels b = Some (book_text [CHR 0x0A] (lines_of levels (asks b), lines_of levels (bids b)))"
  using book_lines_eq [OF assms] by (simp_all add: getBookString_def printBook_def)

end
